(* ===== verification/Prelude.thy ===== *)
theory Prelude
  imports Main "HOL-Library.Word" "HOL-Library.Multiset"
begin

text \<open>
  Shared vocabulary of the development: how a C function can end (a value, a kernel panic,
  undefined behaviour, a loop that does not end), C integers at their width, and pointer-linked
  lists as chains of \<open>next\<close> links. The component theories state their own lemmas with these.
\<close>

section \<open>Machine integers\<close>

type_synonym u8 = "8 word"
type_synonym u32 = "32 word"
type_synonym u64 = "64 word"

text \<open>
  \<open>cint\<close> and \<open>cchar\<close> reduce a mathematical integer to the value a C \<open>int\<close> and a (signed, as on
  x86) C \<open>char\<close> hold after a conversion or a wrapping arithmetic operation.
\<close>

definition cint :: "int \<Rightarrow> int" where
  "cint x = signed_take_bit 31 x"

definition cchar :: "int \<Rightarrow> int" where
  "cchar x = signed_take_bit 7 x"

lemma cint_id [simp]: "- (2 ^ 31) \<le> x \<Longrightarrow> x < 2 ^ 31 \<Longrightarrow> cint x = x"
  unfolding cint_def by (rule signed_take_bit_int_eq_self) simp_all

lemma cchar_id [simp]: "- 128 \<le> x \<Longrightarrow> x < 128 \<Longrightarrow> cchar x = x"
  unfolding cchar_def by (rule signed_take_bit_int_eq_self) simp_all

lemma cint_range: "- (2 ^ 31) \<le> cint x \<and> cint x < 2 ^ 31"
  using signed_take_bit_int_greater_eq_minus_exp [of 31 x] signed_take_bit_int_less_exp [of 31 x]
  by (simp add: cint_def)

declare Let_def [simp]

text \<open>Rounding down to a multiple of a power of two, and the remainder.\<close>

lemma and_not_mask_sub: "and w (not (mask n)) = w - take_bit n w" for w :: "'a::len word"
proof -
  have "w = and w (not (mask n)) + and w (mask n)"
    by (subst disjunctive_add) (auto simp: bit_simps intro: bit_eqI)
  then show ?thesis by (metis add_diff_cancel_right' take_bit_eq_mask)
qed

lemma unat_take_bit: "unat (take_bit n w) = unat w mod 2 ^ n" for w :: "'a::len word"
  unfolding unsigned_take_bit_eq by (rule take_bit_eq_mod)

lemma unat_and_not_mask: "unat (and w (not (mask n))) = unat w div 2 ^ n * 2 ^ n" for w :: "'a::len word"
proof -
  have "unat (w - take_bit n w) = unat w - unat (take_bit n w)"
    by (rule unat_sub) (simp add: word_le_nat_alt unat_take_bit)
  then show ?thesis by (simp add: and_not_mask_sub unat_take_bit minus_mod_eq_div_mult)
qed

lemma unat_and_mask: "unat (and w (mask n)) = unat w mod 2 ^ n" for w :: "'a::len word"
  by (simp only: take_bit_eq_mask [symmetric] unat_take_bit)

section \<open>Results\<close>

text \<open>
  \<open>Panic m\<close>: the kernel called \<open>panic(m)\<close> (or a program exited with the message).
  \<open>Undefined m\<close>: C leaves the behaviour undefined (a null dereference, an index out of range).
  \<open>Hang\<close>: control never comes back (a loop with no exit, a spin on a lock nobody releases).
\<close>

datatype fault = Panic string | Undefined string | Hang

type_synonym 'a res = "fault + 'a"

definition rbind :: "'a res \<Rightarrow> ('a \<Rightarrow> 'b res) \<Rightarrow> 'b res" where
  "rbind m f = (case m of Inl e \<Rightarrow> Inl e | Inr x \<Rightarrow> f x)"

lemma rbind_Inl [simp]: "rbind (Inl e) f = Inl e"
  by (simp add: rbind_def)

lemma rbind_Inr [simp]: "rbind (Inr x) f = f x"
  by (simp add: rbind_def)

lemma rbind_eq_Inr: "rbind m f = Inr y \<longleftrightarrow> (\<exists>x. m = Inr x \<and> f x = Inr y)"
  by (cases m) simp_all

lemma rbind_eq_Inl: "rbind m f = Inl e \<longleftrightarrow> m = Inl e \<or> (\<exists>x. m = Inr x \<and> f x = Inl e)"
  by (cases m) auto

lemma rbind_assoc: "rbind (rbind m f) g = rbind m (\<lambda>x. rbind (f x) g)"
  by (cases m) simp_all

lemma rbind_cong [fundef_cong]:
  "m = m' \<Longrightarrow> (\<And>x. m' = Inr x \<Longrightarrow> f x = f' x) \<Longrightarrow> rbind m f = rbind m' f'"
  by (cases m') auto

text \<open>A loop over a list of indices whose body may fail.\<close>

fun rfold :: "('i \<Rightarrow> 's \<Rightarrow> 's res) \<Rightarrow> 'i list \<Rightarrow> 's \<Rightarrow> 's res" where
  "rfold f [] s = Inr s"
| "rfold f (i # is) s = rbind (f i s) (rfold f is)"

lemma rfold_append: "rfold f (xs @ ys) s = rbind (rfold f xs s) (rfold f ys)"
proof (induction xs arbitrary: s)
  case (Cons x xs)
  have "rfold f (xs @ ys) = (\<lambda>t. rbind (rfold f xs t) (rfold f ys))"
    using Cons.IH by (rule ext)
  then show ?case by (simp add: rbind_assoc)
qed simp

lemma rfold_invariant:
  assumes "rfold f xs s = Inr t" and "P s"
    and "\<And>i s t. i \<in> set xs \<Longrightarrow> P s \<Longrightarrow> f i s = Inr t \<Longrightarrow> P t"
  shows "P t"
  using assms
proof (induction xs arbitrary: s)
  case (Cons x xs)
  then obtain u where "f x s = Inr u" "rfold f xs u = Inr t"
    by (auto simp: rbind_eq_Inr)
  with Cons show ?case by (metis list.set_intros)
qed simp

lemma rfold_total:
  assumes "P s" and "\<And>i s. i \<in> set xs \<Longrightarrow> P s \<Longrightarrow> \<exists>t. f i s = Inr t \<and> P t"
  shows "\<exists>t. rfold f xs s = Inr t \<and> P t"
  using assms
proof (induction xs arbitrary: s)
  case (Cons x xs)
  from Cons.prems obtain u where "f x s = Inr u" "P u" by fastforce
  with Cons show ?case by fastforce
qed simp

named_theorems res_simps \<open>unfolding of results and their composition\<close>

declare rbind_eq_Inr [res_simps] rbind_eq_Inl [res_simps]

section \<open>Pointer chains\<close>

text \<open>
  \<open>seg nx p xs q\<close>: following the links \<open>nx\<close> from the pointer \<open>p\<close> visits exactly the cells \<open>xs\<close>
  and arrives at the pointer \<open>q\<close>. A null-terminated list is a segment that ends in \<open>None\<close>.
\<close>

fun seg :: "('a \<Rightarrow> 'a option) \<Rightarrow> 'a option \<Rightarrow> 'a list \<Rightarrow> 'a option \<Rightarrow> bool" where
  "seg nx p [] q \<longleftrightarrow> p = q"
| "seg nx p (x # xs) q \<longleftrightarrow> p = Some x \<and> seg nx (nx x) xs q"

abbreviation chain :: "('a \<Rightarrow> 'a option) \<Rightarrow> 'a option \<Rightarrow> 'a list \<Rightarrow> bool" where
  "chain nx p xs \<equiv> seg nx p xs None"

lemma seg_append: "seg nx p (xs @ ys) q \<longleftrightarrow> (\<exists>r. seg nx p xs r \<and> seg nx r ys q)"
  by (induction xs arbitrary: p) auto

lemma seg_cong:
  "(\<And>x. x \<in> set xs \<Longrightarrow> nx x = nx' x) \<Longrightarrow> seg nx p xs q \<longleftrightarrow> seg nx' p xs q"
  by (induction xs arbitrary: p) auto

lemma seg_upd_other [simp]: "a \<notin> set xs \<Longrightarrow> seg (nx(a := v)) p xs q \<longleftrightarrow> seg nx p xs q"
  by (rule seg_cong) auto

lemma chain_None [simp]: "chain nx None xs \<longleftrightarrow> xs = []"
  by (cases xs) auto

lemma chain_Some: "chain nx (Some a) xs \<longleftrightarrow> (\<exists>ys. xs = a # ys \<and> chain nx (nx a) ys)"
  by (cases xs) auto

lemma chain_unique: "chain nx p xs \<Longrightarrow> chain nx p ys \<Longrightarrow> xs = ys"
proof (induction xs arbitrary: p ys)
  case Nil
  then show ?case by simp
next
  case (Cons x xs)
  then show ?case by (auto simp: chain_Some)
qed

lemma chain_distinct: "chain nx p xs \<Longrightarrow> distinct xs"
proof (induction xs arbitrary: p)
  case Nil
  then show ?case by simp
next
  case (Cons x xs)
  have "x \<notin> set xs"
  proof
    assume "x \<in> set xs"
    then obtain as bs where "xs = as @ x # bs" by (meson split_list)
    with Cons.prems have "chain nx (nx x) (as @ x # bs)" and "chain nx (nx x) bs"
      by (auto simp: seg_append)
    then have "as @ x # bs = bs" by (rule chain_unique)
    then show False by (metis length_append length_Cons add_Suc_right not_add_less2 lessI)
  qed
  with Cons show ?case by auto
qed

lemma seg_last: "xs \<noteq> [] \<Longrightarrow> seg nx p xs q \<Longrightarrow> nx (last xs) = q"
  by (induction xs arbitrary: p) auto

text \<open>Appending a cell: link the old last cell to it.\<close>

lemma chain_snoc:
  assumes "chain nx p xs" and "n \<notin> set xs" and "xs \<noteq> []" and "nx n = None"
  shows "chain (nx(last xs := Some n)) p (xs @ [n])"
proof -
  obtain ys y where xs: "xs = ys @ [y]" using assms(3) by (metis append_butlast_last_id)
  with assms(1) have "y \<notin> set ys" using chain_distinct by fastforce
  with assms xs show ?thesis by (auto simp: seg_append)
qed

text \<open>Unlinking the cell after \<open>y\<close>.\<close>

lemma chain_unlink:
  assumes "chain nx p (xs @ y # z # zs)"
  shows "chain (nx(y := nx z)) p (xs @ y # zs)"
proof -
  have "distinct (xs @ y # z # zs)" using assms by (rule chain_distinct)
  with assms show ?thesis by (auto simp: seg_append)
qed

text \<open>Inserting the fresh cell \<open>n\<close> after \<open>y\<close>.\<close>

lemma chain_link:
  assumes "chain nx p (xs @ y # zs)" and "n \<notin> set (xs @ y # zs)"
  shows "chain (nx(n := nx y, y := Some n)) p (xs @ y # n # zs)"
proof -
  have "distinct (xs @ y # zs)" using assms(1) by (rule chain_distinct)
  with assms show ?thesis by (auto simp: seg_append)
qed

section \<open>Lists\<close>

lemma remove1_append_mid [simp]: "x \<notin> set xs \<Longrightarrow> remove1 x (xs @ x # ys) = xs @ ys"
  by (simp add: remove1_append)

lemma upt_split: "i < n \<Longrightarrow> [0..<n] = [0..<i] @ i # [Suc i..<n]"
  by (metis upt_add_eq_append upt_conv_Cons le_add_same_cancel1 less_imp_add_positive
      less_imp_le_nat zero_le append.left_neutral)

lemma find_SomeD: "find P xs = Some x \<Longrightarrow> x \<in> set xs \<and> P x"
  by (auto simp: find_Some_iff)

end
