(* ===== verification/Spinlock.thy ===== *)
theory Spinlock
  imports Prelude
begin

text \<open>
  Spin locks and the nesting of interrupt disabling (\<open>spinlock.c\<close>). The state is the executing
  CPU (the \<open>struct cpu\<close> that \<open>mycpu()\<close> returns, with its interrupt flag and its call stack) and
  one lock. Acquiring a lock that another CPU holds spins: \<open>Hang\<close> as long as nothing else runs.
\<close>

section \<open>The CPU and its interrupt flag\<close>

text \<open>
  \<open>c_if\<close> is the bit FL\_IF of the flags register. \<open>c_stack\<close> reads a word of the kernel stack and
  \<open>c_argp\<close> is the address of the first argument of the running call: \<open>getcallerpcs\<close> walks the
  saved frame pointers from there.
\<close>

record cpu_st =
  c_idx :: nat
  c_ncli :: int
  c_intena :: bool
  c_if :: bool
  c_proc :: "nat option"
  c_stack :: "u32 \<Rightarrow> u32"
  c_argp :: u32

record spinlock =
  sl_locked :: u32
  sl_name :: string
  sl_cpu :: "nat option"
  sl_pcs :: "u32 list"

definition KERNBASE :: u32 where
  "KERNBASE = 0x80000000"

definition initlock :: "string \<Rightarrow> spinlock \<Rightarrow> spinlock" where
  "initlock nm lk = lk\<lparr>sl_name := nm, sl_locked := 0, sl_cpu := None\<rparr>"

definition pushcli :: "cpu_st \<Rightarrow> cpu_st" where
  "pushcli c =
     (let eflags = c_if c;
          c1 = c\<lparr>c_if := False\<rparr>;
          c2 = (if c_ncli c1 = 0 then c1\<lparr>c_intena := eflags\<rparr> else c1)
      in c2\<lparr>c_ncli := cint (c_ncli c2 + 1)\<rparr>)"

definition popcli :: "cpu_st \<Rightarrow> cpu_st res" where
  "popcli c =
     (if c_if c then Inl (Panic ''popcli - interruptible'')
      else let c1 = c\<lparr>c_ncli := cint (c_ncli c - 1)\<rparr>
           in if c_ncli c1 < 0 then Inl (Panic ''popcli'')
              else if c_ncli c1 = 0 \<and> c_intena c1 then Inr (c1\<lparr>c_if := True\<rparr>)
              else Inr c1)"

definition holding :: "spinlock \<Rightarrow> cpu_st \<Rightarrow> (bool \<times> cpu_st) res" where
  "holding lk c =
     (let c1 = pushcli c;
          r = (sl_locked lk \<noteq> 0 \<and> sl_cpu lk = Some (c_idx c1))
      in rbind (popcli c1) (\<lambda>c2. Inr (r, c2)))"

text \<open>The first loop of \<open>getcallerpcs\<close>: at most \<open>n\<close> more frames from the frame pointer \<open>ebp\<close>.\<close>

fun callerpcs_loop :: "(u32 \<Rightarrow> u32) \<Rightarrow> nat \<Rightarrow> u32 \<Rightarrow> u32 list" where
  "callerpcs_loop st 0 ebp = []"
| "callerpcs_loop st (Suc n) ebp =
     (if ebp = 0 \<or> ebp < KERNBASE \<or> ebp = 0xffffffff then []
      else st (ebp + 4) # callerpcs_loop st n (st ebp))"

definition getcallerpcs :: "(u32 \<Rightarrow> u32) \<Rightarrow> u32 \<Rightarrow> u32 list" where
  "getcallerpcs st v =
     (let pcs = callerpcs_loop st 10 (v - 8) in pcs @ replicate (10 - length pcs) 0)"

definition acquire :: "spinlock \<Rightarrow> cpu_st \<Rightarrow> (spinlock \<times> cpu_st) res" where
  "acquire lk c =
     (let c1 = pushcli c in
      rbind (holding lk c1) (\<lambda>(h, c2).
        if h then Inl (Panic ''acquire'')
        else if sl_locked lk \<noteq> 0 then Inl Hang
        else Inr (lk\<lparr>sl_locked := 1, sl_cpu := Some (c_idx c2),
                     sl_pcs := getcallerpcs (c_stack c2) (c_argp c2)\<rparr>, c2)))"

definition release :: "spinlock \<Rightarrow> cpu_st \<Rightarrow> (spinlock \<times> cpu_st) res" where
  "release lk c =
     rbind (holding lk c) (\<lambda>(h, c1).
       if \<not> h then Inl (Panic ''release'')
       else let lk1 = lk\<lparr>sl_pcs := (sl_pcs lk)[0 := 0], sl_cpu := None, sl_locked := 0\<rparr>
            in rbind (popcli c1) (\<lambda>c2. Inr (lk1, c2)))"

section \<open>Well-formed CPUs\<close>

text \<open>
  The nesting depth stays far from the ends of \<open>int\<close>, and interrupts are off whenever the depth
  is positive: what \<open>pushcli\<close> and \<open>popcli\<close> maintain between them.
\<close>

definition cpu_ok :: "cpu_st \<Rightarrow> bool" where
  "cpu_ok c \<longleftrightarrow> 0 \<le> c_ncli c \<and> c_ncli c < 1000 \<and> (0 < c_ncli c \<longrightarrow> \<not> c_if c)"

definition holds :: "spinlock \<Rightarrow> cpu_st \<Rightarrow> bool" where
  "holds lk c \<longleftrightarrow> sl_locked lk \<noteq> 0 \<and> sl_cpu lk = Some (c_idx c)"

lemma pushcli_fields [simp]:
  "c_idx (pushcli c) = c_idx c" "c_if (pushcli c) = False" "c_proc (pushcli c) = c_proc c"
  "c_stack (pushcli c) = c_stack c" "c_argp (pushcli c) = c_argp c"
  by (simp_all add: pushcli_def Let_def)

lemma pushcli_ncli [simp]: "cpu_ok c \<Longrightarrow> c_ncli (pushcli c) = c_ncli c + 1"
  by (simp add: pushcli_def Let_def cpu_ok_def)

text \<open>A matched pair leaves the CPU as it was, at depth 0 up to the scratch field \<open>intena\<close>.\<close>

lemma popcli_pushcli:
  assumes "cpu_ok c"
  shows "\<exists>b. popcli (pushcli c) = Inr (c\<lparr>c_intena := b\<rparr>) \<and>
             (b \<noteq> c_intena c \<longrightarrow> c_ncli c = 0)"
proof (cases "c_ncli c = 0")
  case True
  then have "popcli (pushcli c) = Inr (c\<lparr>c_intena := c_if c\<rparr>)"
    by (cases c) (simp add: popcli_def pushcli_def Let_def)
  with True show ?thesis by auto
next
  case False
  with assms have "popcli (pushcli c) = Inr (c\<lparr>c_intena := c_intena c\<rparr>)"
    by (cases c) (simp add: popcli_def pushcli_def Let_def cpu_ok_def)
  then show ?thesis by blast
qed

lemma holding_eq:
  assumes "cpu_ok c"
  shows "\<exists>b. holding lk c = Inr (holds lk c, c\<lparr>c_intena := b\<rparr>) \<and>
             (b \<noteq> c_intena c \<longrightarrow> c_ncli c = 0)"
  using popcli_pushcli [OF assms] by (auto simp: holding_def Let_def holds_def)

lemma holding_nested:
  assumes "cpu_ok c" and "0 < c_ncli c"
  shows "holding lk c = Inr (holds lk c, c)"
  using holding_eq [OF assms(1), of lk] assms(2) by (cases c) auto

lemma cpu_ok_pushcli: "cpu_ok c \<Longrightarrow> c_ncli c < 999 \<Longrightarrow> cpu_ok (pushcli c)"
  by (simp add: cpu_ok_def pushcli_def Let_def)

lemma acquire_free:
  assumes "cpu_ok c" and "c_ncli c < 999" and "sl_locked lk = 0"
  shows "acquire lk c =
    Inr (lk\<lparr>sl_locked := 1, sl_cpu := Some (c_idx c), sl_pcs := getcallerpcs (c_stack c) (c_argp c)\<rparr>,
         pushcli c)"
proof -
  have "0 < c_ncli (pushcli c)" using assms(1) by (simp add: cpu_ok_def)
  then have "holding lk (pushcli c) = Inr (holds lk (pushcli c), pushcli c)"
    using assms cpu_ok_pushcli holding_nested by blast
  then show ?thesis using assms(3) by (simp add: acquire_def holds_def)
qed

lemma release_held:
  assumes "cpu_ok c" and "0 < c_ncli c" and "holds lk c"
  shows "release lk c = rbind (popcli c) (\<lambda>c2.
     Inr (lk\<lparr>sl_pcs := (sl_pcs lk)[0 := 0], sl_cpu := None, sl_locked := 0\<rparr>, c2))"
  using holding_nested [OF assms(1,2), of lk] assms(3) by (simp add: release_def)

lemma acquire_self_panics:
  assumes "cpu_ok c" and "c_ncli c < 999" and "holds lk c"
  shows "acquire lk c = Inl (Panic ''acquire'')"
proof -
  have "0 < c_ncli (pushcli c)" using assms(1) by (simp add: cpu_ok_def)
  then have "holding lk (pushcli c) = Inr (holds lk (pushcli c), pushcli c)"
    using assms cpu_ok_pushcli holding_nested by blast
  then show ?thesis using assms(3) by (simp add: acquire_def holds_def)
qed

text \<open>A critical section: what the CPU and the lock look like before, inside and after.\<close>

lemma acquire_holds:
  assumes "cpu_ok c" "c_ncli c < 999" "acquire lk c = Inr (lk', c')"
  shows "holds lk' c'" "cpu_ok c'" "c_ncli c' = c_ncli c + 1" "\<not> c_if c'"
    "c_proc c' = c_proc c" "c_idx c' = c_idx c"
proof -
  have free: "sl_locked lk = 0"
  proof (rule ccontr)
    assume "sl_locked lk \<noteq> 0"
    with assms(3) show False
      by (auto simp: acquire_def Let_def rbind_eq_Inr split: prod.splits if_splits)
  qed
  with acquire_free [OF assms(1,2) free] assms
  have lk': "lk' = lk\<lparr>sl_locked := 1, sl_cpu := Some (c_idx c),
      sl_pcs := getcallerpcs (c_stack c) (c_argp c)\<rparr>" and c': "c' = pushcli c"
    by auto
  show "holds lk' c'" "cpu_ok c'" "c_ncli c' = c_ncli c + 1" "\<not> c_if c'"
    "c_proc c' = c_proc c" "c_idx c' = c_idx c"
    using assms(1,2) lk' c' cpu_ok_pushcli by (auto simp: holds_def)
qed

lemma callerpcs_loop_length: "length (callerpcs_loop st n ebp) \<le> n"
  by (induction n arbitrary: ebp) auto

lemma getcallerpcs_length: "length (getcallerpcs st v) = 10"
  using callerpcs_loop_length [of st 10 "v - 8"] by (simp add: getcallerpcs_def Let_def)

lemma release_acquire:
  assumes "cpu_ok c" and "c_ncli c < 999" and "sl_locked lk = 0"
  shows "\<exists>lk1 c1 lk2 b. acquire lk c = Inr (lk1, c1) \<and> release lk1 c1 = Inr (lk2, c\<lparr>c_intena := b\<rparr>) \<and>
           sl_locked lk2 = 0 \<and> sl_cpu lk2 = None \<and> sl_name lk2 = sl_name lk \<and>
           \<not> c_if c1 \<and> (b \<noteq> c_intena c \<longrightarrow> c_ncli c = 0)"
proof -
  note acq = acquire_free [OF assms]
  have held: "holds (lk\<lparr>sl_locked := 1, sl_cpu := Some (c_idx c),
      sl_pcs := getcallerpcs (c_stack c) (c_argp c)\<rparr>) (pushcli c)"
    by (simp add: holds_def)
  have ok: "cpu_ok (pushcli c)" "0 < c_ncli (pushcli c)"
    using assms(1,2) cpu_ok_pushcli by (auto simp: cpu_ok_def)
  obtain b where "popcli (pushcli c) = Inr (c\<lparr>c_intena := b\<rparr>)"
    and "b \<noteq> c_intena c \<longrightarrow> c_ncli c = 0"
    using popcli_pushcli [OF assms(1)] by blast
  with acq release_held [OF ok held] show ?thesis by (simp; blast)
qed

end
