(* ===== verification/Mlq.thy ===== *)
theory Mlq
  imports Spinlock
begin

text \<open>
  The multi-level queue of the modified scheduler (\<open>04_xv6_scheduling/src/proc.c\<close>): the process
  table, the statically allocated queue nodes, the four queues threaded through them by
  \<open>next\<close> pointers with a head and a tail pointer each, and the two operations on a queue.
  Pointers into the static arrays are indices, and a null pointer is \<open>None\<close>.
\<close>

section \<open>The process table\<close>

abbreviation NPROC :: nat where "NPROC \<equiv> 64"
abbreviation NLAYER :: nat where "NLAYER \<equiv> 4"
abbreviation NOFILE :: nat where "NOFILE \<equiv> 16"

datatype procstate = UNUSED | EMBRYO | SLEEPING | RUNNABLE | RUNNING | ZOMBIE

record queue_node =
  qn_next :: "nat option"
  qn_prev :: "nat option"
  qn_proc :: "nat option"
  qn_ticks :: u32
  qn_inuse :: bool

text \<open>
  A process. Addresses (\<open>kstack\<close>, \<open>pgdir\<close>) are words with 0 for null. The trap frame and the
  context live on the kernel stack: \<open>p_tf_addr\<close> and \<open>p_ctx_addr\<close> are the pointers \<open>p->tf\<close> and
  \<open>p->context\<close>, \<open>p_tf\<close> and \<open>p_context\<close> what they point to (\<open>tf_rest\<close> holds the registers no code
  here touches), and \<open>p_stack_ret\<close> the word between the two, the return address of the first
  switch. A sleep channel is a pointer: to a process table entry or to another kernel object.
\<close>

record trapframe =
  tf_eax :: u32
  tf_eip :: u32
  tf_esp :: u32
  tf_eflags :: u32
  tf_cs :: u32
  tf_ds :: u32
  tf_es :: u32
  tf_ss :: u32
  tf_rest :: "u32 list"

record ctx =
  cx_edi :: u32
  cx_esi :: u32
  cx_ebx :: u32
  cx_ebp :: u32
  cx_eip :: u32

datatype chan = CProc nat | CObj u32

record proc =
  p_sz :: u32
  p_pgdir :: u32
  p_kstack :: u32
  p_state :: procstate
  p_pid :: int
  p_parent :: "nat option"
  p_tf :: trapframe
  p_tf_addr :: u32
  p_context :: ctx
  p_ctx_addr :: u32
  p_stack_ret :: u32
  p_chan :: "chan option"
  p_killed :: bool
  p_ofile :: "nat \<Rightarrow> nat option"
  p_cwd :: "nat option"
  p_name :: string
  p_qnode :: "nat option"
  p_put_in :: int
  p_priority :: int
  p_ticks :: "nat \<Rightarrow> int"
  p_qtail :: "nat \<Rightarrow> int"

text \<open>
  The kernel state of \<open>proc.c\<close>: \<open>ptable\<close>, \<open>initproc\<close>, \<open>nextpid\<close>, the executing CPU, and in
  \<open>k_ext\<close> the state of the components \<open>proc.c\<close> calls (memory, files, inodes).
\<close>

record 'e kst =
  k_lock :: spinlock
  k_proc :: "nat \<Rightarrow> proc"
  k_node :: "nat \<Rightarrow> queue_node"
  k_head :: "nat \<Rightarrow> nat option"
  k_tail :: "nat \<Rightarrow> nat option"
  k_initproc :: "nat option"
  k_nextpid :: int
  k_cpu :: cpu_st
  k_ext :: 'e

definition upd_proc :: "nat \<Rightarrow> (proc \<Rightarrow> proc) \<Rightarrow> 'e kst \<Rightarrow> 'e kst" where
  "upd_proc i f s = s\<lparr>k_proc := (k_proc s)(i := f (k_proc s i))\<rparr>"

definition upd_node :: "nat \<Rightarrow> (queue_node \<Rightarrow> queue_node) \<Rightarrow> 'e kst \<Rightarrow> 'e kst" where
  "upd_node i f s = s\<lparr>k_node := (k_node s)(i := f (k_node s i))\<rparr>"

text \<open>The link map of the queue nodes.\<close>

abbreviation nexts :: "'e kst \<Rightarrow> nat \<Rightarrow> nat option" where
  "nexts s \<equiv> (\<lambda>i. qn_next (k_node s i))"

text \<open>An index into \<open>q_head[4]\<close>, \<open>q_tail[4]\<close> or \<open>qtail[4]\<close>.\<close>

definition layer_ok :: "int \<Rightarrow> bool" where
  "layer_ok pri \<longleftrightarrow> 0 \<le> pri \<and> pri < int NLAYER"

lemma layer_ok_nat [simp]: "layer_ok pri \<Longrightarrow> nat pri < NLAYER"
  by (simp add: layer_ok_def nat_less_iff)

lemma layer_ok_int: "layer_ok pri \<Longrightarrow> int (nat pri) = pri"
  by (simp add: layer_ok_def)

section \<open>Queue operations\<close>

definition put_tail_q :: "nat option \<Rightarrow> int \<Rightarrow> 'e kst \<Rightarrow> 'e kst res" where
  "put_tail_q node priority s =
     (case node of None \<Rightarrow> Inl (Undefined ''put_tail_q: null node'')
      | Some n \<Rightarrow>
        let s1 = upd_node n (\<lambda>q. q\<lparr>qn_next := None, qn_ticks := 0\<rparr>) s in
        (case qn_proc (k_node s1 n) of None \<Rightarrow> Inl (Undefined ''put_tail_q: null proc'')
         | Some p \<Rightarrow>
           if \<not> layer_ok priority then Inl (Undefined ''put_tail_q: layer out of range'')
           else
             let l = nat priority;
                 s2 = upd_proc p (\<lambda>pr. pr\<lparr>p_qtail := (p_qtail pr)(l := cint (p_qtail pr l + 1))\<rparr>) s1
             in (case k_tail s2 l of
                   None \<Rightarrow> Inr (s2\<lparr>k_head := (k_head s2)(l := Some n), k_tail := (k_tail s2)(l := Some n)\<rparr>)
                 | Some t \<Rightarrow>
                     let s3 = upd_node t (\<lambda>q. q\<lparr>qn_next := Some n\<rparr>) s2
                     in Inr (s3\<lparr>k_tail := (k_tail s3)(l := Some n)\<rparr>))))"

text \<open>
  The search loop of \<open>rm_from_q\<close>: from \<open>prev\<close>, the first cell whose successor is null or \<open>node\<close>.
  \<open>None\<close> is a search that never ends, which a cycle of links would cause.
\<close>

partial_function (option) rm_scan :: "(nat \<Rightarrow> nat option) \<Rightarrow> nat option \<Rightarrow> nat \<Rightarrow> nat option" where
  "rm_scan nx node prev =
     (case nx prev of None \<Rightarrow> Some prev
      | Some q \<Rightarrow> if Some q = node then Some prev else rm_scan nx node q)"

definition rm_from_q :: "nat option \<Rightarrow> int \<Rightarrow> 'e kst \<Rightarrow> 'e kst res" where
  "rm_from_q node priority s =
     (if \<not> layer_ok priority then Inl (Undefined ''rm_from_q: layer out of range'')
      else let l = nat priority in
        (case k_head s l of None \<Rightarrow> Inr s
         | Some h \<Rightarrow>
           if Some h = node
           then let s1 = (if k_tail s l = k_head s l then s\<lparr>k_tail := (k_tail s)(l := None)\<rparr> else s)
                in Inr (s1\<lparr>k_head := (k_head s1)(l := nexts s1 h)\<rparr>)
           else (case rm_scan (nexts s) node h of None \<Rightarrow> Inl Hang
             | Some prev \<Rightarrow>
                 (case nexts s prev of None \<Rightarrow> Inr s
                  | Some q \<Rightarrow> Inr (upd_node prev (\<lambda>nd. nd\<lparr>qn_next := nexts s q\<rparr>) s)))))"

section \<open>Queues as lists\<close>

text \<open>
  \<open>queue_at s l xs\<close>: layer \<open>l\<close> is the list \<open>xs\<close> of queue nodes, with \<open>q_head\<close> and \<open>q_tail\<close> at its
  two ends. \<open>mlq s qs\<close>: all four layers at once, with no node in two of them.
\<close>

definition queue_at :: "'e kst \<Rightarrow> nat \<Rightarrow> nat list \<Rightarrow> bool" where
  "queue_at s l xs \<longleftrightarrow> chain (nexts s) (k_head s l) xs \<and>
     k_tail s l = (if xs = [] then None else Some (last xs))"

definition mlq :: "'e kst \<Rightarrow> (nat \<Rightarrow> nat list) \<Rightarrow> bool" where
  "mlq s qs \<longleftrightarrow> (\<forall>l < NLAYER. queue_at s l (qs l)) \<and>
     (\<forall>l < NLAYER. \<forall>m < NLAYER. l \<noteq> m \<longrightarrow> set (qs l) \<inter> set (qs m) = {})"

lemma upd_proc_fields [simp]:
  "k_lock (upd_proc i f s) = k_lock s" "k_node (upd_proc i f s) = k_node s"
  "k_head (upd_proc i f s) = k_head s" "k_tail (upd_proc i f s) = k_tail s"
  "k_initproc (upd_proc i f s) = k_initproc s" "k_nextpid (upd_proc i f s) = k_nextpid s"
  "k_cpu (upd_proc i f s) = k_cpu s" "k_ext (upd_proc i f s) = k_ext s"
  "k_proc (upd_proc i f s) = (k_proc s)(i := f (k_proc s i))"
  by (simp_all add: upd_proc_def)

lemma upd_node_fields [simp]:
  "k_lock (upd_node i g s) = k_lock s" "k_proc (upd_node i g s) = k_proc s"
  "k_head (upd_node i g s) = k_head s" "k_tail (upd_node i g s) = k_tail s"
  "k_initproc (upd_node i g s) = k_initproc s" "k_nextpid (upd_node i g s) = k_nextpid s"
  "k_cpu (upd_node i g s) = k_cpu s" "k_ext (upd_node i g s) = k_ext s"
  "k_node (upd_node i g s) = (k_node s)(i := g (k_node s i))"
  by (simp_all add: upd_node_def)

lemma queue_at_distinct: "queue_at s l xs \<Longrightarrow> distinct xs"
  by (auto simp: queue_at_def dest: chain_distinct)

lemma queue_at_head: "queue_at s l xs \<Longrightarrow> k_head s l = (case xs of [] \<Rightarrow> None | x # _ \<Rightarrow> Some x)"
  by (cases xs) (auto simp: queue_at_def)

lemma queue_at_cong:
  assumes "k_head s l = k_head t l" "k_tail s l = k_tail t l"
    and "\<And>x. x \<in> set xs \<Longrightarrow> nexts s x = nexts t x"
  shows "queue_at s l xs \<longleftrightarrow> queue_at t l xs"
  using assms seg_cong [of xs "nexts s" "nexts t"] by (auto simp: queue_at_def)

text \<open>Enqueueing: a node in no queue goes to the end of its layer, and the others keep theirs.\<close>

lemma put_tail_q_queue:
  assumes q: "queue_at s (nat pri) xs" and n: "n \<notin> set xs" and pri: "layer_ok pri"
    and p: "qn_proc (k_node s n) = Some p" and put: "put_tail_q (Some n) pri s = Inr t"
  shows "queue_at t (nat pri) (xs @ [n])"
proof (cases "xs = []")
  case True
  with q put p pri show ?thesis
    by (auto simp: put_tail_q_def queue_at_def)
next
  case False
  have "chain ((nexts s)(n := None)) (k_head s (nat pri)) xs"
    using q n by (simp add: queue_at_def)
  then have "chain ((nexts s)(n := None, last xs := Some n)) (k_head s (nat pri)) (xs @ [n])"
    by (rule chain_snoc) (use n False in auto)
  moreover have "nexts t = (nexts s)(n := None, last xs := Some n)"
    using q put p pri n False last_in_set [OF False]
    by (auto simp: put_tail_q_def queue_at_def fun_eq_iff)
  moreover have "k_head t (nat pri) = k_head s (nat pri)" "k_tail t (nat pri) = Some n"
    using q put p pri False by (auto simp: put_tail_q_def queue_at_def)
  ultimately show ?thesis by (simp add: queue_at_def)
qed

lemma put_tail_q_other:
  assumes "queue_at s m ys" "n \<notin> set ys" "m \<noteq> nat pri" "layer_ok pri"
    and "\<And>t. k_tail s (nat pri) = Some t \<Longrightarrow> t \<notin> set ys"
    and "qn_proc (k_node s n) = Some p" and put: "put_tail_q (Some n) pri s = Inr t"
  shows "queue_at t m ys"
proof -
  have "queue_at t m ys \<longleftrightarrow> queue_at s m ys"
    by (rule queue_at_cong) (use assms in \<open>auto simp: put_tail_q_def split: option.splits\<close>)
  with assms(1) show ?thesis by simp
qed

lemma put_tail_q_defined:
  assumes "layer_ok pri" "qn_proc (k_node s n) = Some p"
  shows "\<exists>t. put_tail_q (Some n) pri s = Inr t"
  using assms by (auto simp: put_tail_q_def Let_def split: option.splits)

text \<open>What enqueueing leaves alone, and the counter it bumps.\<close>

lemma put_tail_q_frame:
  assumes "put_tail_q (Some n) pri s = Inr t" and "qn_proc (k_node s n) = Some p"
  shows "k_lock t = k_lock s" "k_initproc t = k_initproc s" "k_nextpid t = k_nextpid s"
    "k_cpu t = k_cpu s" "k_ext t = k_ext s"
    "\<And>i. qn_proc (k_node t i) = qn_proc (k_node s i)"
    "\<And>i. qn_inuse (k_node t i) = qn_inuse (k_node s i)"
    "\<And>i. qn_ticks (k_node t i) = (if i = n then 0 else qn_ticks (k_node s i))"
    "k_proc t = (k_proc s)(p := (k_proc s p)\<lparr>p_qtail :=
        (p_qtail (k_proc s p))(nat pri := cint (p_qtail (k_proc s p) (nat pri) + 1))\<rparr>)"
  using assms by (auto simp: put_tail_q_def Let_def split: option.splits if_splits)

theorem put_tail_q_mlq:
  assumes m: "mlq s qs" and pri: "layer_ok pri" and fresh: "\<forall>l < NLAYER. n \<notin> set (qs l)"
    and p: "qn_proc (k_node s n) = Some p"
  shows "\<exists>t. put_tail_q (Some n) pri s = Inr t \<and> mlq t (qs(nat pri := qs (nat pri) @ [n]))"
proof -
  obtain t where t: "put_tail_q (Some n) pri s = Inr t"
    using put_tail_q_defined [OF pri p] by blast
  have l: "nat pri < NLAYER" using pri by (rule layer_ok_nat)
  have "queue_at t (nat pri) (qs (nat pri) @ [n])"
    using m l fresh pri p t by (auto simp: mlq_def intro!: put_tail_q_queue)
  moreover have "queue_at t k (qs k)" if "k < NLAYER" "k \<noteq> nat pri" for k
  proof (rule put_tail_q_other [OF _ _ that(2) pri _ p t])
    show "queue_at s k (qs k)" "n \<notin> set (qs k)" using m that fresh by (auto simp: mlq_def)
    fix u assume "k_tail s (nat pri) = Some u"
    then have "u \<in> set (qs (nat pri))"
      using m l by (auto simp: mlq_def queue_at_def split: if_splits)
    with m l that show "u \<notin> set (qs k)" by (fastforce simp: mlq_def)
  qed
  moreover have "set ((qs(nat pri := qs (nat pri) @ [n])) k) \<inter>
      set ((qs(nat pri := qs (nat pri) @ [n])) k') = {}"
    if "k < NLAYER" "k' < NLAYER" "k \<noteq> k'" for k k'
    using m fresh that l by (auto simp: mlq_def)
  ultimately show ?thesis using t by (auto simp: mlq_def)
qed

section \<open>Removal\<close>

lemma rm_scan_hit:
  assumes "chain nx p (xs @ y # n # zs)"
  shows "rm_scan nx (Some n) (hd (xs @ [y])) = Some y"
  using assms
proof (induction xs arbitrary: p)
  case Nil
  then show ?case by (auto simp: rm_scan.simps)
next
  case (Cons x xs)
  from chain_distinct [OF Cons.prems] have "n \<notin> set (xs @ [y])" by auto
  with Cons.prems have "nx x = Some (hd (xs @ [y]))" "hd (xs @ [y]) \<noteq> n"
    by (cases xs; auto)+
  with Cons show ?case by (subst rm_scan.simps) auto
qed

lemma rm_scan_miss:
  assumes "chain nx p (xs @ [y])" and "\<And>n. node = Some n \<Longrightarrow> n \<notin> set (xs @ [y])"
  shows "rm_scan nx node (hd (xs @ [y])) = Some y"
  using assms
proof (induction xs arbitrary: p)
  case Nil
  then show ?case by (auto simp: rm_scan.simps)
next
  case (Cons x xs)
  then have "nx x = Some (hd (xs @ [y]))" "Some (hd (xs @ [y])) \<noteq> node"
    by (cases xs; auto)+
  with Cons show ?case by (subst rm_scan.simps) auto
qed

text \<open>Removing the head of a layer (the running process when it blocks) is correct.\<close>

lemma rm_from_q_head:
  assumes "queue_at s (nat pri) (n # xs)" "layer_ok pri" "rm_from_q (Some n) pri s = Inr t"
  shows "queue_at t (nat pri) xs"
proof -
  have "n \<notin> set xs" using queue_at_distinct [OF assms(1)] by simp
  with assms show ?thesis
    by (auto simp: rm_from_q_def queue_at_def split: if_splits)
qed

text \<open>Removing a node with a predecessor relinks the chain around it.\<close>

lemma rm_from_q_inner:
  assumes q: "queue_at s (nat pri) (xs @ y # n # zs)" and pri: "layer_ok pri"
  shows "rm_from_q (Some n) pri s = Inr (upd_node y (\<lambda>nd. nd\<lparr>qn_next := nexts s n\<rparr>) s)"
    and "chain (nexts (upd_node y (\<lambda>nd. nd\<lparr>qn_next := nexts s n\<rparr>) s)) (k_head s (nat pri)) (xs @ y # zs)"
proof -
  let ?t = "upd_node y (\<lambda>nd. nd\<lparr>qn_next := nexts s n\<rparr>) s"
  let ?h = "hd (xs @ [y])"
  have c: "chain (nexts s) (k_head s (nat pri)) (xs @ y # n # zs)"
    using q by (simp add: queue_at_def)
  then have h: "k_head s (nat pri) = Some ?h" by (cases xs) auto
  have "?h \<noteq> n" using chain_distinct [OF c] by (cases xs) auto
  moreover have "nexts s y = Some n" using c by (auto simp: seg_append)
  ultimately show "rm_from_q (Some n) pri s = Inr ?t"
    using h pri rm_scan_hit [OF c] by (simp add: rm_from_q_def)
  have "nexts ?t = (nexts s)(y := nexts s n)" by auto
  with chain_unlink [OF c] show "chain (nexts ?t) (k_head s (nat pri)) (xs @ y # zs)"
    by simp
qed

lemma rm_from_q_middle:
  assumes "queue_at s (nat pri) (xs @ y # n # zs)" "zs \<noteq> []" "layer_ok pri"
    "rm_from_q (Some n) pri s = Inr t"
  shows "queue_at t (nat pri) (xs @ y # zs)"
proof -
  have "k_tail t (nat pri) = Some (last zs)"
    using assms rm_from_q_inner(1) [OF assms(1,3)] by (auto simp: queue_at_def)
  with assms rm_from_q_inner [OF assms(1,3)] show ?thesis by (auto simp: queue_at_def)
qed

lemma rm_from_q_absent:
  assumes q: "queue_at s (nat pri) xs" and "layer_ok pri"
    and "\<And>n. node = Some n \<Longrightarrow> n \<notin> set xs"
  shows "rm_from_q node pri s = Inr s"
proof (cases xs rule: rev_cases)
  case Nil
  with assms show ?thesis by (auto simp: rm_from_q_def queue_at_def)
next
  case (snoc ys y)
  then have c: "chain (nexts s) (k_head s (nat pri)) (ys @ [y])"
    using q by (simp add: queue_at_def)
  then have h: "k_head s (nat pri) = Some (hd (ys @ [y]))" by (cases ys) auto
  have "Some (hd (ys @ [y])) \<noteq> node" using assms(3) snoc by (cases ys) auto
  moreover have "nexts s y = None" using c by (auto simp: seg_append)
  moreover have "rm_scan (nexts s) node (hd (ys @ [y])) = Some y"
    using rm_scan_miss [OF c] assms(3) snoc by blast
  ultimately show ?thesis using h assms(2) by (simp add: rm_from_q_def)
qed

text \<open>What removal leaves alone.\<close>

lemma rm_from_q_frame:
  assumes "rm_from_q node pri s = Inr t"
  shows "k_lock t = k_lock s" "k_proc t = k_proc s" "k_initproc t = k_initproc s"
    "k_nextpid t = k_nextpid s" "k_cpu t = k_cpu s" "k_ext t = k_ext s"
    "\<And>i. qn_proc (k_node t i) = qn_proc (k_node s i)"
    "\<And>i. qn_inuse (k_node t i) = qn_inuse (k_node s i)"
    "\<And>i. qn_ticks (k_node t i) = qn_ticks (k_node s i)"
  using assms by (auto simp: rm_from_q_def split: option.splits if_splits)

lemma rm_from_q_other:
  assumes q: "queue_at s m ys" and l: "queue_at s (nat pri) xs" and "m \<noteq> nat pri"
    and "set ys \<inter> set xs = {}" "layer_ok pri" "rm_from_q (Some n) pri s = Inr t"
  shows "queue_at t m ys"
proof -
  have "nexts t x = nexts s x" if "x \<in> set ys" for x
  proof (cases "n \<in> set xs")
    case False
    with rm_from_q_absent [OF l assms(5), of "Some n"] assms(6) show ?thesis by auto
  next
    case True
    then obtain us zs where xs: "xs = us @ n # zs" by (meson split_list)
    show ?thesis
    proof (cases us rule: rev_cases)
      case Nil
      with assms xs l show ?thesis by (auto simp: rm_from_q_def queue_at_def split: if_splits)
    next
      case (snoc vs y)
      with l xs have "rm_from_q (Some n) pri s = Inr (upd_node y (\<lambda>nd. nd\<lparr>qn_next := nexts s n\<rparr>) s)"
        using rm_from_q_inner(1) [of s pri vs y n zs] assms(5) by simp
      with assms that xs snoc show ?thesis by auto
    qed
  qed
  moreover have "k_head t m = k_head s m" "k_tail t m = k_tail s m"
    using assms by (auto simp: rm_from_q_def split: option.splits if_splits)
  ultimately have "queue_at t m ys \<longleftrightarrow> queue_at s m ys" by (intro queue_at_cong) auto
  with q show ?thesis by simp
qed

text \<open>
  The removals for which \<open>rm_from_q\<close> is right: the node is absent, the head, or not the last.
\<close>

definition rm_safe :: "nat \<Rightarrow> nat list \<Rightarrow> bool" where
  "rm_safe n xs \<longleftrightarrow> n \<in> set xs \<and> n = last xs \<longrightarrow> n = hd xs"

lemma rm_from_q_queue:
  assumes q: "queue_at s (nat pri) xs" and pri: "layer_ok pri" and safe: "rm_safe n xs"
  shows "\<exists>t. rm_from_q (Some n) pri s = Inr t \<and> queue_at t (nat pri) (remove1 n xs)"
proof (cases "n \<in> set xs")
  case False
  with rm_from_q_absent [OF q pri, of "Some n"] q show ?thesis
    by (auto simp: remove1_idem)
next
  case True
  then obtain us zs where xs: "xs = us @ n # zs" "n \<notin> set us" by (meson split_list_first)
  show ?thesis
  proof (cases us rule: rev_cases)
    case Nil
    with xs q have qs: "queue_at s (nat pri) (n # zs)" by simp
    then obtain t where "rm_from_q (Some n) pri s = Inr t"
      using pri by (auto simp: rm_from_q_def queue_at_def)
    with rm_from_q_head [OF qs pri] xs Nil show ?thesis by auto
  next
    case (snoc vs y)
    then have "zs \<noteq> []" using safe xs by (cases vs) (auto simp: rm_safe_def)
    moreover have qs: "queue_at s (nat pri) (vs @ y # n # zs)" using q xs snoc by simp
    ultimately have "queue_at (upd_node y (\<lambda>nd. nd\<lparr>qn_next := nexts s n\<rparr>) s) (nat pri) (vs @ y # zs)"
      using rm_from_q_middle [OF qs _ pri] rm_from_q_inner(1) [OF qs pri] by blast
    with rm_from_q_inner(1) [OF qs pri] xs snoc show ?thesis by (auto simp: remove1_append)
  qed
qed

lemma rm_from_q_mlq:
  assumes m: "mlq s qs" and pri: "layer_ok pri" and safe: "rm_safe n (qs (nat pri))"
  shows "\<exists>t. rm_from_q (Some n) pri s = Inr t \<and>
           mlq t (qs(nat pri := remove1 n (qs (nat pri))))"
proof -
  let ?l = "nat pri"
  have l: "?l < NLAYER" using pri by (rule layer_ok_nat)
  with m have q: "queue_at s ?l (qs ?l)" by (simp add: mlq_def)
  from rm_from_q_queue [OF q pri safe] obtain t
    where t: "rm_from_q (Some n) pri s = Inr t" "queue_at t ?l (remove1 n (qs ?l))" by blast
  have "queue_at t k (qs k)" if "k < NLAYER" "k \<noteq> ?l" for k
  proof (rule rm_from_q_other [OF _ q that(2) _ pri t(1)])
    show "queue_at s k (qs k)" using m that by (simp add: mlq_def)
    show "set (qs k) \<inter> set (qs ?l) = {}" using m that l by (simp add: mlq_def)
  qed
  moreover have "set (remove1 n (qs ?l)) \<inter> set (qs k) = {}" if "k < NLAYER" "k \<noteq> ?l" for k
  proof -
    have "set (qs ?l) \<inter> set (qs k) = {}" using m that l by (simp add: mlq_def)
    then show ?thesis using set_remove1_subset [of n "qs ?l"] by blast
  qed
  ultimately have "mlq t (qs(?l := remove1 n (qs ?l)))"
    using t m by (auto simp: mlq_def Int_commute)
  with t show ?thesis by blast
qed

text \<open>
  The removal \<open>rm_from_q\<close> gets wrong: the last node of a layer with at least two nodes. The chain
  loses the node but \<open>q_tail\<close> keeps pointing at it, so the next node enqueued at that layer is
  linked behind the removed one and is not reachable from \<open>q_head\<close>.
\<close>

lemma rm_from_q_tail_dangles:
  assumes q: "queue_at s (nat pri) (xs @ [y, n])" and pri: "layer_ok pri"
  shows "\<exists>t. rm_from_q (Some n) pri s = Inr t \<and>
    chain (nexts t) (k_head t (nat pri)) (xs @ [y]) \<and> k_tail t (nat pri) = Some n"
proof -
  have "queue_at s (nat pri) (xs @ y # n # [])" using q by simp
  from rm_from_q_inner [OF this pri] q show ?thesis by (auto simp: queue_at_def)
qed

lemma put_tail_q_lost:
  assumes c: "chain (nexts s) (k_head s (nat pri)) xs" and tl: "k_tail s (nat pri) = Some r"
    and "r \<notin> set xs" "n \<notin> set xs" "layer_ok pri" "qn_proc (k_node s n) = Some p"
  shows "\<exists>t. put_tail_q (Some n) pri s = Inr t \<and> chain (nexts t) (k_head t (nat pri)) xs"
proof -
  obtain t where t: "put_tail_q (Some n) pri s = Inr t"
    using put_tail_q_defined assms by blast
  have "nexts t x = nexts s x" if "x \<in> set xs" for x
    using t assms that by (auto simp: put_tail_q_def)
  moreover have "k_head t (nat pri) = k_head s (nat pri)"
    using t assms by (auto simp: put_tail_q_def)
  ultimately show ?thesis using c t seg_cong [of xs "nexts t" "nexts s"] by auto
qed

section \<open>The queue interface\<close>

text \<open>
  What the scheduler relies on: nodes enter a layer at its end and leave it without disturbing
  the order of the others. \<open>Q s qs\<close> reads a state as four lists of nodes, \<open>owned s n\<close> says that
  the node belongs to a process, and \<open>safe\<close> are the removals the provider supports.
\<close>

locale layered_queues =
  fixes Q :: "'s \<Rightarrow> (nat \<Rightarrow> nat list) \<Rightarrow> bool"
    and owned :: "'s \<Rightarrow> nat \<Rightarrow> bool"
    and enq :: "nat option \<Rightarrow> int \<Rightarrow> 's \<Rightarrow> 's res"
    and rem :: "nat option \<Rightarrow> int \<Rightarrow> 's \<Rightarrow> 's res"
    and safe :: "nat \<Rightarrow> nat list \<Rightarrow> bool"
  assumes enq_ok: "Q s qs \<Longrightarrow> layer_ok l \<Longrightarrow> \<forall>k < NLAYER. n \<notin> set (qs k) \<Longrightarrow> owned s n \<Longrightarrow>
      \<exists>t. enq (Some n) l s = Inr t \<and> Q t (qs(nat l := qs (nat l) @ [n]))"
    and rem_ok: "Q s qs \<Longrightarrow> layer_ok l \<Longrightarrow> safe n (qs (nat l)) \<Longrightarrow>
      \<exists>t. rem (Some n) l s = Inr t \<and> Q t (qs(nat l := remove1 n (qs (nat l))))"
    and rem_owned: "rem (Some n) l s = Inr t \<Longrightarrow> owned t m = owned s m"
    and enq_owned: "owned s n \<Longrightarrow> enq (Some n) l s = Inr t \<Longrightarrow> owned t m = owned s m"
    and Q_disjoint: "Q s qs \<Longrightarrow> k < NLAYER \<Longrightarrow> k' < NLAYER \<Longrightarrow> k \<noteq> k' \<Longrightarrow> set (qs k) \<inter> set (qs k') = {}"
    and Q_distinct: "Q s qs \<Longrightarrow> k < NLAYER \<Longrightarrow> distinct (qs k)"
begin

text \<open>Moving a node to the end of a layer: the demotion or rotation step of the scheduler.\<close>

definition requeue :: "nat \<Rightarrow> int \<Rightarrow> int \<Rightarrow> 's \<Rightarrow> 's res" where
  "requeue n from to s = rbind (rem (Some n) from s) (enq (Some n) to)"

definition moved :: "nat \<Rightarrow> nat \<Rightarrow> nat \<Rightarrow> (nat \<Rightarrow> nat list) \<Rightarrow> nat \<Rightarrow> nat list" where
  "moved n from to qs = (let qs1 = qs(from := remove1 n (qs from)) in qs1(to := qs1 to @ [n]))"

lemma requeue_moved:
  assumes Q: "Q s qs" and l: "layer_ok from" "layer_ok to" and safe: "safe n (qs (nat from))"
    and own: "owned s n" and elsewhere: "\<forall>k < NLAYER. n \<in> set (qs k) \<longrightarrow> k = nat from"
  shows "\<exists>t. requeue n from to s = Inr t \<and> Q t (moved n (nat from) (nat to) qs)"
proof -
  let ?qs = "qs(nat from := remove1 n (qs (nat from)))"
  obtain u where u: "rem (Some n) from s = Inr u" "Q u ?qs" using rem_ok [OF Q l(1) safe] by blast
  have "distinct (qs (nat from))" using Q_distinct [OF Q] l(1) by simp
  then have "\<forall>k < NLAYER. n \<notin> set (?qs k)" using elsewhere by auto
  moreover have "owned u n" using rem_owned [OF u(1)] own by simp
  ultimately obtain t where "enq (Some n) to u = Inr t" "Q t (?qs(nat to := ?qs (nat to) @ [n]))"
    using enq_ok [OF u(2) l(2)] by blast
  with u show ?thesis by (auto simp: requeue_def moved_def)
qed

lemma moved_last:
  assumes "Q s qs" "layer_ok from" "layer_ok to"
  shows "last (moved n (nat from) (nat to) qs (nat to)) = n"
  by (simp add: moved_def)

text \<open>Nobody else loses its place: every other node stays at its layer, in the same order.\<close>

lemma moved_others:
  "filter (\<lambda>x. x \<noteq> n) (moved n from to qs k) = filter (\<lambda>x. x \<noteq> n) (qs k)"
  by (auto simp: moved_def filter_remove1 remove1_filter_not)

end

interpretation mq: layered_queues mlq "\<lambda>s n. qn_proc (k_node s n) \<noteq> None" put_tail_q rm_from_q rm_safe
proof unfold_locales
  show "\<exists>t. put_tail_q (Some n) l s = Inr t \<and> mlq t (qs(nat l := qs (nat l) @ [n]))"
    if "mlq s qs" "layer_ok l" "\<forall>k < NLAYER. n \<notin> set (qs k)" "qn_proc (k_node s n) \<noteq> None"
    for s :: "'a kst" and qs l n
    using put_tail_q_mlq that by blast
  show "(qn_proc (k_node t m) \<noteq> None) = (qn_proc (k_node s m) \<noteq> None)"
    if "rm_from_q (Some n) l s = Inr t" for n l m and s t :: "'a kst"
    using rm_from_q_frame(7) [OF that] by simp
  show "(qn_proc (k_node t m) \<noteq> None) = (qn_proc (k_node s m) \<noteq> None)"
    if "qn_proc (k_node s n) \<noteq> None" "put_tail_q (Some n) l s = Inr t" for n l m and s t :: "'a kst"
    using put_tail_q_frame(6) that by fastforce
  show "\<exists>t. rm_from_q (Some n) l s = Inr t \<and> mlq t (qs(nat l := remove1 n (qs (nat l))))"
    if "mlq s qs" "layer_ok l" "rm_safe n (qs (nat l))" for s :: "'a kst" and qs l n
    using that by (rule rm_from_q_mlq)
qed (auto simp: mlq_def intro: queue_at_distinct)

end
