(* ===== verification/Proc.thy ===== *)
theory Proc
  imports Mlq
begin

text \<open>
  Processes and the scheduler (\<open>04_xv6_scheduling/src/proc.c\<close>): allocation, fork, exit, wait,
  sleep and wakeup, kill, the priority calls, the refresh of the queues and the choice of the
  next process. A kernel function that switches to the scheduler in its middle is split at the
  switch: the part before it ends with \<open>sched_enter\<close>, the part after it starts with
  \<open>sched_resume\<close>. Every such part is one critical section of \<open>ptable.lock\<close>.
\<close>

section \<open>Calls into other components\<close>

text \<open>
  Memory management, files and inodes are other components with their own state \<open>'e\<close>; what
  \<open>proc.c\<close> calls of them is a record of operations. An allocation that fails returns 0.
\<close>

record 'e kops =
  op_kalloc :: "'e \<Rightarrow> u32 \<times> 'e"
  op_kfree :: "u32 \<Rightarrow> 'e \<Rightarrow> 'e"
  op_setupkvm :: "'e \<Rightarrow> u32 \<times> 'e"
  op_inituvm :: "u32 \<Rightarrow> 'e \<Rightarrow> 'e"
  op_allocuvm :: "u32 \<Rightarrow> u32 \<Rightarrow> u32 \<Rightarrow> 'e \<Rightarrow> u32 \<times> 'e"
  op_deallocuvm :: "u32 \<Rightarrow> u32 \<Rightarrow> u32 \<Rightarrow> 'e \<Rightarrow> u32 \<times> 'e"
  op_copyuvm :: "u32 \<Rightarrow> u32 \<Rightarrow> 'e \<Rightarrow> u32 \<times> 'e"
  op_freevm :: "u32 \<Rightarrow> 'e \<Rightarrow> 'e"
  op_switchuvm :: "nat \<Rightarrow> 'e \<Rightarrow> 'e"
  op_switchkvm :: "'e \<Rightarrow> 'e"
  op_filedup :: "nat \<Rightarrow> 'e \<Rightarrow> nat \<times> 'e"
  op_fileclose :: "nat \<Rightarrow> 'e \<Rightarrow> 'e"
  op_idup :: "nat option \<Rightarrow> 'e \<Rightarrow> nat option \<times> 'e"
  op_iput :: "nat option \<Rightarrow> 'e \<Rightarrow> 'e"
  op_begin_op :: "'e \<Rightarrow> 'e"
  op_end_op :: "'e \<Rightarrow> 'e"
  op_namei :: "string \<Rightarrow> 'e \<Rightarrow> nat option \<times> 'e"
  op_iinit :: "'e \<Rightarrow> 'e"
  op_initlog :: "'e \<Rightarrow> 'e"
  op_forkret :: u32
  op_trapret :: u32
  op_page_tf :: "u32 \<Rightarrow> trapframe"

text \<open>\<open>op_page_tf a\<close> is what a freshly allocated page holds where the trap frame at \<open>a\<close> will be.\<close>

definition ext1 :: "('e \<Rightarrow> 'e) \<Rightarrow> 'e kst \<Rightarrow> 'e kst" where
  "ext1 f s = s\<lparr>k_ext := f (k_ext s)\<rparr>"

definition ext2 :: "('e \<Rightarrow> 'a \<times> 'e) \<Rightarrow> 'e kst \<Rightarrow> 'a \<times> 'e kst" where
  "ext2 f s = (case f (k_ext s) of (r, e) \<Rightarrow> (r, s\<lparr>k_ext := e\<rparr>))"

definition k_acquire :: "'e kst \<Rightarrow> 'e kst res" where
  "k_acquire s = rbind (acquire (k_lock s) (k_cpu s)) (\<lambda>(lk, c). Inr (s\<lparr>k_lock := lk, k_cpu := c\<rparr>))"

definition k_release :: "'e kst \<Rightarrow> 'e kst res" where
  "k_release s = rbind (release (k_lock s) (k_cpu s)) (\<lambda>(lk, c). Inr (s\<lparr>k_lock := lk, k_cpu := c\<rparr>))"

section \<open>Priorities and statistics\<close>

record pstat =
  ps_inuse :: "nat \<Rightarrow> int"
  ps_pid :: "nat \<Rightarrow> int"
  ps_priority :: "nat \<Rightarrow> int"
  ps_state :: "nat \<Rightarrow> procstate"
  ps_ticks :: "nat \<Rightarrow> nat \<Rightarrow> int"
  ps_qtail :: "nat \<Rightarrow> nat \<Rightarrow> int"

definition gather_one :: "'e kst \<Rightarrow> nat \<Rightarrow> pstat \<Rightarrow> pstat" where
  "gather_one s i r =
     (let p = k_proc s i;
          u = (if p_state p = SLEEPING \<or> p_state p = RUNNABLE \<or> p_state p = RUNNING then 1 else 0);
          r1 = r\<lparr>ps_inuse := (ps_inuse r)(i := u), ps_pid := (ps_pid r)(i := p_pid p),
                 ps_priority := (ps_priority r)(i := p_priority p),
                 ps_state := (ps_state r)(i := p_state p)\<rparr>
      in fold (\<lambda>j q. q\<lparr>ps_ticks := (ps_ticks q)(i := (ps_ticks q i)(j := p_ticks p j)),
                       ps_qtail := (ps_qtail q)(i := (ps_qtail q i)(j := p_qtail p j))\<rparr>)
              [0..<NLAYER] r1)"

definition proc_gather_pstat :: "'e kst \<Rightarrow> pstat \<Rightarrow> pstat" where
  "proc_gather_pstat s r = fold (gather_one s) [0..<NPROC] r"

definition find_proc :: "(proc \<Rightarrow> bool) \<Rightarrow> 'e kst \<Rightarrow> nat option" where
  "find_proc P s = find (\<lambda>i. P (k_proc s i)) [0..<NPROC]"

definition proc_getpri :: "int \<Rightarrow> 'e kst \<Rightarrow> int" where
  "proc_getpri pid s =
     (case find_proc (\<lambda>p. p_pid p = pid) s of Some i \<Rightarrow> p_priority (k_proc s i) | None \<Rightarrow> - 1)"

definition proc_setpri :: "int \<Rightarrow> int \<Rightarrow> 'e kst \<Rightarrow> (int \<times> 'e kst) res" where
  "proc_setpri pid pri s =
     (if pri < 0 \<or> pri > 3 then Inr (- 1, s)
      else case find_proc (\<lambda>p. p_pid p = pid) s of
        None \<Rightarrow> Inr (- 1, s)
      | Some i \<Rightarrow>
          let s1 = upd_proc i (\<lambda>p. p\<lparr>p_priority := pri\<rparr>) s in
          rbind (rm_from_q (p_qnode (k_proc s1 i)) (p_put_in (k_proc s1 i)) s1) (\<lambda>s2.
          rbind (put_tail_q (p_qnode (k_proc s2 i)) (p_priority (k_proc s2 i)) s2) (\<lambda>s3.
          Inr (0, upd_proc i (\<lambda>p. p\<lparr>p_put_in := cchar (p_priority p)\<rparr>) s3))))"

section \<open>CPUs and the current process\<close>

definition pinit :: "'e kst \<Rightarrow> 'e kst" where
  "pinit s = s\<lparr>k_lock := initlock ''ptable'' (k_lock s)\<rparr>"

text \<open>\<open>ids\<close> are the APIC ids of the CPUs found at boot, \<open>apicid\<close> what the local APIC says.\<close>

definition mycpu :: "bool \<Rightarrow> nat list \<Rightarrow> nat \<Rightarrow> nat res" where
  "mycpu ifl ids apicid =
     (if ifl then Inl (Panic ''mycpu called with interrupts enabled'')
      else case find (\<lambda>i. ids ! i = apicid) [0..<length ids] of
        Some i \<Rightarrow> Inr i
      | None \<Rightarrow> Inl (Panic ''unknown apicid''))"

definition myproc :: "'e kst \<Rightarrow> (nat option \<times> 'e kst) res" where
  "myproc s =
     (let c = pushcli (k_cpu s); p = c_proc c
      in rbind (popcli c) (\<lambda>c'. Inr (p, s\<lparr>k_cpu := c'\<rparr>)))"

text \<open>\<open>myproc()\<close> where the source dereferences the result at once.\<close>

definition myproc_deref :: "'e kst \<Rightarrow> (nat \<times> 'e kst) res" where
  "myproc_deref s = rbind (myproc s) (\<lambda>(p, s1).
     case p of None \<Rightarrow> Inl (Undefined ''null curproc'') | Some i \<Rightarrow> Inr (i, s1))"

section \<open>Allocation\<close>

abbreviation KSTACKSIZE :: u32 where "KSTACKSIZE \<equiv> 4096"
abbreviation sizeof_trapframe :: u32 where "sizeof_trapframe \<equiv> 76"
abbreviation sizeof_context :: u32 where "sizeof_context \<equiv> 20"

definition alloc_qnode :: "nat \<Rightarrow> 'e kst \<Rightarrow> 'e kst" where
  "alloc_qnode p s =
     (case find (\<lambda>i. \<not> qn_inuse (k_node s i)) [0..<NPROC] of
        None \<Rightarrow> s
      | Some n \<Rightarrow>
          upd_proc p (\<lambda>pr. pr\<lparr>p_qnode := Some n\<rparr>)
            (upd_node n (\<lambda>q. q\<lparr>qn_inuse := True, qn_proc := Some p, qn_next := None\<rparr>) s))"

definition reset_stats :: "proc \<Rightarrow> proc" where
  "reset_stats p = fold (\<lambda>i q. q\<lparr>p_ticks := (p_ticks q)(i := 0), p_qtail := (p_qtail q)(i := 0),
     p_put_in := - 1\<rparr>) [0..<NLAYER] p"

text \<open>The kernel stack of a new process: trap frame, return address, context, from the top down.\<close>

definition setup_kstack :: "'e kops \<Rightarrow> u32 \<Rightarrow> proc \<Rightarrow> proc" where
  "setup_kstack ops ks p =
     (let sp = ks + KSTACKSIZE;
          sp = sp - sizeof_trapframe;
          p = p\<lparr>p_tf_addr := sp, p_tf := op_page_tf ops sp\<rparr>;
          sp = sp - 4;
          p = p\<lparr>p_stack_ret := op_trapret ops\<rparr>;
          sp = sp - sizeof_context
      in p\<lparr>p_ctx_addr := sp,
           p_context := \<lparr>cx_edi = 0, cx_esi = 0, cx_ebx = 0, cx_ebp = 0, cx_eip = op_forkret ops\<rparr>\<rparr>)"

definition alloc_found :: "'e kops \<Rightarrow> nat \<Rightarrow> 'e kst \<Rightarrow> (nat option \<times> 'e kst) res" where
  "alloc_found ops i s =
     (let s = (upd_proc i (\<lambda>p. p\<lparr>p_state := EMBRYO, p_pid := k_nextpid s\<rparr>) s)
                \<lparr>k_nextpid := cint (k_nextpid s + 1)\<rparr> in
      rbind (k_release s) (\<lambda>s.
        let (ks, s) = ext2 (op_kalloc ops) s;
            s = upd_proc i (\<lambda>p. p\<lparr>p_kstack := ks\<rparr>) s
        in if ks = 0 then Inr (None, upd_proc i (\<lambda>p. p\<lparr>p_state := UNUSED\<rparr>) s)
           else
             let s = upd_proc i (setup_kstack ops ks) s;
                 s = alloc_qnode i s;
                 s = upd_proc i reset_stats s
             in Inr (Some i, s)))"

definition allocproc :: "'e kops \<Rightarrow> 'e kst \<Rightarrow> (nat option \<times> 'e kst) res" where
  "allocproc ops s =
     rbind (k_acquire s) (\<lambda>s.
       case find_proc (\<lambda>p. p_state p = UNUSED) s of
         None \<Rightarrow> rbind (k_release s) (\<lambda>s. Inr (None, s))
       | Some i \<Rightarrow> alloc_found ops i s)"

definition ptable_init :: "'e kst \<Rightarrow> 'e kst" where
  "ptable_init s = fold (\<lambda>i. upd_proc i (\<lambda>p. p\<lparr>p_put_in := - 1\<rparr>)) [0..<NPROC] s"

text \<open>\<open>safestrcpy(name, t, 16)\<close> on a NUL-terminated source, as the string it leaves in \<open>name\<close>.\<close>

definition set_name :: "string \<Rightarrow> proc \<Rightarrow> proc" where
  "set_name t p = p\<lparr>p_name := take 15 t\<rparr>"

text \<open>Segment selectors and the flag FL\_IF as \<open>mmu.h\<close> defines them.\<close>

definition user_tf :: trapframe where
  "user_tf = \<lparr>tf_eax = 0, tf_eip = 0, tf_esp = 4096, tf_eflags = 0x200,
     tf_cs = 0x1b, tf_ds = 0x23, tf_es = 0x23, tf_ss = 0x23, tf_rest = replicate 11 0\<rparr>"

definition userinit :: "'e kops \<Rightarrow> 'e kst \<Rightarrow> 'e kst res" where
  "userinit ops s =
     (let s = ptable_init s in
      rbind (allocproc ops s) (\<lambda>(po, s).
        let s = s\<lparr>k_initproc := po\<rparr>; (pg, s) = ext2 (op_setupkvm ops) s in
        case po of None \<Rightarrow> Inl (Undefined ''userinit: null proc'')
        | Some i \<Rightarrow>
            let s = upd_proc i (\<lambda>p. p\<lparr>p_pgdir := pg\<rparr>) s in
            if pg = 0 then Inl (Panic ''userinit: out of memory?'')
            else
              let s = ext1 (op_inituvm ops pg) s;
                  s = upd_proc i (\<lambda>p. p\<lparr>p_sz := 4096, p_tf := user_tf, p_priority := 3\<rparr>) s;
                  s = upd_proc i (set_name ''initcode'') s;
                  (cw, s) = ext2 (op_namei ops ''/'') s;
                  s = upd_proc i (\<lambda>p. p\<lparr>p_cwd := cw\<rparr>) s
              in rbind (k_acquire s) (\<lambda>s.
                   k_release (upd_proc i (\<lambda>p. p\<lparr>p_state := RUNNABLE\<rparr>) s))))"

definition growproc :: "'e kops \<Rightarrow> int \<Rightarrow> 'e kst \<Rightarrow> (int \<times> 'e kst) res" where
  "growproc ops n s =
     rbind (myproc_deref s) (\<lambda>(cur, s).
       let sz = p_sz (k_proc s cur); pg = p_pgdir (k_proc s cur);
           fin = (\<lambda>sz s. Inr (0, ext1 (op_switchuvm ops cur) (upd_proc cur (\<lambda>p. p\<lparr>p_sz := sz\<rparr>) s)))
       in if n > 0 then
            (let (sz, s) = ext2 (op_allocuvm ops pg sz (sz + word_of_int n)) s
             in if sz = 0 then Inr (- 1, s) else fin sz s)
          else if n < 0 then
            (let (sz, s) = ext2 (op_deallocuvm ops pg sz (sz + word_of_int n)) s
             in if sz = 0 then Inr (- 1, s) else fin sz s)
          else fin sz s)"

section \<open>Fork\<close>

definition dup_ofile :: "'e kops \<Rightarrow> nat \<Rightarrow> nat \<Rightarrow> nat \<Rightarrow> 'e kst \<Rightarrow> 'e kst" where
  "dup_ofile ops cur np i s =
     (case p_ofile (k_proc s cur) i of None \<Rightarrow> s
      | Some f \<Rightarrow>
          let (g, s) = ext2 (op_filedup ops f) s
          in upd_proc np (\<lambda>p. p\<lparr>p_ofile := (p_ofile p)(i := Some g)\<rparr>) s)"

text \<open>What the child copies of its parent: memory size, registers, files, directory, name.\<close>

definition fork_fill :: "'e kops \<Rightarrow> nat \<Rightarrow> nat \<Rightarrow> 'e kst \<Rightarrow> 'e kst" where
  "fork_fill ops cur np s =
     (let c = k_proc s cur;
          s = upd_proc np (\<lambda>p. p\<lparr>p_sz := p_sz c, p_parent := Some cur, p_tf := p_tf c\<rparr>) s;
          s = upd_proc np (\<lambda>p. p\<lparr>p_tf := (p_tf p)\<lparr>tf_eax := 0\<rparr>\<rparr>) s;
          s = fold (dup_ofile ops cur np) [0..<NOFILE] s;
          (cw, s) = ext2 (op_idup ops (p_cwd (k_proc s cur))) s;
          s = upd_proc np (\<lambda>p. p\<lparr>p_cwd := cw\<rparr>) s
      in upd_proc np (set_name (p_name (k_proc s cur))) s)"

definition fork2 :: "'e kops \<Rightarrow> int \<Rightarrow> 'e kst \<Rightarrow> (int \<times> 'e kst) res" where
  "fork2 ops pri s =
     rbind (myproc_deref s) (\<lambda>(cur, s).
     rbind (allocproc ops s) (\<lambda>(npo, s).
       case npo of None \<Rightarrow> Inr (- 1, s)
       | Some np \<Rightarrow>
           let (pg, s) = ext2 (op_copyuvm ops (p_pgdir (k_proc s cur)) (p_sz (k_proc s cur))) s;
               s = upd_proc np (\<lambda>p. p\<lparr>p_pgdir := pg\<rparr>) s in
           if pg = 0 then
             let s = ext1 (op_kfree ops (p_kstack (k_proc s np))) s
             in Inr (- 1, upd_proc np (\<lambda>p. p\<lparr>p_kstack := 0, p_state := UNUSED\<rparr>) s)
           else
             let s = fork_fill ops cur np s;
                 pid = p_pid (k_proc s np);
                 s = upd_proc np (\<lambda>p. p\<lparr>p_priority := pri\<rparr>) s
             in case p_qnode (k_proc s np) of None \<Rightarrow> Inl (Undefined ''fork2: null q_node'')
                | Some n \<Rightarrow>
                    let s = upd_node n (\<lambda>q. q\<lparr>qn_proc := Some np\<rparr>) s
                    in rbind (k_acquire s) (\<lambda>s.
                       rbind (k_release (upd_proc np (\<lambda>p. p\<lparr>p_state := RUNNABLE\<rparr>) s)) (\<lambda>s.
                       Inr (pid, s)))))"

definition fork :: "'e kops \<Rightarrow> 'e kst \<Rightarrow> (int \<times> 'e kst) res" where
  "fork ops s =
     rbind (myproc_deref s) (\<lambda>(cur, s). fork2 ops (p_priority (k_proc s cur)) s)"

section \<open>Switching to the scheduler\<close>

text \<open>
  \<open>sched_enter\<close> is \<open>sched\<close> up to the switch, with the saved \<open>intena\<close>; \<open>sched_resume\<close> is what the
  same kernel thread does when the scheduler switches back to it.
\<close>

definition sched_enter :: "'e kst \<Rightarrow> (bool \<times> 'e kst) res" where
  "sched_enter s =
     rbind (myproc s) (\<lambda>(p, s).
     rbind (holding (k_lock s) (k_cpu s)) (\<lambda>(h, c).
       let s = s\<lparr>k_cpu := c\<rparr> in
       if \<not> h then Inl (Panic ''sched ptable.lock'')
       else if c_if (k_cpu s) then Inl (Panic ''mycpu called with interrupts enabled'')
       else if c_ncli (k_cpu s) \<noteq> 1 then Inl (Panic ''sched locks'')
       else case p of None \<Rightarrow> Inl (Undefined ''sched: null proc'')
       | Some i \<Rightarrow>
           if p_state (k_proc s i) = RUNNING then Inl (Panic ''sched running'')
           else if c_if (k_cpu s) then Inl (Panic ''sched interruptible'')
           else Inr (c_intena (k_cpu s), s)))"

definition sched_resume :: "bool \<Rightarrow> 'e kst \<Rightarrow> 'e kst" where
  "sched_resume intena s = s\<lparr>k_cpu := (k_cpu s)\<lparr>c_intena := intena\<rparr>\<rparr>"

definition yield_enter :: "'e kst \<Rightarrow> (bool \<times> 'e kst) res" where
  "yield_enter s =
     rbind (k_acquire s) (\<lambda>s.
     rbind (myproc_deref s) (\<lambda>(i, s).
     sched_enter (upd_proc i (\<lambda>p. p\<lparr>p_state := RUNNABLE\<rparr>) s)))"

definition yield_resume :: "bool \<Rightarrow> 'e kst \<Rightarrow> 'e kst res" where
  "yield_resume intena s = k_release (sched_resume intena s)"

text \<open>\<open>first\<close> is the static flag of \<open>forkret\<close>.\<close>

definition forkret :: "'e kops \<Rightarrow> bool \<Rightarrow> 'e kst \<Rightarrow> (bool \<times> 'e kst) res" where
  "forkret ops first s =
     rbind (k_release s) (\<lambda>s.
       if first then Inr (False, ext1 (op_initlog ops) (ext1 (op_iinit ops) s)) else Inr (first, s))"

section \<open>Sleep and wakeup\<close>

text \<open>The lock argument of \<open>sleep\<close>: null, \<open>ptable.lock\<close> itself, or another lock.\<close>

datatype lkref = LkNull | LkPtable | LkOther spinlock

definition sleep_enter :: "chan option \<Rightarrow> lkref \<Rightarrow> 'e kst \<Rightarrow> (lkref \<times> bool \<times> 'e kst) res" where
  "sleep_enter ch lk s =
     rbind (myproc s) (\<lambda>(po, s).
       case po of None \<Rightarrow> Inl (Panic ''sleep'')
       | Some i \<Rightarrow>
           let go = (\<lambda>lk s. rbind (sched_enter (upd_proc i (\<lambda>p. p\<lparr>p_chan := ch, p_state := SLEEPING\<rparr>) s))
                       (\<lambda>(ie, s). Inr (lk, ie, s)))
           in (case lk of
                 LkNull \<Rightarrow> Inl (Panic ''sleep without lk'')
               | LkPtable \<Rightarrow> go LkPtable s
               | LkOther l \<Rightarrow>
                   rbind (k_acquire s) (\<lambda>s.
                   rbind (release l (k_cpu s)) (\<lambda>(l, c). go (LkOther l) (s\<lparr>k_cpu := c\<rparr>)))))"

definition sleep_resume :: "nat \<Rightarrow> lkref \<Rightarrow> bool \<Rightarrow> 'e kst \<Rightarrow> (lkref \<times> 'e kst) res" where
  "sleep_resume i lk intena s =
     (let s = upd_proc i (\<lambda>p. p\<lparr>p_chan := None\<rparr>) (sched_resume intena s) in
      case lk of
        LkOther l \<Rightarrow> rbind (k_release s) (\<lambda>s.
          rbind (acquire l (k_cpu s)) (\<lambda>(l, c). Inr (LkOther l, s\<lparr>k_cpu := c\<rparr>)))
      | _ \<Rightarrow> Inr (lk, s))"

definition wake_one :: "chan option \<Rightarrow> proc \<Rightarrow> proc" where
  "wake_one ch p = (if p_state p = SLEEPING \<and> p_chan p = ch then p\<lparr>p_state := RUNNABLE\<rparr> else p)"

definition wakeup1 :: "chan option \<Rightarrow> 'e kst \<Rightarrow> 'e kst" where
  "wakeup1 ch s = fold (\<lambda>i. upd_proc i (wake_one ch)) [0..<NPROC] s"

definition wakeup :: "chan option \<Rightarrow> 'e kst \<Rightarrow> 'e kst res" where
  "wakeup ch s = rbind (k_acquire s) (\<lambda>s. k_release (wakeup1 ch s))"

definition kill :: "int \<Rightarrow> 'e kst \<Rightarrow> (int \<times> 'e kst) res" where
  "kill pid s =
     rbind (k_acquire s) (\<lambda>s.
       case find_proc (\<lambda>p. p_pid p = pid) s of
         None \<Rightarrow> rbind (k_release s) (\<lambda>s. Inr (- 1, s))
       | Some i \<Rightarrow>
           let s = upd_proc i (\<lambda>p. p\<lparr>p_killed := True\<rparr>) s;
               s = (if p_state (k_proc s i) = SLEEPING
                    then upd_proc i (\<lambda>p. p\<lparr>p_state := RUNNABLE\<rparr>) s else s)
           in rbind (k_release s) (\<lambda>s. Inr (0, s)))"

section \<open>Exit and wait\<close>

definition close_ofile :: "'e kops \<Rightarrow> nat \<Rightarrow> nat \<Rightarrow> 'e kst \<Rightarrow> 'e kst" where
  "close_ofile ops cur fd s =
     (case p_ofile (k_proc s cur) fd of None \<Rightarrow> s
      | Some f \<Rightarrow> upd_proc cur (\<lambda>p. p\<lparr>p_ofile := (p_ofile p)(fd := None)\<rparr>)
                    (ext1 (op_fileclose ops f) s))"

text \<open>A channel that is a pointer to a process table entry.\<close>

abbreviation proc_chan :: "nat option \<Rightarrow> chan option" where
  "proc_chan p \<equiv> map_option CProc p"

definition reparent :: "nat \<Rightarrow> nat \<Rightarrow> 'e kst \<Rightarrow> 'e kst" where
  "reparent cur i s =
     (if p_parent (k_proc s i) = Some cur
      then let s = upd_proc i (\<lambda>p. p\<lparr>p_parent := k_initproc s\<rparr>) s
           in if p_state (k_proc s i) = ZOMBIE then wakeup1 (proc_chan (k_initproc s)) s else s
      else s)"

definition exit_enter :: "'e kops \<Rightarrow> 'e kst \<Rightarrow> (bool \<times> 'e kst) res" where
  "exit_enter ops s =
     rbind (myproc s) (\<lambda>(po, s).
       if po = k_initproc s then Inl (Panic ''init exiting'')
       else case po of None \<Rightarrow> Inl (Undefined ''exit: null curproc'')
       | Some cur \<Rightarrow>
           let s = fold (close_ofile ops cur) [0..<NOFILE] s;
               s = ext1 (op_begin_op ops) s;
               s = ext1 (op_iput ops (p_cwd (k_proc s cur))) s;
               s = ext1 (op_end_op ops) s;
               s = upd_proc cur (\<lambda>p. p\<lparr>p_cwd := None\<rparr>) s
           in rbind (k_acquire s) (\<lambda>s.
                let s = wakeup1 (proc_chan (p_parent (k_proc s cur))) s;
                    s = fold (reparent cur) [0..<NPROC] s;
                    s = upd_proc cur (\<lambda>p. p\<lparr>p_state := ZOMBIE\<rparr>) s
                in sched_enter s))"

text \<open>
  One pass of the loop of \<open>wait\<close>, with the lock held: \<open>WReturn v\<close> returns (the lock is released),
  \<open>WSleep\<close> has gone to sleep and runs the pass again when it is resumed.
\<close>

datatype wait_out = WReturn int | WSleep bool

definition reap :: "'e kops \<Rightarrow> nat \<Rightarrow> 'e kst \<Rightarrow> (int \<times> 'e kst) res" where
  "reap ops i s =
     (let pid = p_pid (k_proc s i);
          s = ext1 (op_kfree ops (p_kstack (k_proc s i))) s;
          s = upd_proc i (\<lambda>p. p\<lparr>p_kstack := 0\<rparr>) s;
          s = ext1 (op_freevm ops (p_pgdir (k_proc s i))) s;
          s = upd_proc i (\<lambda>p. p\<lparr>p_pid := 0, p_parent := None, p_name := [], p_killed := False,
                              p_state := UNUSED\<rparr>) s
      in case p_qnode (k_proc s i) of None \<Rightarrow> Inl (Undefined ''wait: null q_node'')
         | Some n \<Rightarrow>
             let s = upd_node n (\<lambda>q. q\<lparr>qn_inuse := False\<rparr>) s;
                 s = upd_proc i (\<lambda>p. p\<lparr>p_qnode := None\<rparr>) s
             in rbind (k_release s) (\<lambda>s. Inr (pid, s)))"

definition wait_pass :: "'e kops \<Rightarrow> nat \<Rightarrow> 'e kst \<Rightarrow> (wait_out \<times> 'e kst) res" where
  "wait_pass ops cur s =
     (case find_proc (\<lambda>p. p_parent p = Some cur \<and> p_state p = ZOMBIE) s of
        Some i \<Rightarrow> rbind (reap ops i s) (\<lambda>(pid, s). Inr (WReturn pid, s))
      | None \<Rightarrow>
          let havekids = (find_proc (\<lambda>p. p_parent p = Some cur) s \<noteq> None) in
          if \<not> havekids \<or> p_killed (k_proc s cur)
          then rbind (k_release s) (\<lambda>s. Inr (WReturn (- 1), s))
          else rbind (sleep_enter (Some (CProc cur)) LkPtable s) (\<lambda>(lk, ie, s). Inr (WSleep ie, s)))"

definition wait_begin :: "'e kops \<Rightarrow> 'e kst \<Rightarrow> (wait_out \<times> 'e kst) res" where
  "wait_begin ops s =
     rbind (myproc_deref s) (\<lambda>(cur, s). rbind (k_acquire s) (wait_pass ops cur))"

definition wait_again :: "'e kops \<Rightarrow> nat \<Rightarrow> bool \<Rightarrow> 'e kst \<Rightarrow> (wait_out \<times> 'e kst) res" where
  "wait_again ops cur intena s =
     rbind (sleep_resume cur LkPtable intena s) (\<lambda>(lk, s). wait_pass ops cur s)"

section \<open>The scheduler\<close>

definition time_slice :: "int \<Rightarrow> int" where
  "time_slice put_in = (5 - put_in) * 4"

definition refresh_one :: "nat \<Rightarrow> 'e kst \<Rightarrow> 'e kst res" where
  "refresh_one i s =
     (let p = k_proc s i in
      if p_state p = UNUSED then Inr s
      else if p_state p \<noteq> RUNNABLE \<and> p_put_in p \<noteq> - 1 then
        rbind (rm_from_q (p_qnode p) (p_put_in p) s) (\<lambda>s.
        Inr (upd_proc i (\<lambda>p. p\<lparr>p_put_in := - 1\<rparr>) s))
      else if p_state p = RUNNABLE \<and> p_put_in p = - 1 then
        rbind (put_tail_q (p_qnode p) (p_priority p) s) (\<lambda>s.
        Inr (upd_proc i (\<lambda>p. p\<lparr>p_put_in := cchar (p_priority p)\<rparr>) s))
      else if p_state p = RUNNABLE then
        (if p_put_in p \<noteq> p_priority p then
           rbind (rm_from_q (p_qnode p) (p_put_in p) s) (\<lambda>s.
           rbind (put_tail_q (p_qnode p) (p_priority p) s) (\<lambda>s.
           Inr (upd_proc i (\<lambda>p. p\<lparr>p_put_in := cchar (p_priority p)\<rparr>) s)))
         else case p_qnode p of None \<Rightarrow> Inl (Undefined ''refresh_q: null q_node'')
         | Some n \<Rightarrow>
             if qn_ticks (k_node s n) = word_of_int (time_slice (p_put_in p)) then
               rbind (rm_from_q (p_qnode p) (p_put_in p) s) (\<lambda>s.
               rbind (put_tail_q (p_qnode p) (p_priority p) s) (\<lambda>s.
               Inr (upd_proc i (\<lambda>p. p\<lparr>p_put_in := cchar (p_priority p)\<rparr>) s)))
             else Inr s)
      else Inr s)"

definition refresh_q :: "'e kst \<Rightarrow> 'e kst res" where
  "refresh_q s = rfold refresh_one [0..<NPROC] s"

text \<open>The loop over the layers, from the highest to the lowest.\<close>

fun pick_loop :: "nat list \<Rightarrow> 'e kst \<Rightarrow> (nat option \<times> 'e kst) res" where
  "pick_loop [] s = Inr (None, s)"
| "pick_loop (l # ls) s =
     (case k_head s l of None \<Rightarrow> pick_loop ls s
      | Some n \<Rightarrow>
          (case qn_proc (k_node s n) of None \<Rightarrow> Inl (Undefined ''scheduler: null proc'')
           | Some p \<Rightarrow>
               let s = upd_proc p (\<lambda>pr. pr\<lparr>p_ticks := (p_ticks pr)(l := cint (p_ticks pr l + 1))\<rparr>) s in
               (case p_qnode (k_proc s p) of None \<Rightarrow> Inl (Undefined ''scheduler: null q_node'')
                | Some m \<Rightarrow> Inr (Some p, upd_node m (\<lambda>q. q\<lparr>qn_ticks := qn_ticks q + 1\<rparr>) s))))"

definition scheduler_pick :: "'e kops \<Rightarrow> 'e kst \<Rightarrow> (nat option \<times> 'e kst) res" where
  "scheduler_pick ops s =
     (let s = s\<lparr>k_cpu := (k_cpu s)\<lparr>c_if := True\<rparr>\<rparr> in
      rbind (k_acquire s) (\<lambda>s.
      rbind (refresh_q s) (\<lambda>s.
      rbind (pick_loop (rev [0..<NLAYER]) s) (\<lambda>(po, s).
        case po of
          None \<Rightarrow> rbind (k_release s) (\<lambda>s. Inr (None, s))
        | Some p \<Rightarrow>
            let s = s\<lparr>k_cpu := (k_cpu s)\<lparr>c_proc := Some p\<rparr>\<rparr>;
                s = ext1 (op_switchuvm ops p) s
            in Inr (Some p, upd_proc p (\<lambda>pr. pr\<lparr>p_state := RUNNING\<rparr>) s)))))"

text \<open>What the scheduler does when the process it ran switches back to it.\<close>

definition scheduler_return :: "'e kops \<Rightarrow> 'e kst \<Rightarrow> 'e kst res" where
  "scheduler_return ops s =
     (let s = ext1 (op_switchkvm ops) s;
          s = s\<lparr>k_cpu := (k_cpu s)\<lparr>c_proc := None\<rparr>\<rparr>
      in k_release s)"

section \<open>Debug listing\<close>

fun state_name :: "procstate \<Rightarrow> string" where
  "state_name UNUSED = ''unused''"
| "state_name EMBRYO = ''embryo''"
| "state_name SLEEPING = ''sleep ''"
| "state_name RUNNABLE = ''runble''"
| "state_name RUNNING = ''run   ''"
| "state_name ZOMBIE = ''zombie''"

text \<open>One row per process in use: pid, state, name, and the call stack of a sleeping process.\<close>

definition procdump :: "'e kst \<Rightarrow> (int \<times> string \<times> string \<times> u32 list) list" where
  "procdump s =
     map (\<lambda>i. let p = k_proc s i in
            (p_pid p, state_name (p_state p), p_name p,
             if p_state p = SLEEPING
             then takeWhile (\<lambda>pc. pc \<noteq> 0)
                    (getcallerpcs (c_stack (k_cpu s)) (cx_ebp (p_context p) + 8))
             else []))
       (filter (\<lambda>i. p_state (k_proc s i) \<noteq> UNUSED) [0..<NPROC])"

end
