(* ===== verification/ProcSched.thy ===== *)
theory ProcSched
  imports Proc
begin

text \<open>
  The scheduler's policy: \<open>refresh_q\<close> refines the list-level moves of the processes, and
  \<open>scheduler_pick\<close> runs the front process of the highest non-empty layer.
\<close>

section \<open>The scheduler invariant\<close>

text \<open>
  \<open>sched_inv s qs\<close>: the four layers are the lists \<open>qs\<close>; a process and its queue node point at
  each other; a node is at layer \<open>l\<close> exactly when its process records \<open>put_in = l\<close>; processes
  outside the queues record -1.
\<close>

definition node_links :: "'e kst \<Rightarrow> bool" where
  "node_links s \<longleftrightarrow> (\<forall>i < NPROC. \<forall>n. p_qnode (k_proc s i) = Some n \<longrightarrow> qn_proc (k_node s n) = Some i)"

definition put_in_ok :: "proc \<Rightarrow> bool" where
  "put_in_ok p \<longleftrightarrow> layer_ok (p_priority p) \<and> (p_put_in p = - 1 \<or> layer_ok (p_put_in p)) \<and>
     (p_state p \<in> {UNUSED, EMBRYO} \<longrightarrow> p_put_in p = - 1) \<and>
     (p_state p \<notin> {UNUSED, EMBRYO} \<longrightarrow> p_qnode p \<noteq> None)"

definition queued :: "'e kst \<Rightarrow> (nat \<Rightarrow> nat list) \<Rightarrow> bool" where
  "queued s qs \<longleftrightarrow> (\<forall>l < NLAYER. \<forall>n. n \<in> set (qs l) \<longleftrightarrow>
     (\<exists>i < NPROC. p_qnode (k_proc s i) = Some n \<and> p_put_in (k_proc s i) = int l))"

definition sched_inv :: "'e kst \<Rightarrow> (nat \<Rightarrow> nat list) \<Rightarrow> bool" where
  "sched_inv s qs \<longleftrightarrow> mlq s qs \<and> node_links s \<and> (\<forall>i < NPROC. put_in_ok (k_proc s i)) \<and> queued s qs"

definition slice_over :: "'e kst \<Rightarrow> nat \<Rightarrow> bool" where
  "slice_over s i \<longleftrightarrow> (\<exists>n. p_qnode (k_proc s i) = Some n \<and>
     qn_ticks (k_node s n) = word_of_int (time_slice (p_put_in (k_proc s i))))"

text \<open>The processes that \<open>refresh_q\<close> takes out of the layer they are in.\<close>

definition leaves :: "'e kst \<Rightarrow> nat \<Rightarrow> bool" where
  "leaves s i \<longleftrightarrow> (let p = k_proc s i in p_put_in p \<noteq> - 1 \<and>
     (p_state p \<noteq> RUNNABLE \<or> p_put_in p \<noteq> p_priority p \<or> slice_over s i))"

text \<open>The list-level effect of \<open>refresh_q\<close> on one process.\<close>

definition q_move :: "'e kst \<Rightarrow> nat \<Rightarrow> (nat \<Rightarrow> nat list) \<Rightarrow> nat \<Rightarrow> nat list" where
  "q_move s i qs =
     (let p = k_proc s i; n = the (p_qnode p);
          qs1 = (if leaves s i then qs(nat (p_put_in p) := remove1 n (qs (nat (p_put_in p)))) else qs)
      in if p_state p = RUNNABLE \<and> (p_put_in p = - 1 \<or> leaves s i)
         then qs1(nat (p_priority p) := qs1 (nat (p_priority p)) @ [n]) else qs1)"

text \<open>A refreshed process: in the layer of its priority when runnable, in none otherwise.\<close>

definition settled :: "proc \<Rightarrow> bool" where
  "settled p \<longleftrightarrow> p_put_in p = (if p_state p = RUNNABLE then p_priority p else - 1)"

lemma layer_ok_neq [simp]: "layer_ok l \<Longrightarrow> l \<noteq> - 1"
  by (auto simp: layer_ok_def)

lemma layer_ok_cchar [simp]: "layer_ok l \<Longrightarrow> cchar l = l"
  by (auto simp: layer_ok_def)

lemma node_of_unique:
  assumes "node_links s" "i < NPROC" "j < NPROC" "p_qnode (k_proc s i) = Some n"
    "p_qnode (k_proc s j) = Some n"
  shows "i = j"
  using assms unfolding node_links_def by (metis option.inject)

text \<open>Where the node of process \<open>i\<close> is.\<close>

lemma queued_at:
  assumes "sched_inv s qs" "i < NPROC" "p_qnode (k_proc s i) = Some n" "l < NLAYER"
  shows "n \<in> set (qs l) \<longleftrightarrow> p_put_in (k_proc s i) = int l"
proof -
  have "j = i" if "j < NPROC" "p_qnode (k_proc s j) = Some n" for j
    using assms that node_of_unique [of s i j n] by (simp add: sched_inv_def)
  moreover have "n \<in> set (qs l) \<longleftrightarrow>
      (\<exists>j < NPROC. p_qnode (k_proc s j) = Some n \<and> p_put_in (k_proc s j) = int l)"
    using assms(1,4) by (simp add: sched_inv_def queued_def)
  ultimately show ?thesis using assms(2,3) by blast
qed

lemma queued_update:
  assumes "sched_inv s qs" "i < NPROC" "p_qnode (k_proc s i) = Some n"
    and "\<And>j. j < NPROC \<Longrightarrow> j \<noteq> i \<Longrightarrow> k_proc t j = k_proc s j"
    and "p_qnode (k_proc t i) = Some n"
    and "\<And>l m. l < NLAYER \<Longrightarrow> m \<noteq> n \<Longrightarrow> m \<in> set (qs' l) \<longleftrightarrow> m \<in> set (qs l)"
    and "\<And>l. l < NLAYER \<Longrightarrow> n \<in> set (qs' l) \<longleftrightarrow> p_put_in (k_proc t i) = int l"
  shows "queued t qs'"
  unfolding queued_def
proof (intro allI impI)
  fix l m assume l: "l < NLAYER"
  show "m \<in> set (qs' l) \<longleftrightarrow>
    (\<exists>j < NPROC. p_qnode (k_proc t j) = Some m \<and> p_put_in (k_proc t j) = int l)"
  proof (cases "m = n")
    case True
    have links: "node_links s" using assms(1) by (simp add: sched_inv_def)
    have "j = i" if "j < NPROC" "p_qnode (k_proc t j) = Some n" for j
    proof (rule ccontr)
      assume "j \<noteq> i"
      with assms(4) [OF that(1)] that(2) have "p_qnode (k_proc s j) = Some n" by simp
      with node_of_unique [OF links assms(2) that(1) assms(3)] \<open>j \<noteq> i\<close> show False by simp
    qed
    then show ?thesis using True assms(2,5) assms(7) [OF l] by blast
  next
    case False
    have "m \<in> set (qs' l) \<longleftrightarrow>
        (\<exists>j < NPROC. p_qnode (k_proc s j) = Some m \<and> p_put_in (k_proc s j) = int l)"
      using assms(6) [OF l False] assms(1) l by (simp add: sched_inv_def queued_def)
    moreover have "p_qnode (k_proc s j) = Some m \<and> p_put_in (k_proc s j) = int l \<longleftrightarrow>
        p_qnode (k_proc t j) = Some m \<and> p_put_in (k_proc t j) = int l" if "j < NPROC" for j
      by (cases "j = i") (use assms(3) assms(4) [OF that] assms(5) False in simp_all)
    ultimately show ?thesis by blast
  qed
qed

section \<open>One process\<close>

text \<open>Taking the node of process \<open>i\<close> out of its layer.\<close>

lemma refresh_rm:
  assumes inv: "sched_inv s qs" and i: "i < NPROC" and n: "p_qnode (k_proc s i) = Some n"
    and lay: "layer_ok (p_put_in (k_proc s i))"
    and hd: "hd (qs (nat (p_put_in (k_proc s i)))) = n"
  shows "\<exists>u. rm_from_q (Some n) (p_put_in (k_proc s i)) s = Inr u \<and>
     mlq u (qs(nat (p_put_in (k_proc s i)) := remove1 n (qs (nat (p_put_in (k_proc s i)))))) \<and>
     (\<forall>l < NLAYER. n \<notin> set ((qs(nat (p_put_in (k_proc s i)) :=
         remove1 n (qs (nat (p_put_in (k_proc s i)))))) l))"
proof -
  let ?pi = "p_put_in (k_proc s i)"
  have m: "mlq s qs" using inv by (simp add: sched_inv_def)
  have "rm_safe n (qs (nat ?pi))" using hd by (simp add: rm_safe_def)
  from mq.rem_ok [OF m lay this] obtain u where u: "rm_from_q (Some n) ?pi s = Inr u"
    "mlq u (qs(nat ?pi := remove1 n (qs (nat ?pi))))" by blast
  have "distinct (qs (nat ?pi))" using mq.Q_distinct [OF m] lay by simp
  moreover have "n \<notin> set (qs l)" if "l < NLAYER" "l \<noteq> nat ?pi" for l
    using queued_at [OF inv i n that(1)] lay that(2) by (auto simp: layer_ok_int)
  ultimately show ?thesis using u by auto
qed

text \<open>Putting the node of process \<open>i\<close>, which is in no layer, at the end of its priority's layer.\<close>

lemma refresh_put:
  assumes m: "mlq u qs" and own: "qn_proc (k_node u n) = Some i"
    and fresh: "\<forall>l < NLAYER. n \<notin> set (qs l)" and pri: "layer_ok pri"
  shows "\<exists>t. put_tail_q (Some n) pri u = Inr t \<and> mlq t (qs(nat pri := qs (nat pri) @ [n])) \<and>
     (\<forall>j. j \<noteq> i \<longrightarrow> k_proc t j = k_proc u j) \<and>
     k_proc t i = (k_proc u i)\<lparr>p_qtail := p_qtail (k_proc t i)\<rparr> \<and>
     (\<forall>m. qn_proc (k_node t m) = qn_proc (k_node u m)) \<and>
     (\<forall>m. m \<noteq> n \<longrightarrow> qn_ticks (k_node t m) = qn_ticks (k_node u m))"
proof -
  have "qn_proc (k_node u n) \<noteq> None" using own by simp
  from mq.enq_ok [OF m pri fresh this] obtain t
    where t: "put_tail_q (Some n) pri u = Inr t" "mlq t (qs(nat pri := qs (nat pri) @ [n]))" by blast
  from put_tail_q_frame [OF t(1) own] t show ?thesis by auto
qed

lemma put_in_ok_upd:
  assumes "put_in_ok p" "l = - 1 \<or> layer_ok l" "p_state p \<in> {UNUSED, EMBRYO} \<longrightarrow> l = - 1"
  shows "put_in_ok (p\<lparr>p_put_in := l, p_qtail := f\<rparr>)"
  using assms by (auto simp: put_in_ok_def)

text \<open>A refresh changes a process in its queue bookkeeping only.\<close>

definition moved_only :: "proc \<Rightarrow> proc \<Rightarrow> bool" where
  "moved_only p q \<longleftrightarrow> q = p\<lparr>p_put_in := p_put_in q, p_qtail := p_qtail q\<rparr>"

lemma moved_only_refl [simp]: "moved_only p p"
  by (simp add: moved_only_def)

lemma moved_only_upd: "moved_only p (p\<lparr>p_put_in := l, p_qtail := f\<rparr>)"
  by (simp add: moved_only_def)

lemma moved_only_fields:
  assumes "moved_only p q"
  shows "p_state q = p_state p" "p_priority q = p_priority p" "p_qnode q = p_qnode p"
    "p_pid q = p_pid p" "p_parent q = p_parent p" "p_chan q = p_chan p" "p_killed q = p_killed p"
    "p_ticks q = p_ticks p"
  using assms unfolding moved_only_def by (cases p; cases q; simp)+

text \<open>What one step of \<open>refresh_q\<close> achieves for process \<open>i\<close>, and what it leaves alone.\<close>

definition refreshed :: "'e kst \<Rightarrow> nat \<Rightarrow> (nat \<Rightarrow> nat list) \<Rightarrow> 'e kst \<Rightarrow> bool" where
  "refreshed s i qs t \<longleftrightarrow> sched_inv t (q_move s i qs) \<and> settled (k_proc t i) \<and>
     (\<forall>j. j \<noteq> i \<longrightarrow> k_proc t j = k_proc s j) \<and>
     moved_only (k_proc s i) (k_proc t i) \<and>
     (\<forall>m. p_qnode (k_proc s i) \<noteq> Some m \<longrightarrow> qn_ticks (k_node t m) = qn_ticks (k_node s m)) \<and>
     k_lock t = k_lock s \<and> k_cpu t = k_cpu s"

lemma refreshedI:
  assumes inv: "sched_inv s qs" and i: "i < NPROC" and n: "p_qnode (k_proc s i) = Some n"
    and m: "mlq t qs'" and qs': "q_move s i qs = qs'"
    and others: "\<And>j. j \<noteq> i \<Longrightarrow> k_proc t j = k_proc s j"
    and self: "k_proc t i = (k_proc s i)\<lparr>p_put_in := l, p_qtail := f\<rparr>"
    and l: "l = (if p_state (k_proc s i) = RUNNABLE then p_priority (k_proc s i) else - 1)"
    and nodes: "\<And>k. qn_proc (k_node t k) = qn_proc (k_node s k)"
    and ticks: "\<And>k. k \<noteq> n \<Longrightarrow> qn_ticks (k_node t k) = qn_ticks (k_node s k)"
    and frame: "k_lock t = k_lock s" "k_cpu t = k_cpu s"
    and mem: "\<And>k x. k < NLAYER \<Longrightarrow> x \<noteq> n \<Longrightarrow> x \<in> set (qs' k) \<longleftrightarrow> x \<in> set (qs k)"
    and memn: "\<And>k. k < NLAYER \<Longrightarrow> n \<in> set (qs' k) \<longleftrightarrow> l = int k"
  shows "refreshed s i qs t"
proof -
  have ok: "put_in_ok (k_proc s j)" if "j < NPROC" for j using inv that by (simp add: sched_inv_def)
  have "put_in_ok (k_proc t j)" if "j < NPROC" for j
  proof (cases "j = i")
    case True
    have "put_in_ok ((k_proc s i)\<lparr>p_put_in := l, p_qtail := f\<rparr>)"
      using ok [OF i] l by (intro put_in_ok_upd) (auto simp: put_in_ok_def)
    with True self show ?thesis by simp
  next
    case False
    with others [OF False] ok [OF that] show ?thesis by simp
  qed
  moreover have "node_links t"
    unfolding node_links_def
  proof (intro allI impI)
    fix j k assume j: "j < NPROC" "p_qnode (k_proc t j) = Some k"
    then have "p_qnode (k_proc s j) = Some k" by (cases "j = i") (use others self in simp_all)
    with inv j nodes [of k] show "qn_proc (k_node t k) = Some j"
      by (simp add: sched_inv_def node_links_def)
  qed
  moreover have "queued t qs'"
    by (rule queued_update [OF inv i n]) (use others self n mem memn in simp_all)
  ultimately have "sched_inv t qs'" using m by (simp add: sched_inv_def)
  moreover have "settled (k_proc t i)" using self l by (simp add: settled_def)
  ultimately show ?thesis
    using qs' others self n ticks frame moved_only_upd unfolding refreshed_def by auto
qed

text \<open>A process that stopped running leaves its layer.\<close>

lemma refresh_one_leave:
  assumes inv: "sched_inv s qs" and i: "i < NPROC" and st: "p_state (k_proc s i) \<noteq> RUNNABLE"
    and pi: "p_put_in (k_proc s i) \<noteq> - 1"
    and hd: "\<And>n. p_qnode (k_proc s i) = Some n \<Longrightarrow> hd (qs (nat (p_put_in (k_proc s i)))) = n"
  shows "\<exists>t. refresh_one i s = Inr t \<and> refreshed s i qs t"
proof -
  let ?p = "k_proc s i"
  have ok: "put_in_ok ?p" using inv i by (simp add: sched_inv_def)
  with pi have lay: "layer_ok (p_put_in ?p)" and used: "p_state ?p \<noteq> UNUSED"
    and nn: "p_qnode ?p \<noteq> None" by (auto simp: put_in_ok_def)
  then obtain n where n: "p_qnode ?p = Some n" by blast
  let ?qs' = "qs(nat (p_put_in ?p) := remove1 n (qs (nat (p_put_in ?p))))"
  from refresh_rm [OF inv i n lay hd [OF n]] obtain u where
    u: "rm_from_q (Some n) (p_put_in ?p) s = Inr u" and mu: "mlq u ?qs'"
    and gone: "\<forall>l < NLAYER. n \<notin> set (?qs' l)" by blast
  note fr = rm_from_q_frame [OF u]
  let ?t = "upd_proc i (\<lambda>p. p\<lparr>p_put_in := - 1\<rparr>) u"
  have "refreshed s i qs ?t"
  proof (rule refreshedI [OF inv i n, where l = "- 1" and f = "p_qtail ?p" and qs' = ?qs'])
    show "mlq ?t ?qs'" using mu by (simp add: mlq_def queue_at_def)
    show "q_move s i qs = ?qs'" using n st pi by (auto simp: q_move_def leaves_def)
    show "x \<in> set (?qs' k) \<longleftrightarrow> x \<in> set (qs k)" if "x \<noteq> n" for k x using that by auto
  qed (use fr gone st in \<open>simp_all\<close>)
  with u n st pi used show ?thesis by (auto simp: refresh_one_def)
qed

text \<open>A runnable process outside the queues enters the layer of its priority at the end.\<close>

lemma refresh_one_enter:
  assumes inv: "sched_inv s qs" and i: "i < NPROC" and st: "p_state (k_proc s i) = RUNNABLE"
    and pi: "p_put_in (k_proc s i) = - 1"
  shows "\<exists>t. refresh_one i s = Inr t \<and> refreshed s i qs t"
proof -
  let ?p = "k_proc s i"
  have ok: "put_in_ok ?p" using inv i by (simp add: sched_inv_def)
  with st have lay: "layer_ok (p_priority ?p)" and nn: "p_qnode ?p \<noteq> None"
    by (auto simp: put_in_ok_def)
  then obtain n where n: "p_qnode ?p = Some n" by blast
  have m: "mlq s qs" and own: "qn_proc (k_node s n) = Some i"
    using inv i n by (auto simp: sched_inv_def node_links_def)
  have out: "\<forall>l < NLAYER. n \<notin> set (qs l)" using queued_at [OF inv i n] pi by auto
  let ?qs' = "qs(nat (p_priority ?p) := qs (nat (p_priority ?p)) @ [n])"
  from refresh_put [OF m own out lay] obtain u where
    u: "put_tail_q (Some n) (p_priority ?p) s = Inr u" and mu: "mlq u ?qs'" by blast
  note fr = put_tail_q_frame [OF u own]
  let ?t = "upd_proc i (\<lambda>p. p\<lparr>p_put_in := cchar (p_priority p)\<rparr>) u"
  have "refreshed s i qs ?t"
  proof (rule refreshedI [OF inv i n, where l = "p_priority ?p" and f = "p_qtail (k_proc u i)" and qs' = ?qs'])
    show "mlq ?t ?qs'" using mu by (simp add: mlq_def queue_at_def)
    show "q_move s i qs = ?qs'" using n st pi by (auto simp: q_move_def leaves_def)
    show "x \<in> set (?qs' k) \<longleftrightarrow> x \<in> set (qs k)" if "x \<noteq> n" for k x using that by auto
    show "n \<in> set (?qs' k) \<longleftrightarrow> p_priority ?p = int k" if "k < NLAYER" for k
      using out lay that by (auto simp: layer_ok_def)
    show "k_proc ?t i = ?p\<lparr>p_put_in := p_priority ?p, p_qtail := p_qtail (k_proc u i)\<rparr>"
      using fr(9) lay by simp
  qed (use fr st in \<open>simp_all\<close>)
  with u n st pi show ?thesis by (auto simp: refresh_one_def)
qed

text \<open>
  A runnable process whose priority changed or whose time slice is over goes to the end of the
  layer of its priority.
\<close>

lemma refresh_one_rotate:
  assumes inv: "sched_inv s qs" and i: "i < NPROC" and st: "p_state (k_proc s i) = RUNNABLE"
    and lv: "leaves s i"
    and hd: "\<And>n. p_qnode (k_proc s i) = Some n \<Longrightarrow> hd (qs (nat (p_put_in (k_proc s i)))) = n"
  shows "\<exists>t. refresh_one i s = Inr t \<and> refreshed s i qs t"
proof -
  let ?p = "k_proc s i"
  have ok: "put_in_ok ?p" using inv i by (simp add: sched_inv_def)
  have pi: "p_put_in ?p \<noteq> - 1" using lv by (simp add: leaves_def)
  with ok st have lay: "layer_ok (p_put_in ?p)" "layer_ok (p_priority ?p)"
    and nn: "p_qnode ?p \<noteq> None" by (auto simp: put_in_ok_def)
  then obtain n where n: "p_qnode ?p = Some n" by blast
  let ?qs1 = "qs(nat (p_put_in ?p) := remove1 n (qs (nat (p_put_in ?p))))"
  let ?qs' = "?qs1(nat (p_priority ?p) := ?qs1 (nat (p_priority ?p)) @ [n])"
  from refresh_rm [OF inv i n lay(1) hd [OF n]] obtain u where
    u: "rm_from_q (Some n) (p_put_in ?p) s = Inr u" and mu: "mlq u ?qs1"
    and gone: "\<forall>l < NLAYER. n \<notin> set (?qs1 l)" by blast
  note fru = rm_from_q_frame [OF u]
  have own: "qn_proc (k_node u n) = Some i"
    using inv i n fru(7) by (simp add: sched_inv_def node_links_def)
  from refresh_put [OF mu own gone lay(2)] obtain v where
    v: "put_tail_q (Some n) (p_priority ?p) u = Inr v" and mv: "mlq v ?qs'" by blast
  note frv = put_tail_q_frame [OF v own]
  let ?t = "upd_proc i (\<lambda>p. p\<lparr>p_put_in := cchar (p_priority p)\<rparr>) v"
  have "refreshed s i qs ?t"
  proof (rule refreshedI [OF inv i n, where l = "p_priority ?p" and f = "p_qtail (k_proc v i)" and qs' = ?qs'])
    show "mlq ?t ?qs'" using mv by (simp add: mlq_def queue_at_def)
    show "q_move s i qs = ?qs'" using n st lv by (simp add: q_move_def)
    show "x \<in> set (?qs' k) \<longleftrightarrow> x \<in> set (qs k)" if "x \<noteq> n" for k x using that by auto
    show "n \<in> set (?qs' k) \<longleftrightarrow> p_priority ?p = int k" if "k < NLAYER" for k
      using gone lay(2) that by (auto simp: layer_ok_def)
    show "k_proc ?t i = ?p\<lparr>p_put_in := p_priority ?p, p_qtail := p_qtail (k_proc v i)\<rparr>"
      using frv(9) fru(2) lay(2) by simp
  qed (use fru frv st in \<open>simp_all\<close>)
  moreover have "refresh_one i s = Inr ?t"
  proof (cases "p_put_in ?p = p_priority ?p")
    case True
    with lv st n have "qn_ticks (k_node s n) = word_of_int (time_slice (p_put_in ?p))"
      by (auto simp: leaves_def slice_over_def)
    with True st pi n u v show ?thesis by (simp add: refresh_one_def)
  next
    case False
    with st pi n u v show ?thesis by (simp add: refresh_one_def)
  qed
  ultimately show ?thesis by blast
qed

lemma refresh_one_stay:
  assumes inv: "sched_inv s qs" and i: "i < NPROC" and lv: "\<not> leaves s i"
    and "p_state (k_proc s i) = RUNNABLE \<longrightarrow> p_put_in (k_proc s i) \<noteq> - 1"
  shows "refresh_one i s = Inr s \<and> refreshed s i qs s"
proof -
  let ?p = "k_proc s i"
  have ok: "put_in_ok ?p" using inv i by (simp add: sched_inv_def)
  have "q_move s i qs = qs" using assms(4) lv by (auto simp: q_move_def)
  moreover have "settled ?p" using assms(4) lv by (auto simp: settled_def leaves_def)
  ultimately have "refreshed s i qs s" using inv by (simp add: refreshed_def)
  moreover have "refresh_one i s = Inr s"
    using assms(4) lv ok
    by (auto simp: refresh_one_def leaves_def slice_over_def put_in_ok_def split: option.splits)
  ultimately show ?thesis by blast
qed

lemma refresh_one_ok:
  assumes inv: "sched_inv s qs" and i: "i < NPROC"
    and hd: "\<And>n. leaves s i \<Longrightarrow> p_qnode (k_proc s i) = Some n \<Longrightarrow>
               hd (qs (nat (p_put_in (k_proc s i)))) = n"
  shows "\<exists>t. refresh_one i s = Inr t \<and> refreshed s i qs t"
proof (cases "leaves s i")
  case True
  then have "p_put_in (k_proc s i) \<noteq> - 1" by (simp add: leaves_def)
  then show ?thesis
    using True refresh_one_leave [OF inv i] refresh_one_rotate [OF inv i] hd by blast
next
  case False
  then show ?thesis
    using refresh_one_stay [OF inv i] refresh_one_enter [OF inv i] by blast
qed

section \<open>The whole refresh\<close>

text \<open>
  The situation in which \<open>rm_from_q\<close> is only asked to do what it can do: every process that has to
  leave its layer is at the front of it. This is so on one CPU as long as nobody calls \<open>setpri\<close>:
  only the process that just ran changes state or uses up its slice, and it ran as the front.
\<close>

definition leavers_front :: "'e kst \<Rightarrow> (nat \<Rightarrow> nat list) \<Rightarrow> nat set \<Rightarrow> bool" where
  "leavers_front s qs I \<longleftrightarrow> (\<forall>i\<in>I. leaves s i \<longrightarrow>
     (\<forall>n. p_qnode (k_proc s i) = Some n \<longrightarrow> hd (qs (nat (p_put_in (k_proc s i)))) = n))"

text \<open>The process fields that decide a move, for the processes not yet visited.\<close>

lemma refreshed_leaves:
  assumes r: "refreshed s i qs t" and inv: "sched_inv s qs" and ij: "i < NPROC" "j < NPROC" "j \<noteq> i"
  shows "leaves t j = leaves s j" "k_proc t j = k_proc s j"
proof -
  show eq: "k_proc t j = k_proc s j" using r ij(3) by (simp add: refreshed_def)
  have "qn_ticks (k_node t m) = qn_ticks (k_node s m)" if "p_qnode (k_proc s j) = Some m" for m
  proof -
    have "node_links s" using inv by (simp add: sched_inv_def)
    with node_of_unique [of s i j m] ij that have "p_qnode (k_proc s i) \<noteq> Some m" by blast
    with r show ?thesis by (simp add: refreshed_def)
  qed
  with eq show "leaves t j = leaves s j" by (auto simp: leaves_def slice_over_def)
qed

lemma hd_q_move:
  assumes inv: "sched_inv s qs" and ij: "i < NPROC" "j < NPROC" "j \<noteq> i" and l: "layer_ok l"
    and n: "p_qnode (k_proc s j) = Some n" "n \<in> set (qs (nat l))" "hd (qs (nat l)) = n"
  shows "hd (q_move s i qs (nat l)) = n"
proof -
  obtain ys where ys: "qs (nat l) = n # ys" using n(2,3) by (cases "qs (nat l)") auto
  have "p_qnode (k_proc s i) \<noteq> Some n"
    using inv node_of_unique [of s i j n] ij n(1) unfolding sched_inv_def by blast
  moreover have "p_qnode (k_proc s i) \<noteq> None" if "leaves s i"
    using inv ij(1) that by (auto simp: sched_inv_def put_in_ok_def leaves_def)
  ultimately have ne: "the (p_qnode (k_proc s i)) \<noteq> n" if "leaves s i"
    using that by auto
  show ?thesis using ys ne by (auto simp: q_move_def)
qed

lemma refresh_prefix:
  assumes "sched_inv s qs" "leavers_front s qs {k..<NPROC}" "k \<le> NPROC"
  shows "\<exists>t. rfold refresh_one [k..<NPROC] s = Inr t \<and>
     sched_inv t (fold (q_move s) [k..<NPROC] qs) \<and>
     (\<forall>i < NPROC. k \<le> i \<longrightarrow> settled (k_proc t i)) \<and>
     (\<forall>i < NPROC. moved_only (k_proc s i) (k_proc t i)) \<and>
     (\<forall>i < k. k_proc t i = k_proc s i) \<and> k_lock t = k_lock s \<and> k_cpu t = k_cpu s"
  using assms
proof (induction "NPROC - k" arbitrary: k s qs)
  case 0
  then have "k = NPROC" by simp
  then show ?case using "0.prems" by simp
next
  case (Suc d)
  then have k: "k < NPROC" by simp
  then have split: "[k..<NPROC] = k # [Suc k..<NPROC]" by (rule upt_conv_Cons)
  obtain u where u: "refresh_one k s = Inr u" and r: "refreshed s k qs u"
    using refresh_one_ok [OF Suc.prems(1) k] Suc.prems(2) k
    unfolding leavers_front_def by (metis atLeastLessThan_iff order_refl)
  have inv: "sched_inv u (q_move s k qs)" using r by (simp add: refreshed_def)
  have same: "leaves u j = leaves s j" "k_proc u j = k_proc s j" if "j < NPROC" "j \<noteq> k" for j
    using refreshed_leaves [OF r Suc.prems(1) k that] by auto
  have moves: "q_move u j = q_move s j" if "j < NPROC" "j \<noteq> k" for j
    using same [OF that] by (simp add: q_move_def fun_eq_iff)
  have front: "leavers_front u (q_move s k qs) {Suc k..<NPROC}"
    unfolding leavers_front_def
  proof (intro ballI impI allI)
    fix j n assume j: "j \<in> {Suc k..<NPROC}" and lv: "leaves u j" and n: "p_qnode (k_proc u j) = Some n"
    then have jk: "j < NPROC" "j \<noteq> k" by auto
    let ?l = "p_put_in (k_proc s j)"
    have lay: "layer_ok ?l" using Suc.prems(1) jk lv same [OF jk]
      by (auto simp: sched_inv_def put_in_ok_def leaves_def)
    have n': "p_qnode (k_proc s j) = Some n" using n same [OF jk] by simp
    have "hd (qs (nat ?l)) = n" using Suc.prems(2) j lv n' same [OF jk]
      unfolding leavers_front_def by simp
    moreover have "n \<in> set (qs (nat ?l))"
      using queued_at [OF Suc.prems(1) jk(1) n', of "nat ?l"] lay by (simp add: layer_ok_def)
    ultimately have "hd (q_move s k qs (nat ?l)) = n"
      using hd_q_move [OF Suc.prems(1) k jk lay n'] by blast
    then show "hd (q_move s k qs (nat (p_put_in (k_proc u j)))) = n" using same [OF jk] by simp
  qed
  have "d = NPROC - Suc k" "Suc k \<le> NPROC" using Suc.hyps(2) k by simp_all
  from Suc.hyps(1) [OF this(1) inv front this(2)] obtain t where
    t: "rfold refresh_one [Suc k..<NPROC] u = Inr t"
    and it: "sched_inv t (fold (q_move u) [Suc k..<NPROC] (q_move s k qs))"
    and st: "\<forall>i < NPROC. Suc k \<le> i \<longrightarrow> settled (k_proc t i)"
    and pt: "\<forall>i < NPROC. moved_only (k_proc u i) (k_proc t i)"
    and lt: "\<forall>i < Suc k. k_proc t i = k_proc u i"
    and ft: "k_lock t = k_lock u" "k_cpu t = k_cpu u" by auto
  have "fold (q_move u) [Suc k..<NPROC] (q_move s k qs) = fold (q_move s) [k..<NPROC] qs"
    unfolding split using moves by (auto intro: fold_cong)
  moreover have "settled (k_proc t i)" if "i < NPROC" "k \<le> i" for i
    using that st lt r by (cases "i = k") (auto simp: refreshed_def)
  moreover have "moved_only (k_proc s i) (k_proc t i)" if i: "i < NPROC" for i
  proof (cases "i = k")
    case True
    with lt r show ?thesis by (auto simp: refreshed_def)
  next
    case False
    with pt i same [OF i] show ?thesis by auto
  qed
  moreover have "k_proc t i = k_proc s i" if "i < k" for i
    using lt that same(2) [of i] k by simp
  ultimately show ?case using t it u ft r split by (auto simp: refreshed_def)
qed

theorem refresh_q_ok:
  assumes "sched_inv s qs" "leavers_front s qs {0..<NPROC}"
  shows "\<exists>t. refresh_q s = Inr t \<and> sched_inv t (fold (q_move s) [0..<NPROC] qs) \<and>
     (\<forall>i < NPROC. settled (k_proc t i)) \<and>
     (\<forall>i < NPROC. moved_only (k_proc s i) (k_proc t i)) \<and>
     k_lock t = k_lock s \<and> k_cpu t = k_cpu s"
  using refresh_prefix [of s qs 0] assms by (auto simp: refresh_q_def)

section \<open>Choosing the next process\<close>

text \<open>The chosen process is charged a tick, in its statistics and in its node's time slice.\<close>

definition charge :: "nat \<Rightarrow> nat \<Rightarrow> nat \<Rightarrow> 'e kst \<Rightarrow> 'e kst" where
  "charge l i n s = upd_node n (\<lambda>q. q\<lparr>qn_ticks := qn_ticks q + 1\<rparr>)
     (upd_proc i (\<lambda>p. p\<lparr>p_ticks := (p_ticks p)(l := cint (p_ticks p l + 1))\<rparr>) s)"

definition first_pick :: "'e kst \<Rightarrow> (nat \<Rightarrow> nat list) \<Rightarrow> nat list \<Rightarrow> nat \<Rightarrow> nat \<Rightarrow> nat \<Rightarrow> bool" where
  "first_pick s qs ls i l n \<longleftrightarrow>
     (\<exists>us vs. ls = us @ l # vs \<and> (\<forall>k \<in> set us. qs k = [])) \<and> qs l \<noteq> [] \<and> n = hd (qs l) \<and>
     i < NPROC \<and> p_qnode (k_proc s i) = Some n \<and> pick_loop ls s = Inr (Some i, charge l i n s)"

lemma first_pick_Cons:
  assumes "first_pick s qs ls i l n" "qs k = []" "pick_loop (k # ls) s = pick_loop ls s"
  shows "first_pick s qs (k # ls) i l n"
proof -
  from assms(1) obtain us vs where "ls = us @ l # vs" "\<forall>j \<in> set us. qs j = []"
    by (auto simp: first_pick_def)
  then have "k # ls = (k # us) @ l # vs \<and> (\<forall>j \<in> set (k # us). qs j = [])" using assms(2) by simp
  then have "\<exists>us vs. k # ls = us @ l # vs \<and> (\<forall>j \<in> set us. qs j = [])" by blast
  then show ?thesis using assms(1,3) by (simp add: first_pick_def)
qed

lemma pick_loop_first:
  assumes q: "\<forall>l \<in> set ls. l < NLAYER" and m: "mlq s qs" and links: "node_links s"
    and own: "\<forall>l n. l < NLAYER \<longrightarrow> n \<in> set (qs l) \<longrightarrow> (\<exists>i < NPROC. p_qnode (k_proc s i) = Some n)"
  shows "(\<forall>l \<in> set ls. qs l = []) \<and> pick_loop ls s = Inr (None, s) \<or> (\<exists>i l n. first_pick s qs ls i l n)"
  using q
proof (induction ls)
  case Nil
  then show ?case by simp
next
  case (Cons l ls)
  have ql: "queue_at s l (qs l)" using m Cons.prems by (simp add: mlq_def)
  show ?case
  proof (cases "qs l")
    case Nil
    then have head: "pick_loop (l # ls) s = pick_loop ls s" using queue_at_head [OF ql] by simp
    have "(\<forall>k \<in> set ls. qs k = []) \<and> pick_loop ls s = Inr (None, s) \<or> (\<exists>i l n. first_pick s qs ls i l n)"
      using Cons by simp
    then show ?thesis
    proof
      assume "\<exists>i l n. first_pick s qs ls i l n"
      then show ?thesis using first_pick_Cons [where qs = qs and k = l] Nil head by blast
    qed (use Nil head in simp)
  next
    case qn: (Cons n ns)
    then have hn: "k_head s l = Some n" using queue_at_head [OF ql] by simp
    obtain i where i: "i < NPROC" "p_qnode (k_proc s i) = Some n"
      using own Cons.prems qn by (metis list.set_intros(1))
    then have "qn_proc (k_node s n) = Some i" using links by (simp add: node_links_def)
    with hn i have "pick_loop (l # ls) s = Inr (Some i, charge l i n s)"
      by (simp add: charge_def)
    moreover have "l # ls = [] @ l # ls \<and> (\<forall>k \<in> set []. qs k = [])" by simp
    then have "\<exists>us vs. l # ls = us @ l # vs \<and> (\<forall>k \<in> set us. qs k = [])" by blast
    ultimately have "first_pick s qs (l # ls) i l n"
      using i qn unfolding first_pick_def by simp
    then show ?thesis by blast
  qed
qed

text \<open>In a refreshed state a layer holds exactly the runnable processes of that priority.\<close>

lemma settled_layer:
  assumes inv: "sched_inv s qs" and st: "\<forall>i < NPROC. settled (k_proc s i)"
    and i: "i < NPROC" "p_qnode (k_proc s i) = Some n" and l: "l < NLAYER"
  shows "n \<in> set (qs l) \<longleftrightarrow> p_state (k_proc s i) = RUNNABLE \<and> p_priority (k_proc s i) = int l"
  using queued_at [OF inv i l] st i(1) by (auto simp: settled_def split: if_splits)

lemma settled_empty:
  assumes inv: "sched_inv s qs" and st: "\<forall>i < NPROC. settled (k_proc s i)"
    and i: "i < NPROC" and l: "l < NLAYER" and e: "qs l = []" and r: "p_state (k_proc s i) = RUNNABLE"
  shows "p_priority (k_proc s i) \<noteq> int l"
proof
  assume "p_priority (k_proc s i) = int l"
  moreover obtain n where "p_qnode (k_proc s i) = Some n"
    using inv i r by (auto simp: sched_inv_def put_in_ok_def)
  ultimately have "n \<in> set (qs l)" using settled_layer [OF inv st i _ l] r by simp
  with e show False by simp
qed

definition can_lock :: "'e kst \<Rightarrow> bool" where
  "can_lock s \<longleftrightarrow> sl_locked (k_lock s) = 0 \<and> cpu_ok (k_cpu s) \<and> c_ncli (k_cpu s) = 0"

lemma k_acquire_ok:
  assumes "can_lock s"
  shows "\<exists>lk c. k_acquire s = Inr (s\<lparr>k_lock := lk, k_cpu := c\<rparr>) \<and> holds lk c \<and> cpu_ok c \<and>
     c_ncli c = 1 \<and> \<not> c_if c \<and> c_proc c = c_proc (k_cpu s)"
proof -
  have a: "cpu_ok (k_cpu s)" "c_ncli (k_cpu s) < 999" "sl_locked (k_lock s) = 0"
    using assms by (simp_all add: can_lock_def)
  from acquire_free [OF a] obtain lk c where lc: "acquire (k_lock s) (k_cpu s) = Inr (lk, c)" by blast
  with acquire_holds [OF a(1,2) lc] assms show ?thesis by (auto simp: k_acquire_def can_lock_def)
qed

lemma sched_inv_lock [simp]:
  "sched_inv (s\<lparr>k_lock := lk\<rparr>) qs = sched_inv s qs"
  "leavers_front (s\<lparr>k_lock := lk\<rparr>) qs I = leavers_front s qs I"
  "q_move (s\<lparr>k_lock := lk\<rparr>) = q_move s"
  by (simp_all add: sched_inv_def mlq_def queue_at_def node_links_def queued_def leavers_front_def
      leaves_def slice_over_def q_move_def fun_eq_iff)

lemma sched_inv_cpu [simp]:
  "sched_inv (s\<lparr>k_cpu := c\<rparr>) qs = sched_inv s qs"
  "leavers_front (s\<lparr>k_cpu := c\<rparr>) qs I = leavers_front s qs I"
  "q_move (s\<lparr>k_cpu := c\<rparr>) = q_move s"
  by (simp_all add: sched_inv_def mlq_def queue_at_def node_links_def queued_def leavers_front_def
      leaves_def slice_over_def q_move_def fun_eq_iff)

text \<open>
  The policy: \<open>scheduler_pick\<close> chooses no process exactly when none is runnable, and otherwise a
  runnable one such that no runnable process has a higher priority, the first of its layer.
\<close>

lemma rev_layers: "rev [0..<NLAYER] = [3, 2, 1, 0]"
  by (simp add: upt_rec)

lemma can_lock_sti:
  "can_lock s \<Longrightarrow> can_lock (s\<lparr>k_cpu := (k_cpu s)\<lparr>c_if := True\<rparr>\<rparr>)"
  by (simp add: can_lock_def cpu_ok_def)

lemma refreshed_pick:
  assumes inv: "sched_inv s qs" and st: "\<forall>i < NPROC. settled (k_proc s i)"
  shows "(\<forall>i < NPROC. p_state (k_proc s i) \<noteq> RUNNABLE) \<and>
      pick_loop (rev [0..<NLAYER]) s = Inr (None, s) \<or>
    (\<exists>i l n. i < NPROC \<and> l < NLAYER \<and> p_state (k_proc s i) = RUNNABLE \<and>
       p_priority (k_proc s i) = int l \<and> p_qnode (k_proc s i) = Some n \<and> n = hd (qs l) \<and>
       (\<forall>j < NPROC. p_state (k_proc s j) = RUNNABLE \<longrightarrow> p_priority (k_proc s j) \<le> int l) \<and>
       pick_loop (rev [0..<NLAYER]) s = Inr (Some i, charge l i n s))"
proof -
  have m: "mlq s qs" and links: "node_links s" using inv by (simp_all add: sched_inv_def)
  have own: "\<forall>l n. l < NLAYER \<longrightarrow> n \<in> set (qs l) \<longrightarrow> (\<exists>i < NPROC. p_qnode (k_proc s i) = Some n)"
    using inv unfolding sched_inv_def queued_def by blast
  have pri: "0 \<le> p_priority (k_proc s i) \<and> p_priority (k_proc s i) < 4" if "i < NPROC" for i
    using inv that by (simp add: sched_inv_def put_in_ok_def layer_ok_def)
  have ls: "\<forall>l \<in> set (rev [0..<NLAYER]). l < NLAYER" by simp
  from pick_loop_first [OF ls m links own] consider
    (none) "\<forall>l \<in> set (rev [0..<NLAYER]). qs l = []" "pick_loop (rev [0..<NLAYER]) s = Inr (None, s)"
  | (some) i l n where "first_pick s qs (rev [0..<NLAYER]) i l n"
    by blast
  then show ?thesis
  proof cases
    case none
    have "p_state (k_proc s i) \<noteq> RUNNABLE" if "i < NPROC" for i
    proof
      assume r: "p_state (k_proc s i) = RUNNABLE"
      let ?l = "nat (p_priority (k_proc s i))"
      have "?l < NLAYER" "p_priority (k_proc s i) = int ?l" using pri [OF that] by auto
      moreover have "qs ?l = []" using none(1) \<open>?l < NLAYER\<close> by simp
      ultimately show False using settled_empty [OF inv st that _ _ r] by blast
    qed
    with none(2) show ?thesis by blast
  next
    case some
    then obtain us vs where sp: "rev [0..<NLAYER] = us @ l # vs" "\<forall>k \<in> set us. qs k = []"
      and ne: "qs l \<noteq> []" and n: "n = hd (qs l)" and i: "i < NPROC" "p_qnode (k_proc s i) = Some n"
      and pk: "pick_loop (rev [0..<NLAYER]) s = Inr (Some i, charge l i n s)"
      unfolding first_pick_def by blast
    have "l \<in> set (rev [0..<NLAYER])" unfolding sp(1) by simp
    then have l: "l < NLAYER" using ls by blast
    have ups: "qs k = []" if "l < k" "k < NLAYER" for k
    proof -
      have "k \<in> set us" using sp(1) that unfolding rev_layers by (auto simp: Cons_eq_append_conv)
      with sp(2) show ?thesis by blast
    qed
    have "n \<in> set (qs l)" using ne n by simp
    with settled_layer [OF inv st i l]
    have "p_state (k_proc s i) = RUNNABLE" "p_priority (k_proc s i) = int l" by simp_all
    moreover have "p_priority (k_proc s j) \<le> int l"
      if j: "j < NPROC" "p_state (k_proc s j) = RUNNABLE" for j
    proof (rule ccontr)
      assume "\<not> p_priority (k_proc s j) \<le> int l"
      moreover have "p_priority (k_proc s j) = int (nat (p_priority (k_proc s j)))" using pri [OF j(1)] by simp
      ultimately have "l < nat (p_priority (k_proc s j))" "nat (p_priority (k_proc s j)) < NLAYER"
        using pri [OF j(1)] by auto
      with ups settled_empty [OF inv st j(1) _ _ j(2)] pri [OF j(1)] show False by fastforce
    qed
    ultimately show ?thesis using l n i pk by blast
  qed
qed

lemma k_release_ok:
  assumes "holds (k_lock s) (k_cpu s)" "cpu_ok (k_cpu s)" "c_ncli (k_cpu s) = 1"
  shows "\<exists>lk c. k_release s = Inr (s\<lparr>k_lock := lk, k_cpu := c\<rparr>) \<and> sl_locked lk = 0 \<and>
     c_ncli c = 0 \<and> c_proc c = c_proc (k_cpu s) \<and> cpu_ok c"
proof -
  let ?lk = "(k_lock s)\<lparr>sl_pcs := (sl_pcs (k_lock s))[0 := 0], sl_cpu := None, sl_locked := 0\<rparr>"
  have "release (k_lock s) (k_cpu s) = rbind (popcli (k_cpu s)) (\<lambda>c. Inr (?lk, c))"
    using release_held [of "k_cpu s" "k_lock s"] assms by simp
  moreover obtain c where "popcli (k_cpu s) = Inr c" "c_ncli c = 0" "c_proc c = c_proc (k_cpu s)"
    using assms by (cases "c_intena (k_cpu s)") (auto simp: popcli_def cpu_ok_def)
  moreover have "cpu_ok c" using \<open>c_ncli c = 0\<close> by (simp add: cpu_ok_def)
  ultimately show ?thesis by (intro exI [of _ ?lk] exI [of _ c]) (simp add: k_release_def)
qed

lemma charge_fields [simp]:
  "k_lock (charge l i n s) = k_lock s" "k_cpu (charge l i n s) = k_cpu s"
  "p_state (k_proc (charge l i n s) j) = p_state (k_proc s j)"
  "p_ticks (k_proc (charge l i n s) i) l = cint (p_ticks (k_proc s i) l + 1)"
  by (simp_all add: charge_def)

text \<open>What a call of \<open>scheduler_pick\<close> promises about its choice \<open>po\<close>.\<close>

definition good_pick :: "'e kst \<Rightarrow> (nat \<Rightarrow> nat list) \<Rightarrow> nat option \<Rightarrow> 'e kst \<Rightarrow> bool" where
  "good_pick s qs po t \<longleftrightarrow>
     (case po of
        None \<Rightarrow> (\<forall>i < NPROC. p_state (k_proc s i) \<noteq> RUNNABLE) \<and> sl_locked (k_lock t) = 0
      | Some i \<Rightarrow> i < NPROC \<and> p_state (k_proc s i) = RUNNABLE \<and>
          (\<forall>j < NPROC. p_state (k_proc s j) = RUNNABLE \<longrightarrow> p_priority (k_proc s j) \<le> p_priority (k_proc s i)) \<and>
          p_qnode (k_proc s i) = Some (hd (qs (nat (p_priority (k_proc s i))))) \<and>
          p_state (k_proc t i) = RUNNING \<and> c_proc (k_cpu t) = Some i \<and> holds (k_lock t) (k_cpu t) \<and>
          (\<forall>j < NPROC. j \<noteq> i \<longrightarrow> p_state (k_proc t j) = p_state (k_proc s j)))"

lemma scheduler_pick_good:
  assumes lock: "can_lock s" and inv: "sched_inv s qs" and front: "leavers_front s qs {0..<NPROC}"
  shows "\<exists>po t. scheduler_pick ops s = Inr (po, t) \<and> good_pick s (fold (q_move s) [0..<NPROC] qs) po t"
proof -
  let ?s0 = "s\<lparr>k_cpu := (k_cpu s)\<lparr>c_if := True\<rparr>\<rparr>" and ?qs = "fold (q_move s) [0..<NPROC] qs"
  obtain lk c where a: "k_acquire ?s0 = Inr (?s0\<lparr>k_lock := lk, k_cpu := c\<rparr>)" and held: "holds lk c" "cpu_ok c" "c_ncli c = 1"
    using k_acquire_ok [OF can_lock_sti [OF lock]] by blast
  let ?s1 = "?s0\<lparr>k_lock := lk, k_cpu := c\<rparr>"
  obtain u where u: "refresh_q ?s1 = Inr u" and iu: "sched_inv u ?qs"
    and st: "\<forall>i < NPROC. settled (k_proc u i)"
    and mv: "\<forall>i < NPROC. moved_only (k_proc s i) (k_proc u i)" and fr: "k_lock u = lk" "k_cpu u = c"
    using refresh_q_ok [of ?s1 qs] inv front by auto
  have same: "p_state (k_proc u i) = p_state (k_proc s i)" "p_priority (k_proc u i) = p_priority (k_proc s i)"
    "p_qnode (k_proc u i) = p_qnode (k_proc s i)" if "i < NPROC" for i
    using moved_only_fields mv that by blast+
  from refreshed_pick [OF iu st] show ?thesis
  proof
    assume none: "(\<forall>i < NPROC. p_state (k_proc u i) \<noteq> RUNNABLE) \<and> pick_loop (rev [0..<NLAYER]) u = Inr (None, u)"
    obtain lk' c' where "k_release u = Inr (u\<lparr>k_lock := lk', k_cpu := c'\<rparr>)" "sl_locked lk' = 0"
      using k_release_ok [of u] held fr by auto
    then show ?thesis using a u none same by (auto simp: scheduler_pick_def good_pick_def)
  next
    assume "\<exists>i l n. i < NPROC \<and> l < NLAYER \<and> p_state (k_proc u i) = RUNNABLE \<and>
       p_priority (k_proc u i) = int l \<and> p_qnode (k_proc u i) = Some n \<and> n = hd (?qs l) \<and>
       (\<forall>j < NPROC. p_state (k_proc u j) = RUNNABLE \<longrightarrow> p_priority (k_proc u j) \<le> int l) \<and>
       pick_loop (rev [0..<NLAYER]) u = Inr (Some i, charge l i n u)"
    then obtain i l n where i: "i < NPROC" "p_state (k_proc u i) = RUNNABLE" "p_priority (k_proc u i) = int l"
      "p_qnode (k_proc u i) = Some n" "n = hd (?qs l)"
      and top: "\<forall>j < NPROC. p_state (k_proc u j) = RUNNABLE \<longrightarrow> p_priority (k_proc u j) \<le> int l"
      and pk: "pick_loop (rev [0..<NLAYER]) u = Inr (Some i, charge l i n u)" by blast
    let ?v = "charge l i n u"
    let ?t = "upd_proc i (\<lambda>pr. pr\<lparr>p_state := RUNNING\<rparr>)
       (ext1 (op_switchuvm ops i) (?v\<lparr>k_cpu := (k_cpu ?v)\<lparr>c_proc := Some i\<rparr>\<rparr>))"
    have "scheduler_pick ops s = Inr (Some i, ?t)" using a u pk by (simp add: scheduler_pick_def)
    moreover have "good_pick s ?qs (Some i) ?t"
      using i top same held fr by (simp add: good_pick_def ext1_def holds_def)
    ultimately show ?thesis by blast
  qed
qed

end
