(* ===== verification/ProcState.thy ===== *)
theory ProcState
  imports ProcSched
begin

text \<open>
  The life of a process as a state machine: the critical sections of \<open>proc.c\<close> as labelled steps
  of one CPU, the state changes each may make, and the invariants of the process table that hold
  in every reachable state, whatever the calling processes and the other components do.
\<close>

section \<open>What the locking code leaves alone\<close>

definition same_table :: "'e kst \<Rightarrow> 'e kst \<Rightarrow> bool" where
  "same_table s t \<longleftrightarrow> k_proc t = k_proc s \<and> k_node t = k_node s \<and> k_head t = k_head s \<and>
     k_tail t = k_tail s \<and> k_initproc t = k_initproc s \<and> k_nextpid t = k_nextpid s \<and>
     c_proc (k_cpu t) = c_proc (k_cpu s)"

lemma same_table_refl [simp]: "same_table s s"
  by (simp add: same_table_def)

lemma popcli_proc: "popcli c = Inr c' \<Longrightarrow> c_proc c' = c_proc c"
  by (auto simp: popcli_def split: if_splits)

lemma holding_proc: "holding lk c = Inr (h, c') \<Longrightarrow> c_proc c' = c_proc c"
  by (auto simp: holding_def rbind_eq_Inr dest: popcli_proc)

lemma acquire_proc: "acquire lk c = Inr (lk', c') \<Longrightarrow> c_proc c' = c_proc c"
  by (auto simp: acquire_def rbind_eq_Inr dest!: holding_proc split: if_splits)

lemma release_proc: "release lk c = Inr (lk', c') \<Longrightarrow> c_proc c' = c_proc c"
  by (auto simp: release_def rbind_eq_Inr dest!: holding_proc popcli_proc split: if_splits)

lemma k_acquire_table: "k_acquire s = Inr t \<Longrightarrow> same_table s t"
  by (auto simp: k_acquire_def rbind_eq_Inr same_table_def dest: acquire_proc)

lemma k_release_table: "k_release s = Inr t \<Longrightarrow> same_table s t"
  by (auto simp: k_release_def rbind_eq_Inr same_table_def dest: release_proc)

lemma myproc_table: "myproc s = Inr (p, t) \<Longrightarrow> same_table s t \<and> c_proc (k_cpu s) = p"
  by (auto simp: myproc_def rbind_eq_Inr same_table_def dest: popcli_proc)

lemma myproc_deref_table: "myproc_deref s = Inr (i, t) \<Longrightarrow> same_table s t \<and> c_proc (k_cpu s) = Some i"
  by (auto simp: myproc_deref_def rbind_eq_Inr split: option.splits dest!: myproc_table)

lemma sched_enter_table: "sched_enter s = Inr (ie, t) \<Longrightarrow> same_table s t"
  by (auto simp: sched_enter_def rbind_eq_Inr same_table_def split: if_splits option.splits
      dest!: myproc_table holding_proc)

lemma sched_resume_table [simp]: "same_table s (sched_resume ie s)"
  by (simp add: sched_resume_def same_table_def)

lemmas table_rules = k_acquire_table k_release_table myproc_table myproc_deref_table sched_enter_table

lemma same_table_trans: "same_table s t \<Longrightarrow> same_table t u \<Longrightarrow> same_table s u"
  by (simp add: same_table_def)

lemma same_tableD:
  assumes "same_table s t"
  shows "k_proc t = k_proc s" "k_node t = k_node s" "k_initproc t = k_initproc s"
    "k_nextpid t = k_nextpid s" "c_proc (k_cpu t) = c_proc (k_cpu s)"
  using assms by (simp_all add: same_table_def)

lemma ext1_fields [simp]:
  "k_proc (ext1 f s) = k_proc s" "k_node (ext1 f s) = k_node s" "k_cpu (ext1 f s) = k_cpu s"
  "k_nextpid (ext1 f s) = k_nextpid s" "k_initproc (ext1 f s) = k_initproc s"
  "k_lock (ext1 f s) = k_lock s"
  by (simp_all add: ext1_def)

lemma ext2_fields:
  assumes "ext2 f s = (r, t)"
  shows "k_proc t = k_proc s" "k_node t = k_node s" "k_cpu t = k_cpu s"
    "k_nextpid t = k_nextpid s" "k_initproc t = k_initproc s" "k_lock t = k_lock s"
  using assms by (auto simp: ext2_def split: prod.splits)

section \<open>What an operation does to the table\<close>

text \<open>
  \<open>table_step s t C N\<close>: outside the processes \<open>C\<close> nothing of the process table changes, and
  outside the nodes \<open>N\<close> no queue node changes its owner or its allocation.
\<close>

definition only_procs :: "nat set \<Rightarrow> 'e kst \<Rightarrow> 'e kst \<Rightarrow> bool" where
  "only_procs C s t \<longleftrightarrow> (\<forall>i. i \<notin> C \<longrightarrow> k_proc t i = k_proc s i) \<and> c_proc (k_cpu t) = c_proc (k_cpu s)"

definition nodes_same :: "'e kst \<Rightarrow> 'e kst \<Rightarrow> bool" where
  "nodes_same s t \<longleftrightarrow> (\<forall>n. qn_proc (k_node t n) = qn_proc (k_node s n) \<and>
     qn_inuse (k_node t n) = qn_inuse (k_node s n))"

text \<open>The fields of a process that identify it: what most operations never change.\<close>

definition same_id :: "proc \<Rightarrow> proc \<Rightarrow> bool" where
  "same_id p q \<longleftrightarrow> p_pid q = p_pid p \<and> p_qnode q = p_qnode p"

lemma fold_upd_proc:
  "distinct is \<Longrightarrow> k_proc (fold (\<lambda>i. upd_proc i f) is s) j =
     (if j \<in> set is then f (k_proc s j) else k_proc s j)"
  by (induction "is" arbitrary: s) auto

lemma fold_upd_proc_other:
  "k_node (fold (\<lambda>i. upd_proc i f) is s) = k_node s"
  "k_cpu (fold (\<lambda>i. upd_proc i f) is s) = k_cpu s"
  "k_lock (fold (\<lambda>i. upd_proc i f) is s) = k_lock s"
  "k_nextpid (fold (\<lambda>i. upd_proc i f) is s) = k_nextpid s"
  "k_initproc (fold (\<lambda>i. upd_proc i f) is s) = k_initproc s"
  by (induction "is" arbitrary: s) auto

lemma wakeup1_proc: "k_proc (wakeup1 ch s) i = (if i < NPROC then wake_one ch (k_proc s i) else k_proc s i)"
  by (simp add: wakeup1_def fold_upd_proc)

lemma wakeup1_fields [simp]:
  "k_node (wakeup1 ch s) = k_node s" "k_cpu (wakeup1 ch s) = k_cpu s" "k_lock (wakeup1 ch s) = k_lock s"
  "k_nextpid (wakeup1 ch s) = k_nextpid s" "k_initproc (wakeup1 ch s) = k_initproc s"
  by (simp_all add: wakeup1_def fold_upd_proc_other)

lemma wake_one_fields [simp]:
  "p_pid (wake_one ch p) = p_pid p" "p_qnode (wake_one ch p) = p_qnode p"
  "p_parent (wake_one ch p) = p_parent p" "p_chan (wake_one ch p) = p_chan p"
  "p_priority (wake_one ch p) = p_priority p" "p_put_in (wake_one ch p) = p_put_in p"
  by (simp_all add: wake_one_def)

lemma find_proc_Some: "find_proc P s = Some i \<Longrightarrow> i < NPROC \<and> P (k_proc s i)"
  by (auto simp: find_proc_def find_Some_iff)

lemma find_proc_first: "find_proc P s = Some i \<Longrightarrow> j < i \<Longrightarrow> \<not> P (k_proc s j)"
  by (auto simp: find_proc_def find_Some_iff)

lemma find_proc_None: "find_proc P s = None \<longleftrightarrow> (\<forall>i < NPROC. \<not> P (k_proc s i))"
  by (auto simp: find_proc_def find_None_iff)

section \<open>Transitions\<close>

text \<open>
  The state changes of a process. \<open>fork2\<close> is one step here: it takes a slot from \<open>UNUSED\<close> through
  \<open>EMBRYO\<close> to \<open>RUNNABLE\<close>, or back to \<open>UNUSED\<close> when memory runs out.
\<close>

definition trans_ok :: "procstate \<Rightarrow> procstate \<Rightarrow> bool" where
  "trans_ok a b \<longleftrightarrow> a = b \<or> (a, b) \<in>
     {(UNUSED, RUNNABLE), (RUNNABLE, RUNNING), (RUNNING, RUNNABLE), (RUNNING, SLEEPING),
      (RUNNING, ZOMBIE), (SLEEPING, RUNNABLE), (ZOMBIE, UNUSED)}"

definition all_trans :: "'e kst \<Rightarrow> 'e kst \<Rightarrow> bool" where
  "all_trans s t \<longleftrightarrow> (\<forall>i. trans_ok (p_state (k_proc s i)) (p_state (k_proc t i)))"

definition running :: "'e kst \<Rightarrow> nat \<Rightarrow> bool" where
  "running s i \<longleftrightarrow> c_proc (k_cpu s) = Some i \<and> p_state (k_proc s i) = RUNNING"

lemma trans_ok_refl [simp]: "trans_ok a a"
  by (simp add: trans_ok_def)

lemma all_trans_table: "same_table s s' \<Longrightarrow> same_table t' t \<Longrightarrow> all_trans s' t' \<Longrightarrow> all_trans s t"
  by (simp add: all_trans_def same_table_def)

lemma wake_one_trans: "trans_ok (p_state p) (p_state (wake_one ch p))"
  by (simp add: wake_one_def trans_ok_def)

lemma yield_enter_trans:
  assumes "yield_enter s = Inr (ie, t)" "running s i"
  shows "all_trans s t" "p_state (k_proc t i) = RUNNABLE" "\<And>j. j \<noteq> i \<Longrightarrow> k_proc t j = k_proc s j"
    "c_proc (k_cpu t) = c_proc (k_cpu s)" "k_node t = k_node s" "k_nextpid t = k_nextpid s"
    "same_id (k_proc s i) (k_proc t i)"
proof -
  from assms obtain s1 j s2 where a: "same_table s s1" "same_table s1 s2" "c_proc (k_cpu s1) = Some j"
    "same_table (upd_proc j (\<lambda>p. p\<lparr>p_state := RUNNABLE\<rparr>) s2) t"
    by (auto simp: yield_enter_def rbind_eq_Inr dest!: table_rules)
  moreover have "j = i" using a(1,3) assms(2) by (simp add: running_def same_table_def)
  ultimately show "all_trans s t" "p_state (k_proc t i) = RUNNABLE"
    "\<And>j. j \<noteq> i \<Longrightarrow> k_proc t j = k_proc s j" "c_proc (k_cpu t) = c_proc (k_cpu s)"
    "k_node t = k_node s" "k_nextpid t = k_nextpid s" "same_id (k_proc s i) (k_proc t i)"
    using assms(2) by (auto simp: all_trans_def same_table_def trans_ok_def running_def same_id_def)
qed

lemma sleep_enter_trans:
  assumes "sleep_enter ch lk s = Inr (lk', ie, t)" "running s i"
  shows "all_trans s t" "p_state (k_proc t i) = SLEEPING" "p_chan (k_proc t i) = ch"
    "\<And>j. j \<noteq> i \<Longrightarrow> k_proc t j = k_proc s j"
    "c_proc (k_cpu t) = c_proc (k_cpu s)" "k_node t = k_node s" "k_nextpid t = k_nextpid s"
    "same_id (k_proc s i) (k_proc t i)"
proof -
  from assms(1) obtain s1 j s2 where a: "same_table s s1" "c_proc (k_cpu s) = Some j" "same_table s1 s2"
    "same_table (upd_proc j (\<lambda>p. p\<lparr>p_chan := ch, p_state := SLEEPING\<rparr>) s2) t"
  proof (cases lk)
    case (LkOther l)
    with assms(1) obtain s1 j s2 l' c where "same_table s s1" "c_proc (k_cpu s) = Some j"
      "same_table s1 s2" "release l (k_cpu s2) = Inr (l', c)"
      "same_table (upd_proc j (\<lambda>p. p\<lparr>p_chan := ch, p_state := SLEEPING\<rparr>) (s2\<lparr>k_cpu := c\<rparr>)) t"
      by (auto simp: sleep_enter_def rbind_eq_Inr split: option.splits dest!: table_rules)
    moreover have "same_table s1 (s2\<lparr>k_cpu := c\<rparr>)"
      using calculation(3,4) by (auto simp: same_table_def dest: release_proc)
    ultimately show ?thesis using that by blast
  qed (auto simp: sleep_enter_def rbind_eq_Inr split: option.splits dest!: table_rules
       intro: that [OF _ _ same_table_refl])
  moreover have "j = i" using a(2) assms(2) by (simp add: running_def)
  ultimately show "all_trans s t" "p_state (k_proc t i) = SLEEPING" "p_chan (k_proc t i) = ch"
    "\<And>j. j \<noteq> i \<Longrightarrow> k_proc t j = k_proc s j" "c_proc (k_cpu t) = c_proc (k_cpu s)"
    "k_node t = k_node s" "k_nextpid t = k_nextpid s" "same_id (k_proc s i) (k_proc t i)"
    using assms(2) by (auto simp: all_trans_def same_table_def trans_ok_def running_def same_id_def)
qed

lemma wakeup_trans:
  assumes "wakeup ch s = Inr t"
  shows "all_trans s t" "\<And>i. k_proc t i = (if i < NPROC then wake_one ch (k_proc s i) else k_proc s i)"
    "c_proc (k_cpu t) = c_proc (k_cpu s)" "k_node t = k_node s" "k_nextpid t = k_nextpid s"
proof -
  from assms obtain s1 where a: "same_table s s1" "same_table (wakeup1 ch s1) t"
    by (auto simp: wakeup_def rbind_eq_Inr dest!: table_rules)
  then show p: "k_proc t i = (if i < NPROC then wake_one ch (k_proc s i) else k_proc s i)" for i
    by (simp add: same_table_def wakeup1_proc)
  from p show "all_trans s t" using wake_one_trans by (simp add: all_trans_def)
  show "c_proc (k_cpu t) = c_proc (k_cpu s)" "k_node t = k_node s" "k_nextpid t = k_nextpid s"
    using a by (simp_all add: same_table_def)
qed

text \<open>\<open>kill\<close> marks the first process with the pid, and makes it runnable if it sleeps.\<close>

definition kill_one :: "proc \<Rightarrow> proc" where
  "kill_one p = p\<lparr>p_killed := True, p_state := (if p_state p = SLEEPING then RUNNABLE else p_state p)\<rparr>"

lemma find_proc_table: "same_table s t \<Longrightarrow> find_proc P t = find_proc P s"
  by (simp add: find_proc_def same_table_def)

lemma kill_cases:
  assumes "kill pid s = Inr (v, t)"
  shows "v = - 1 \<and> find_proc (\<lambda>p. p_pid p = pid) s = None \<and> same_table s t \<or>
    (\<exists>i. v = 0 \<and> find_proc (\<lambda>p. p_pid p = pid) s = Some i \<and> same_table (upd_proc i kill_one s) t)"
proof -
  from assms obtain s1 where s1: "same_table s s1" and
    k: "(case find_proc (\<lambda>p. p_pid p = pid) s1 of
         None \<Rightarrow> rbind (k_release s1) (\<lambda>s. Inr (- 1, s))
       | Some i \<Rightarrow>
           let s = upd_proc i (\<lambda>p. p\<lparr>p_killed := True\<rparr>) s1;
               s = (if p_state (k_proc s i) = SLEEPING
                    then upd_proc i (\<lambda>p. p\<lparr>p_state := RUNNABLE\<rparr>) s else s)
           in rbind (k_release s) (\<lambda>s. Inr (0, s))) = Inr (v, t)"
    unfolding kill_def rbind_eq_Inr by (blast dest: k_acquire_table)
  show ?thesis
  proof (cases "find_proc (\<lambda>p. p_pid p = pid) s")
    case None
    with k s1 have "v = - 1" "same_table s1 t"
      by (auto simp: find_proc_table [OF s1] rbind_eq_Inr dest: k_release_table)
    with None s1 show ?thesis by (blast intro: same_table_trans)
  next
    case (Some i)
    let ?u = "upd_proc i (\<lambda>p. p\<lparr>p_killed := True\<rparr>) s1"
    let ?w = "if p_state (k_proc ?u i) = SLEEPING then upd_proc i (\<lambda>p. p\<lparr>p_state := RUNNABLE\<rparr>) ?u else ?u"
    from k Some have "v = 0" "same_table ?w t"
      by (auto simp: find_proc_table [OF s1] rbind_eq_Inr dest: k_release_table)
    moreover have "same_table (upd_proc i kill_one s) ?w"
      using s1 by (auto simp: same_table_def kill_one_def fun_eq_iff)
    ultimately show ?thesis using Some by (blast intro: same_table_trans)
  qed
qed

lemma kill_trans:
  assumes "kill pid s = Inr (v, t)"
  shows "all_trans s t" "same_id (k_proc s i) (k_proc t i)"
    "c_proc (k_cpu t) = c_proc (k_cpu s)" "k_node t = k_node s" "k_nextpid t = k_nextpid s"
    "p_state (k_proc t i) = RUNNING \<longleftrightarrow> p_state (k_proc s i) = RUNNING"
proof -
  have step: "trans_ok (p_state p) (p_state (kill_one p))" "same_id p (kill_one p)"
    "p_state (kill_one p) = RUNNING \<longleftrightarrow> p_state p = RUNNING" for p
    by (simp_all add: trans_ok_def kill_one_def same_id_def)
  have id: "same_id p p" for p by (simp add: same_id_def)
  from kill_cases [OF assms] obtain S where p: "\<And>j. k_proc t j = (if j \<in> S then kill_one (k_proc s j) else k_proc s j)"
    and f: "c_proc (k_cpu t) = c_proc (k_cpu s)" "k_node t = k_node s" "k_nextpid t = k_nextpid s"
  proof (elim disjE exE conjE, goal_cases)
    case 1
    then show ?case using that [of "{}"] by (simp add: same_table_def)
  next
    case (2 k)
    then show ?case using that [of "{k}"] by (simp add: same_table_def)
  qed
  show "all_trans s t" "same_id (k_proc s i) (k_proc t i)"
    "p_state (k_proc t i) = RUNNING \<longleftrightarrow> p_state (k_proc s i) = RUNNING"
    using step id by (simp_all add: all_trans_def p)
  show "c_proc (k_cpu t) = c_proc (k_cpu s)" "k_node t = k_node s" "k_nextpid t = k_nextpid s" by (fact f)+
qed

section \<open>Exit and wait\<close>

text \<open>\<open>woken s u\<close>: at most some sleeping processes became runnable, and nobody changed identity.\<close>

definition woken :: "'e kst \<Rightarrow> 'e kst \<Rightarrow> bool" where
  "woken s u \<longleftrightarrow> (\<forall>i. same_id (k_proc s i) (k_proc u i) \<and>
       (p_state (k_proc u i) = p_state (k_proc s i) \<or>
        p_state (k_proc s i) = SLEEPING \<and> p_state (k_proc u i) = RUNNABLE)) \<and>
     k_node u = k_node s \<and> k_nextpid u = k_nextpid s \<and> k_initproc u = k_initproc s \<and>
     c_proc (k_cpu u) = c_proc (k_cpu s)"

lemma woken_refl [simp]: "woken s s"
  by (simp add: woken_def same_id_def)

lemma woken_trans: "woken s t \<Longrightarrow> woken t u \<Longrightarrow> woken s u"
  unfolding woken_def same_id_def by (metis procstate.distinct(17))

lemma woken_table: "same_table s t \<Longrightarrow> woken s t"
  by (simp add: woken_def same_table_def same_id_def)

lemma woken_ext1: "woken s (ext1 f s)"
  by (simp add: woken_def same_id_def)

lemma woken_upd:
  assumes "\<And>p. p_state (f p) = p_state p \<and> p_pid (f p) = p_pid p \<and> p_qnode (f p) = p_qnode p"
  shows "woken s (upd_proc i f s)"
  using assms by (simp add: woken_def same_id_def)

lemma woken_wakeup1: "woken s (wakeup1 ch s)"
  by (simp add: woken_def same_id_def wakeup1_proc wake_one_def)

lemma woken_fold: "(\<And>i u. woken u (f i u)) \<Longrightarrow> woken s (fold f is s)"
  by (induction "is" arbitrary: s) (auto intro: woken_trans)

lemma woken_close_ofile: "woken s (close_ofile ops cur fd s)"
proof (cases "p_ofile (k_proc s cur) fd")
  case (Some f)
  have "woken (ext1 (op_fileclose ops f) s)
      (upd_proc cur (\<lambda>p. p\<lparr>p_ofile := (p_ofile p)(fd := None)\<rparr>) (ext1 (op_fileclose ops f) s))"
    by (rule woken_upd) simp
  with Some woken_ext1 [of s] show ?thesis by (auto simp: close_ofile_def intro: woken_trans)
qed (simp add: close_ofile_def)

lemma woken_reparent: "woken s (reparent cur i s)"
proof -
  have "woken s (upd_proc i (\<lambda>p. p\<lparr>p_parent := k_initproc s\<rparr>) s)" by (rule woken_upd) simp
  with woken_wakeup1 show ?thesis by (auto simp: reparent_def intro: woken_trans)
qed

lemma exit_enter_woken:
  assumes "exit_enter ops s = Inr (ie, t)" "c_proc (k_cpu s) = Some i"
  shows "\<exists>u. woken s u \<and> same_table (upd_proc i (\<lambda>p. p\<lparr>p_state := ZOMBIE\<rparr>) u) t \<and> k_initproc s \<noteq> Some i"
proof -
  obtain s1 where s1: "myproc s = Inr (Some i, s1)" "same_table s s1" and ni: "Some i \<noteq> k_initproc s1"
  proof -
    obtain po s1 where m: "myproc s = Inr (po, s1)" and "po \<noteq> k_initproc s1"
      using assms(1) by (auto simp: exit_enter_def rbind_eq_Inr split: if_splits)
    with myproc_table [OF m] assms(2) that show ?thesis by simp
  qed
  let ?a = "fold (close_ofile ops i) [0..<NOFILE] s1"
  let ?b = "ext1 (op_begin_op ops) ?a"
  let ?c = "ext1 (op_iput ops (p_cwd (k_proc ?b i))) ?b"
  let ?d = "ext1 (op_end_op ops) ?c"
  let ?e = "upd_proc i (\<lambda>p. p\<lparr>p_cwd := None\<rparr>) ?d"
  have "woken s1 ?a" by (rule woken_fold) (rule woken_close_ofile)
  moreover have "woken ?a ?d" by (blast intro: woken_ext1 woken_trans)
  moreover have "woken ?d ?e" by (rule woken_upd) simp
  ultimately have e: "woken s ?e" using s1(2) woken_table woken_trans by blast
  from assms(1) s1 ni obtain f where f: "k_acquire ?e = Inr f" and
    t: "sched_enter (upd_proc i (\<lambda>p. p\<lparr>p_state := ZOMBIE\<rparr>)
        (fold (reparent i) [0..<NPROC] (wakeup1 (proc_chan (p_parent (k_proc f i))) f))) = Inr (ie, t)"
    by (auto simp: exit_enter_def rbind_eq_Inr)
  let ?g = "wakeup1 (proc_chan (p_parent (k_proc f i))) f"
  have "woken f ?g" by (rule woken_wakeup1)
  moreover have "woken ?g (fold (reparent i) [0..<NPROC] ?g)" by (rule woken_fold) (rule woken_reparent)
  moreover have "woken ?e f" using f by (blast intro: woken_table k_acquire_table)
  ultimately have "woken s (fold (reparent i) [0..<NPROC] ?g)" using e woken_trans by blast
  with t sched_enter_table ni s1(2) show ?thesis by (metis same_tableD(3))
qed

lemma exit_enter_trans:
  assumes "exit_enter ops s = Inr (ie, t)" "running s i"
  shows "all_trans s t" "p_state (k_proc t i) = ZOMBIE"
    "\<And>j. same_id (k_proc s j) (k_proc t j)" "c_proc (k_cpu t) = c_proc (k_cpu s)"
    "k_node t = k_node s" "k_nextpid t = k_nextpid s"
    "\<And>j. p_state (k_proc t j) = RUNNING \<Longrightarrow> p_state (k_proc s j) = RUNNING"
proof -
  have "c_proc (k_cpu s) = Some i" using assms(2) by (simp add: running_def)
  from exit_enter_woken [OF assms(1) this] obtain u where u: "woken s u"
    "same_table (upd_proc i (\<lambda>p. p\<lparr>p_state := ZOMBIE\<rparr>) u) t" by blast
  have st: "p_state (k_proc t j) = (if j = i then ZOMBIE else p_state (k_proc u j))" for j
    using u(2) by (simp add: same_table_def)
  have w: "p_state (k_proc u j) = p_state (k_proc s j) \<or>
      p_state (k_proc s j) = SLEEPING \<and> p_state (k_proc u j) = RUNNABLE" for j
    using u(1) by (simp add: woken_def)
  show "all_trans s t" unfolding all_trans_def
  proof
    fix j show "trans_ok (p_state (k_proc s j)) (p_state (k_proc t j))"
      using st [of j] w [of j] assms(2) by (auto simp: trans_ok_def running_def)
  qed
  show "p_state (k_proc t i) = ZOMBIE" using st by simp
  show "p_state (k_proc t j) = RUNNING \<Longrightarrow> p_state (k_proc s j) = RUNNING" for j
    using st [of j] w [of j] by (auto split: if_splits)
  show "same_id (k_proc s j) (k_proc t j)" for j
    using u by (simp add: same_table_def woken_def same_id_def)
  show "c_proc (k_cpu t) = c_proc (k_cpu s)" "k_node t = k_node s" "k_nextpid t = k_nextpid s"
    using u by (simp_all add: same_table_def woken_def)
qed

text \<open>\<open>wait\<close> frees the slot and the queue node of the child it reports.\<close>

definition reaped :: "proc \<Rightarrow> proc" where
  "reaped p = p\<lparr>p_kstack := 0, p_pid := 0, p_parent := None, p_name := [], p_killed := False,
     p_state := UNUSED, p_qnode := None\<rparr>"

lemma reap_table:
  assumes "reap ops i s = Inr (pid, t)"
  shows "\<exists>n. pid = p_pid (k_proc s i) \<and> p_qnode (k_proc s i) = Some n \<and>
    k_proc t = (k_proc s)(i := reaped (k_proc s i)) \<and>
    k_node t = (k_node s)(n := (k_node s n)\<lparr>qn_inuse := False\<rparr>) \<and>
    k_nextpid t = k_nextpid s \<and> c_proc (k_cpu t) = c_proc (k_cpu s)"
  using assms
  by (auto simp: reap_def rbind_eq_Inr reaped_def same_table_def split: option.splits
      dest!: k_release_table)

section \<open>Allocation and fork\<close>

definition free_node :: "'e kst \<Rightarrow> nat option" where
  "free_node s = find (\<lambda>i. \<not> qn_inuse (k_node s i)) [0..<NPROC]"

text \<open>The effect of taking slot \<open>i\<close>: a new pid, and a queue node if one is free.\<close>

definition slot_taken :: "'e kst \<Rightarrow> nat \<Rightarrow> 'e kst \<Rightarrow> bool" where
  "slot_taken s i t \<longleftrightarrow> find_proc (\<lambda>p. p_state p = UNUSED) s = Some i \<and>
     (\<forall>j. j \<noteq> i \<longrightarrow> k_proc t j = k_proc s j) \<and> p_pid (k_proc t i) = k_nextpid s \<and>
     k_nextpid t = cint (k_nextpid s + 1) \<and> c_proc (k_cpu t) = c_proc (k_cpu s) \<and>
     p_parent (k_proc t i) = p_parent (k_proc s i) \<and>
     (case free_node s of
        None \<Rightarrow> p_qnode (k_proc t i) = p_qnode (k_proc s i) \<and> k_node t = k_node s
      | Some n \<Rightarrow> p_qnode (k_proc t i) = Some n \<and>
          k_node t = (k_node s)(n := (k_node s n)\<lparr>qn_inuse := True, qn_proc := Some i, qn_next := None\<rparr>))"

lemma reset_stats_fields [simp]:
  "p_state (reset_stats p) = p_state p" "p_pid (reset_stats p) = p_pid p"
  "p_qnode (reset_stats p) = p_qnode p" "p_parent (reset_stats p) = p_parent p"
  "p_put_in (reset_stats p) = - 1" "p_pgdir (reset_stats p) = p_pgdir p" "p_sz (reset_stats p) = p_sz p"
  "p_kstack (reset_stats p) = p_kstack p"
  by (simp_all add: reset_stats_def upt_rec)

lemma alloc_qnode_effect:
  shows "\<And>j. j \<noteq> i \<Longrightarrow> k_proc (alloc_qnode i s) j = k_proc s j"
    "p_state (k_proc (alloc_qnode i s) i) = p_state (k_proc s i)"
    "p_pid (k_proc (alloc_qnode i s) i) = p_pid (k_proc s i)"
    "p_parent (k_proc (alloc_qnode i s) i) = p_parent (k_proc s i)"
    "k_nextpid (alloc_qnode i s) = k_nextpid s" "k_cpu (alloc_qnode i s) = k_cpu s"
    "case free_node s of
        None \<Rightarrow> p_qnode (k_proc (alloc_qnode i s) i) = p_qnode (k_proc s i) \<and> k_node (alloc_qnode i s) = k_node s
      | Some n \<Rightarrow> p_qnode (k_proc (alloc_qnode i s) i) = Some n \<and>
          k_node (alloc_qnode i s) =
            (k_node s)(n := (k_node s n)\<lparr>qn_inuse := True, qn_proc := Some i, qn_next := None\<rparr>)"
  by (auto simp: alloc_qnode_def free_node_def split: option.splits)

lemma free_node_cong: "k_node s = k_node t \<Longrightarrow> free_node s = free_node t"
  by (simp add: free_node_def)

lemma setup_kstack_fields [simp]:
  "p_state (setup_kstack ops ks p) = p_state p" "p_pid (setup_kstack ops ks p) = p_pid p"
  "p_qnode (setup_kstack ops ks p) = p_qnode p" "p_parent (setup_kstack ops ks p) = p_parent p"
  by (simp_all add: setup_kstack_def)

lemma alloc_found_cases:
  assumes "alloc_found ops i s = Inr (po, t)"
  obtains (nomem) "po = None" "\<And>j. j \<noteq> i \<Longrightarrow> k_proc t j = k_proc s j" "p_state (k_proc t i) = UNUSED"
      "p_qnode (k_proc t i) = p_qnode (k_proc s i)" "p_pid (k_proc t i) = k_nextpid s"
      "k_node t = k_node s" "k_nextpid t = cint (k_nextpid s + 1)" "c_proc (k_cpu t) = c_proc (k_cpu s)"
  | (ok) u where "po = Some i" "t = upd_proc i reset_stats (alloc_qnode i u)"
      "\<And>j. j \<noteq> i \<Longrightarrow> k_proc u j = k_proc s j" "p_state (k_proc u i) = EMBRYO"
      "p_pid (k_proc u i) = k_nextpid s" "p_qnode (k_proc u i) = p_qnode (k_proc s i)"
      "p_parent (k_proc u i) = p_parent (k_proc s i)"
      "k_node u = k_node s" "k_nextpid u = cint (k_nextpid s + 1)" "c_proc (k_cpu u) = c_proc (k_cpu s)"
proof -
  let ?s1 = "(upd_proc i (\<lambda>p. p\<lparr>p_state := EMBRYO, p_pid := k_nextpid s\<rparr>) s)
                \<lparr>k_nextpid := cint (k_nextpid s + 1)\<rparr>"
  obtain s2 where r: "k_release ?s1 = Inr s2"
    using assms by (auto simp: alloc_found_def rbind_eq_Inr)
  then have s2: "same_table ?s1 s2" by (rule k_release_table)
  obtain ks s3 where s3: "ext2 (op_kalloc ops) s2 = (ks, s3)" by (cases "ext2 (op_kalloc ops) s2")
  note e = ext2_fields [OF s3]
  show thesis
  proof (cases "ks = 0")
    case True
    with assms r s3 have "po = None" "t = upd_proc i (\<lambda>p. p\<lparr>p_state := UNUSED\<rparr>) (upd_proc i (\<lambda>p. p\<lparr>p_kstack := ks\<rparr>) s3)"
      by (simp_all add: alloc_found_def)
    with nomem s2 e show thesis by (simp add: same_table_def)
  next
    case False
    let ?u = "upd_proc i (setup_kstack ops ks) (upd_proc i (\<lambda>p. p\<lparr>p_kstack := ks\<rparr>) s3)"
    have "po = Some i" "t = upd_proc i reset_stats (alloc_qnode i ?u)"
      using False assms r s3 by (simp_all add: alloc_found_def)
    then show thesis by (rule ok) (use s2 e in \<open>simp_all add: same_table_def\<close>)
  qed
qed

lemma allocproc_Some:
  assumes "allocproc ops s = Inr (Some i, t)"
  shows "slot_taken s i t \<and> p_state (k_proc t i) = EMBRYO \<and> p_put_in (k_proc t i) = - 1"
proof -
  obtain s1 where s1: "same_table s s1" and
    f: "(case find_proc (\<lambda>p. p_state p = UNUSED) s1 of
         None \<Rightarrow> rbind (k_release s1) (\<lambda>s. Inr (None, s))
       | Some i \<Rightarrow> alloc_found ops i s1) = Inr (Some i, t)"
    using assms unfolding allocproc_def rbind_eq_Inr by (blast dest: k_acquire_table)
  then obtain j where j: "find_proc (\<lambda>p. p_state p = UNUSED) s1 = Some j" "alloc_found ops j s1 = Inr (Some i, t)"
    by (auto simp: rbind_eq_Inr split: option.splits)
  from j(2) show ?thesis
  proof (cases rule: alloc_found_cases)
    case (ok u)
    then have ij: "j = i" by simp
    note a = alloc_qnode_effect [where s = u and i = i]
    have fn: "free_node u = free_node s" using ok(8) s1 by (intro free_node_cong) (simp add: same_table_def)
    have fp: "find_proc (\<lambda>p. p_state p = UNUSED) s = Some i" using j(1) s1 ij by (simp add: find_proc_table)
    have same: "k_proc s1 = k_proc s" "k_node s1 = k_node s" "k_nextpid s1 = k_nextpid s"
      "c_proc (k_cpu s1) = c_proc (k_cpu s)" using s1 by (simp_all add: same_table_def)
    have t: "t = upd_proc i reset_stats (alloc_qnode i u)" using ok(2) ij by simp
    have "slot_taken s i t"
      unfolding slot_taken_def
    proof (intro conjI)
      show "find_proc (\<lambda>p. p_state p = UNUSED) s = Some i" by (rule fp)
      show "\<forall>k. k \<noteq> i \<longrightarrow> k_proc t k = k_proc s k" using a(1) ok(3) ij same(1) by (simp add: t)
      show "p_pid (k_proc t i) = k_nextpid s" using a(3) ok(5) ij same(3) by (simp add: t)
      show "k_nextpid t = cint (k_nextpid s + 1)" using a(5) ok(9) same(3) by (simp add: t)
      show "c_proc (k_cpu t) = c_proc (k_cpu s)" using a(6) ok(10) same(4) by (simp add: t)
      show "p_parent (k_proc t i) = p_parent (k_proc s i)" using a(4) ok(7) ij same(1) by (simp add: t)
      show "case free_node s of
        None \<Rightarrow> p_qnode (k_proc t i) = p_qnode (k_proc s i) \<and> k_node t = k_node s
      | Some n \<Rightarrow> p_qnode (k_proc t i) = Some n \<and>
          k_node t = (k_node s)(n := (k_node s n)\<lparr>qn_inuse := True, qn_proc := Some i, qn_next := None\<rparr>)"
        using a(7) ok(6,8) fn ij same(1,2) by (simp add: t split: option.splits)
    qed
    then show ?thesis using ok(4) ij a(2) by (simp add: t)
  qed simp
qed

text \<open>\<open>only_child np s t\<close>: of the table only the new process differs, and it keeps its identity.\<close>

definition only_child :: "nat \<Rightarrow> 'e kst \<Rightarrow> 'e kst \<Rightarrow> bool" where
  "only_child np s t \<longleftrightarrow> (\<forall>j. j \<noteq> np \<longrightarrow> k_proc t j = k_proc s j) \<and>
     same_id (k_proc s np) (k_proc t np) \<and> p_state (k_proc t np) = p_state (k_proc s np) \<and>
     k_node t = k_node s \<and> k_nextpid t = k_nextpid s \<and> k_cpu t = k_cpu s \<and> k_lock t = k_lock s"

lemma only_child_trans: "only_child np s t \<Longrightarrow> only_child np t u \<Longrightarrow> only_child np s u"
  by (simp add: only_child_def same_id_def)

lemma only_child_upd:
  assumes "\<And>p. p_state (f p) = p_state p \<and> p_pid (f p) = p_pid p \<and> p_qnode (f p) = p_qnode p"
  shows "only_child np s (upd_proc np f s)"
  using assms by (simp add: only_child_def same_id_def)

lemma only_child_ext2: "ext2 f s = (r, t) \<Longrightarrow> only_child np s t"
  by (simp add: only_child_def same_id_def ext2_fields)

lemma only_child_dup: "only_child np s (dup_ofile ops cur np i s)"
proof (cases "p_ofile (k_proc s cur) i")
  case None
  then show ?thesis by (simp add: dup_ofile_def only_child_def same_id_def)
next
  case (Some f)
  obtain g t where g: "ext2 (op_filedup ops f) s = (g, t)" by (cases "ext2 (op_filedup ops f) s")
  have "only_child np t (upd_proc np (\<lambda>p. p\<lparr>p_ofile := (p_ofile p)(i := Some g)\<rparr>) t)"
    by (rule only_child_upd) simp
  with only_child_ext2 [OF g] Some g show ?thesis by (auto simp: dup_ofile_def intro: only_child_trans)
qed

lemma only_child_fold: "(\<And>i u. only_child np u (f i u)) \<Longrightarrow> only_child np s (fold f is s)"
  by (induction "is" arbitrary: s) (auto intro: only_child_trans simp: only_child_def same_id_def)

lemma fork_fill_child: "only_child np s (fork_fill ops cur np s)"
proof -
  let ?a = "upd_proc np (\<lambda>p. p\<lparr>p_sz := p_sz (k_proc s cur), p_parent := Some cur, p_tf := p_tf (k_proc s cur)\<rparr>) s"
  let ?b = "upd_proc np (\<lambda>p. p\<lparr>p_tf := (p_tf p)\<lparr>tf_eax := 0\<rparr>\<rparr>) ?a"
  let ?c = "fold (dup_ofile ops cur np) [0..<NOFILE] ?b"
  obtain cw d where d: "ext2 (op_idup ops (p_cwd (k_proc ?c cur))) ?c = (cw, d)"
    by (cases "ext2 (op_idup ops (p_cwd (k_proc ?c cur))) ?c")
  let ?e = "upd_proc np (\<lambda>p. p\<lparr>p_cwd := cw\<rparr>) d"
  have "only_child np s ?a" "only_child np ?a ?b" "only_child np d ?e"
    "only_child np ?e (upd_proc np (set_name (p_name (k_proc ?e cur))) ?e)"
    by (rule only_child_upd; simp add: set_name_def)+
  moreover have "only_child np ?b ?c" by (rule only_child_fold) (rule only_child_dup)
  moreover note only_child_ext2 [OF d]
  ultimately have "only_child np s (upd_proc np (set_name (p_name (k_proc ?e cur))) ?e)"
    by (blast intro: only_child_trans)
  then show ?thesis using d unfolding fork_fill_def Let_def by simp
qed

lemma fork2_cases:
  assumes "fork2 ops pri s = Inr (v, t)"
  obtains (noslot) s1 where "v = - 1" "same_table s s1" "allocproc ops s1 = Inr (None, t)"
  | (nomem) s1 s2 np where "v = - 1" "same_table s s1" "allocproc ops s1 = Inr (Some np, s2)"
      "\<And>j. j \<noteq> np \<Longrightarrow> k_proc t j = k_proc s2 j" "same_id (k_proc s2 np) (k_proc t np)"
      "p_state (k_proc t np) = UNUSED" "k_node t = k_node s2" "k_nextpid t = k_nextpid s2"
      "c_proc (k_cpu t) = c_proc (k_cpu s2)"
  | (ok) s1 s2 np n where "same_table s s1" "allocproc ops s1 = Inr (Some np, s2)"
      "v = p_pid (k_proc s2 np)" "p_qnode (k_proc s2 np) = Some n"
      "\<And>j. j \<noteq> np \<Longrightarrow> k_proc t j = k_proc s2 j" "same_id (k_proc s2 np) (k_proc t np)"
      "p_state (k_proc t np) = RUNNABLE" "p_priority (k_proc t np) = pri"
      "k_node t = (k_node s2)(n := (k_node s2 n)\<lparr>qn_proc := Some np\<rparr>)" "k_nextpid t = k_nextpid s2"
      "c_proc (k_cpu t) = c_proc (k_cpu s2)"
proof -
  from assms obtain cur s1 npo s2 where m: "myproc_deref s = Inr (cur, s1)" and
    al: "allocproc ops s1 = Inr (npo, s2)"
    by (auto simp: fork2_def rbind_eq_Inr)
  from m have s1: "same_table s s1" "myproc_deref s = Inr (cur, s1)"
    using myproc_deref_table by blast+
  show thesis
  proof (cases npo)
    case None
    with assms s1 al have "v = - 1" "t = s2" by (simp_all add: fork2_def)
    with None s1 al show thesis using noslot by blast
  next
    case (Some np)
    let ?f = "op_copyuvm ops (p_pgdir (k_proc s2 cur)) (p_sz (k_proc s2 cur))"
    obtain pg s3 where pg: "ext2 ?f s2 = (pg, s3)" by (cases "ext2 ?f s2")
    note e = ext2_fields [OF pg]
    let ?a = "upd_proc np (\<lambda>p. p\<lparr>p_pgdir := pg\<rparr>) s3"
    show thesis
    proof (cases "pg = 0")
      case True
      with assms s1 al Some pg have "v = - 1"
        "t = upd_proc np (\<lambda>p. p\<lparr>p_kstack := 0, p_state := UNUSED\<rparr>) (ext1 (op_kfree ops (p_kstack (k_proc ?a np))) ?a)"
        by (simp_all add: fork2_def)
      then show thesis using nomem [OF _ s1(1) al [unfolded Some]] e by (simp add: same_id_def)
    next
      case False
      let ?b = "fork_fill ops cur np ?a"
      have b: "only_child np ?a ?b" by (rule fork_fill_child)
      let ?c = "upd_proc np (\<lambda>p. p\<lparr>p_priority := pri\<rparr>) ?b"
      from assms s1 al Some pg False obtain n d where n: "p_qnode (k_proc ?b np) = Some n"
        and d: "k_acquire (upd_node n (\<lambda>q. q\<lparr>qn_proc := Some np\<rparr>) ?c) = Inr d"
        and t: "k_release (upd_proc np (\<lambda>p. p\<lparr>p_state := RUNNABLE\<rparr>) d) = Inr t"
        and v: "v = p_pid (k_proc ?b np)"
        by (auto simp: fork2_def rbind_eq_Inr split: option.splits)
      note dt = same_tableD [OF k_acquire_table [OF d]] and tt = same_tableD [OF k_release_table [OF t]]
      show thesis
        by (rule ok [OF s1(1) al [unfolded Some]])
          (use b e n v dt tt in \<open>simp_all add: only_child_def same_id_def\<close>)
    qed
  qed
qed

lemma allocproc_None:
  assumes "allocproc ops s = Inr (None, t)"
  shows "same_table s t \<or> (\<exists>i. find_proc (\<lambda>p. p_state p = UNUSED) s = Some i \<and>
     (\<forall>j. j \<noteq> i \<longrightarrow> k_proc t j = k_proc s j) \<and> p_state (k_proc t i) = UNUSED \<and>
     p_qnode (k_proc t i) = p_qnode (k_proc s i) \<and> p_pid (k_proc t i) = k_nextpid s \<and> k_node t = k_node s \<and>
     k_nextpid t = cint (k_nextpid s + 1) \<and> c_proc (k_cpu t) = c_proc (k_cpu s))"
proof -
  obtain s1 where s1: "same_table s s1" and
    f: "(case find_proc (\<lambda>p. p_state p = UNUSED) s1 of
         None \<Rightarrow> rbind (k_release s1) (\<lambda>s. Inr (None, s))
       | Some i \<Rightarrow> alloc_found ops i s1) = Inr (None, t)"
    using assms unfolding allocproc_def rbind_eq_Inr by (blast dest: k_acquire_table)
  show ?thesis
  proof (cases "find_proc (\<lambda>p. p_state p = UNUSED) s1")
    case None
    with f have "same_table s1 t" by (auto simp: rbind_eq_Inr dest: k_release_table)
    with s1 show ?thesis by (blast intro: same_table_trans)
  next
    case (Some i)
    with f have "alloc_found ops i s1 = Inr (None, t)" by simp
    then show ?thesis
    proof (cases rule: alloc_found_cases)
      case nomem
      have "find_proc (\<lambda>p. p_state p = UNUSED) s = Some i" using Some s1 by (simp add: find_proc_table)
      with nomem s1 show ?thesis by (auto simp: same_table_def)
    qed simp
  qed
qed

section \<open>Queue operations keep identities\<close>

lemma put_tail_q_keeps:
  assumes "put_tail_q nd l s = Inr t"
  shows "p_state (k_proc t i) = p_state (k_proc s i)" "same_id (k_proc s i) (k_proc t i)"
    "nodes_same s t" "k_nextpid t = k_nextpid s" "k_cpu t = k_cpu s"
  using assms
  by (auto simp: put_tail_q_def same_id_def nodes_same_def split: option.splits if_splits)

lemma rm_from_q_keeps:
  assumes "rm_from_q nd l s = Inr t"
  shows "k_proc t = k_proc s" "nodes_same s t" "k_nextpid t = k_nextpid s" "k_cpu t = k_cpu s"
  using rm_from_q_frame [OF assms] by (simp_all add: nodes_same_def)

text \<open>\<open>calm s t\<close>: no process starts running, none is created, and nodes keep their owners.\<close>

definition calm :: "'e kst \<Rightarrow> 'e kst \<Rightarrow> bool" where
  "calm s t \<longleftrightarrow> (\<forall>i. same_id (k_proc s i) (k_proc t i) \<and>
       (p_state (k_proc t i) = RUNNING \<longrightarrow> p_state (k_proc s i) = RUNNING) \<and>
       (p_state (k_proc t i) \<noteq> UNUSED \<longrightarrow> p_state (k_proc s i) \<noteq> UNUSED)) \<and>
     nodes_same s t \<and> k_nextpid t = k_nextpid s \<and> c_proc (k_cpu t) = c_proc (k_cpu s)"

lemma nodes_same_refl [simp]: "nodes_same s s"
  by (simp add: nodes_same_def)

lemma calm_trans: "calm s t \<Longrightarrow> calm t u \<Longrightarrow> calm s u"
  by (simp add: calm_def nodes_same_def same_id_def)

lemma calm_table: "same_table s t \<Longrightarrow> calm s t"
  by (simp add: calm_def same_table_def nodes_same_def same_id_def)

lemma calm_upd:
  assumes "\<And>p. p_state (f p) = p_state p \<and> p_pid (f p) = p_pid p \<and> p_qnode (f p) = p_qnode p"
  shows "calm s (upd_proc i f s)"
  using assms by (simp add: calm_def nodes_same_def same_id_def)

text \<open>States are exactly kept by the queue bookkeeping.\<close>

definition states_same :: "'e kst \<Rightarrow> 'e kst \<Rightarrow> bool" where
  "states_same s t \<longleftrightarrow> (\<forall>i. p_state (k_proc t i) = p_state (k_proc s i))"

lemma calm_put: "put_tail_q nd l s = Inr t \<Longrightarrow> calm s t \<and> states_same s t"
  using put_tail_q_keeps [of nd l s t] by (simp add: calm_def states_same_def)

lemma calm_rm: "rm_from_q nd l s = Inr t \<Longrightarrow> calm s t \<and> states_same s t"
  using rm_from_q_keeps [of nd l s t] by (simp add: calm_def states_same_def same_id_def)

lemma states_same_trans: "states_same s t \<Longrightarrow> states_same t u \<Longrightarrow> states_same s u"
  by (simp add: states_same_def)

lemma proc_setpri_calm:
  assumes "proc_setpri pid pri s = Inr (v, t)"
  shows "calm s t \<and> states_same s t"
proof (cases "v = - 1")
  case True
  with assms have "t = s" by (auto simp: proc_setpri_def rbind_eq_Inr split: if_splits option.splits)
  then show ?thesis by (simp add: calm_table states_same_def)
next
  case False
  with assms obtain i s2 s3 where
    s2: "rm_from_q (p_qnode (k_proc s i)) (p_put_in (k_proc s i)) (upd_proc i (\<lambda>p. p\<lparr>p_priority := pri\<rparr>) s) = Inr s2"
    and s3: "put_tail_q (p_qnode (k_proc s2 i)) (p_priority (k_proc s2 i)) s2 = Inr s3"
    and t: "t = upd_proc i (\<lambda>p. p\<lparr>p_put_in := cchar (p_priority p)\<rparr>) s3"
    by (auto simp: proc_setpri_def rbind_eq_Inr split: if_splits option.splits)
  have "calm s (upd_proc i (\<lambda>p. p\<lparr>p_priority := pri\<rparr>) s)" "calm s3 t"
    unfolding t by (rule calm_upd; simp)+
  then have "calm s t" using calm_rm [OF s2] calm_put [OF s3] calm_trans by blast
  moreover have "states_same s t"
    using calm_rm [OF s2] calm_put [OF s3] by (simp add: states_same_def t)
  ultimately show ?thesis by blast
qed

lemma refresh_one_calm:
  assumes "refresh_one i s = Inr t"
  shows "calm s t \<and> states_same s t"
proof -
  let ?f = "\<lambda>p. p\<lparr>p_put_in := cchar (p_priority p)\<rparr>"
  have upd: "calm u (upd_proc i (\<lambda>p. p\<lparr>p_put_in := l\<rparr>) u)" "calm u (upd_proc i ?f u)" for u l
    by (rule calm_upd; simp)+
  have states: "states_same s (upd_proc i (\<lambda>p. p\<lparr>p_put_in := l\<rparr>) u)" "states_same s (upd_proc i ?f u)"
    if "states_same s u" for u l using that by (simp_all add: states_same_def)
  from assms consider "t = s"
    | u nd l where "rm_from_q nd l s = Inr u" "t = upd_proc i (\<lambda>p. p\<lparr>p_put_in := - 1\<rparr>) u"
    | u nd l where "put_tail_q nd l s = Inr u" "t = upd_proc i ?f u"
    | u w nd l nd' l' where "rm_from_q nd l s = Inr u" "put_tail_q nd' l' u = Inr w" "t = upd_proc i ?f w"
    by (auto simp: refresh_one_def rbind_eq_Inr split: if_splits option.splits)
  then show ?thesis
  proof cases
    case 1
    then show ?thesis by (simp add: calm_table states_same_def)
  next
    case 2
    then show ?thesis using calm_rm [OF 2(1)] upd states by (blast intro: calm_trans)
  next
    case 3
    then show ?thesis using calm_put [OF 3(1)] upd states by (blast intro: calm_trans)
  next
    case 4
    then have "calm s w" "states_same s w"
      using calm_rm [OF 4(1)] calm_put [OF 4(2)] calm_trans states_same_trans by blast+
    then show ?thesis using 4(3) upd states by (blast intro: calm_trans)
  qed
qed

lemma refresh_q_calm:
  assumes "refresh_q s = Inr t"
  shows "calm s t \<and> states_same s t"
proof (rule rfold_invariant [OF assms [unfolded refresh_q_def], where P = "\<lambda>u. calm s u \<and> states_same s u"])
  show "calm s s \<and> states_same s s" by (simp add: calm_table states_same_def)
  show "calm s v \<and> states_same s v" if "calm s u \<and> states_same s u" "refresh_one i u = Inr v" for i u v
    using that refresh_one_calm [OF that(2)] by (auto simp: states_same_def intro: calm_trans)
qed

lemma pick_loop_calm:
  assumes "pick_loop ls s = Inr (po, t)"
  shows "calm s t \<and> states_same s t"
  using assms
proof (induction ls)
  case Nil
  then show ?case by (simp add: calm_table states_same_def)
next
  case (Cons l ls)
  have charge: "calm s (charge l i n s) \<and> states_same s (charge l i n s)" for i n
    by (simp add: calm_def states_same_def same_id_def nodes_same_def charge_def)
  from Cons.prems consider "pick_loop ls s = Inr (po, t)" | i n where "t = charge l i n s"
    by (auto simp: charge_def split: option.splits)
  then show ?case using Cons.IH charge by cases auto
qed

section \<open>The steps of one CPU\<close>

datatype action = APick | AReturn | AYield | ASleep | AResume | AExit | AWait | AFork | AWakeup | AKill | ASetpri

text \<open>
  Each rule is one critical section of \<open>ptable.lock\<close> (\<open>fork2\<close>: two, with the slot reserved as
  \<open>EMBRYO\<close> between them). The scheduler picks when no process is current and returns when the
  current one has left the running state. \<open>wakeup\<close> and \<open>kill\<close> may come from anywhere, interrupts
  included. A pid counter about to pass the largest \<open>int\<close> is out of scope.
\<close>

inductive kstep :: "'e kops \<Rightarrow> action \<Rightarrow> 'e kst \<Rightarrow> 'e kst \<Rightarrow> bool" for ops :: "'e kops" where
  pick: "c_proc (k_cpu s) = None \<Longrightarrow> scheduler_pick ops s = Inr (po, t) \<Longrightarrow> kstep ops APick s t"
| return: "c_proc (k_cpu s) = Some i \<Longrightarrow> p_state (k_proc s i) \<noteq> RUNNING \<Longrightarrow>
    scheduler_return ops s = Inr t \<Longrightarrow> kstep ops AReturn s t"
| yield: "running s i \<Longrightarrow> yield_enter s = Inr (ie, t) \<Longrightarrow> kstep ops AYield s t"
| yield_back: "running s i \<Longrightarrow> yield_resume ie s = Inr t \<Longrightarrow> kstep ops AResume s t"
| first_run: "running s i \<Longrightarrow> forkret ops b s = Inr (b', t) \<Longrightarrow> kstep ops AResume s t"
| sleep: "running s i \<Longrightarrow> sleep_enter ch lk s = Inr (lk', ie, t) \<Longrightarrow> kstep ops ASleep s t"
| sleep_back: "running s i \<Longrightarrow> sleep_resume i lk ie s = Inr (lk', t) \<Longrightarrow> kstep ops AResume s t"
| exit: "running s i \<Longrightarrow> exit_enter ops s = Inr (ie, t) \<Longrightarrow> kstep ops AExit s t"
| wait: "running s i \<Longrightarrow> wait_begin ops s = Inr (out, t) \<Longrightarrow> kstep ops AWait s t"
| wait_on: "running s i \<Longrightarrow> wait_again ops i ie s = Inr (out, t) \<Longrightarrow> kstep ops AWait s t"
| fork: "running s i \<Longrightarrow> k_nextpid s < 2 ^ 31 - 1 \<Longrightarrow> fork2 ops pri s = Inr (v, t) \<Longrightarrow> kstep ops AFork s t"
| wake: "wakeup ch s = Inr t \<Longrightarrow> kstep ops AWakeup s t"
| kill: "kill pid s = Inr (v, t) \<Longrightarrow> kstep ops AKill s t"
| setpri: "proc_setpri pid pri s = Inr (v, t) \<Longrightarrow> kstep ops ASetpri s t"

definition one_running :: "'e kst \<Rightarrow> bool" where
  "one_running s \<longleftrightarrow> (\<forall>i. p_state (k_proc s i) = RUNNING \<longrightarrow> c_proc (k_cpu s) = Some i)"

definition node_own :: "'e kst \<Rightarrow> bool" where
  "node_own s \<longleftrightarrow> (\<forall>i n. p_qnode (k_proc s i) = Some n \<longrightarrow>
     qn_proc (k_node s n) = Some i \<and> qn_inuse (k_node s n))"

text \<open>
  A slot is live when it is in use or still holds on to a queue node. No two live slots have the
  same pid, and all pids handed out are below \<open>nextpid\<close>.
\<close>

definition live :: "proc \<Rightarrow> bool" where
  "live p \<longleftrightarrow> p_state p \<noteq> UNUSED \<or> p_qnode p \<noteq> None"

definition pids_ok :: "'e kst \<Rightarrow> bool" where
  "pids_ok s \<longleftrightarrow> 0 < k_nextpid s \<and> k_nextpid s < 2 ^ 31 \<and>
     (\<forall>i. live (k_proc s i) \<longrightarrow> p_pid (k_proc s i) < k_nextpid s) \<and>
     (\<forall>i j. live (k_proc s i) \<longrightarrow> live (k_proc s j) \<longrightarrow>
        p_pid (k_proc s i) = p_pid (k_proc s j) \<longrightarrow> i = j)"

text \<open>One slot gets the next pid and the others stay.\<close>

lemma pids_ok_fresh:
  assumes "pids_ok s" "k_nextpid s < 2 ^ 31 - 1" "\<And>j. j \<noteq> i \<Longrightarrow> k_proc t j = k_proc s j"
    "p_pid (k_proc t i) = k_nextpid s" "k_nextpid t = cint (k_nextpid s + 1)"
  shows "pids_ok t"
proof -
  have nx: "k_nextpid t = k_nextpid s + 1" using assms(1,2,5) by (simp add: pids_ok_def)
  have lt: "p_pid (k_proc s j) < k_nextpid s" if "live (k_proc s j)" for j
    using assms(1) that by (simp add: pids_ok_def)
  have "p_pid (k_proc t j) < k_nextpid t" if "live (k_proc t j)" for j
    using that nx assms(3) [of j] assms(4) lt [of j] by (cases "j = i") auto
  moreover have "j = k" if "live (k_proc t j)" "live (k_proc t k)"
      "p_pid (k_proc t j) = p_pid (k_proc t k)" for j k
  proof (cases "j = i \<or> k = i")
    case True
    then show ?thesis using that assms(4) assms(3) [of j] assms(3) [of k] lt [of j] lt [of k]
      by (cases "j = i"; cases "k = i") auto
  next
    case False
    then show ?thesis using that assms(3) [of j] assms(3) [of k] assms(1) by (simp add: pids_ok_def)
  qed
  ultimately show ?thesis using nx assms(1,2) by (simp add: pids_ok_def)
qed

definition table_inv :: "'e kst \<Rightarrow> bool" where
  "table_inv s \<longleftrightarrow> one_running s \<and> node_own s \<and> pids_ok s"

lemma calm_inv: "calm s t \<Longrightarrow> table_inv s \<Longrightarrow> table_inv t"
  unfolding table_inv_def one_running_def node_own_def pids_ok_def live_def calm_def same_id_def nodes_same_def
  by (intro conjI; metis)

lemma table_step: "same_table s t \<Longrightarrow> table_inv s \<Longrightarrow> table_inv t"
  using calm_table calm_inv by blast

lemma calm_self:
  assumes "\<And>j. j \<noteq> i \<Longrightarrow> k_proc t j = k_proc s j" "same_id (k_proc s i) (k_proc t i)"
    "p_state (k_proc t i) \<noteq> RUNNING" "running s i"
    "c_proc (k_cpu t) = c_proc (k_cpu s)" "k_node t = k_node s" "k_nextpid t = k_nextpid s"
  shows "calm s t"
proof -
  have "same_id (k_proc s j) (k_proc t j) \<and>
       (p_state (k_proc t j) = RUNNING \<longrightarrow> p_state (k_proc s j) = RUNNING) \<and>
       (p_state (k_proc t j) \<noteq> UNUSED \<longrightarrow> p_state (k_proc s j) \<noteq> UNUSED)" for j
    by (cases "j = i") (use assms in \<open>simp_all add: running_def same_id_def\<close>)
  then show ?thesis using assms(5-7) by (simp add: calm_def nodes_same_def)
qed

lemma yield_calm: "yield_enter s = Inr (ie, t) \<Longrightarrow> running s i \<Longrightarrow> calm s t"
  by (rule calm_self [of i]) (use yield_enter_trans [of s ie t i] in simp_all)

lemma sleep_calm: "sleep_enter ch lk s = Inr (lk', ie, t) \<Longrightarrow> running s i \<Longrightarrow> calm s t"
  by (rule calm_self [of i]) (use sleep_enter_trans [of ch lk s lk' ie t i] in simp_all)

lemma wakeup_calm: "wakeup ch s = Inr t \<Longrightarrow> calm s t"
  using wakeup_trans(2-5) [of ch s t] by (simp add: calm_def nodes_same_def same_id_def wake_one_def)

lemma kill_calm:
  assumes "kill pid s = Inr (v, t)"
  shows "calm s t"
proof -
  have "p_state (k_proc s i) \<noteq> UNUSED" if "p_state (k_proc t i) \<noteq> UNUSED" for i
    using kill_cases [OF assms] that by (auto simp: same_table_def kill_one_def split: if_splits)
  then show ?thesis using kill_trans [OF assms] by (simp add: calm_def nodes_same_def)
qed

lemma exit_calm:
  assumes "exit_enter ops s = Inr (ie, t)" "running s i"
  shows "calm s t"
proof -
  have "p_state (k_proc s j) \<noteq> UNUSED" if "p_state (k_proc t j) \<noteq> UNUSED" for j
  proof
    assume u: "p_state (k_proc s j) = UNUSED"
    then have "j \<noteq> i" using assms(2) by (auto simp: running_def)
    have "c_proc (k_cpu s) = Some i" using assms(2) by (simp add: running_def)
    from exit_enter_woken [OF assms(1) this] obtain w where "woken s w"
      "same_table (upd_proc i (\<lambda>p. p\<lparr>p_state := ZOMBIE\<rparr>) w) t" by blast
    with \<open>j \<noteq> i\<close> have "p_state (k_proc t j) = p_state (k_proc w j)" by (simp add: same_table_def)
    moreover have "p_state (k_proc w j) = UNUSED" using \<open>woken s w\<close> u unfolding woken_def by (metis procstate.distinct(3))
    ultimately show False using that by simp
  qed
  then show ?thesis using exit_enter_trans [OF assms] by (simp add: calm_def nodes_same_def)
qed

lemma resume_calm:
  assumes "running s i"
  shows "yield_resume ie s = Inr t \<Longrightarrow> same_table s t"
    and "forkret ops b s = Inr (b', t) \<Longrightarrow> same_table s t"
    and "sleep_resume i lk ie s = Inr (lk', t) \<Longrightarrow> calm s t \<and> states_same s t"
proof -
  show "yield_resume ie s = Inr t \<Longrightarrow> same_table s t"
    unfolding yield_resume_def by (blast dest: k_release_table intro: same_table_trans sched_resume_table)
  show "same_table s t" if f: "forkret ops b s = Inr (b', t)"
  proof -
    from f obtain u where u: "k_release s = Inr u" and
      t: "t = u \<or> t = ext1 (op_initlog ops) (ext1 (op_iinit ops) u)"
      unfolding forkret_def rbind_eq_Inr by (auto split: if_splits)
    from t have "same_table u t" by (auto simp: same_table_def ext1_def)
    with k_release_table [OF u] show ?thesis by (rule same_table_trans)
  qed
  assume r: "sleep_resume i lk ie s = Inr (lk', t)"
  let ?u = "upd_proc i (\<lambda>p. p\<lparr>p_chan := None\<rparr>) (sched_resume ie s)"
  have "same_table ?u t"
  proof (cases lk)
    case (LkOther l)
    with r obtain v l' c where "same_table ?u v" "acquire l (k_cpu v) = Inr (l', c)" "t = v\<lparr>k_cpu := c\<rparr>"
      by (auto simp: sleep_resume_def rbind_eq_Inr dest!: k_release_table)
    then show ?thesis by (auto simp: same_table_def dest: acquire_proc)
  qed (use r in \<open>simp_all add: sleep_resume_def\<close>)
  moreover have "calm s ?u"
    using calm_table [OF sched_resume_table] by (rule calm_trans) (rule calm_upd, simp)
  moreover have "states_same s ?u" by (simp add: states_same_def sched_resume_def)
  moreover have "states_same ?u t" using \<open>same_table ?u t\<close> by (simp add: states_same_def same_table_def)
  ultimately show "calm s t \<and> states_same s t"
    by (blast intro: calm_trans calm_table states_same_trans)
qed

section \<open>Waiting\<close>

lemma wait_pass_cases:
  assumes "wait_pass ops cur s = Inr (out, t)"
  obtains (child) i pid where "find_proc (\<lambda>p. p_parent p = Some cur \<and> p_state p = ZOMBIE) s = Some i"
      "out = WReturn pid" "reap ops i s = Inr (pid, t)"
  | (none) "out = WReturn (- 1)" "same_table s t"
      "\<forall>i < NPROC. p_parent (k_proc s i) = Some cur \<longrightarrow> p_killed (k_proc s cur)"
      "\<forall>i < NPROC. p_parent (k_proc s i) = Some cur \<longrightarrow> p_state (k_proc s i) \<noteq> ZOMBIE"
  | (block) ie lk where "out = WSleep ie" "sleep_enter (Some (CProc cur)) LkPtable s = Inr (lk, ie, t)"
      "\<forall>i < NPROC. p_parent (k_proc s i) = Some cur \<longrightarrow> p_state (k_proc s i) \<noteq> ZOMBIE"
proof (cases "find_proc (\<lambda>p. p_parent p = Some cur \<and> p_state p = ZOMBIE) s")
  case None
  then have nz: "\<forall>i < NPROC. p_parent (k_proc s i) = Some cur \<longrightarrow> p_state (k_proc s i) \<noteq> ZOMBIE"
    by (simp add: find_proc_None)
  show thesis
  proof (cases "find_proc (\<lambda>p. p_parent p = Some cur) s = None \<or> p_killed (k_proc s cur)")
    case True
    with None assms have "out = WReturn (- 1)" "same_table s t"
      by (auto simp: wait_pass_def rbind_eq_Inr dest: k_release_table)
    with True nz show thesis by (intro none) (auto simp: find_proc_None)
  next
    case False
    with None assms nz block show thesis by (auto simp: wait_pass_def rbind_eq_Inr)
  qed
next
  case (Some i)
  with assms child show thesis by (auto simp: wait_pass_def rbind_eq_Inr)
qed

lemma reap_inv:
  assumes "reap ops i s = Inr (pid, t)" "table_inv s"
  shows "table_inv t"
proof -
  from reap_table [OF assms(1)] obtain n where n: "p_qnode (k_proc s i) = Some n"
    and p: "k_proc t = (k_proc s)(i := reaped (k_proc s i))"
    and q: "k_node t = (k_node s)(n := (k_node s n)\<lparr>qn_inuse := False\<rparr>)"
    and f: "k_nextpid t = k_nextpid s" "c_proc (k_cpu t) = c_proc (k_cpu s)" by blast
  have own: "qn_proc (k_node s m) = Some j \<and> qn_inuse (k_node s m)" if "p_qnode (k_proc s j) = Some m" for j m
    using assms(2) that by (simp add: table_inv_def node_own_def)
  have "node_own t" unfolding node_own_def
  proof (intro allI impI)
    fix j m assume j: "p_qnode (k_proc t j) = Some m"
    then have "j \<noteq> i" "p_qnode (k_proc s j) = Some m" by (auto simp: p reaped_def split: if_splits)
    moreover have "m \<noteq> n" using own [OF n] own [OF \<open>p_qnode (k_proc s j) = Some m\<close>] \<open>j \<noteq> i\<close> by auto
    ultimately show "qn_proc (k_node t m) = Some j \<and> qn_inuse (k_node t m)" using own by (simp add: q)
  qed
  moreover have "one_running t" using assms(2) f(2)
    by (simp add: table_inv_def one_running_def p reaped_def)
  moreover have "pids_ok t" using assms(2) f(1)
    by (simp add: table_inv_def pids_ok_def p reaped_def live_def)
  ultimately show ?thesis by (simp add: table_inv_def)
qed

lemma wait_pass_inv:
  assumes "wait_pass ops i s = Inr (out, t)" "running s i" "table_inv s"
  shows "table_inv t"
  using assms(1)
proof (cases rule: wait_pass_cases)
  case child
  then show ?thesis using reap_inv assms(3) by blast
next
  case none
  then show ?thesis using table_step assms(3) by blast
next
  case block
  then show ?thesis using sleep_calm calm_inv assms(2,3) by blast
qed

lemma slot_taken_inv:
  assumes st: "slot_taken s i t" and inv: "table_inv s" and np: "k_nextpid s < 2 ^ 31 - 1"
    and e: "p_state (k_proc t i) \<noteq> RUNNING"
  shows "table_inv t"
proof -
  have i: "i < NPROC" "p_state (k_proc s i) = UNUSED"
    using st find_proc_Some unfolding slot_taken_def by blast+
  have o: "k_proc t j = k_proc s j" if "j \<noteq> i" for j using st that by (simp add: slot_taken_def)
  have own: "qn_proc (k_node s m) = Some j \<and> qn_inuse (k_node s m)" if "p_qnode (k_proc s j) = Some m" for j m
    using inv that by (simp add: table_inv_def node_own_def)
  have "node_own t" unfolding node_own_def
  proof (intro allI impI)
    fix j m assume j: "p_qnode (k_proc t j) = Some m"
    show "qn_proc (k_node t m) = Some j \<and> qn_inuse (k_node t m)"
    proof (cases "free_node s")
      case None
      then have "k_node t = k_node s" "p_qnode (k_proc t i) = p_qnode (k_proc s i)"
        using st by (simp_all add: slot_taken_def)
      then have "p_qnode (k_proc s j) = Some m" using j o [of j] by (cases "j = i") auto
      with own \<open>k_node t = k_node s\<close> show ?thesis by simp
    next
      case (Some n)
      then have k: "p_qnode (k_proc t i) = Some n"
        "k_node t = (k_node s)(n := (k_node s n)\<lparr>qn_inuse := True, qn_proc := Some i, qn_next := None\<rparr>)"
        using st by (simp_all add: slot_taken_def)
      have "\<not> qn_inuse (k_node s n)" using Some by (auto simp: free_node_def find_Some_iff)
      then show ?thesis using k j o [of j] own [of j m] by (cases "j = i") auto
    qed
  qed
  moreover have "one_running t" unfolding one_running_def
  proof (intro allI impI)
    fix j assume j: "p_state (k_proc t j) = RUNNING"
    then have "p_state (k_proc s j) = RUNNING" using e o [of j] by (cases "j = i") auto
    then show "c_proc (k_cpu t) = Some j" using inv st by (simp add: table_inv_def one_running_def slot_taken_def)
  qed
  moreover have "pids_ok t"
    by (rule pids_ok_fresh [OF _ np o]) (use st inv in \<open>auto simp: slot_taken_def table_inv_def\<close>)
  ultimately show ?thesis by (simp add: table_inv_def)
qed

lemma fork2_inv:
  assumes "fork2 ops pri s = Inr (v, t)" "table_inv s" "k_nextpid s < 2 ^ 31 - 1"
  shows "table_inv t"
  using assms(1)
proof (cases rule: fork2_cases)
  case (noslot s1)
  then have inv: "table_inv s1" "k_nextpid s1 < 2 ^ 31 - 1"
    using assms(2,3) table_step by (auto simp: same_table_def)
  from allocproc_None [OF noslot(3)] show ?thesis
  proof
    assume "same_table s1 t" with inv(1) show ?thesis using table_step by blast
  next
    assume "\<exists>i. find_proc (\<lambda>p. p_state p = UNUSED) s1 = Some i \<and>
     (\<forall>j. j \<noteq> i \<longrightarrow> k_proc t j = k_proc s1 j) \<and> p_state (k_proc t i) = UNUSED \<and>
     p_qnode (k_proc t i) = p_qnode (k_proc s1 i) \<and> p_pid (k_proc t i) = k_nextpid s1 \<and> k_node t = k_node s1 \<and>
     k_nextpid t = cint (k_nextpid s1 + 1) \<and> c_proc (k_cpu t) = c_proc (k_cpu s1)"
    then obtain i where o: "\<And>j. j \<noteq> i \<Longrightarrow> k_proc t j = k_proc s1 j" and u: "p_state (k_proc t i) = UNUSED"
      "p_qnode (k_proc t i) = p_qnode (k_proc s1 i)" "p_pid (k_proc t i) = k_nextpid s1" "k_node t = k_node s1"
      "k_nextpid t = cint (k_nextpid s1 + 1)" "c_proc (k_cpu t) = c_proc (k_cpu s1)" by blast
    have qn: "p_qnode (k_proc t j) = p_qnode (k_proc s1 j)" for j using o u(2) by (cases "j = i") auto
    have "one_running t" unfolding one_running_def
    proof (intro allI impI)
      fix j assume j: "p_state (k_proc t j) = RUNNING"
      then have "j \<noteq> i" using u(1) by auto
      with j o inv(1) u(6) show "c_proc (k_cpu t) = Some j" by (simp add: table_inv_def one_running_def)
    qed
    moreover have "node_own t" using inv(1) u(4) qn by (simp add: table_inv_def node_own_def)
    moreover have "pids_ok t" using pids_ok_fresh [OF _ inv(2) o u(3,5)] inv(1) by (simp add: table_inv_def)
    ultimately show ?thesis by (simp add: table_inv_def)
  qed
next
  case (nomem s1 s2 np)
  have inv: "table_inv s1" "k_nextpid s1 < 2 ^ 31 - 1"
    using assms(2,3) nomem(2) table_step by (auto simp: same_table_def)
  have "slot_taken s1 np s2" "p_state (k_proc s2 np) = EMBRYO" using allocproc_Some [OF nomem(3)] by simp_all
  then have i2: "table_inv s2" using slot_taken_inv inv by fastforce
  have "calm s2 t" unfolding calm_def
  proof (intro conjI allI)
    fix j
    show "same_id (k_proc s2 j) (k_proc t j)" using nomem(4,5) by (cases "j = np") (auto simp: same_id_def)
    show "p_state (k_proc t j) = RUNNING \<longrightarrow> p_state (k_proc s2 j) = RUNNING"
      "p_state (k_proc t j) \<noteq> UNUSED \<longrightarrow> p_state (k_proc s2 j) \<noteq> UNUSED"
      using nomem(4,6) by (cases "j = np"; auto)+
  qed (use nomem in \<open>simp_all add: nodes_same_def\<close>)
  with i2 show ?thesis using calm_inv by blast
next
  case (ok s1 s2 np n)
  have inv: "table_inv s1" "k_nextpid s1 < 2 ^ 31 - 1"
    using assms(2,3) ok(1) table_step by (auto simp: same_table_def)
  have e: "slot_taken s1 np s2" "p_state (k_proc s2 np) = EMBRYO" using allocproc_Some [OF ok(2)] by simp_all
  then have i2: "table_inv s2" using slot_taken_inv inv by fastforce
  have "qn_proc (k_node s2 n) = Some np" using i2 ok(4) by (simp add: table_inv_def node_own_def)
  then have "nodes_same s2 t" using ok(9) by (simp add: nodes_same_def)
  moreover have "same_id (k_proc s2 j) (k_proc t j) \<and>
      (p_state (k_proc t j) = RUNNING \<longrightarrow> p_state (k_proc s2 j) = RUNNING) \<and>
      (p_state (k_proc t j) \<noteq> UNUSED \<longrightarrow> p_state (k_proc s2 j) \<noteq> UNUSED)" for j
    using ok(5-7) e(2) by (cases "j = np") (auto simp: same_id_def)
  ultimately have "calm s2 t" using ok(10,11) by (simp add: calm_def)
  with i2 show ?thesis using calm_inv by blast
qed

section \<open>Every step keeps the invariant\<close>

lemma pick_loop_node: "pick_loop ls s = Inr (Some p, t) \<Longrightarrow> p_qnode (k_proc s p) \<noteq> None"
  by (induction ls) (auto split: option.splits)

lemma scheduler_pick_effect:
  assumes "scheduler_pick ops s = Inr (po, t)"
  shows "\<exists>u. calm s u \<and> states_same s u \<and>
    (case po of None \<Rightarrow> same_table u t
     | Some p \<Rightarrow> k_proc t = (k_proc u)(p := (k_proc u p)\<lparr>p_state := RUNNING\<rparr>) \<and> k_node t = k_node u \<and>
         k_nextpid t = k_nextpid u \<and> c_proc (k_cpu t) = Some p \<and> p_qnode (k_proc u p) \<noteq> None)"
proof -
  let ?s0 = "s\<lparr>k_cpu := (k_cpu s)\<lparr>c_if := True\<rparr>\<rparr>"
  from assms obtain s1 s2 u where a: "k_acquire ?s0 = Inr s1" and r: "refresh_q s1 = Inr s2"
    and pk: "pick_loop (rev [0..<NLAYER]) s2 = Inr (po, u)"
    and k: "(case po of
          None \<Rightarrow> rbind (k_release u) (\<lambda>s. Inr (None, s))
        | Some p \<Rightarrow>
            let s = u\<lparr>k_cpu := (k_cpu u)\<lparr>c_proc := Some p\<rparr>\<rparr>;
                s = ext1 (op_switchuvm ops p) s
            in Inr (Some p, upd_proc p (\<lambda>pr. pr\<lparr>p_state := RUNNING\<rparr>) s)) = Inr (po, t)"
    by (auto simp: scheduler_pick_def rbind_eq_Inr split: option.splits)
  have "same_table s s1" using k_acquire_table [OF a] by (simp add: same_table_def)
  then have "calm s s1" "states_same s s1" using calm_table by (auto simp: states_same_def same_table_def)
  then have "calm s u \<and> states_same s u"
    using refresh_q_calm [OF r] pick_loop_calm [OF pk] by (meson calm_trans states_same_trans)
  moreover have "case po of None \<Rightarrow> same_table u t
     | Some p \<Rightarrow> k_proc t = (k_proc u)(p := (k_proc u p)\<lparr>p_state := RUNNING\<rparr>) \<and> k_node t = k_node u \<and>
         k_nextpid t = k_nextpid u \<and> c_proc (k_cpu t) = Some p \<and> p_qnode (k_proc u p) \<noteq> None"
  proof (cases po)
    case None
    with k show ?thesis by (auto simp: rbind_eq_Inr dest: k_release_table)
  next
    case (Some p)
    with k have "t = upd_proc p (\<lambda>pr. pr\<lparr>p_state := RUNNING\<rparr>)
        (ext1 (op_switchuvm ops p) (u\<lparr>k_cpu := (k_cpu u)\<lparr>c_proc := Some p\<rparr>\<rparr>))" by simp
    moreover have "p_qnode (k_proc s2 p) \<noteq> None" using pick_loop_node pk Some by blast
    ultimately show ?thesis using Some pick_loop_calm [OF pk] by (simp add: calm_def same_id_def)
  qed
  ultimately show ?thesis by blast
qed

lemma scheduler_pick_inv:
  assumes "scheduler_pick ops s = Inr (po, t)" "c_proc (k_cpu s) = None" "table_inv s"
  shows "table_inv t"
proof -
  from scheduler_pick_effect [OF assms(1)] obtain u where u: "calm s u" "states_same s u"
    and t: "case po of None \<Rightarrow> same_table u t
     | Some p \<Rightarrow> k_proc t = (k_proc u)(p := (k_proc u p)\<lparr>p_state := RUNNING\<rparr>) \<and> k_node t = k_node u \<and>
         k_nextpid t = k_nextpid u \<and> c_proc (k_cpu t) = Some p \<and> p_qnode (k_proc u p) \<noteq> None" by blast
  have inv: "table_inv u" using calm_inv u(1) assms(3) by blast
  show ?thesis
  proof (cases po)
    case None
    with t inv show ?thesis using table_step by simp
  next
    case (Some p)
    have nr: "p_state (k_proc u j) \<noteq> RUNNING" for j
      using inv u(1) assms(2) by (auto simp: table_inv_def one_running_def calm_def)
    have f: "k_proc t j = (if j = p then (k_proc u p)\<lparr>p_state := RUNNING\<rparr> else k_proc u j)" for j
      using Some t by simp
    have "p_qnode (k_proc t j) = p_qnode (k_proc u j)" "p_pid (k_proc t j) = p_pid (k_proc u j)"
      "live (k_proc t j) = live (k_proc u j)" for j
      using Some t by (simp_all add: f live_def)
    note same = this
    have "k_nextpid t = k_nextpid u" "k_node t = k_node u" "c_proc (k_cpu t) = Some p" using Some t by simp_all
    note same = same this
    have "pids_ok t" using inv unfolding table_inv_def pids_ok_def same by blast
    moreover have "node_own t" using inv unfolding table_inv_def node_own_def same by blast
    moreover have "one_running t" unfolding one_running_def same using nr by (simp add: f)
    ultimately show ?thesis by (simp add: table_inv_def)
  qed
qed

lemma scheduler_return_table:
  assumes "scheduler_return ops s = Inr t"
  shows "k_proc t = k_proc s \<and> k_node t = k_node s \<and> k_nextpid t = k_nextpid s \<and> c_proc (k_cpu t) = None"
  using assms k_release_table by (fastforce simp: scheduler_return_def ext1_def same_table_def)

lemma wait_begin_inv:
  assumes "wait_begin ops s = Inr (out, t)" "running s i" "table_inv s"
  shows "table_inv t"
proof -
  from assms(1) obtain cur s1 s2 where s1: "myproc_deref s = Inr (cur, s1)" and s2: "k_acquire s1 = Inr s2"
    and w: "wait_pass ops cur s2 = Inr (out, t)" by (auto simp: wait_begin_def rbind_eq_Inr)
  have st: "same_table s s2" "c_proc (k_cpu s) = Some cur"
    using myproc_deref_table [OF s1] k_acquire_table [OF s2] same_table_trans by blast+
  then have "running s2 cur" using assms(2) by (simp add: running_def same_table_def)
  with w st(1) assms(3) show ?thesis using wait_pass_inv table_step by blast
qed

lemma wait_again_inv:
  assumes "wait_again ops i ie s = Inr (out, t)" "running s i" "table_inv s"
  shows "table_inv t"
proof -
  from assms(1) obtain lk s1 where s1: "sleep_resume i LkPtable ie s = Inr (lk, s1)"
    and w: "wait_pass ops i s1 = Inr (out, t)" by (auto simp: wait_again_def rbind_eq_Inr)
  have c: "calm s s1" "states_same s s1" using resume_calm(3) [OF assms(2) s1] by simp_all
  then have "running s1 i" using assms(2) by (simp add: running_def calm_def states_same_def)
  with w c assms(3) show ?thesis using wait_pass_inv calm_inv by blast
qed

lemma kstep_inv:
  assumes "kstep ops a s t" "table_inv s"
  shows "table_inv t"
  using assms
proof (cases rule: kstep.cases)
  case pick with assms show ?thesis using scheduler_pick_inv by blast
next
  case (return i)
  have "p_state (k_proc s j) \<noteq> RUNNING" for j
    using return assms(2) by (auto simp: table_inv_def one_running_def)
  with assms(2) scheduler_return_table [OF return(4)] show ?thesis
    by (simp add: table_inv_def one_running_def node_own_def pids_ok_def)
next
  case yield with assms show ?thesis using yield_calm calm_inv by blast
next
  case yield_back with assms show ?thesis using resume_calm(1) table_step by blast
next
  case first_run with assms show ?thesis using resume_calm(2) table_step by blast
next
  case sleep with assms show ?thesis using sleep_calm calm_inv by blast
next
  case sleep_back with assms show ?thesis using resume_calm(3) calm_inv by blast
next
  case exit with assms show ?thesis using exit_calm calm_inv by blast
next
  case wait with assms show ?thesis using wait_begin_inv by blast
next
  case wait_on with assms show ?thesis using wait_again_inv by blast
next
  case fork with assms show ?thesis using fork2_inv by blast
next
  case wake with assms show ?thesis using wakeup_calm calm_inv by blast
next
  case kill with assms show ?thesis using kill_calm calm_inv by blast
next
  case setpri with assms show ?thesis using proc_setpri_calm calm_inv by blast
qed

end
