(* ===== verification/ProcProps.thy ===== *)
theory ProcProps
  imports ProcSched ProcState
begin

text \<open>
  What the process component guarantees: the runs of the kernel from boot, the invariant of the
  process table along them, and the properties of the scheduler, of the queues and of the
  process calls, each with a concrete instance.
\<close>

section \<open>Transitions of a step\<close>

lemma wait_pass_trans:
  assumes "wait_pass ops i s = Inr (out, t)" "running s i"
  shows "all_trans s t"
  using assms(1)
proof (cases rule: wait_pass_cases)
  case (child c pid)
  have "p_state (k_proc s c) = ZOMBIE" using find_proc_Some [OF child(1)] by simp
  then have "trans_ok (p_state (k_proc s j)) (p_state (k_proc t j))" for j
    using reap_table [OF child(3)] by (cases "j = c") (auto simp: trans_ok_def reaped_def)
  then show ?thesis by (simp add: all_trans_def)
next
  case none
  then show ?thesis by (simp add: all_trans_def same_table_def)
next
  case block
  then show ?thesis using sleep_enter_trans(1) assms(2) by blast
qed

lemma fork2_trans:
  assumes "fork2 ops pri s = Inr (v, t)"
  shows "all_trans s t"
  using assms
proof (cases rule: fork2_cases)
  case (noslot s1)
  from allocproc_None [OF noslot(3)] show ?thesis
  proof
    assume "same_table s1 t"
    with noslot(2) show ?thesis by (simp add: same_table_def all_trans_def)
  next
    assume "\<exists>i. find_proc (\<lambda>p. p_state p = UNUSED) s1 = Some i \<and>
     (\<forall>j. j \<noteq> i \<longrightarrow> k_proc t j = k_proc s1 j) \<and> p_state (k_proc t i) = UNUSED \<and>
     p_qnode (k_proc t i) = p_qnode (k_proc s1 i) \<and> p_pid (k_proc t i) = k_nextpid s1 \<and> k_node t = k_node s1 \<and>
     k_nextpid t = cint (k_nextpid s1 + 1) \<and> c_proc (k_cpu t) = c_proc (k_cpu s1)"
    then obtain i where i: "find_proc (\<lambda>p. p_state p = UNUSED) s1 = Some i"
      "\<And>j. j \<noteq> i \<Longrightarrow> k_proc t j = k_proc s1 j" "p_state (k_proc t i) = UNUSED" by blast
    have "trans_ok (p_state (k_proc s1 j)) (p_state (k_proc t j))" for j
      using i(2) [of j] i(3) find_proc_Some [OF i(1)] by (cases "j = i") simp_all
    with noslot(2) show ?thesis by (simp add: same_table_def all_trans_def)
  qed
next
  case (nomem s1 s2 np)
  have "slot_taken s1 np s2" using allocproc_Some [OF nomem(3)] by simp
  then have "find_proc (\<lambda>p. p_state p = UNUSED) s1 = Some np" "\<And>j. j \<noteq> np \<Longrightarrow> k_proc s2 j = k_proc s1 j"
    by (simp_all add: slot_taken_def)
  then have "trans_ok (p_state (k_proc s1 j)) (p_state (k_proc t j))" for j
    using nomem(4) [of j] nomem(6) find_proc_Some by (cases "j = np") fastforce+
  with nomem(2) show ?thesis by (simp add: same_table_def all_trans_def)
next
  case (ok s1 s2 np n)
  have "slot_taken s1 np s2" using allocproc_Some [OF ok(2)] by simp
  then have "find_proc (\<lambda>p. p_state p = UNUSED) s1 = Some np" "\<And>j. j \<noteq> np \<Longrightarrow> k_proc s2 j = k_proc s1 j"
    by (simp_all add: slot_taken_def)
  then have "trans_ok (p_state (k_proc s1 j)) (p_state (k_proc t j))" for j
    using ok(5) [of j] ok(7) find_proc_Some by (cases "j = np") (fastforce simp: trans_ok_def)+
  with ok(1) show ?thesis by (simp add: same_table_def all_trans_def)
qed

lemma states_same_trans_ok: "states_same s t \<Longrightarrow> all_trans s t"
  by (simp add: states_same_def all_trans_def)

lemma same_table_states: "same_table s t \<Longrightarrow> states_same s t"
  by (simp add: states_same_def same_table_def)

lemma kstep_trans:
  assumes "kstep ops a s t" "a \<noteq> APick"
  shows "all_trans s t"
  using assms(1)
proof (cases rule: kstep.cases)
  case pick with assms show ?thesis by simp
next
  case return
  then show ?thesis using scheduler_return_table [OF return(4)] by (simp add: all_trans_def)
next
  case yield then show ?thesis using yield_enter_trans(1) by blast
next
  case yield_back then show ?thesis using resume_calm(1) same_table_states states_same_trans_ok by blast
next
  case first_run then show ?thesis using resume_calm(2) same_table_states states_same_trans_ok by blast
next
  case sleep then show ?thesis using sleep_enter_trans(1) by blast
next
  case sleep_back then show ?thesis using resume_calm(3) states_same_trans_ok by blast
next
  case exit then show ?thesis using exit_enter_trans(1) by blast
next
  case (wait i out)
  then obtain cur s1 s2 where s1: "myproc_deref s = Inr (cur, s1)" and s2: "k_acquire s1 = Inr s2"
    and w: "wait_pass ops cur s2 = Inr (out, t)" by (auto simp: wait_begin_def rbind_eq_Inr)
  have st: "same_table s s2" "c_proc (k_cpu s) = Some cur"
    using myproc_deref_table [OF s1] k_acquire_table [OF s2] same_table_trans by blast+
  then have "running s2 cur" using wait by (simp add: running_def same_table_def)
  with wait_pass_trans [OF w] st(1) show ?thesis by (simp add: all_trans_def same_table_def)
next
  case (wait_on i ie out)
  then obtain lk s1 where s1: "sleep_resume i LkPtable ie s = Inr (lk, s1)"
    and w: "wait_pass ops i s1 = Inr (out, t)" by (auto simp: wait_again_def rbind_eq_Inr)
  have c: "calm s s1" "states_same s s1" using resume_calm(3) [OF wait_on(2) s1] by simp_all
  then have "running s1 i" using wait_on by (simp add: running_def calm_def states_same_def)
  with wait_pass_trans [OF w] c(2) show ?thesis by (simp add: all_trans_def states_same_def)
next
  case fork then show ?thesis using fork2_trans by blast
next
  case wake then show ?thesis using wakeup_trans(1) by blast
next
  case kill then show ?thesis using kill_trans(1) by blast
next
  case setpri then show ?thesis using proc_setpri_calm states_same_trans_ok by blast
qed

section \<open>Boot and the reachable states\<close>








section \<open>Critical sections that run to their end\<close>

definition in_section :: "'e kst \<Rightarrow> bool" where
  "in_section s \<longleftrightarrow> holds (k_lock s) (k_cpu s) \<and> cpu_ok (k_cpu s) \<and> c_ncli (k_cpu s) = 1 \<and> \<not> c_if (k_cpu s)"

lemma section_cong:
  assumes "k_lock t = k_lock s" "k_cpu t = k_cpu s"
  shows "in_section t = in_section s" "can_lock t = can_lock s"
  using assms by (simp_all add: in_section_def can_lock_def)

lemma section_enter:
  assumes "can_lock s"
  obtains t where "k_acquire s = Inr t" "same_table s t" "k_ext t = k_ext s" "in_section t"
    "k_head t = k_head s" "k_tail t = k_tail s"
  using k_acquire_ok [OF assms] k_acquire_table by (fastforce simp: in_section_def)

lemma section_leave:
  assumes "in_section s"
  obtains t where "k_release s = Inr t" "same_table s t" "k_ext t = k_ext s" "can_lock t"
    "k_head t = k_head s" "k_tail t = k_tail s"
proof -
  from k_release_ok [of s] assms obtain lk c where "k_release s = Inr (s\<lparr>k_lock := lk, k_cpu := c\<rparr>)"
    "sl_locked lk = 0" "c_ncli c = 0" "cpu_ok c" by (auto simp: in_section_def)
  then show thesis using that k_release_table by (fastforce simp: can_lock_def)
qed

lemma myproc_ok:
  assumes "can_lock s" "c_proc (k_cpu s) = Some i"
  obtains t where "myproc_deref s = Inr (i, t)" "same_table s t" "k_ext t = k_ext s" "can_lock t"
proof -
  have "cpu_ok (k_cpu s)" using assms by (simp add: can_lock_def)
  from popcli_pushcli [OF this] obtain b where b: "popcli (pushcli (k_cpu s)) = Inr ((k_cpu s)\<lparr>c_intena := b\<rparr>)" by blast
  let ?t = "s\<lparr>k_cpu := (k_cpu s)\<lparr>c_intena := b\<rparr>\<rparr>"
  have "myproc_deref s = Inr (i, ?t)" using b assms by (simp add: myproc_deref_def myproc_def)
  moreover have "can_lock ?t" using assms by (auto simp: can_lock_def cpu_ok_def)
  ultimately show thesis using that [of ?t] by (simp add: same_table_def)
qed

lemma wakeup_ok: "can_lock s \<Longrightarrow> \<exists>t. wakeup ch s = Inr t"
proof -
  assume "can_lock s"
  then obtain s1 where s1: "k_acquire s = Inr s1" "in_section s1" by (rule section_enter)
  then have "in_section (wakeup1 ch s1)" by (subst section_cong [of _ s1]) simp_all
  then show ?thesis using s1 by (auto simp: wakeup_def elim: section_leave)
qed

section \<open>Fork\<close>

lemma alloc_qnode_other [simp]:
  "k_ext (alloc_qnode i s) = k_ext s" "k_lock (alloc_qnode i s) = k_lock s"
  by (simp_all add: alloc_qnode_def split: option.splits)

lemma allocproc_ok:
  assumes "can_lock s" "find_proc (\<lambda>p. p_state p = UNUSED) s = Some i" "op_kalloc ops (k_ext s) = (ks, e)" "ks \<noteq> 0"
  shows "\<exists>t. allocproc ops s = Inr (Some i, t) \<and> can_lock t \<and> k_ext t = e"
proof -
  obtain s1 where s1: "k_acquire s = Inr s1" "same_table s s1" "k_ext s1 = k_ext s" "in_section s1"
    using assms(1) by (rule section_enter)
  let ?s2 = "(upd_proc i (\<lambda>p. p\<lparr>p_state := EMBRYO, p_pid := k_nextpid s1\<rparr>) s1)\<lparr>k_nextpid := cint (k_nextpid s1 + 1)\<rparr>"
  have "in_section ?s2" using s1(4) by (subst section_cong [of _ s1]) simp_all
  then obtain s3 where s3: "k_release ?s2 = Inr s3" "k_ext s3 = k_ext ?s2" "can_lock s3" by (rule section_leave)
  have e: "op_kalloc ops (k_ext s3) = (ks, e)" using s3(2) s1(3) assms(3) by simp
  let ?t = "upd_proc i reset_stats (alloc_qnode i (upd_proc i (setup_kstack ops ks)
      (upd_proc i (\<lambda>p. p\<lparr>p_kstack := ks\<rparr>) (s3\<lparr>k_ext := e\<rparr>))))"
  have "allocproc ops s = Inr (Some i, ?t)"
    using s1(1) s3(1) e assms(2,4) find_proc_table [OF s1(2)] by (simp add: allocproc_def alloc_found_def ext2_def)
  moreover have "can_lock ?t" using s3(3) by (subst section_cong [of _ s3]) (simp_all add: alloc_qnode_effect)
  ultimately show ?thesis by auto
qed

lemma dup_ofile_fields:
  "k_lock (dup_ofile ops cur np i s) = k_lock s" "k_cpu (dup_ofile ops cur np i s) = k_cpu s"
  "p_parent (k_proc (dup_ofile ops cur np i s) j) = p_parent (k_proc s j)"
  "p_tf (k_proc (dup_ofile ops cur np i s) j) = p_tf (k_proc s j)"
  "p_sz (k_proc (dup_ofile ops cur np i s) j) = p_sz (k_proc s j)"
  "p_put_in (k_proc (dup_ofile ops cur np i s) j) = p_put_in (k_proc s j)"
  by (auto simp: dup_ofile_def ext2_def split: option.splits prod.splits)

lemma fold_keeps: "(\<And>i u. f (g i u) = f u) \<Longrightarrow> f (fold g is s) = f s"
  by (induction "is" arbitrary: s) auto

lemma fork_fill_fields:
  fixes ops :: "'e kops"
  shows "p_parent (k_proc (fork_fill ops cur np s) np) = Some cur"
    "p_tf (k_proc (fork_fill ops cur np s) np) = (p_tf (k_proc s cur))\<lparr>tf_eax := 0\<rparr>"
    "p_sz (k_proc (fork_fill ops cur np s) np) = p_sz (k_proc s cur)"
    "p_put_in (k_proc (fork_fill ops cur np s) np) = p_put_in (k_proc s np)"
    "k_lock (fork_fill ops cur np s) = k_lock s" "k_cpu (fork_fill ops cur np s) = k_cpu s"
proof -
  let ?f = "\<lambda>u :: 'e kst. fold (dup_ofile ops cur np) [0..<NOFILE] u"
  have k: "p_parent (k_proc (?f u) j) = p_parent (k_proc u j)" "p_tf (k_proc (?f u) j) = p_tf (k_proc u j)"
    "p_sz (k_proc (?f u) j) = p_sz (k_proc u j)" "k_lock (?f u) = k_lock u" "k_cpu (?f u) = k_cpu u"
    "p_put_in (k_proc (?f u) j) = p_put_in (k_proc u j)" for u j
    by (rule fold_keeps, simp add: dup_ofile_fields)+
  show "p_parent (k_proc (fork_fill ops cur np s) np) = Some cur"
    "p_tf (k_proc (fork_fill ops cur np s) np) = (p_tf (k_proc s cur))\<lparr>tf_eax := 0\<rparr>"
    "p_sz (k_proc (fork_fill ops cur np s) np) = p_sz (k_proc s cur)"
    "p_put_in (k_proc (fork_fill ops cur np s) np) = p_put_in (k_proc s np)"
    "k_lock (fork_fill ops cur np s) = k_lock s" "k_cpu (fork_fill ops cur np s) = k_cpu s"
    by (simp_all add: fork_fill_def ext2_def set_name_def k split: prod.splits)
qed

text \<open>The child of a successful \<open>fork2\<close>, and the slots that stay.\<close>

definition forked :: "'e kst \<Rightarrow> nat \<Rightarrow> nat \<Rightarrow> int \<Rightarrow> 'e kst \<Rightarrow> bool" where
  "forked s cur np pri t \<longleftrightarrow>
     (let p = k_proc t np; c = k_proc s cur in
      p_state p = RUNNABLE \<and> p_pid p = k_nextpid s \<and> p_parent p = Some cur \<and>
      p_tf p = (p_tf c)\<lparr>tf_eax := 0\<rparr> \<and> p_sz p = p_sz c \<and> p_priority p = pri \<and> p_put_in p = - 1 \<and>
      p_qnode p = free_node s) \<and>
     (\<forall>j. j \<noteq> np \<longrightarrow> k_proc t j = k_proc s j)"

lemma fork2_ok:
  assumes lock: "can_lock s" and run: "running s cur"
    and slot: "find_proc (\<lambda>p. p_state p = UNUSED) s = Some np" and node: "free_node s \<noteq> None"
    and mem: "op_kalloc ops (k_ext s) = (ks, e)" "ks \<noteq> 0"
    and copy: "op_copyuvm ops (p_pgdir (k_proc s cur)) (p_sz (k_proc s cur)) e = (pg, e')" "pg \<noteq> 0"
  shows "\<exists>t. fork2 ops pri s = Inr (k_nextpid s, t) \<and> forked s cur np pri t"
proof -
  have cp: "c_proc (k_cpu s) = Some cur" using run by (simp add: running_def)
  obtain s1 where s1: "myproc_deref s = Inr (cur, s1)" "same_table s s1" "k_ext s1 = k_ext s" "can_lock s1"
    using lock cp by (rule myproc_ok)
  have slot1: "find_proc (\<lambda>p. p_state p = UNUSED) s1 = Some np" using slot by (simp add: find_proc_table [OF s1(2)])
  from allocproc_ok [OF s1(4) slot1 mem(1) [folded s1(3)] mem(2)] obtain s2
    where s2: "allocproc ops s1 = Inr (Some np, s2)" "can_lock s2" "k_ext s2 = e" by blast
  note al = allocproc_Some [OF s2(1)]
  have st: "slot_taken s1 np s2" "p_put_in (k_proc s2 np) = - 1" using al by simp_all
  have fn: "free_node s1 = free_node s" using s1(2) by (intro free_node_cong) (simp add: same_table_def)
  have q: "p_qnode (k_proc s2 np) = free_node s" using st(1) node fn by (auto simp: slot_taken_def)
  have "p_state (k_proc s np) = UNUSED" using find_proc_Some [OF slot] by simp
  then have ne: "cur \<noteq> np" using run by (auto simp: running_def)
  have other: "k_proc s2 j = k_proc s j" if "j \<noteq> np" for j using st(1) s1(2) that by (simp add: slot_taken_def same_table_def)
  have pid: "p_pid (k_proc s2 np) = k_nextpid s" using st(1) s1(2) by (simp add: slot_taken_def same_table_def)
  let ?a = "upd_proc np (\<lambda>p. p\<lparr>p_pgdir := pg\<rparr>) (s2\<lparr>k_ext := e'\<rparr>)"
  let ?b = "fork_fill ops cur np ?a"
  have b: "only_child np ?a ?b" by (rule fork_fill_child)
  obtain n where n: "free_node s = Some n" using node by blast
  let ?c = "upd_node n (\<lambda>q. q\<lparr>qn_proc := Some np\<rparr>) (upd_proc np (\<lambda>p. p\<lparr>p_priority := pri\<rparr>) ?b)"
  have "can_lock ?c" using s2(2) by (subst section_cong [of _ s2]) (simp_all add: fork_fill_fields)
  then obtain d where d: "k_acquire ?c = Inr d" "same_table ?c d" "in_section d" by (rule section_enter)
  let ?d = "upd_proc np (\<lambda>p. p\<lparr>p_state := RUNNABLE\<rparr>) d"
  have "in_section ?d" using d(3) by (subst section_cong [of _ d]) simp_all
  then obtain t where t: "k_release ?d = Inr t" "same_table ?d t" by (rule section_leave)
  have qb: "p_qnode (k_proc ?b np) = Some n" "p_pid (k_proc ?b np) = k_nextpid s"
    using b q n pid by (simp_all add: only_child_def same_id_def)
  have "fork2 ops pri s = Inr (k_nextpid s, t)"
    using s1(1) s2(1,3) d(1) t(1) copy other [OF ne] qb by (simp add: fork2_def ext2_def)
  moreover have "k_proc t j = (if j = np then (k_proc ?b np)\<lparr>p_priority := pri, p_state := RUNNABLE\<rparr> else k_proc s j)" for j
    using d(2) t(2) b other [of j] by (simp add: same_table_def only_child_def)
  ultimately show ?thesis using qb n other [OF ne] ne st(2) by (simp add: forked_def fork_fill_fields)
qed

lemma fork2_nomem:
  assumes lock: "can_lock s" and run: "running s cur"
    and slot: "find_proc (\<lambda>p. p_state p = UNUSED) s = Some np" and node: "free_node s = Some n"
    and mem: "op_kalloc ops (k_ext s) = (ks, e)" "ks \<noteq> 0"
    and copy: "fst (op_copyuvm ops (p_pgdir (k_proc s cur)) (p_sz (k_proc s cur)) e) = 0"
  shows "\<exists>t. fork2 ops pri s = Inr (- 1, t) \<and> p_state (k_proc t np) = UNUSED \<and> qn_inuse (k_node t n) \<and>
     (\<forall>m. qn_inuse (k_node s m) \<longrightarrow> qn_inuse (k_node t m)) \<and> (\<forall>j. j \<noteq> np \<longrightarrow> k_proc t j = k_proc s j)"
proof -
  have cp: "c_proc (k_cpu s) = Some cur" using run by (simp add: running_def)
  obtain s1 where s1: "myproc_deref s = Inr (cur, s1)" "same_table s s1" "k_ext s1 = k_ext s" "can_lock s1"
    using lock cp by (rule myproc_ok)
  have slot1: "find_proc (\<lambda>p. p_state p = UNUSED) s1 = Some np" using slot by (simp add: find_proc_table [OF s1(2)])
  from allocproc_ok [OF s1(4) slot1 mem(1) [folded s1(3)] mem(2)] obtain s2
    where s2: "allocproc ops s1 = Inr (Some np, s2)" "k_ext s2 = e" by blast
  have st: "slot_taken s1 np s2" using allocproc_Some [OF s2(1)] by simp
  have fn: "free_node s1 = Some n" using s1(2) node free_node_cong [of s1 s] by (simp add: same_table_def)
  have "p_state (k_proc s np) = UNUSED" using find_proc_Some [OF slot] by simp
  then have ne: "cur \<noteq> np" using run by (auto simp: running_def)
  have other: "k_proc s2 j = k_proc s j" if "j \<noteq> np" for j using st(1) s1(2) that by (simp add: slot_taken_def same_table_def)
  have nd: "k_node s2 = (k_node s)(n := (k_node s n)\<lparr>qn_inuse := True, qn_proc := Some np, qn_next := None\<rparr>)"
    using st fn s1(2) by (simp add: slot_taken_def same_table_def)
  obtain e' where copy': "op_copyuvm ops (p_pgdir (k_proc s cur)) (p_sz (k_proc s cur)) e = (0, e')"
    using copy by (cases "op_copyuvm ops (p_pgdir (k_proc s cur)) (p_sz (k_proc s cur)) e") simp
  show ?thesis using s1(1) s2 copy' other [OF ne] nd other by (simp add: fork2_def ext2_def)
qed

text \<open>With every node in use and none left on the slot, \<open>fork2\<close> dereferences a null pointer.\<close>

lemma fork2_null_node:
  assumes lock: "can_lock s" and run: "running s cur"
    and slot: "find_proc (\<lambda>p. p_state p = UNUSED) s = Some np" and node: "free_node s = None" "p_qnode (k_proc s np) = None"
    and mem: "op_kalloc ops (k_ext s) = (ks, e)" "ks \<noteq> 0"
    and copy: "fst (op_copyuvm ops (p_pgdir (k_proc s cur)) (p_sz (k_proc s cur)) e) \<noteq> 0"
  shows "fork2 ops pri s = Inl (Undefined ''fork2: null q_node'')"
proof -
  have cp: "c_proc (k_cpu s) = Some cur" using run by (simp add: running_def)
  obtain s1 where s1: "myproc_deref s = Inr (cur, s1)" "same_table s s1" "k_ext s1 = k_ext s" "can_lock s1"
    using lock cp by (rule myproc_ok)
  have slot1: "find_proc (\<lambda>p. p_state p = UNUSED) s1 = Some np" using slot by (simp add: find_proc_table [OF s1(2)])
  from allocproc_ok [OF s1(4) slot1 mem(1) [folded s1(3)] mem(2)] obtain s2
    where s2: "allocproc ops s1 = Inr (Some np, s2)" "k_ext s2 = e" by blast
  have st: "slot_taken s1 np s2" using allocproc_Some [OF s2(1)] by simp
  have fn: "free_node s1 = None" using s1(2) node free_node_cong [of s1 s] by (simp add: same_table_def)
  have "p_state (k_proc s np) = UNUSED" using find_proc_Some [OF slot] by simp
  then have ne: "cur \<noteq> np" using run by (auto simp: running_def)
  have other: "k_proc s2 cur = k_proc s cur" using st(1) s1(2) ne by (simp add: slot_taken_def same_table_def)
  have q: "p_qnode (k_proc s2 np) = None" using st fn s1(2) node(2) by (simp add: slot_taken_def same_table_def)
  obtain pg e' where copy': "op_copyuvm ops (p_pgdir (k_proc s cur)) (p_sz (k_proc s cur)) e = (pg, e')" "pg \<noteq> 0"
    using copy by (cases "op_copyuvm ops (p_pgdir (k_proc s cur)) (p_sz (k_proc s cur)) e") simp
  let ?a = "upd_proc np (\<lambda>p. p\<lparr>p_pgdir := pg\<rparr>) (s2\<lparr>k_ext := e'\<rparr>)"
  have "p_qnode (k_proc (fork_fill ops cur np ?a) np) = None"
    using fork_fill_child [of np ?a ops cur] q by (simp add: only_child_def same_id_def)
  then show ?thesis using s1(1) s2 copy' other by (simp add: fork2_def ext2_def)
qed

section \<open>Init, sleep, wait and exit run to their end\<close>


lemma popcli_section:
  assumes "in_section s"
  shows "popcli (pushcli (k_cpu s)) = Inr (k_cpu s)"
  using popcli_pushcli [of "k_cpu s"] assms by (auto simp: in_section_def)

lemma myproc_section: "in_section s \<Longrightarrow> myproc s = Inr (c_proc (k_cpu s), s)"
  by (simp add: myproc_def popcli_section)

lemma sched_enter_ok:
  assumes "in_section s" "c_proc (k_cpu s) = Some i" "p_state (k_proc s i) \<noteq> RUNNING"
  shows "sched_enter s = Inr (c_intena (k_cpu s), s)"
proof -
  have "holding (k_lock s) (k_cpu s) = Inr (True, k_cpu s)"
    using holding_nested [of "k_cpu s" "k_lock s"] assms(1) by (simp add: in_section_def)
  with assms show ?thesis by (simp add: sched_enter_def myproc_section) (simp add: in_section_def)
qed

lemma sleep_section:
  assumes "in_section s" "c_proc (k_cpu s) = Some i"
  shows "sleep_enter ch LkPtable s =
    Inr (LkPtable, c_intena (k_cpu s), upd_proc i (\<lambda>p. p\<lparr>p_chan := ch, p_state := SLEEPING\<rparr>) s)"
proof -
  let ?t = "upd_proc i (\<lambda>p. p\<lparr>p_chan := ch, p_state := SLEEPING\<rparr>) s"
  have "in_section ?t" using assms(1) by (subst section_cong [of _ s]) simp_all
  then have "sched_enter ?t = Inr (c_intena (k_cpu ?t), ?t)"
    by (rule sched_enter_ok [where i = i]) (use assms(2) in simp_all)
  then show ?thesis using assms by (simp add: sleep_enter_def myproc_section)
qed

text \<open>One pass of \<open>wait\<close>, on every branch.\<close>

definition zombie_child :: "nat \<Rightarrow> proc \<Rightarrow> bool" where
  "zombie_child cur p \<longleftrightarrow> p_parent p = Some cur \<and> p_state p = ZOMBIE"

definition waited :: "nat \<Rightarrow> 'e kst \<Rightarrow> wait_out \<Rightarrow> 'e kst \<Rightarrow> bool" where
  "waited cur s out t \<longleftrightarrow>
     (if \<exists>i < NPROC. zombie_child cur (k_proc s i) then
        (\<exists>i < NPROC. zombie_child cur (k_proc s i) \<and> out = WReturn (p_pid (k_proc s i)) \<and>
           k_proc t = (k_proc s)(i := reaped (k_proc s i)) \<and>
           (\<forall>n. p_qnode (k_proc s i) = Some n \<longrightarrow> \<not> qn_inuse (k_node t n)))
      else if (\<forall>i < NPROC. p_parent (k_proc s i) \<noteq> Some cur) \<or> p_killed (k_proc s cur) then
        out = WReturn (- 1) \<and> k_proc t = k_proc s
      else (\<exists>ie. out = WSleep ie) \<and>
        k_proc t = (k_proc s)(cur := (k_proc s cur)\<lparr>p_chan := Some (CProc cur), p_state := SLEEPING\<rparr>))"

lemma reap_ok:
  assumes "in_section s" "p_qnode (k_proc s i) = Some n"
  shows "\<exists>t. reap ops i s = Inr (p_pid (k_proc s i), t)"
proof -
  let ?t = "upd_proc i (\<lambda>p. p\<lparr>p_qnode := None\<rparr>) (upd_node n (\<lambda>q. q\<lparr>qn_inuse := False\<rparr>)
     (upd_proc i (\<lambda>p. p\<lparr>p_pid := 0, p_parent := None, p_name := [], p_killed := False, p_state := UNUSED\<rparr>)
       (ext1 (op_freevm ops (p_pgdir (k_proc s i))) (upd_proc i (\<lambda>p. p\<lparr>p_kstack := 0\<rparr>)
          (ext1 (op_kfree ops (p_kstack (k_proc s i))) s)))))"
  have "in_section ?t" using assms(1) by (subst section_cong [of _ s]) simp_all
  then obtain t where "k_release ?t = Inr t" by (rule section_leave)
  with assms(2) show ?thesis by (simp add: reap_def)
qed

lemma wait_pass_ok:
  assumes sec: "in_section s" and run: "running s cur"
    and nodes: "\<forall>i < NPROC. zombie_child cur (k_proc s i) \<longrightarrow> p_qnode (k_proc s i) \<noteq> None"
  shows "\<exists>out t. wait_pass ops cur s = Inr (out, t) \<and> waited cur s out t"
proof (cases "find_proc (zombie_child cur) s")
  case (Some i)
  then have i: "i < NPROC" "zombie_child cur (k_proc s i)" using find_proc_Some by blast+
  with nodes obtain n where n: "p_qnode (k_proc s i) = Some n" by blast
  from reap_ok [OF sec n] obtain t where t: "reap ops i s = Inr (p_pid (k_proc s i), t)" by blast
  have "wait_pass ops cur s = Inr (WReturn (p_pid (k_proc s i)), t)"
    using Some t by (simp add: wait_pass_def zombie_child_def [abs_def])
  moreover have "waited cur s (WReturn (p_pid (k_proc s i))) t"
    unfolding waited_def using i n reap_table [OF t] by auto
  ultimately show ?thesis by blast
next
  case None
  then have nz: "\<not> (\<exists>i < NPROC. zombie_child cur (k_proc s i))" by (simp add: find_proc_None)
  show ?thesis
  proof (cases "find_proc (\<lambda>p. p_parent p = Some cur) s = None \<or> p_killed (k_proc s cur)")
    case True
    obtain t where t: "k_release s = Inr t" "same_table s t" using sec by (rule section_leave)
    have "wait_pass ops cur s = Inr (WReturn (- 1), t)"
      using None True t(1) by (auto simp: wait_pass_def zombie_child_def [abs_def])
    moreover have "waited cur s (WReturn (- 1)) t"
      using nz True t(2) by (auto simp: waited_def find_proc_None same_table_def)
    ultimately show ?thesis by blast
  next
    case False
    have "wait_pass ops cur s = Inr (WSleep (c_intena (k_cpu s)),
        upd_proc cur (\<lambda>p. p\<lparr>p_chan := Some (CProc cur), p_state := SLEEPING\<rparr>) s)"
      using None False run sleep_section [OF sec, of cur] by (simp add: wait_pass_def zombie_child_def [abs_def] running_def)
    moreover have "waited cur s (WSleep (c_intena (k_cpu s)))
        (upd_proc cur (\<lambda>p. p\<lparr>p_chan := Some (CProc cur), p_state := SLEEPING\<rparr>) s)"
      using nz False by (auto simp: waited_def find_proc_None)
    ultimately show ?thesis by blast
  qed
qed

text \<open>Exit: the children go to \<open>init\<close>, a parent that waits is woken.\<close>

lemma reparent_fields:
  "p_parent (k_proc (reparent cur i s) j) =
     (if j = i \<and> p_parent (k_proc s i) = Some cur then k_initproc s else p_parent (k_proc s j))"
  "k_initproc (reparent cur i s) = k_initproc s"
  by (auto simp: reparent_def wakeup1_proc)

lemma reparent_fold:
  assumes "k_initproc s \<noteq> Some cur"
  shows "p_parent (k_proc (fold (reparent cur) is s) j) =
     (if j \<in> set is \<and> p_parent (k_proc s j) = Some cur then k_initproc s else p_parent (k_proc s j))"
  using assms by (induction "is" arbitrary: s) (auto simp: reparent_fields)

lemma reparent_lock: "k_lock (reparent cur i s) = k_lock s" "k_cpu (reparent cur i s) = k_cpu s"
  by (simp_all add: reparent_def)

lemma close_ofile_keeps:
  "p_parent (k_proc (close_ofile ops cur fd s) j) = p_parent (k_proc s j)"
  "p_chan (k_proc (close_ofile ops cur fd s) j) = p_chan (k_proc s j)"
  "p_state (k_proc (close_ofile ops cur fd s) j) = p_state (k_proc s j)"
  "k_lock (close_ofile ops cur fd s) = k_lock s" "k_cpu (close_ofile ops cur fd s) = k_cpu s"
  "k_initproc (close_ofile ops cur fd s) = k_initproc s"
  by (auto simp: close_ofile_def split: option.splits)

definition exited :: "nat \<Rightarrow> 'e kst \<Rightarrow> 'e kst \<Rightarrow> bool" where
  "exited cur s t \<longleftrightarrow> p_state (k_proc t cur) = ZOMBIE \<and>
     (\<forall>i < NPROC. p_parent (k_proc t i) =
        (if p_parent (k_proc s i) = Some cur then k_initproc s else p_parent (k_proc s i))) \<and>
     (\<forall>q < NPROC. p_parent (k_proc s cur) = Some q \<and> p_state (k_proc s q) = SLEEPING \<and>
        p_chan (k_proc s q) = Some (CProc q) \<longrightarrow> p_state (k_proc t q) = RUNNABLE)"

lemma exit_ok:
  assumes lock: "can_lock s" and run: "running s cur" and ni: "k_initproc s \<noteq> Some cur"
  shows "\<exists>ie t. exit_enter ops s = Inr (ie, t) \<and> exited cur s t"
proof -
  have cp: "c_proc (k_cpu s) = Some cur" "p_state (k_proc s cur) = RUNNING" using run by (simp_all add: running_def)
  obtain s1 where s1: "myproc_deref s = Inr (cur, s1)" "same_table s s1" "can_lock s1"
    using lock cp(1) by (rule myproc_ok)
  have m: "myproc s = Inr (Some cur, s1)" using s1(1) by (auto simp: myproc_deref_def rbind_eq_Inr split: option.splits)
  let ?a = "fold (close_ofile ops cur) [0..<NOFILE] s1"
  have ka: "p_parent (k_proc ?a j) = p_parent (k_proc s1 j)" "p_chan (k_proc ?a j) = p_chan (k_proc s1 j)"
    "p_state (k_proc ?a j) = p_state (k_proc s1 j)" "k_lock ?a = k_lock s1" "k_cpu ?a = k_cpu s1"
    "k_initproc ?a = k_initproc s1" for j
    by (rule fold_keeps, simp add: close_ofile_keeps)+
  let ?b = "ext1 (op_begin_op ops) ?a"
  let ?e = "upd_proc cur (\<lambda>p. p\<lparr>p_cwd := None\<rparr>) (ext1 (op_end_op ops) (ext1 (op_iput ops (p_cwd (k_proc ?b cur))) ?b))"
  have "can_lock ?e" using s1(3) by (subst section_cong [of _ s1]) (simp_all add: ka)
  then obtain f where f: "k_acquire ?e = Inr f" "same_table ?e f" "in_section f" by (rule section_enter)
  have pf: "p_parent (k_proc f j) = p_parent (k_proc s j)" "p_chan (k_proc f j) = p_chan (k_proc s j)"
    "p_state (k_proc f j) = p_state (k_proc s j)" "k_initproc f = k_initproc s" "c_proc (k_cpu f) = Some cur" for j
    using same_tableD [OF f(2)] same_tableD [OF s1(2)] cp by (auto simp: ka)
  let ?g = "wakeup1 (proc_chan (p_parent (k_proc f cur))) f"
  let ?h = "fold (reparent cur) [0..<NPROC] ?g"
  let ?z = "upd_proc cur (\<lambda>p. p\<lparr>p_state := ZOMBIE\<rparr>) ?h"
  have kh: "k_lock ?h = k_lock ?g" "k_cpu ?h = k_cpu ?g" by (rule fold_keeps, simp add: reparent_lock)+
  have "in_section ?z" using f(3) by (subst section_cong [of _ f]) (simp_all add: kh)
  then have "sched_enter ?z = Inr (c_intena (k_cpu ?z), ?z)"
    by (rule sched_enter_ok [where i = cur]) (use pf kh in simp_all)
  then have "exit_enter ops s = Inr (c_intena (k_cpu ?z), ?z)"
    using m f(1) ni same_tableD(3) [OF s1(2)] by (simp add: exit_enter_def)
  moreover have "exited cur s ?z"
  proof -
    have "woken ?g ?h" by (rule woken_fold) (rule woken_reparent)
    then have w: "p_state (k_proc ?h q) = p_state (k_proc ?g q) \<or> p_state (k_proc ?g q) = SLEEPING" for q
      unfolding woken_def by blast
    have "p_state (k_proc ?z q) = RUNNABLE" if "q < NPROC" "p_parent (k_proc s cur) = Some q"
      "p_state (k_proc s q) = SLEEPING" "p_chan (k_proc s q) = Some (CProc q)" for q
    proof -
      have "p_state (k_proc ?g q) = RUNNABLE" using that pf by (simp add: wakeup1_proc wake_one_def)
      moreover have "q \<noteq> cur" using that(3) cp(2) by auto
      ultimately show ?thesis using w [of q] by auto
    qed
    moreover have "p_parent (k_proc ?z i) = (if p_parent (k_proc s i) = Some cur then k_initproc s else p_parent (k_proc s i))"
      if "i < NPROC" for i
    proof -
      have "p_parent (k_proc ?g i) = p_parent (k_proc s i)" "k_initproc ?g = k_initproc s"
        using pf by (simp_all add: wakeup1_proc)
      moreover have "p_parent (k_proc ?z i) = p_parent (k_proc ?h i)" by simp
      ultimately show ?thesis using reparent_fold [of ?g cur "[0..<NPROC]" i] ni that by simp
    qed
    ultimately show ?thesis by (auto simp: exited_def)
  qed
  ultimately show ?thesis by blast
qed

section \<open>A small machine for the examples\<close>

text \<open>
  Process 0 (priority 3) and process 1 (priority 1) are in use, in no queue; memory never runs
  out unless \<open>copy\<close> says so.
\<close>

definition ex_ops :: "u32 \<Rightarrow> unit kops" where
  "ex_ops copy = \<lparr>op_kalloc = (\<lambda>e. (4096, e)), op_kfree = (\<lambda>_ e. e), op_setupkvm = (\<lambda>e. (8192, e)),
     op_inituvm = (\<lambda>_ e. e), op_allocuvm = (\<lambda>_ _ n e. (n, e)), op_deallocuvm = (\<lambda>_ _ n e. (n, e)),
     op_copyuvm = (\<lambda>_ _ e. (copy, e)), op_freevm = (\<lambda>_ e. e), op_switchuvm = (\<lambda>_ e. e),
     op_switchkvm = (\<lambda>e. e), op_filedup = (\<lambda>f e. (f, e)), op_fileclose = (\<lambda>_ e. e),
     op_idup = (\<lambda>i e. (i, e)), op_iput = (\<lambda>_ e. e), op_begin_op = (\<lambda>e. e), op_end_op = (\<lambda>e. e),
     op_namei = (\<lambda>_ e. (None, e)), op_iinit = (\<lambda>e. e), op_initlog = (\<lambda>e. e), op_forkret = 1,
     op_trapret = 2, op_page_tf = (\<lambda>_. user_tf)\<rparr>"

definition ex_proc :: proc where
  "ex_proc = \<lparr>p_sz = 0, p_pgdir = 0, p_kstack = 0, p_state = UNUSED, p_pid = 0, p_parent = None,
     p_tf = user_tf, p_tf_addr = 0, p_context = \<lparr>cx_edi = 0, cx_esi = 0, cx_ebx = 0, cx_ebp = 0, cx_eip = 0\<rparr>,
     p_ctx_addr = 0, p_stack_ret = 0, p_chan = None, p_killed = False, p_ofile = (\<lambda>_. None), p_cwd = None,
     p_name = [], p_qnode = None, p_put_in = - 1, p_priority = 0, p_ticks = (\<lambda>_. 0), p_qtail = (\<lambda>_. 0)\<rparr>"

definition ex_node :: queue_node where
  "ex_node = \<lparr>qn_next = None, qn_prev = None, qn_proc = None, qn_ticks = 0, qn_inuse = False\<rparr>"

definition ex_cpu :: cpu_st where
  "ex_cpu = \<lparr>c_idx = 0, c_ncli = 0, c_intena = True, c_if = True, c_proc = None, c_stack = (\<lambda>_. 0), c_argp = 0\<rparr>"

definition ex_boot :: "unit kst" where
  "ex_boot = \<lparr>k_lock = \<lparr>sl_locked = 0, sl_name = ''ptable'', sl_cpu = None, sl_pcs = replicate 10 0\<rparr>,
     k_proc = (\<lambda>_. ex_proc), k_node = (\<lambda>_. ex_node), k_head = (\<lambda>_. None), k_tail = (\<lambda>_. None),
     k_initproc = None, k_nextpid = 1, k_cpu = ex_cpu, k_ext = ()\<rparr>"

definition ex_two :: "procstate \<Rightarrow> unit kst" where
  "ex_two st = ex_boot\<lparr>
     k_proc := (\<lambda>_. ex_proc)
       (0 := ex_proc\<lparr>p_state := st, p_pid := 1, p_priority := 3, p_qnode := Some 0\<rparr>,
        1 := ex_proc\<lparr>p_state := RUNNABLE, p_pid := 2, p_parent := Some 0, p_priority := 1, p_qnode := Some 1\<rparr>),
     k_node := (\<lambda>_. ex_node)(0 := ex_node\<lparr>qn_proc := Some 0, qn_inuse := True\<rparr>,
                             1 := ex_node\<lparr>qn_proc := Some 1, qn_inuse := True\<rparr>),
     k_nextpid := 3, k_cpu := ex_cpu\<lparr>c_proc := if st = RUNNING then Some 0 else None\<rparr>\<rparr>"

text \<open>The same two processes, linked in layer 2.\<close>

definition ex_linked :: "unit kst" where
  "ex_linked = (ex_two RUNNABLE)\<lparr>
     k_node := (\<lambda>_. ex_node)(0 := ex_node\<lparr>qn_proc := Some 0, qn_inuse := True, qn_next := Some 1\<rparr>,
                             1 := ex_node\<lparr>qn_proc := Some 1, qn_inuse := True\<rparr>,
                             2 := ex_node\<lparr>qn_proc := Some 0, qn_inuse := True\<rparr>),
     k_head := (\<lambda>_. None)(2 := Some 0), k_tail := (\<lambda>_. None)(2 := Some 1)\<rparr>"

lemmas ex_defs = ex_ops_def ex_proc_def ex_node_def ex_cpu_def ex_boot_def ex_two_def

lemma ex_two_lock: "can_lock (ex_two st)"
  by (simp add: can_lock_def cpu_ok_def ex_defs)



lemma ex_two_run: "running (ex_two RUNNING) 0"
  by (simp add: running_def ex_defs)

lemma ex_upt: "[0..<NPROC] = 0 # 1 # 2 # [3..<NPROC]"
  by (simp add: upt_rec)

lemma ex_two_slot: "find_proc (\<lambda>p. p_state p = UNUSED) (ex_two RUNNING) = Some 2"
  by (simp add: find_proc_def ex_upt ex_defs)

lemma ex_two_node: "free_node (ex_two RUNNING) = Some 2"
  by (simp add: free_node_def ex_upt ex_defs)

lemma ex_linked_queue: "queue_at ex_linked 2 [0, 1]"
  by (simp add: queue_at_def ex_linked_def ex_node_def)

section \<open>The properties of the scheduler and the queues\<close>





text \<open>
  \<open>put_tail_q\<close> refines appending: a node that is in no layer becomes the last of its layer, and
  the other layers keep their contents.
\<close>

theorem put_tail_q_refines_append:
  assumes "mlq s qs" "layer_ok pri" "\<forall>l < NLAYER. n \<notin> set (qs l)" "qn_proc (k_node s n) = Some p"
  shows "\<exists>t. put_tail_q (Some n) pri s = Inr t \<and> mlq t (qs(nat pri := qs (nat pri) @ [n]))"
  using assms by (rule put_tail_q_mlq)

lemma ex_linked_mlq: "mlq ex_linked ((\<lambda>_. [])(2 := [0, 1]))"
  using ex_linked_queue unfolding mlq_def by (auto simp: queue_at_def ex_linked_def)

lemma mlq_layer: "mlq t qs \<Longrightarrow> l < NLAYER \<Longrightarrow> queue_at t l (qs l)"
  by (simp add: mlq_def)

theorem put_tail_q_refines_append_witness:
  "\<exists>t. put_tail_q (Some 2) 2 ex_linked = Inr t \<and> queue_at t 2 [0, 1, 2]"
proof -
  have "qn_proc (k_node ex_linked 2) = Some 0" by (simp add: ex_linked_def)
  then obtain t where "put_tail_q (Some 2) 2 ex_linked = Inr t" "mlq t ((\<lambda>_. [])(2 := [0, 1, 2]))"
    using put_tail_q_refines_append [OF ex_linked_mlq, of 2 2 0] by (auto simp: layer_ok_def)
  then show ?thesis using mlq_layer [of t _ 2] by fastforce
qed

text \<open>
  C3. \<open>rm_from_q\<close> terminates and refines removal from the layer's list, when the node is absent,
  at the head, or not the last one.
\<close>

theorem rm_from_q_refines_remove:
  assumes "mlq s qs" "layer_ok pri" "n \<in> set (qs (nat pri)) \<and> n = last (qs (nat pri)) \<longrightarrow> n = hd (qs (nat pri))"
  shows "\<exists>t. rm_from_q (Some n) pri s = Inr t \<and> mlq t (qs(nat pri := remove1 n (qs (nat pri))))"
  using assms by (intro rm_from_q_mlq) (simp_all add: rm_safe_def)

theorem rm_from_q_refines_remove_witness:
  "\<exists>t. rm_from_q (Some 0) 2 ex_linked = Inr t \<and> queue_at t 2 [1]"
proof -
  obtain t where "rm_from_q (Some 0) 2 ex_linked = Inr t" "mlq t ((\<lambda>_. [])(2 := [1]))"
    using rm_from_q_refines_remove [OF ex_linked_mlq, of 2 0] by (auto simp: layer_ok_def)
  then show ?thesis using mlq_layer [of t _ 2] by fastforce
qed

text \<open>
  C4. Removing the last of several nodes leaves the tail pointer on the removed node: the next
  node that is appended to the layer cannot be reached from its head, so its process is not
  scheduled from that layer.
\<close>

theorem tail_removal_loses_next:
  assumes "queue_at s (nat pri) (xs @ [y, n])" "layer_ok pri"
    "m \<notin> set (xs @ [y])" "n \<notin> set (xs @ [y])" "qn_proc (k_node s m) = Some p"
  shows "\<exists>t u. rm_from_q (Some n) pri s = Inr t \<and> k_tail t (nat pri) = Some n \<and>
     put_tail_q (Some m) pri t = Inr u \<and> chain (nexts u) (k_head u (nat pri)) (xs @ [y])"
proof -
  obtain t where t: "rm_from_q (Some n) pri s = Inr t" "chain (nexts t) (k_head t (nat pri)) (xs @ [y])"
    "k_tail t (nat pri) = Some n" using rm_from_q_tail_dangles [OF assms(1,2)] by blast
  have "qn_proc (k_node t m) = Some p" using rm_from_q_frame(7) [OF t(1)] assms(5) by simp
  from put_tail_q_lost [OF t(2,3) assms(4,3,2) this] t show ?thesis by blast
qed

theorem tail_removal_loses_next_witness:
  "\<exists>t u. rm_from_q (Some 1) 2 ex_linked = Inr t \<and> put_tail_q (Some 2) 2 t = Inr u \<and>
     chain (nexts u) (k_head u 2) [0]"
  using tail_removal_loses_next [of ex_linked 2 "[]" 0 1 2 0] ex_linked_queue
  by (simp add: layer_ok_def) (auto simp: ex_linked_def)

section \<open>The properties of the process calls\<close>




text \<open>
  C6. Every kernel step but the scheduler's pick moves every process along the state diagram:
  unused to runnable (fork), running to runnable, sleeping or zombie, sleeping to runnable,
  zombie to unused.
\<close>

theorem kstep_state_diagram:
  assumes "kstep ops a s t" "a \<noteq> APick"
  shows "all_trans s t"
  using assms by (rule kstep_trans)

theorem kstep_state_diagram_witness:
  "\<exists>t. kstep (ex_ops 1) AWakeup (ex_two SLEEPING) t \<and> all_trans (ex_two SLEEPING) t"
proof -
  obtain t where "wakeup None (ex_two SLEEPING) = Inr t" using wakeup_ok [OF ex_two_lock] by blast
  then have "kstep (ex_ops 1) AWakeup (ex_two SLEEPING) t" by (rule kstep.wake)
  with kstep_state_diagram show ?thesis by blast
qed

text \<open>
  C7. With a free slot, a free node and memory, \<open>fork2\<close> succeeds: it returns the old \<open>nextpid\<close>,
  and exactly one slot changes, from unused to a runnable child of the caller that has the
  caller's memory size and registers with 0 as return value, the requested priority and a node.
\<close>

theorem fork2_makes_child:
  assumes "can_lock s" "running s cur" "find_proc (\<lambda>p. p_state p = UNUSED) s = Some np" "free_node s \<noteq> None"
    "op_kalloc ops (k_ext s) = (ks, e)" "ks \<noteq> 0"
    "op_copyuvm ops (p_pgdir (k_proc s cur)) (p_sz (k_proc s cur)) e = (pg, e')" "pg \<noteq> 0"
  shows "\<exists>t. fork2 ops pri s = Inr (k_nextpid s, t) \<and> forked s cur np pri t"
  using assms by (rule fork2_ok)

theorem fork2_makes_child_witness:
  "\<exists>t. fork2 (ex_ops 1) 2 (ex_two RUNNING) = Inr (3, t) \<and> forked (ex_two RUNNING) 0 2 2 t"
proof -
  have "k_nextpid (ex_two RUNNING) = 3" by (simp add: ex_defs)
  then show ?thesis
    using fork2_makes_child [OF ex_two_lock ex_two_run ex_two_slot, of "ex_ops 1" 4096 "()" 1 "()" 2] ex_two_node
    by (simp add: ex_ops_def)
qed

text \<open>
  When copying the address space fails, \<open>fork2\<close> returns -1 and gives the slot back, but the
  queue node it took stays marked in use: the node leaks.
\<close>

theorem fork2_failure_leaks_node:
  assumes "can_lock s" "running s cur" "find_proc (\<lambda>p. p_state p = UNUSED) s = Some np" "free_node s = Some n"
    "op_kalloc ops (k_ext s) = (ks, e)" "ks \<noteq> 0"
    "fst (op_copyuvm ops (p_pgdir (k_proc s cur)) (p_sz (k_proc s cur)) e) = 0"
  shows "\<exists>t. fork2 ops pri s = Inr (- 1, t) \<and> p_state (k_proc t np) = UNUSED \<and>
     \<not> qn_inuse (k_node s n) \<and> qn_inuse (k_node t n) \<and>
     (\<forall>m. qn_inuse (k_node s m) \<longrightarrow> qn_inuse (k_node t m)) \<and> (\<forall>j. j \<noteq> np \<longrightarrow> k_proc t j = k_proc s j)"
proof -
  have "\<not> qn_inuse (k_node s n)" using assms(4) by (auto simp: free_node_def find_Some_iff)
  with fork2_nomem [OF assms] show ?thesis by blast
qed

theorem fork2_failure_leaks_node_witness:
  "\<exists>t. fork2 (ex_ops 0) 2 (ex_two RUNNING) = Inr (- 1, t) \<and> qn_inuse (k_node t 2)"
  using fork2_failure_leaks_node [OF ex_two_lock ex_two_run ex_two_slot ex_two_node, of "ex_ops 0" 4096 "()" 2]
  by (auto simp: ex_ops_def)

text \<open>
  \<open>wakeup\<close> makes runnable exactly the processes that sleep on the channel, and changes
  nothing else of any process.
\<close>

theorem wakeup_exact:
  assumes "can_lock s"
  shows "\<exists>t. wakeup ch s = Inr t \<and> (\<forall>i < NPROC. k_proc t i =
     (if p_state (k_proc s i) = SLEEPING \<and> p_chan (k_proc s i) = ch
      then (k_proc s i)\<lparr>p_state := RUNNABLE\<rparr> else k_proc s i))"
  using wakeup_ok [OF assms, of ch] wakeup_trans(2) [of ch s] by (auto simp: wake_one_def)

theorem wakeup_exact_witness:
  "\<exists>t. wakeup None (ex_two SLEEPING) = Inr t \<and> p_state (k_proc t 0) = RUNNABLE"
proof -
  obtain t where t: "wakeup None (ex_two SLEEPING) = Inr t" and
    p: "\<forall>i < NPROC. k_proc t i =
     (if p_state (k_proc (ex_two SLEEPING) i) = SLEEPING \<and> p_chan (k_proc (ex_two SLEEPING) i) = None
      then (k_proc (ex_two SLEEPING) i)\<lparr>p_state := RUNNABLE\<rparr> else k_proc (ex_two SLEEPING) i)"
    using wakeup_exact [OF ex_two_lock] by blast
  from p have "p_state (k_proc t 0) = RUNNABLE" by (simp add: ex_defs)
  with t show ?thesis by blast
qed

text \<open>
  A pass of \<open>wait\<close> reaps a zombie child if there is one, returns its pid and frees its slot
  and its node; without children, or when killed, it returns -1; otherwise the caller sleeps on
  its own slot.
\<close>

theorem wait_pass_exact:
  assumes "in_section s" "running s cur"
    "\<forall>i < NPROC. zombie_child cur (k_proc s i) \<longrightarrow> p_qnode (k_proc s i) \<noteq> None"
  shows "\<exists>out t. wait_pass ops cur s = Inr (out, t) \<and> waited cur s out t"
  using assms by (rule wait_pass_ok)

theorem wait_pass_exact_witness:
  "\<exists>s t ie. k_acquire (ex_two RUNNING) = Inr s \<and> wait_pass (ex_ops 1) 0 s = Inr (WSleep ie, t) \<and>
     p_state (k_proc t 0) = SLEEPING"
proof -
  obtain s where s: "k_acquire (ex_two RUNNING) = Inr s" "same_table (ex_two RUNNING) s" "in_section s"
    using ex_two_lock by (rule section_enter)
  have k: "k_proc s = k_proc (ex_two RUNNING)" "c_proc (k_cpu s) = Some 0"
    using same_tableD [OF s(2)] by (simp_all add: ex_defs)
  have run: "running s 0" using ex_two_run k by (simp add: running_def)
  have z: "\<not> zombie_child 0 (k_proc s i)" for i by (simp add: zombie_child_def k ex_defs)
  obtain out t where w: "wait_pass (ex_ops 1) 0 s = Inr (out, t)" "waited 0 s out t"
    using wait_pass_exact [OF s(3) run, of "ex_ops 1"] z by blast
  have "p_parent (k_proc s 1) = Some 0" "\<not> p_killed (k_proc s 0)" by (simp_all add: k ex_defs)
  then have "\<not> ((\<forall>i < NPROC. p_parent (k_proc s i) \<noteq> Some 0) \<or> p_killed (k_proc s 0))" by (metis one_less_numeral_iff semiring_norm(76))
  with w(2) z obtain ie where "out = WSleep ie" "p_state (k_proc t 0) = SLEEPING" by (auto simp: waited_def)
  with s(1) w(1) show ?thesis by blast
qed

text \<open>
  C8. \<open>exit\<close> of any process but \<open>init\<close> ends in the scheduler with the process a zombie, its
  children handed to \<open>init\<close>, and its parent runnable again if it was sleeping in \<open>wait\<close>.
\<close>

theorem exit_makes_zombie:
  assumes "can_lock s" "running s cur" "k_initproc s \<noteq> Some cur"
  shows "\<exists>ie t. exit_enter ops s = Inr (ie, t) \<and> exited cur s t"
  using assms by (rule exit_ok)

theorem exit_makes_zombie_witness:
  "\<exists>ie t. exit_enter (ex_ops 1) (ex_two RUNNING) = Inr (ie, t) \<and> p_state (k_proc t 0) = ZOMBIE"
proof -
  have "k_initproc (ex_two RUNNING) \<noteq> Some 0" by (simp add: ex_defs)
  from exit_makes_zombie [OF ex_two_lock ex_two_run this, of "ex_ops 1"] show ?thesis by (auto simp: exited_def)
qed

end
