(* ===== verification/Kalloc.thy ===== *)
theory Kalloc
  imports Spinlock
begin

text \<open>
  The physical page allocator that keeps the pages of different processes apart
  (\<open>05_xv6_memory_safe_allocation/src/v2-sort/kalloc.c\<close>) and the system call that reports the
  owners (\<open>sys_dump_physmem\<close> in \<open>sysproc.c\<close>). A free page holds the address of the next free page
  in its first word; \<open>pg2pid\<close> maps a frame, counted from the top of memory, to its owner.
\<close>

section \<open>State\<close>

text \<open>
  \<open>km_mem\<close> is memory by words, \<open>km_end\<close> the linker's symbol \<open>end\<close>. \<open>km_pid\<close> is the array
  \<open>pg2pid\<close>, \<open>km_count\<close> is \<open>allocated_count\<close>.
\<close>

record kmem =
  km_lock :: spinlock
  km_use_lock :: bool
  km_free :: u32
  km_mem :: "u32 \<Rightarrow> u32"
  km_pid :: "nat \<Rightarrow> int"
  km_count :: int
  km_init :: bool
  km_end :: u32
  km_cpu :: cpu_st

definition MAX_FRAME_NUM :: nat where "MAX_FRAME_NUM = 16384"

definition PHYSTOP :: u32 where "PHYSTOP = 0xE000000"

definition V2P :: "u32 \<Rightarrow> u32" where
  "V2P va = va - KERNBASE"

definition VA2IDX :: "u32 \<Rightarrow> u32" where
  "VA2IDX va = drop_bit 12 PHYSTOP - drop_bit 12 (V2P va) - 1"

definition IDX2FN :: "int \<Rightarrow> u32" where
  "IDX2FN idx = drop_bit 12 PHYSTOP - 1 - word_of_int idx"

definition PGROUNDUP :: "u32 \<Rightarrow> u32" where
  "PGROUNDUP a = and (a + 4095) (not 4095)"

text \<open>Accesses to \<open>pg2pid\<close>: an index outside the array is undefined behaviour.\<close>

definition pg2pid :: "kmem \<Rightarrow> int \<Rightarrow> int res" where
  "pg2pid s i = (if 0 \<le> i \<and> i < int MAX_FRAME_NUM then Inr (km_pid s (nat i))
     else Inl (Undefined ''pg2pid: index out of range''))"

definition set_pg2pid :: "int \<Rightarrow> int \<Rightarrow> kmem \<Rightarrow> kmem res" where
  "set_pg2pid i v s = (if 0 \<le> i \<and> i < int MAX_FRAME_NUM then Inr (s\<lparr>km_pid := (km_pid s)(nat i := v)\<rparr>)
     else Inl (Undefined ''pg2pid: index out of range''))"

definition km_acquire :: "kmem \<Rightarrow> kmem res" where
  "km_acquire s = (if km_use_lock s
     then rbind (acquire (km_lock s) (km_cpu s)) (\<lambda>(lk, c). Inr (s\<lparr>km_lock := lk, km_cpu := c\<rparr>)) else Inr s)"

definition km_release :: "kmem \<Rightarrow> kmem res" where
  "km_release s = (if km_use_lock s
     then rbind (release (km_lock s) (km_cpu s)) (\<lambda>(lk, c). Inr (s\<lparr>km_lock := lk, km_cpu := c\<rparr>)) else Inr s)"

definition km_write :: "u32 \<Rightarrow> u32 \<Rightarrow> kmem \<Rightarrow> kmem" where
  "km_write a v s = s\<lparr>km_mem := (km_mem s)(a := v)\<rparr>"

section \<open>Freeing\<close>

text \<open>The walk of \<open>insert_freelist\<close> to the last page above \<open>r\<close>.\<close>

partial_function (option) insert_scan :: "(u32 \<Rightarrow> u32) \<Rightarrow> u32 \<Rightarrow> u32 \<Rightarrow> u32 option" where
  "insert_scan m r prev =
     (if m prev \<noteq> 0 \<and> m prev > r then insert_scan m r (m prev) else Some prev)"

definition insert_freelist :: "u32 \<Rightarrow> kmem \<Rightarrow> kmem res" where
  "insert_freelist r s =
     rbind (km_acquire s) (\<lambda>s.
       let prev = km_free s in
       rbind (if prev = 0 \<or> prev < r then Inr (km_write r prev (s\<lparr>km_free := r\<rparr>))
              else case insert_scan (km_mem s) r prev of None \<Rightarrow> Inl Hang
                | Some prev \<Rightarrow> let s = km_write r (km_mem s prev) s in Inr (km_write prev r s))
         km_release)"

definition memset_page :: "u32 \<Rightarrow> kmem \<Rightarrow> kmem" where
  "memset_page v s = s\<lparr>km_mem := (\<lambda>a. if v \<le> a \<and> a < v + 4096 then 0x01010101 else km_mem s a)\<rparr>"

text \<open>The frames \<open>pg2pid\<close> covers: the top \<open>MAX_FRAME_NUM\<close> ones.\<close>

definition tracked :: "u32 \<Rightarrow> bool" where
  "tracked v \<longleftrightarrow> drop_bit 12 (V2P v) \<ge> drop_bit 12 PHYSTOP - of_nat MAX_FRAME_NUM"

definition kfree :: "u32 \<Rightarrow> kmem \<Rightarrow> kmem res" where
  "kfree v s =
     (if v mod 4096 \<noteq> 0 \<or> v < km_end s \<or> V2P v \<ge> PHYSTOP then Inl (Panic ''kfree'')
      else
        let s = memset_page v s in
        rbind (if tracked v
               then rbind (set_pg2pid (uint (VA2IDX v)) (- 1) s) (\<lambda>s.
                      Inr (if km_init s then s\<lparr>km_count := cint (km_count s - 1)\<rparr> else s))
               else Inr s)
          (insert_freelist v))"

partial_function (option) freerange_loop :: "u32 \<Rightarrow> u32 \<Rightarrow> kmem \<Rightarrow> kmem res option" where
  "freerange_loop p vend s =
     (if p + 4096 \<le> vend then
        (case kfree p s of Inl e \<Rightarrow> Some (Inl e) | Inr s \<Rightarrow> freerange_loop (p + 4096) vend s)
      else Some (Inr s))"

definition freerange :: "u32 \<Rightarrow> u32 \<Rightarrow> kmem \<Rightarrow> kmem res" where
  "freerange vstart vend s =
     (case freerange_loop (PGROUNDUP vstart) vend s of None \<Rightarrow> Inl Hang | Some r \<Rightarrow> r)"

definition kinit1 :: "u32 \<Rightarrow> u32 \<Rightarrow> kmem \<Rightarrow> kmem res" where
  "kinit1 vstart vend s =
     freerange vstart vend (s\<lparr>km_lock := initlock ''kmem'' (km_lock s), km_use_lock := False\<rparr>)"

definition kinit2 :: "u32 \<Rightarrow> u32 \<Rightarrow> kmem \<Rightarrow> kmem res" where
  "kinit2 vstart vend s =
     rbind (freerange vstart vend s) (\<lambda>s. Inr (s\<lparr>km_use_lock := True, km_init := True\<rparr>))"

section \<open>Allocating\<close>

text \<open>\<open>a != pid && a != -1 && a != -2\<close>: the neighbour forbids the page.\<close>

definition hostile :: "int \<Rightarrow> int \<Rightarrow> bool" where
  "hostile pid a \<longleftrightarrow> a \<noteq> pid \<and> a \<noteq> - 1 \<and> a \<noteq> - 2"

definition safe_guard :: "kmem \<Rightarrow> int \<Rightarrow> int \<Rightarrow> bool res" where
  "safe_guard s index pid =
     (if index = 0 then
        rbind (pg2pid s (index + 1)) (\<lambda>a. Inr (pid = a \<or> a = - 1 \<or> a = - 2))
      else
        rbind (pg2pid s (index + 1)) (\<lambda>a.
        rbind (pg2pid s (index - 1)) (\<lambda>b.
          let flag = True;
              flag = (if hostile pid a then False else flag);
              flag = (if hostile pid b then False else flag)
          in Inr flag)))"

text \<open>The loop of \<open>select_page\<close>; \<open>prev\<close> is \<open>None\<close> while \<open>if_freelist\<close> is 1.\<close>

partial_function (option) select_scan ::
  "kmem \<Rightarrow> int \<Rightarrow> u32 option \<Rightarrow> u32 \<Rightarrow> (u32 option \<times> u32) res option" where
  "select_scan s pid prev r =
     (case safe_guard s (sint (VA2IDX r)) pid of
        Inl e \<Rightarrow> Some (Inl e)
      | Inr b \<Rightarrow> if b then Some (Inr (prev, r)) else select_scan s pid (Some r) (km_mem s r))"

definition select_page :: "int \<Rightarrow> kmem \<Rightarrow> (u32 \<times> kmem) res" where
  "select_page pid s =
     (case select_scan s pid None (km_free s) of None \<Rightarrow> Inl Hang
      | Some res \<Rightarrow> rbind res (\<lambda>(prev, r).
          Inr (r, case prev of None \<Rightarrow> s\<lparr>km_free := km_mem s r\<rparr>
                  | Some q \<Rightarrow> km_write q (km_mem s r) s)))"

definition kalloc :: "int \<Rightarrow> kmem \<Rightarrow> (u32 \<times> kmem) res" where
  "kalloc pid s =
     rbind (km_acquire s) (\<lambda>s.
     rbind (if pid = - 2
            then let r = km_free s in Inr (r, if r \<noteq> 0 then s\<lparr>km_free := km_mem s r\<rparr> else s)
            else select_page pid s) (\<lambda>(r, s).
     rbind (km_release s) (\<lambda>s.
       if tracked r
       then rbind (set_pg2pid (uint (VA2IDX r)) pid s) (\<lambda>s.
              Inr (r, s\<lparr>km_count := cint (km_count s + 1)\<rparr>))
       else Inr (r, s))))"

section \<open>Reporting\<close>

text \<open>
  \<open>sys_dump_physmem\<close>: \<open>n\<close> is the third argument if \<open>argint\<close> can read it, \<open>fr\<close> and \<open>pd\<close> the two
  array pointers if \<open>argptr\<close> accepts them. A successful call returns the contents of the arrays.
\<close>

partial_function (option) dump_skip :: "kmem \<Rightarrow> int \<Rightarrow> int res option" where
  "dump_skip s j =
     (case pg2pid s j of Inl e \<Rightarrow> Some (Inl e)
      | Inr a \<Rightarrow> if a = - 1 then dump_skip s (j + 1) else Some (Inr j))"

fun dump_fill :: "kmem \<Rightarrow> nat \<Rightarrow> int \<Rightarrow> int \<Rightarrow> (int \<times> int) list res" where
  "dump_fill s 0 i j = Inr []"
| "dump_fill s (Suc k) i j =
     (if i < km_count s then
        (case dump_skip s j of None \<Rightarrow> Inl Hang
         | Some r \<Rightarrow> rbind r (\<lambda>j. rbind (pg2pid s j) (\<lambda>p.
             rbind (dump_fill s k (i + 1) (j + 1)) (\<lambda>rest. Inr ((sint (IDX2FN j), p) # rest)))))
      else Inr (replicate (Suc k) (- 1, - 1)))"

definition sys_dump_physmem ::
  "int option \<Rightarrow> u32 option \<Rightarrow> u32 option \<Rightarrow> kmem \<Rightarrow> (int list \<times> int list) option res" where
  "sys_dump_physmem n fr pd s =
     (case n of None \<Rightarrow> Inr None | Some num \<Rightarrow>
        (case (fr, pd) of (Some f, Some p) \<Rightarrow>
           if num < 1 \<or> f = 0 \<or> p = 0 then Inr None
           else rbind (dump_fill s (nat num) 0 0) (\<lambda>xs. Inr (Some (map fst xs, map snd xs)))
         | _ \<Rightarrow> Inr None))"

end
