(* ===== verification/KallocProps.thy ===== *)
theory KallocProps
  imports Kalloc
begin

text \<open>
  The page allocator keeps its free list sorted and complete, and keeps the pages of different
  processes apart. Pages are numbered from address 0 (\<open>pnum\<close>), frames from the top of memory
  (\<open>fidx\<close>); \<open>kmem_inv\<close> is the invariant, and \<open>page_allocator\<close> the contract that clients use.
\<close>

section \<open>Pages and frames\<close>

definition pnum :: "u32 \<Rightarrow> nat" where
  "pnum v = unat (V2P v) div 4096"

definition page_ok :: "u32 \<Rightarrow> bool" where
  "page_ok v \<longleftrightarrow> v mod 4096 = 0 \<and> V2P v < PHYSTOP"

definition fidx :: "u32 \<Rightarrow> nat" where
  "fidx v = 57343 - pnum v"

lemma unat_drop12: "unat (drop_bit 12 (w :: u32)) = unat w div 4096"
  unfolding unat_drop_bit_eq by (simp add: drop_bit_eq_div)

lemma pnum_less: "page_ok v \<Longrightarrow> pnum v < 57344"
  unfolding pnum_def by (rule less_mult_imp_div_less) (simp add: page_ok_def PHYSTOP_def word_less_nat_alt)

lemma page_unat: "page_ok v \<Longrightarrow> unat v = 2147483648 + 4096 * pnum v"
proof -
  assume p: "page_ok v"
  have lt: "unat (V2P v) < 234881024" using p by (simp add: page_ok_def PHYSTOP_def word_less_nat_alt)
  have "unat v = unat (V2P v + KERNBASE)" by (simp add: V2P_def)
  then have "unat v = (unat (V2P v) + 2147483648) mod 4294967296"
    unfolding unat_word_ariths(1) by (simp add: KERNBASE_def)
  then have v: "unat v = unat (V2P v) + 2147483648" using lt by simp
  have "unat v mod 4096 = 0" 
  proof -
    have "unat (v mod 4096) = 0" using p by (simp add: page_ok_def)
    then show ?thesis by (simp only: unat_mod_distrib) simp
  qed
  moreover have "unat v = unat (V2P v) + 524288 * 4096" using v by simp
  ultimately have "unat (V2P v) mod 4096 = 0" by (metis mod_mult_self1)
  then have "4096 * pnum v = unat (V2P v)" unfolding pnum_def by (metis mult_div_mod_eq add_0_right)
  then show ?thesis using v by simp
qed

lemma VA2IDX_unat: "page_ok v \<Longrightarrow> unat (VA2IDX v) = fidx v"
proof -
  assume p: "page_ok v"
  have a: "unat (drop_bit 12 (V2P v)) = pnum v" by (simp add: unat_drop12 pnum_def)
  have b: "drop_bit 12 PHYSTOP = (57344 :: u32)" by (simp add: PHYSTOP_def)
  have "unat ((57344 :: u32) - drop_bit 12 (V2P v)) = 57344 - pnum v"
    using pnum_less [OF p] a by (simp add: unat_sub word_le_nat_alt)
  then have "unat ((57344 :: u32) - drop_bit 12 (V2P v) - 1) = 57343 - pnum v"
    using pnum_less [OF p] by (subst unat_sub) (simp_all add: word_le_nat_alt)
  then show ?thesis by (simp add: VA2IDX_def b fidx_def)
qed

lemma tracked_iff: "page_ok v \<Longrightarrow> tracked v \<longleftrightarrow> fidx v < MAX_FRAME_NUM"
  using pnum_less [of v]
  by (auto simp: tracked_def PHYSTOP_def MAX_FRAME_NUM_def word_le_nat_alt unat_drop12 pnum_def [symmetric] fidx_def)

lemma page_less: "page_ok v \<Longrightarrow> page_ok w \<Longrightarrow> v < w \<longleftrightarrow> pnum v < pnum w"
  by (simp add: word_less_nat_alt page_unat)

lemma VA2IDX_ints: "page_ok v \<Longrightarrow> uint (VA2IDX v) = int (fidx v)" "page_ok v \<Longrightarrow> sint (VA2IDX v) = int (fidx v)"
proof -
  assume p: "page_ok v"
  show u: "uint (VA2IDX v) = int (fidx v)" using VA2IDX_unat [OF p] by (metis uint_nat)
  have "fidx v < 57344" by (simp add: fidx_def)
  then show "sint (VA2IDX v) = int (fidx v)" by (simp add: sint_uint u signed_take_bit_int_eq_self)
qed

section \<open>The free list as a list\<close>

definition ptr :: "u32 \<Rightarrow> u32 option" where
  "ptr a = (if a = 0 then None else Some a)"

definition free_list :: "kmem \<Rightarrow> u32 list \<Rightarrow> bool" where
  "free_list s xs \<longleftrightarrow> chain (\<lambda>a. ptr (km_mem s a)) (ptr (km_free s)) xs \<and> 0 \<notin> set xs"

text \<open>The free list after inserting a page: the pages above it, the page, the pages below it.\<close>

definition insert_desc :: "u32 \<Rightarrow> u32 list \<Rightarrow> u32 list" where
  "insert_desc r xs = takeWhile (\<lambda>x. x > r) xs @ r # dropWhile (\<lambda>x. x > r) xs"

lemma insert_desc_sorted: "sorted_wrt (>) xs \<Longrightarrow> r \<notin> set xs \<Longrightarrow> sorted_wrt (>) (insert_desc r xs)"
proof (induction xs)
  case (Cons x xs)
  show ?case
  proof (cases "x > r")
    case True
    then have "insert_desc r (x # xs) = x # insert_desc r xs" by (simp add: insert_desc_def)
    moreover have "set (insert_desc r xs) = insert r (set xs)"
      unfolding insert_desc_def by (metis Un_insert_right list.simps(15) set_append takeWhile_dropWhile_id)
    ultimately show ?thesis using Cons True by auto
  next
    case False
    then have "x < r" using Cons.prems(2) by auto
    with False Cons.prems(1) show ?thesis by (auto simp: insert_desc_def)
  qed
qed (simp add: insert_desc_def)

lemma set_insert_desc [simp]: "set (insert_desc r xs) = insert r (set xs)"
  unfolding insert_desc_def by (metis Un_insert_right list.simps(15) set_append takeWhile_dropWhile_id)

lemma ptr_eq: "ptr a = Some b \<longleftrightarrow> a = b \<and> b \<noteq> 0" "ptr a = None \<longleftrightarrow> a = 0"
  by (auto simp: ptr_def)

lemma insert_scan_stop:
  assumes "chain (\<lambda>a. ptr (m a)) (ptr p) (p # xs)"
  shows "insert_scan m r p = Some (last (p # takeWhile (\<lambda>x. x > r) xs))"
  using assms
proof (induction xs arbitrary: p)
  case Nil
  then show ?case by (simp add: insert_scan.simps ptr_eq)
next
  case (Cons x xs)
  then have mp: "m p = x" "x \<noteq> 0" and c: "chain (\<lambda>a. ptr (m a)) (ptr x) (x # xs)" by (auto simp: ptr_eq)
  show ?case
  proof (cases "x > r")
    case True
    then show ?thesis using mp Cons.IH [OF c] by (simp add: insert_scan.simps [of m r p])
  next
    case False
    then show ?thesis using mp by (simp add: insert_scan.simps [of m r p])
  qed
qed

lemma ptr_write: "(\<lambda>b. ptr (km_mem (km_write a v s) b)) = (\<lambda>b. ptr (km_mem s b))(a := ptr v)"
  by (auto simp: km_write_def)

lemma free_list_write:
  assumes "free_list s xs" "a \<notin> set xs"
  shows "free_list (km_write a v s) xs"
  using assms unfolding free_list_def ptr_write by (simp add: km_write_def)

lemma free_list_free: "free_list s xs \<Longrightarrow> km_free s = (case xs of [] \<Rightarrow> 0 | x # _ \<Rightarrow> x)"
  by (cases xs) (auto simp: free_list_def ptr_eq)

text \<open>The two writes of an insertion after the page \<open>y\<close>, and at the front.\<close>

lemma free_list_after:
  assumes "free_list s (us @ y # zs)" "r \<notin> set (us @ y # zs)" "r \<noteq> 0"
  shows "free_list (km_write y r (km_write r (km_mem s y) s)) (us @ y # r # zs)"
proof -
  have "chain ((\<lambda>a. ptr (km_mem s a))(r := ptr (km_mem s y), y := Some r)) (ptr (km_free s)) (us @ y # r # zs)"
    using assms by (intro chain_link) (simp_all add: free_list_def)
  moreover have "ptr (km_mem s y) = ptr (km_mem s y)" "ptr r = Some r" using assms(3) by (simp_all add: ptr_def)
  ultimately show ?thesis using assms unfolding free_list_def ptr_write by (simp add: km_write_def)
qed

lemma free_list_front:
  assumes "free_list s xs" "r \<notin> set xs" "r \<noteq> 0"
  shows "free_list (km_write r (km_free s) (s\<lparr>km_free := r\<rparr>)) (r # xs)"
  using assms unfolding free_list_def ptr_write by (simp add: km_write_def ptr_eq)


section \<open>The allocator's lock\<close>

definition mem_lock_ok :: "kmem \<Rightarrow> bool" where
  "mem_lock_ok s \<longleftrightarrow> (km_use_lock s \<longrightarrow> sl_locked (km_lock s) = 0 \<and> cpu_ok (km_cpu s) \<and> c_ncli (km_cpu s) < 999)"

text \<open>Everything but the lock and the CPU.\<close>

definition same_mem :: "kmem \<Rightarrow> kmem \<Rightarrow> bool" where
  "same_mem s t \<longleftrightarrow> km_use_lock t = km_use_lock s \<and> km_free t = km_free s \<and> km_mem t = km_mem s \<and>
     km_pid t = km_pid s \<and> km_count t = km_count s \<and> km_init t = km_init s \<and> km_end t = km_end s \<and>
     (\<not> km_use_lock s \<longrightarrow> km_lock t = km_lock s \<and> km_cpu t = km_cpu s)"

lemma same_mem_fields:
  assumes "same_mem s t"
  shows "km_use_lock t = km_use_lock s" "km_free t = km_free s" "km_mem t = km_mem s" "km_pid t = km_pid s"
    "km_count t = km_count s" "km_init t = km_init s" "km_end t = km_end s"
    "\<not> km_use_lock s \<Longrightarrow> km_lock t = km_lock s" "\<not> km_use_lock s \<Longrightarrow> km_cpu t = km_cpu s"
  using assms by (simp_all add: same_mem_def)

lemma same_mem_list: "same_mem s t \<Longrightarrow> free_list t xs = free_list s xs"
  by (simp add: free_list_def same_mem_fields)

text \<open>A section: acquire, change the free list, release.\<close>

definition in_lock :: "kmem \<Rightarrow> bool" where
  "in_lock s \<longleftrightarrow> (km_use_lock s \<longrightarrow> holds (km_lock s) (km_cpu s) \<and> cpu_ok (km_cpu s) \<and> 0 < c_ncli (km_cpu s) \<and> c_ncli (km_cpu s) < 1000)"

lemma in_lock_cong [simp]:
  "in_lock (km_write a v s) = in_lock s" "in_lock (s\<lparr>km_free := x\<rparr>) = in_lock s"
  by (simp_all add: in_lock_def km_write_def)

lemma km_enter:
  assumes "mem_lock_ok s"
  obtains t where "km_acquire s = Inr t" "same_mem s t" "in_lock t"
proof (cases "km_use_lock s")
  case True
  then have a: "cpu_ok (km_cpu s)" "c_ncli (km_cpu s) < 999" "sl_locked (km_lock s) = 0" using assms by (simp_all add: mem_lock_ok_def)
  obtain lk c where lc: "acquire (km_lock s) (km_cpu s) = Inr (lk, c)" using acquire_free [OF a] by blast
  let ?t = "s\<lparr>km_lock := lk, km_cpu := c\<rparr>"
  have "in_lock ?t" using acquire_holds [OF a(1,2) lc] a(1,2) by (simp add: in_lock_def cpu_ok_def)
  with True lc that [of ?t] show thesis by (simp add: km_acquire_def same_mem_def)
next
  case False
  with that [of s] show thesis by (simp add: km_acquire_def same_mem_def in_lock_def)
qed

lemma km_leave:
  assumes "in_lock s"
  obtains t where "km_release s = Inr t" "same_mem s t" "mem_lock_ok t"
proof (cases "km_use_lock s")
  case True
  then have h: "cpu_ok (km_cpu s)" "0 < c_ncli (km_cpu s)" "holds (km_lock s) (km_cpu s)" "c_ncli (km_cpu s) < 1000"
    using assms by (simp_all add: in_lock_def)
  then obtain c where c: "popcli (km_cpu s) = Inr c" "cpu_ok c" "c_ncli c < 999"
    by (cases "c_ncli (km_cpu s) = 1 \<and> c_intena (km_cpu s)") (auto simp: popcli_def cpu_ok_def)
  let ?t = "s\<lparr>km_lock := (km_lock s)\<lparr>sl_pcs := (sl_pcs (km_lock s))[0 := 0], sl_cpu := None, sl_locked := 0\<rparr>, km_cpu := c\<rparr>"
  have "km_release s = Inr ?t" using True release_held [OF h(1-3)] c(1) by (simp add: km_release_def)
  moreover have "mem_lock_ok ?t" using c by (simp add: mem_lock_ok_def)
  ultimately show thesis using that [of ?t] True by (simp add: same_mem_def)
next
  case False
  with that [of s] show thesis by (simp add: km_release_def same_mem_def mem_lock_ok_def)
qed

text \<open>\<open>insert_freelist\<close> keeps the list sorted, and touches neither owners nor counters.\<close>

definition list_only :: "kmem \<Rightarrow> kmem \<Rightarrow> bool" where
  "list_only s t \<longleftrightarrow> km_pid t = km_pid s \<and> km_count t = km_count s \<and> km_init t = km_init s \<and>
     km_end t = km_end s \<and> km_use_lock t = km_use_lock s \<and>
     (\<not> km_use_lock s \<longrightarrow> km_lock t = km_lock s \<and> km_cpu t = km_cpu s)"

lemma insert_freelist_ok:
  assumes "free_list s xs" "r \<notin> set xs" "r \<noteq> 0" "mem_lock_ok s"
  shows "\<exists>t. insert_freelist r s = Inr t \<and> free_list t (insert_desc r xs) \<and> list_only s t \<and> mem_lock_ok t \<and>
    (\<forall>a. a \<notin> insert r (set xs) \<longrightarrow> km_mem t a = km_mem s a)"
proof -
  obtain a where a: "km_acquire s = Inr a" "same_mem s a" "in_lock a" using assms(4) by (rule km_enter)
  have fl: "free_list a xs" using assms(1) same_mem_list [OF a(2)] by simp
  let ?body = "if km_free a = 0 \<or> km_free a < r then Inr (km_write r (km_free a) (a\<lparr>km_free := r\<rparr>))
              else case insert_scan (km_mem a) r (km_free a) of None \<Rightarrow> Inl Hang
                | Some prev \<Rightarrow> let s = km_write r (km_mem a prev) a in Inr (km_write prev r s)"
  have "\<exists>b. ?body = Inr b \<and> free_list b (insert_desc r xs) \<and> list_only a b \<and> in_lock b \<and>
      (\<forall>q. q \<notin> insert r (set xs) \<longrightarrow> km_mem b q = km_mem a q)"
  proof (cases "km_free a = 0 \<or> km_free a < r")
    case True
    have "insert_desc r xs = r # xs"
      using True free_list_free [OF fl] assms(3) by (cases xs) (auto simp: insert_desc_def)
    with True free_list_front [OF fl assms(2,3)] a(3) show ?thesis by (simp add: list_only_def km_write_def in_lock_def)
  next
    case False
    then obtain x ys where xs: "xs = x # ys" "km_free a = x" using free_list_free [OF fl] by (cases xs) auto
    with False assms(2) have "x > r" by auto
    have c: "chain (\<lambda>q. ptr (km_mem a q)) (ptr x) (x # ys)" using fl xs by (simp add: free_list_def)
    obtain us y where uy: "x # takeWhile (\<lambda>x. x > r) ys = us @ [y]" by (metis append_butlast_last_id list.distinct(1))
    then have sc: "insert_scan (km_mem a) r x = Some y" using insert_scan_stop [OF c, of r] by (metis last_snoc)
    have tw: "takeWhile (\<lambda>x. x > r) xs = us @ [y]" using xs \<open>x > r\<close> uy by simp
    then have sp: "xs = us @ y # dropWhile (\<lambda>x. x > r) xs"
      by (metis append.assoc append_Cons append_Nil takeWhile_dropWhile_id)
    have "free_list (km_write y r (km_write r (km_mem a y) a)) (us @ y # r # dropWhile (\<lambda>x. x > r) xs)"
      by (rule free_list_after) (use fl assms(2,3) sp in metis)+
    then have "free_list (km_write y r (km_write r (km_mem a y) a)) (insert_desc r xs)"
      unfolding insert_desc_def tw by simp
    moreover have "y \<in> set xs" using sp by (metis in_set_conv_decomp)
    ultimately show ?thesis using False xs sc a(3) by (auto simp add: list_only_def km_write_def in_lock_def)
  qed
  then obtain b where b: "?body = Inr b" "free_list b (insert_desc r xs)" "list_only a b" "in_lock b"
    and bm: "\<forall>q. q \<notin> insert r (set xs) \<longrightarrow> km_mem b q = km_mem a q" by blast
  obtain t where t: "km_release b = Inr t" "same_mem b t" "mem_lock_ok t" using b(4) by (rule km_leave)
  have "insert_freelist r s = Inr t" using a(1) b(1) t(1) by (simp add: insert_freelist_def)
  moreover have "list_only s t" using b(3) same_mem_fields [OF a(2)] same_mem_fields [OF t(2)] by (simp add: list_only_def)
  ultimately show ?thesis
    using b(2) bm t same_mem_list [OF t(2)] same_mem_fields(3) [OF a(2)] same_mem_fields(3) [OF t(2)] by simp
qed


section \<open>The invariant of the allocator\<close>

text \<open>
  Two owners may have adjacent frames when they are the same, or when one of the frames is free
  (-1) or belongs to the kernel or an unknown process (-2).
\<close>

definition compatible :: "int \<Rightarrow> int \<Rightarrow> bool" where
  "compatible p q \<longleftrightarrow> p = q \<or> p \<in> {- 1, - 2} \<or> q \<in> {- 1, - 2}"

definition isolated :: "kmem \<Rightarrow> bool" where
  "isolated s \<longleftrightarrow> (\<forall>i. Suc i < MAX_FRAME_NUM \<longrightarrow> compatible (km_pid s i) (km_pid s (Suc i)))"

definition owned :: "kmem \<Rightarrow> nat list" where
  "owned s = filter (\<lambda>i. km_pid s i \<noteq> - 1) [0..<MAX_FRAME_NUM]"

definition pages_ok :: "kmem \<Rightarrow> u32 list \<Rightarrow> bool" where
  "pages_ok s xs \<longleftrightarrow> free_list s xs \<and> sorted_wrt (>) xs \<and> (\<forall>x \<in> set xs. page_ok x \<and> km_end s \<le> x) \<and>
     mem_lock_ok s"

definition owners_ok :: "kmem \<Rightarrow> u32 list \<Rightarrow> bool" where
  "owners_ok s xs \<longleftrightarrow> (\<forall>i < MAX_FRAME_NUM. km_pid s i = - 1 \<longleftrightarrow> i \<in> fidx ` set xs) \<and>
     km_count s = int (length (owned s)) \<and> isolated s"

definition kmem_inv :: "kmem \<Rightarrow> u32 list \<Rightarrow> bool" where
  "kmem_inv s xs \<longleftrightarrow> km_init s \<and> pages_ok s xs \<and> owners_ok s xs"

lemma fidx_inj: "page_ok v \<Longrightarrow> page_ok w \<Longrightarrow> fidx v = fidx w \<Longrightarrow> v = w"
  using pnum_less [of v] pnum_less [of w] by (simp add: word_unat_eq_iff page_unat fidx_def)

lemma page_nonzero: "page_ok v \<Longrightarrow> v \<noteq> 0"
  by (auto dest: page_unat)

lemma pg2pid_int [simp]: "pg2pid s (int i) = (if i < MAX_FRAME_NUM then Inr (km_pid s i) else Inl (Undefined ''pg2pid: index out of range''))"
  by (simp add: pg2pid_def)

lemma set_pg2pid_int [simp]: "set_pg2pid (int i) v s = (if i < MAX_FRAME_NUM then Inr (s\<lparr>km_pid := (km_pid s)(i := v)\<rparr>)
    else Inl (Undefined ''pg2pid: index out of range''))"
  by (simp add: set_pg2pid_def)

lemma owned_update:
  assumes "i < MAX_FRAME_NUM"
  shows "km_pid s i \<noteq> - 1 \<Longrightarrow> Suc (length (owned (s\<lparr>km_pid := (km_pid s)(i := - 1)\<rparr>))) = length (owned s)"
    and "km_pid s i = - 1 \<Longrightarrow> p \<noteq> - 1 \<Longrightarrow> length (owned (s\<lparr>km_pid := (km_pid s)(i := p)\<rparr>)) = Suc (length (owned s))"
proof -
  have sp: "[0..<MAX_FRAME_NUM] = [0..<i] @ i # [Suc i..<MAX_FRAME_NUM]" using assms by (rule upt_split)
  have o: "filter (\<lambda>j. ((km_pid s)(i := v)) j \<noteq> - 1) [0..<i] = filter (\<lambda>j. km_pid s j \<noteq> - 1) [0..<i]"
    "filter (\<lambda>j. ((km_pid s)(i := v)) j \<noteq> - 1) [Suc i..<MAX_FRAME_NUM] = filter (\<lambda>j. km_pid s j \<noteq> - 1) [Suc i..<MAX_FRAME_NUM]" for v
    by (auto intro!: filter_cong)
  show "km_pid s i \<noteq> - 1 \<Longrightarrow> Suc (length (owned (s\<lparr>km_pid := (km_pid s)(i := - 1)\<rparr>))) = length (owned s)"
    "km_pid s i = - 1 \<Longrightarrow> p \<noteq> - 1 \<Longrightarrow> length (owned (s\<lparr>km_pid := (km_pid s)(i := p)\<rparr>)) = Suc (length (owned s))"
    unfolding owned_def sp by (simp_all add: o del: fun_upd_apply) simp_all
qed

lemma owned_bound: "length (owned s) \<le> MAX_FRAME_NUM"
  unfolding owned_def by (metis length_filter_le length_upt diff_zero)

lemma isolated_update:
  assumes "isolated s" "\<And>j. j < MAX_FRAME_NUM \<Longrightarrow> j = Suc i \<or> Suc j = i \<Longrightarrow> compatible p (km_pid s j)" "i < MAX_FRAME_NUM"
  shows "isolated (s\<lparr>km_pid := (km_pid s)(i := p)\<rparr>)"
  unfolding isolated_def
proof (intro allI impI)
  fix j assume j: "Suc j < MAX_FRAME_NUM"
  have sym: "compatible a b \<Longrightarrow> compatible b a" for a b by (auto simp: compatible_def)
  show "compatible (km_pid (s\<lparr>km_pid := (km_pid s)(i := p)\<rparr>) j) (km_pid (s\<lparr>km_pid := (km_pid s)(i := p)\<rparr>) (Suc j))"
    using assms(1,3) assms(2) [of j] assms(2) [of "Suc j"] j sym
    by (cases "j = i"; cases "Suc j = i") (auto simp: isolated_def)
qed

section \<open>Freeing keeps the invariant\<close>

lemma memset_other: "page_ok v \<Longrightarrow> page_ok x \<Longrightarrow> x \<noteq> v \<Longrightarrow> km_mem (memset_page v s) x = km_mem s x"
proof -
  assume v: "page_ok v" and x: "page_ok x" and ne: "x \<noteq> v"
  have "unat (v + 4096) = unat v + 4096"
    using pnum_less [OF v] page_unat [OF v] by (simp add: unat_word_ariths)
  moreover have "\<not> (pnum v \<le> pnum x \<and> 4096 * pnum x < 4096 * pnum v + 4096)"
  proof
    assume "pnum v \<le> pnum x \<and> 4096 * pnum x < 4096 * pnum v + 4096"
    then have "pnum x = pnum v" by simp
    then show False using ne page_unat [OF v] page_unat [OF x] by (simp add: word_unat_eq_iff)
  qed
  ultimately show ?thesis
    using page_unat [OF v] page_unat [OF x] by (auto simp: memset_page_def word_le_nat_alt word_less_nat_alt)
qed

lemma memset_list:
  assumes "free_list s xs" "page_ok v" "\<forall>x \<in> set xs. page_ok x" "v \<notin> set xs"
  shows "free_list (memset_page v s) xs"
proof -
  have "chain (\<lambda>a. ptr (km_mem s a)) (ptr (km_free s)) xs = chain (\<lambda>a. ptr (km_mem (memset_page v s) a)) (ptr (km_free s)) xs"
    by (rule seg_cong) (use assms memset_other in metis)
  with assms(1) show ?thesis by (simp add: free_list_def) (simp add: memset_page_def)
qed

lemma memset_fields [simp]:
  "km_pid (memset_page v s) = km_pid s" "km_count (memset_page v s) = km_count s" "km_init (memset_page v s) = km_init s"
  "km_end (memset_page v s) = km_end s" "km_use_lock (memset_page v s) = km_use_lock s"
  "km_lock (memset_page v s) = km_lock s" "km_cpu (memset_page v s) = km_cpu s" "km_free (memset_page v s) = km_free s"
  by (simp_all add: memset_page_def)

lemma kfree_pages:
  assumes "pages_ok s xs" "page_ok v" "km_end s \<le> v" "v \<notin> set xs"
  shows "\<exists>t. kfree v s = Inr t \<and> pages_ok t (insert_desc v xs) \<and> km_init t = km_init s \<and> km_end t = km_end s \<and>
    km_use_lock t = km_use_lock s \<and> (\<not> km_use_lock s \<longrightarrow> km_lock t = km_lock s \<and> km_cpu t = km_cpu s) \<and>
    (if fidx v < MAX_FRAME_NUM
     then km_pid t = (km_pid s)(fidx v := - 1) \<and> km_count t = (if km_init s then cint (km_count s - 1) else km_count s)
     else km_pid t = km_pid s \<and> km_count t = km_count s) \<and>
    (\<forall>a. a \<notin> set xs \<longrightarrow> \<not> (v \<le> a \<and> a < v + 4096) \<longrightarrow> km_mem t a = km_mem s a)"
proof -
  let ?m = "memset_page v s"
  let ?p = "?m\<lparr>km_pid := (km_pid s)(fidx v := - 1)\<rparr>"
  let ?a = "if fidx v < MAX_FRAME_NUM then (if km_init s then ?p\<lparr>km_count := cint (km_count s - 1)\<rparr> else ?p) else ?m"
  have pg: "free_list s xs" "sorted_wrt (>) xs" "\<forall>x \<in> set xs. page_ok x \<and> km_end s \<le> x" "mem_lock_ok s"
    using assms(1) by (simp_all add: pages_ok_def)
  have "free_list ?a xs" using memset_list [OF pg(1) assms(2) _ assms(4)] pg(3) by (simp add: free_list_def)
  moreover have "mem_lock_ok ?a" using pg(4) by (simp add: mem_lock_ok_def)
  ultimately obtain t where t: "insert_freelist v ?a = Inr t" "free_list t (insert_desc v xs)" "list_only ?a t" "mem_lock_ok t"
    and tm: "\<forall>a. a \<notin> insert v (set xs) \<longrightarrow> km_mem t a = km_mem ?a a"
    using insert_freelist_ok assms(4) page_nonzero [OF assms(2)] by blast
  have "v < v + 4096" using pnum_less [OF assms(2)] page_unat [OF assms(2)] by (simp add: word_less_nat_alt unat_word_ariths)
  then have mem: "km_mem t a = km_mem s a" if "a \<notin> set xs" "\<not> (v \<le> a \<and> a < v + 4096)" for a
    using tm that by (cases "a = v") (auto simp: memset_page_def)
  have "v mod 4096 = 0 \<and> \<not> v < km_end s \<and> \<not> V2P v \<ge> PHYSTOP" using assms(2,3) by (auto simp: page_ok_def)
  then have "kfree v s = insert_freelist v ?a"
    using tracked_iff [OF assms(2)] VA2IDX_ints [OF assms(2)] by (simp add: kfree_def)
  moreover have "pages_ok t (insert_desc v xs)"
    using t pg insert_desc_sorted [OF pg(2) assms(4)] assms(2,3) by (auto simp: pages_ok_def list_only_def)
  ultimately show ?thesis using t mem by (auto simp: list_only_def)
qed

lemma kfree_inv:
  assumes inv: "kmem_inv s xs" and v: "page_ok v" "km_end s \<le> v" "v \<notin> set xs"
  shows "\<exists>t. kfree v s = Inr t \<and> kmem_inv t (insert_desc v xs) \<and> km_end t = km_end s \<and>
    (\<forall>a. a \<notin> set xs \<longrightarrow> \<not> (v \<le> a \<and> a < v + 4096) \<longrightarrow> km_mem t a = km_mem s a)"
proof -
  have pg: "pages_ok s xs" and ow: "owners_ok s xs" and ini: "km_init s" using inv by (simp_all add: kmem_inv_def)
  from kfree_pages [OF pg v] obtain t where t: "kfree v s = Inr t" "pages_ok t (insert_desc v xs)" "km_init t = km_init s" "km_end t = km_end s"
    "\<forall>a. a \<notin> set xs \<longrightarrow> \<not> (v \<le> a \<and> a < v + 4096) \<longrightarrow> km_mem t a = km_mem s a"
    and o': "if fidx v < MAX_FRAME_NUM
     then km_pid t = (km_pid s)(fidx v := - 1) \<and> km_count t = (if km_init s then cint (km_count s - 1) else km_count s)
     else km_pid t = km_pid s \<and> km_count t = km_count s" by blast
  from o' ini have o: "if fidx v < MAX_FRAME_NUM
     then km_pid t = (km_pid s)(fidx v := - 1) \<and> km_count t = cint (km_count s - 1)
     else km_pid t = km_pid s \<and> km_count t = km_count s" by simp
  have "owners_ok t (insert_desc v xs)"
  proof (cases "fidx v < MAX_FRAME_NUM")
    case True
    have "fidx v \<notin> fidx ` set xs" using pg v fidx_inj unfolding pages_ok_def by blast
    then have np: "km_pid s (fidx v) \<noteq> - 1" using ow True by (simp add: owners_ok_def)
    let ?u = "s\<lparr>km_pid := (km_pid s)(fidx v := - 1)\<rparr>"
    have eq: "owned t = owned ?u" "isolated t = isolated ?u" using o True by (simp_all add: owned_def isolated_def)
    have "km_count t = int (length (owned t))"
      using o True ow owned_update(1) [OF True np] owned_bound [of s] unfolding eq
      by (simp add: owners_ok_def MAX_FRAME_NUM_def)
    moreover have "isolated t" unfolding eq
      by (rule isolated_update) (use ow True in \<open>simp_all add: owners_ok_def compatible_def\<close>)
    ultimately show ?thesis using o True ow by (auto simp: owners_ok_def)
  next
    case False
    then show ?thesis using o ow by (auto simp: owners_ok_def owned_def isolated_def)
  qed
  with t ini show ?thesis by (simp add: kmem_inv_def)
qed


section \<open>Allocation keeps the invariant\<close>

definition safe_at :: "kmem \<Rightarrow> int \<Rightarrow> nat \<Rightarrow> bool" where
  "safe_at s pid i \<longleftrightarrow> \<not> hostile pid (km_pid s (Suc i)) \<and> (0 < i \<longrightarrow> \<not> hostile pid (km_pid s (i - 1)))"

lemma safe_guard_at:
  "safe_guard s (int i) pid = (if Suc i < MAX_FRAME_NUM then Inr (safe_at s pid i)
     else Inl (Undefined ''pg2pid: index out of range''))"
proof -
  have up: "pg2pid s (int i + 1) = (if Suc i < MAX_FRAME_NUM then Inr (km_pid s (Suc i))
      else Inl (Undefined ''pg2pid: index out of range''))"
    using pg2pid_int [of s "Suc i"] by (simp only: of_nat_Suc add.commute)
  show ?thesis
  proof (cases i)
    case 0
    with up show ?thesis by (auto simp: safe_guard_def safe_at_def hostile_def)
  next
    case (Suc k)
    then have down: "pg2pid s (int i - 1) = (if k < MAX_FRAME_NUM then Inr (km_pid s k)
        else Inl (Undefined ''pg2pid: index out of range''))" by simp
    have "int i \<noteq> 0" "0 < i" "i - 1 = k" using Suc by simp_all
    then show ?thesis
      using Suc unfolding safe_guard_def up down safe_at_def by (cases "Suc i < MAX_FRAME_NUM") auto
  qed
qed

text \<open>The page at which the walk stops: the first safe one, or one with no room below in the table.\<close>

definition stops :: "kmem \<Rightarrow> int \<Rightarrow> u32 \<Rightarrow> bool" where
  "stops s pid x \<longleftrightarrow> MAX_FRAME_NUM \<le> Suc (fidx x) \<or> safe_at s pid (fidx x)"

lemma select_step:
  assumes "page_ok r"
  shows "select_scan s pid prev r =
    (if Suc (fidx r) < MAX_FRAME_NUM then
       if safe_at s pid (fidx r) then Some (Inr (prev, r)) else select_scan s pid (Some r) (km_mem s r)
     else Some (Inl (Undefined ''pg2pid: index out of range'')))"
  by (subst select_scan.simps) (simp add: VA2IDX_ints [OF assms] safe_guard_at)

lemma select_null: "select_scan s pid prev 0 = Some (Inl (Undefined ''pg2pid: index out of range''))"
proof -
  have "VA2IDX 0 = 0xFFF8DFFF" by (simp add: VA2IDX_def V2P_def PHYSTOP_def KERNBASE_def)
  then have "sint (VA2IDX 0) = - 466945" by simp
  then show ?thesis by (subst select_scan.simps) (simp add: safe_guard_def pg2pid_def)
qed

lemma select_walk:
  assumes "chain (\<lambda>a. ptr (km_mem s a)) (ptr r) (us @ zs)" "\<forall>u \<in> set us. page_ok u \<and> \<not> stops s pid u"
  shows "select_scan s pid prev r =
    select_scan s pid (if us = [] then prev else Some (last us)) (case zs of [] \<Rightarrow> 0 | z # _ \<Rightarrow> z)"
  using assms
proof (induction us arbitrary: prev r)
  case Nil
  then show ?case by (cases zs) (auto simp: ptr_eq)
next
  case (Cons u us)
  then have r: "r = u" "page_ok u" "\<not> stops s pid u" by (auto simp: ptr_eq)
  have c: "chain (\<lambda>a. ptr (km_mem s a)) (ptr (km_mem s u)) (us @ zs)" using Cons.prems(1) r(1) by simp
  have "select_scan s pid prev r = select_scan s pid (Some u) (km_mem s u)"
    using r select_step [OF r(2)] by (auto simp: stops_def)
  with Cons.IH [OF c] Cons.prems(2) show ?case by simp
qed

text \<open>\<open>select_page\<close> takes the first page at which the walk stops, if that page is safe.\<close>

lemma select_page_ok:
  assumes fl: "free_list s (us @ x # zs)" and pg: "\<forall>y \<in> set (us @ [x]). page_ok y" and us: "\<forall>u \<in> set us. \<not> stops s pid u"
    and x: "Suc (fidx x) < MAX_FRAME_NUM" "safe_at s pid (fidx x)"
  shows "\<exists>t. select_page pid s = Inr (x, t) \<and> free_list t (us @ zs) \<and> list_only s t \<and> in_lock t = in_lock s \<and>
    (\<forall>a. a \<notin> set us \<longrightarrow> km_mem t a = km_mem s a)"
proof -
  have c: "chain (\<lambda>a. ptr (km_mem s a)) (ptr (km_free s)) (us @ x # zs)" using fl by (simp add: free_list_def)
  have scan: "select_scan s pid None (km_free s) = Some (Inr (if us = [] then None else Some (last us), x))"
    using select_walk [OF c, of pid None] pg us x select_step [of x] by simp
  show ?thesis
  proof (cases us rule: rev_cases)
    case Nil
    have "free_list (s\<lparr>km_free := km_mem s x\<rparr>) zs" using fl Nil by (simp add: free_list_def)
    with scan Nil show ?thesis by (simp add: select_page_def list_only_def)
  next
    case (snoc vs q)
    have "chain ((\<lambda>a. ptr (km_mem s a))(q := ptr (km_mem s x))) (ptr (km_free s)) (vs @ q # zs)"
      using chain_unlink [of _ _ vs q x zs] c snoc by simp
    then have "free_list (km_write q (km_mem s x) s) (us @ zs)"
      using fl snoc unfolding free_list_def ptr_write by (simp add: km_write_def)
    with scan snoc show ?thesis by (simp add: select_page_def list_only_def km_write_def in_lock_def)
  qed
qed

lemma select_page_none:
  assumes fl: "free_list s (us @ zs)" and pg: "\<forall>y \<in> set (us @ zs). page_ok y" and us: "\<forall>u \<in> set us. \<not> stops s pid u"
    and z: "zs = [] \<or> MAX_FRAME_NUM \<le> Suc (fidx (hd zs))"
  shows "select_page pid s = Inl (Undefined ''pg2pid: index out of range'')"
proof -
  have c: "chain (\<lambda>a. ptr (km_mem s a)) (ptr (km_free s)) (us @ zs)" using fl by (simp add: free_list_def)
  have "select_scan s pid None (km_free s) = Some (Inl (Undefined ''pg2pid: index out of range''))"
    using select_walk [OF c, of pid None] pg us z select_step [of "hd zs"] by (cases zs) (simp_all add: select_null)
  then show ?thesis by (simp add: select_page_def)
qed

lemma compatible_safe:
  assumes "\<not> hostile pid a"
  shows "compatible pid a"
  using assms by (auto simp: hostile_def compatible_def)

text \<open>Handing out the page \<open>x\<close> of the free list to \<open>pid\<close>.\<close>

lemma give_owner:
  assumes ow: "owners_ok s (us @ x # zs)" and pg: "pages_ok s (us @ x # zs)" and i: "fidx x < MAX_FRAME_NUM"
    and pid: "pid \<noteq> - 1" and safe: "pid = - 2 \<or> Suc (fidx x) < MAX_FRAME_NUM \<and> safe_at s pid (fidx x)"
    and t: "km_pid t = (km_pid s)(fidx x := pid)" "km_count t = cint (km_count s + 1)"
  shows "owners_ok t (us @ zs)"
proof -
  have "sorted_wrt (>) (us @ x # zs)" "\<forall>y \<in> set (us @ x # zs). page_ok y" using pg by (simp_all add: pages_ok_def)
  then have "x \<notin> set (us @ zs)" "\<forall>y \<in> set (us @ zs). page_ok y" "page_ok x" by (auto simp: sorted_wrt_append)
  then have nx: "fidx x \<notin> fidx ` set (us @ zs)" using fidx_inj by (metis imageE)
  have np: "km_pid s (fidx x) = - 1" using ow i by (simp add: owners_ok_def)
  let ?u = "s\<lparr>km_pid := (km_pid s)(fidx x := pid)\<rparr>"
  have eq: "owned t = owned ?u" "isolated t = isolated ?u" using t by (simp_all add: owned_def isolated_def)
  have len: "length (owned ?u) = Suc (length (owned s))" using owned_update(2) [OF i np pid] .
  have "km_count t = int (length (owned t))"
    using t(2) ow len owned_bound [of ?u] unfolding eq by (simp add: owners_ok_def MAX_FRAME_NUM_def)
  moreover have "isolated t" unfolding eq
  proof (rule isolated_update)
    show "isolated s" using ow by (simp add: owners_ok_def)
    show "compatible pid (km_pid s j)" if "j < MAX_FRAME_NUM" "j = Suc (fidx x) \<or> Suc j = fidx x" for j
    proof -
      have "pid = - 2 \<or> \<not> hostile pid (km_pid s j)" using safe that by (cases "fidx x") (auto simp: safe_at_def)
      then show ?thesis using compatible_safe by (auto simp: compatible_def)
    qed
  qed (rule i)
  moreover have "(km_pid t j = - 1) = (j \<in> fidx ` set (us @ zs))" if "j < MAX_FRAME_NUM" for j
    using that ow t(1) pid nx by (cases "j = fidx x") (auto simp: owners_ok_def)
  ultimately show ?thesis by (simp add: owners_ok_def)
qed


text \<open>What \<open>kalloc\<close> does once it has chosen a page.\<close>

lemma pages_ok_remove:
  assumes "pages_ok s (us @ x # zs)" "free_list t (us @ zs)" "km_end t = km_end s" "mem_lock_ok t"
  shows "pages_ok t (us @ zs)"
  using assms by (auto simp: pages_ok_def sorted_wrt_append)

lemma kalloc_chosen:
  assumes inv: "kmem_inv s (us @ x # zs)" and pid: "pid \<noteq> - 1"
    and pick: "(if pid = - 2 then us = []
       else (\<forall>u \<in> set us. \<not> stops s pid u) \<and> Suc (fidx x) < MAX_FRAME_NUM \<and> safe_at s pid (fidx x))"
  shows "\<exists>t. kalloc pid s = Inr (x, t) \<and> kmem_inv t (us @ zs) \<and> (\<forall>i < MAX_FRAME_NUM. km_pid t i = (if i = fidx x then pid else km_pid s i)) \<and>
    km_end t = km_end s \<and> (\<forall>a. a \<notin> set us \<longrightarrow> km_mem t a = km_mem s a)"
proof -
  have pg: "pages_ok s (us @ x # zs)" and ow: "owners_ok s (us @ x # zs)" and ini: "km_init s" using inv by (simp_all add: kmem_inv_def)
  have px: "page_ok x" and pall: "\<forall>y \<in> set (us @ [x]). page_ok y" using pg by (simp_all add: pages_ok_def)
  have "mem_lock_ok s" using pg by (simp add: pages_ok_def)
  then obtain a where a: "km_acquire s = Inr a" "same_mem s a" "in_lock a" by (rule km_enter)
  have fl: "free_list a (us @ x # zs)" using pg same_mem_list [OF a(2)] by (simp add: pages_ok_def)
  note fa = same_mem_fields [OF a(2)]
  have sa: "stops a pid u = stops s pid u" "safe_at a pid i = safe_at s pid i" for u i
    by (simp_all add: stops_def safe_at_def fa)
  let ?body = "if pid = - 2
            then let r = km_free a in Inr (r, if r \<noteq> 0 then a\<lparr>km_free := km_mem a r\<rparr> else a)
            else select_page pid a"
  have "\<exists>b. ?body = Inr (x, b) \<and> free_list b (us @ zs) \<and> list_only a b \<and> in_lock b \<and>
      (\<forall>q. q \<notin> set us \<longrightarrow> km_mem b q = km_mem a q)"
  proof (cases "pid = - 2")
    case True
    then have "km_free a = x" "free_list (a\<lparr>km_free := km_mem a x\<rparr>) zs" using pick fl by (auto simp: free_list_def ptr_eq)
    then show ?thesis using True pick a(3) page_nonzero [OF px] by (simp add: list_only_def)
  next
    case False
    from select_page_ok [OF fl pall, of pid] pick False a(3) show ?thesis by (auto simp: sa)
  qed
  then obtain b where b: "?body = Inr (x, b)" "free_list b (us @ zs)" "list_only a b" "in_lock b"
    and bm: "\<forall>q. q \<notin> set us \<longrightarrow> km_mem b q = km_mem a q" by blast
  obtain c where c: "km_release b = Inr c" "same_mem b c" "mem_lock_ok c" using b(4) by (rule km_leave)
  have lo: "list_only s c" using b(3) fa same_mem_fields [OF c(2)] by (simp add: list_only_def)
  let ?t = "if fidx x < MAX_FRAME_NUM
    then c\<lparr>km_pid := (km_pid c)(fidx x := pid), km_count := cint (km_count c + 1)\<rparr> else c"
  have run: "kalloc pid s = Inr (x, ?t)"
    using a(1) b(1) c(1) tracked_iff [OF px] VA2IDX_ints(1) [OF px] by (simp add: kalloc_def)
  have "free_list c (us @ zs)" using b(2) same_mem_list [OF c(2)] by simp
  then have "free_list ?t (us @ zs)" by (simp add: free_list_def)
  moreover have "km_end ?t = km_end s" "mem_lock_ok ?t" "km_init ?t"
    using lo c(3) ini by (simp_all add: list_only_def mem_lock_ok_def)
  ultimately have "pages_ok ?t (us @ zs)" using pages_ok_remove [OF pg] by blast
  moreover have "owners_ok ?t (us @ zs)"
  proof (cases "fidx x < MAX_FRAME_NUM")
    case True
    show ?thesis
      by (rule give_owner [OF ow pg True pid]) (use pick True lo in \<open>auto simp: list_only_def split: if_splits\<close>)
  next
    case False
    then show ?thesis using ow lo by (auto simp: owners_ok_def owned_def isolated_def list_only_def)
  qed
  ultimately have "kmem_inv ?t (us @ zs)" using \<open>km_init ?t\<close> by (simp add: kmem_inv_def)
  moreover have "\<forall>i < MAX_FRAME_NUM. km_pid ?t i = (if i = fidx x then pid else km_pid s i)"
    using lo by (simp add: list_only_def)
  moreover have "km_mem ?t q = km_mem s q" if "q \<notin> set us" for q
    using bm that fa same_mem_fields(3) [OF c(2)] by simp
  ultimately show ?thesis using run \<open>km_end ?t = km_end s\<close> by blast
qed

text \<open>Out of memory, or no safe page left: undefined behaviour, not a null result.\<close>

lemma kalloc_no_page:
  assumes inv: "kmem_inv s xs"
    and none: "if pid = - 2 then xs = [] else \<forall>u \<in> set xs. \<not> stops s pid u"
  shows "kalloc pid s = Inl (Undefined ''pg2pid: index out of range'')"
proof -
  have pg: "pages_ok s xs" using inv by (simp add: kmem_inv_def)
  then have "mem_lock_ok s" by (simp add: pages_ok_def)
  then obtain a where a: "km_acquire s = Inr a" "same_mem s a" "in_lock a" by (rule km_enter)
  have fl: "free_list a xs" using pg same_mem_list [OF a(2)] by (simp add: pages_ok_def)
  have sa: "stops a pid u = stops s pid u" for u by (simp add: stops_def safe_at_def same_mem_fields [OF a(2)])
  show ?thesis
  proof (cases "pid = - 2")
    case True
    then have f: "km_free a = 0" using free_list_free [OF fl] none by simp
    obtain c where c: "km_release a = Inr c" using a(3) by (rule km_leave)
    have "VA2IDX 0 = 0xFFF8DFFF" by (simp add: VA2IDX_def V2P_def PHYSTOP_def KERNBASE_def)
    then have "uint (VA2IDX 0) = 4294500351" by simp
    moreover have "tracked 0" by (simp add: tracked_def V2P_def PHYSTOP_def KERNBASE_def MAX_FRAME_NUM_def)
    ultimately show ?thesis using True f a(1) c by (simp add: kalloc_def set_pg2pid_def MAX_FRAME_NUM_def)
  next
    case False
    have "select_page pid a = Inl (Undefined ''pg2pid: index out of range'')"
      using select_page_none [of a xs "[]" pid] fl none False pg by (simp add: sa pages_ok_def)
    then show ?thesis using False a(1) by (simp add: kalloc_def)
  qed
qed


section \<open>Initialisation\<close>

text \<open>The pages of a range, from the bottom up.\<close>

definition page_at :: "nat \<Rightarrow> u32" where
  "page_at n = word_of_nat (2147483648 + 4096 * n)"

lemma page_at_unat: "n \<le> 57344 \<Longrightarrow> unat (page_at n) = 2147483648 + 4096 * n"
  unfolding page_at_def unat_of_nat by simp

lemma page_at:
  assumes "n < 57344"
  shows "unat (page_at n) = 2147483648 + 4096 * n" "page_ok (page_at n)" "pnum (page_at n) = n"
    "fidx (page_at n) = 57343 - n"
proof -
  show u: "unat (page_at n) = 2147483648 + 4096 * n"
    using assms by (simp add: page_at_unat)
  have v: "unat (V2P (page_at n)) = 4096 * n"
    unfolding V2P_def KERNBASE_def using assms u by (subst unat_sub) (simp_all add: word_le_nat_alt)
  have "unat (page_at n mod 4096) = 0"
  proof -
    have "2147483648 + 4096 * n = 4096 * (524288 + n)" by simp
    then show ?thesis unfolding unat_mod_distrib u by (simp only: unat_numeral mod_mult_self1_is_0) simp
  qed
  then have "page_at n mod 4096 = 0" by (simp only: unat_eq_zero)
  moreover have "V2P (page_at n) < PHYSTOP" using v assms by (simp add: word_less_nat_alt PHYSTOP_def)
  ultimately show "page_ok (page_at n)" by (simp add: page_ok_def)
  show p: "pnum (page_at n) = n" using v by (simp add: pnum_def)
  then show "fidx (page_at n) = 57343 - n" by (simp add: fidx_def)
qed


text \<open>The pages \<open>m\<close> to \<open>n - 1\<close>, from the top down.\<close>

definition page_range :: "nat \<Rightarrow> nat \<Rightarrow> u32 list" where
  "page_range m n = map page_at (rev [m..<n])"

lemma page_range_set: "set (page_range m n) = page_at ` {m..<n}"
  by (simp add: page_range_def)

lemma page_range_split: "m < n \<Longrightarrow> page_range m n = page_range (Suc m) n @ [page_at m]"
  by (simp add: page_range_def upt_conv_Cons)

lemma insert_desc_front: "\<forall>x \<in> set xs. x < r \<Longrightarrow> insert_desc r xs = r # xs"
  by (cases xs) (auto simp: insert_desc_def)

text \<open>\<open>freerange\<close> puts the pages of its range on the list, the highest first.\<close>

lemma freerange_loop_ok:
  assumes "pages_ok s xs" "\<forall>x \<in> set xs. pnum x < m" "m \<le> n" "n \<le> 57344"
    "km_end s \<le> page_at m" "\<not> km_init s" "\<not> km_use_lock s"
  shows "\<exists>t. freerange_loop (page_at m) (page_at n) s = Some (Inr t) \<and>
     pages_ok t (page_range m n @ xs) \<and> km_init t = km_init s \<and> km_end t = km_end s \<and>
     km_lock t = km_lock s \<and> km_cpu t = km_cpu s \<and>
     km_count t = km_count s \<and>
     (\<forall>i < MAX_FRAME_NUM. km_pid t i = (if m \<le> 57343 - i \<and> 57343 - i < n then - 1 else km_pid s i))"
  using assms
proof (induction "n - m" arbitrary: m s xs)
  case 0
  have "unat (page_at n + 4096) = unat (page_at n) + 4096"
    using page_at_unat [OF 0(5)] 0(5) by (simp add: unat_word_ariths)
  then have "\<not> page_at m + 4096 \<le> page_at n" using 0 by (simp add: word_le_nat_alt)
  then show ?case using 0 by (subst freerange_loop.simps) (auto simp: page_range_def)
next
  case (Suc d)
  then have mn: "m < n" "m < 57344" using Suc.prems(4) by simp_all
  note pm = page_at [OF mn(2)]
  have up: "page_at m + 4096 = page_at (Suc m)" by (simp add: page_at_def algebra_simps)
  have "Suc m \<le> 57344" using mn Suc.prems(4) by simp
  note pm' = page_at_unat [OF this] and pn = page_at_unat [OF Suc.prems(4)]
  have le: "page_at m + 4096 \<le> page_at n" unfolding up using pm' pn mn by (simp add: word_le_nat_alt)
  have nin: "page_at m \<notin> set xs" using Suc.prems(2) pm(3) by auto
  from kfree_pages [OF Suc.prems(1) pm(2) Suc.prems(5) nin] obtain u where
    u: "kfree (page_at m) s = Inr u" "pages_ok u (insert_desc (page_at m) xs)" "km_init u = km_init s" "km_end u = km_end s"
    "\<not> km_use_lock u" "km_lock u = km_lock s" "km_cpu u = km_cpu s"
    and o: "if fidx (page_at m) < MAX_FRAME_NUM
     then km_pid u = (km_pid s)(fidx (page_at m) := - 1) \<and> km_count u = (if km_init s then cint (km_count s - 1) else km_count s)
     else km_pid u = km_pid s \<and> km_count u = km_count s" using Suc.prems(7) by auto
  have "\<forall>x \<in> set xs. page_ok x" using Suc.prems(1) by (simp add: pages_ok_def)
  then have "insert_desc (page_at m) xs = page_at m # xs"
    using Suc.prems(2) pm by (intro insert_desc_front) (simp add: page_less)
  with u(2) have pu: "pages_ok u (page_at m # xs)" by simp
  have "\<forall>x \<in> set (page_at m # xs). pnum x < Suc m" using Suc.prems(2) pm(3) by auto
  moreover have "km_end u \<le> page_at (Suc m)"
    using Suc.prems(5) u(4) pm(1) pm' by (simp add: word_le_nat_alt)
  moreover have "d = n - Suc m" "Suc m \<le> n" "\<not> km_init u" using Suc.hyps(2) mn Suc.prems(6) u(3) by simp_all
  ultimately obtain t where t: "freerange_loop (page_at (Suc m)) (page_at n) u = Some (Inr t)"
     "pages_ok t (page_range (Suc m) n @ page_at m # xs)" "km_init t = km_init u" "km_lock t = km_lock u" "km_cpu t = km_cpu u" "km_end t = km_end u"
     "km_count t = km_count u"
     "\<forall>i < MAX_FRAME_NUM. km_pid t i = (if Suc m \<le> 57343 - i \<and> 57343 - i < n then - 1 else km_pid u i)"
    using Suc.hyps(1) [of "Suc m" u "page_at m # xs"] pu Suc.prems(4) u(5) by auto
  have "pages_ok t (page_range m n @ xs)" using t(2) page_range_split [OF mn(1)] by simp
  moreover have "freerange_loop (page_at m) (page_at n) s = Some (Inr t)"
    using t(1) u(1) le up by (subst freerange_loop.simps) simp
  moreover have "km_count t = km_count s" using t(7) o Suc.prems(6) by (simp split: if_splits)
  moreover have "km_pid t i = (if m \<le> 57343 - i \<and> 57343 - i < n then - 1 else km_pid s i)" if i: "i < MAX_FRAME_NUM" for i
  proof (cases "i = 57343 - m")
    case True
    then have "57343 - i = m" using mn by simp
    then show ?thesis using t(8) i o pm(4) True mn by simp
  next
    case False
    then have "km_pid u i = km_pid s i" "57343 - i \<noteq> m"
      using o pm(4) i by (auto simp: MAX_FRAME_NUM_def split: if_splits)
    then show ?thesis using t(8) i by auto
  qed
  ultimately show ?case using t u by simp
qed


text \<open>
  After \<open>kinit2\<close> (all of memory from 4 MB to \<open>PHYSTOP\<close>) the invariant holds: what is left of the
  pages of \<open>kinit1\<close> lies below.
\<close>

lemma kinit2_ok:
  assumes "pages_ok s xs" "\<forall>x \<in> set xs. pnum x < 1024" "km_end s \<le> page_at 1024" "\<not> km_init s"
    "km_count s = 0" "sl_locked (km_lock s) = 0" "cpu_ok (km_cpu s)" "c_ncli (km_cpu s) < 999" "\<not> km_use_lock s"
  shows "\<exists>t. kinit2 0x80400000 0x8E000000 s = Inr t \<and> kmem_inv t (page_range 1024 57344 @ xs) \<and> km_end t = km_end s"
proof -
  have ends: "PGROUNDUP 0x80400000 = page_at 1024" "0x8E000000 = page_at 57344"
    by (simp_all add: page_at_def PGROUNDUP_def)
  let ?ys = "page_range 1024 57344 @ xs"
  obtain u where u: "freerange_loop (page_at 1024) (page_at 57344) s = Some (Inr u)"
     "pages_ok u ?ys" "km_end u = km_end s" "km_count u = km_count s" "km_lock u = km_lock s" "km_cpu u = km_cpu s"
     "\<forall>i < MAX_FRAME_NUM. km_pid u i = (if 1024 \<le> 57343 - i \<and> 57343 - i < 57344 then - 1 else km_pid s i)"
    using freerange_loop_ok [OF assms(1,2) _ _ assms(3,4,9), of 57344] by auto
  let ?t = "u\<lparr>km_use_lock := True, km_init := True\<rparr>"
  have "kinit2 0x80400000 0x8E000000 s = Inr ?t" using u(1) ends by (simp add: kinit2_def freerange_def)
  moreover have free: "km_pid ?t i = - 1" if "i < MAX_FRAME_NUM" for i
  proof -
    have "1024 \<le> 57343 - i \<and> 57343 - i < 57344" using that unfolding MAX_FRAME_NUM_def by linarith
    with u(7) that show ?thesis by simp
  qed
  moreover have "i \<in> fidx ` set ?ys" if "i < MAX_FRAME_NUM" for i
  proof -
    have "57343 - i \<in> {1024..<57344}" "fidx (page_at (57343 - i)) = i"
      using that page_at(4) [of "57343 - i"] by (auto simp: MAX_FRAME_NUM_def)
    then show ?thesis unfolding set_append page_range_set by (metis UnI1 image_eqI)
  qed
  moreover have "owned ?t = []" using free by (simp add: owned_def filter_empty_conv)
  moreover have "isolated ?t" using free by (simp add: isolated_def compatible_def)
  moreover have "pages_ok ?t ?ys"
    using u(2,5,6) assms(6-8) by (simp add: pages_ok_def mem_lock_ok_def free_list_def)
  ultimately show ?thesis using u(3,4) assms(5) by (simp add: owners_ok_def kmem_inv_def)
qed

section \<open>The report\<close>

lemma dump_skip_to:
  assumes "j \<le> i" "i < MAX_FRAME_NUM" "km_pid s i \<noteq> - 1" "\<forall>k. j \<le> k \<and> k < i \<longrightarrow> km_pid s k = - 1"
  shows "dump_skip s (int j) = Some (Inr (int i))"
  using assms
proof (induction "i - j" arbitrary: j)
  case 0
  then show ?case by (subst dump_skip.simps) simp
next
  case (Suc d)
  then have "j < i" "d = i - Suc j" by simp_all
  then have "dump_skip s (int (Suc j)) = Some (Inr (int i))" using Suc.hyps(1) [of "Suc j"] Suc.prems by simp
  moreover have "km_pid s j = - 1" "j < MAX_FRAME_NUM" using Suc.prems(2,4) \<open>j < i\<close> by auto
  ultimately show ?case by (subst dump_skip.simps) (simp add: algebra_simps)
qed

lemma IDX2FN_int: "i < MAX_FRAME_NUM \<Longrightarrow> sint (IDX2FN (int i)) = 57343 - int i"
proof -
  assume i: "i < MAX_FRAME_NUM"
  have "IDX2FN (int i) = word_of_int (57343 - int i)" by (simp add: IDX2FN_def PHYSTOP_def)
  moreover have "uint (word_of_int (57343 - int i) :: u32) = 57343 - int i"
    unfolding uint_word_of_int using i by (simp add: MAX_FRAME_NUM_def)
  ultimately show ?thesis using i by (simp add: sint_uint signed_take_bit_int_eq_self MAX_FRAME_NUM_def)
qed

definition frame_row :: "kmem \<Rightarrow> nat \<Rightarrow> int \<times> int" where
  "frame_row s i = (57343 - int i, km_pid s i)"

lemma dump_fill_rows:
  assumes "km_count s = i + int (length (filter (\<lambda>k. km_pid s k \<noteq> - 1) [j..<MAX_FRAME_NUM]))"
  shows "dump_fill s n i (int j) =
    Inr (map (frame_row s) (take n (filter (\<lambda>k. km_pid s k \<noteq> - 1) [j..<MAX_FRAME_NUM])) @
         replicate (n - length (filter (\<lambda>k. km_pid s k \<noteq> - 1) [j..<MAX_FRAME_NUM])) (- 1, - 1))"
  using assms
proof (induction n arbitrary: i j)
  case 0
  then show ?case by simp
next
  case (Suc n)
  show ?case
  proof (cases "filter (\<lambda>k. km_pid s k \<noteq> - 1) [j..<MAX_FRAME_NUM]")
    case Nil
    then show ?thesis using Suc.prems by (simp only: list.size) simp
  next
    case (Cons p ps)
    from Cons [unfolded filter_eq_Cons_iff] obtain us vs where sp: "[j..<MAX_FRAME_NUM] = us @ p # vs"
      "\<forall>u \<in> set us. \<not> km_pid s u \<noteq> - 1" "km_pid s p \<noteq> - 1" "ps = filter (\<lambda>k. km_pid s k \<noteq> - 1) vs" by auto
    have p: "p = j + length us" "p < MAX_FRAME_NUM" "j \<le> p"
    proof -
      have "length us < length [j..<MAX_FRAME_NUM]" by (simp add: sp(1) del: length_upt)
      then have "[j..<MAX_FRAME_NUM] ! length us = j + length us" "j + length us < MAX_FRAME_NUM" by simp_all
      then show "p = j + length us" "p < MAX_FRAME_NUM" "j \<le> p" using sp(1) by simp_all
    qed
    have "drop (Suc (length us)) [j..<MAX_FRAME_NUM] = vs" using sp(1) by simp
    then have vs: "vs = [Suc p..<MAX_FRAME_NUM]" using p(1) by (simp add: drop_upt)
    have "take (length us) [j..<MAX_FRAME_NUM] = us" using sp(1) by simp
    then have us: "us = [j..<p]" using p by (simp add: take_upt)
    have skip: "dump_skip s (int j) = Some (Inr (int p))"
      by (rule dump_skip_to [OF p(3,2) sp(3)]) (use sp(2) us in auto)
    have "i < km_count s" using Suc.prems Cons by simp
    moreover have "dump_fill s n (i + 1) (int (Suc p)) =
       Inr (map (frame_row s) (take n ps) @ replicate (n - length ps) (- 1, - 1))"
      using Suc.IH [of "i + 1" "Suc p"] Suc.prems Cons sp(4) vs by simp
    ultimately show ?thesis using Cons skip p(2) by (simp add: IDX2FN_int frame_row_def algebra_simps)
  qed
qed

lemma dump_ok:
  assumes "kmem_inv s xs" "0 < n" "f \<noteq> 0" "p \<noteq> 0"
  shows "sys_dump_physmem (Some n) (Some f) (Some p) s =
    (let rows = map (frame_row s) (take (nat n) (owned s)) @ replicate (nat n - length (owned s)) (- 1, - 1)
     in Inr (Some (map fst rows, map snd rows)))"
proof -
  have "km_count s = 0 + int (length (filter (\<lambda>k. km_pid s k \<noteq> - 1) [0..<MAX_FRAME_NUM]))"
    using assms(1) by (simp add: kmem_inv_def owners_ok_def owned_def)
  from dump_fill_rows [OF this, of "nat n"] show ?thesis
    using assms(2-4) by (simp add: sys_dump_physmem_def owned_def)
qed

section \<open>Runs of an allocator\<close>

text \<open>
  What a client may do: allocate for any process, and free a page it may free. \<open>page_allocator\<close>
  is the contract of such an allocator with a free list \<open>inv s xs\<close> and a safety condition \<open>good\<close>.
\<close>

inductive alloc_run :: "(int \<Rightarrow> 's \<Rightarrow> ('p \<times> 's) res) \<Rightarrow> ('p \<Rightarrow> 's \<Rightarrow> 's res) \<Rightarrow>
    ('s \<Rightarrow> 'p \<Rightarrow> bool) \<Rightarrow> 's \<Rightarrow> 's \<Rightarrow> bool"
  for alloc :: "int \<Rightarrow> 's \<Rightarrow> ('p \<times> 's) res" and free :: "'p \<Rightarrow> 's \<Rightarrow> 's res" and may_free :: "'s \<Rightarrow> 'p \<Rightarrow> bool" where
  start: "alloc_run alloc free may_free s s"
| alloc: "alloc_run alloc free may_free s t \<Longrightarrow> pid \<noteq> - 1 \<Longrightarrow> alloc pid t = Inr (x, u) \<Longrightarrow>
    alloc_run alloc free may_free s u"
| free: "alloc_run alloc free may_free s t \<Longrightarrow> may_free t x \<Longrightarrow> free x t = Inr u \<Longrightarrow>
    alloc_run alloc free may_free s u"

locale page_allocator =
  fixes inv :: "'s \<Rightarrow> 'p list \<Rightarrow> bool" and alloc :: "int \<Rightarrow> 's \<Rightarrow> ('p \<times> 's) res"
    and free :: "'p \<Rightarrow> 's \<Rightarrow> 's res" and may_free :: "'s \<Rightarrow> 'p \<Rightarrow> bool" and good :: "'s \<Rightarrow> bool"
  assumes alloc_takes: "inv s xs \<Longrightarrow> pid \<noteq> - 1 \<Longrightarrow> alloc pid s = Inr (x, t) \<Longrightarrow> \<exists>us zs. xs = us @ x # zs \<and> inv t (us @ zs)"
    and free_adds: "inv s xs \<Longrightarrow> may_free s x \<Longrightarrow> \<exists>t ys. free x s = Inr t \<and> inv t ys \<and> set ys = insert x (set xs)"
    and inv_good: "inv s xs \<Longrightarrow> good s"
begin

lemma run_inv: "alloc_run alloc free may_free s t \<Longrightarrow> inv s xs \<Longrightarrow> \<exists>ys. inv t ys"
proof (induction rule: alloc_run.induct)
  case (alloc s t pid x u)
  then show ?case using alloc_takes by blast
next
  case (free s t x u)
  then show ?case using free_adds by (metis sum.inject(2))
qed blast

lemma run_good: "alloc_run alloc free may_free s t \<Longrightarrow> inv s xs \<Longrightarrow> good t"
  using run_inv inv_good by blast

text \<open>A page just freed can be allocated again, and then the free pages are as before.\<close>

lemma free_alloc:
  assumes "inv s xs" "may_free s x" "free x s = Inr t" "alloc pid t = Inr (x, u)" "pid \<noteq> - 1"
  shows "\<exists>ys zs. inv u (ys @ zs) \<and> set (ys @ x # zs) = insert x (set xs)"
proof -
  from free_adds [OF assms(1,2)] assms(3) obtain ys where ys: "inv t ys" "set ys = insert x (set xs)" by auto
  from alloc_takes [OF ys(1) assms(5,4)] ys(2) show ?thesis by fastforce
qed

end

text \<open>\<open>kfree\<close> accepts the page, and it is not free already.\<close>

definition kmem_may_free :: "kmem \<Rightarrow> u32 \<Rightarrow> bool" where
  "kmem_may_free s v \<longleftrightarrow> page_ok v \<and> km_end s \<le> v \<and> (\<forall>xs. free_list s xs \<longrightarrow> v \<notin> set xs)"

lemma free_list_unique: "free_list s xs \<Longrightarrow> free_list s ys \<Longrightarrow> xs = ys"
  using chain_unique unfolding free_list_def by blast

lemma first_stop:
  obtains (stop) us x zs where "xs = us @ x # zs" "\<forall>u \<in> set us. \<not> stops s pid u" "stops s pid x"
  | (none) "\<forall>u \<in> set xs. \<not> stops s pid u"
proof (cases "\<exists>x \<in> set xs. stops s pid x")
  case True
  then show thesis using split_list_first_prop stop by metis
qed (use none in blast)

lemma kalloc_cases:
  assumes inv: "kmem_inv s xs" and pid: "pid \<noteq> - 1"
  shows "kalloc pid s = Inl (Undefined ''pg2pid: index out of range'') \<or>
    (\<exists>us x zs t. xs = us @ x # zs \<and> kalloc pid s = Inr (x, t) \<and> kmem_inv t (us @ zs) \<and>
      (\<forall>i < MAX_FRAME_NUM. km_pid t i = (if i = fidx x then pid else km_pid s i)) \<and>
      km_end t = km_end s \<and> (\<forall>a. a \<notin> set us \<longrightarrow> km_mem t a = km_mem s a))"
proof (cases "pid = - 2")
  case True
  show ?thesis
  proof (cases xs)
    case Nil
    with kalloc_no_page [OF inv, of pid] True show ?thesis by simp
  next
    case (Cons y ys)
    have "kmem_inv s ([] @ y # ys)" using inv Cons by simp
    from kalloc_chosen [OF this pid] True show ?thesis unfolding Cons by fastforce
  qed
next
  case False
  show ?thesis
  proof (cases rule: first_stop [of xs s pid])
    case (stop us y zs)
    show ?thesis
    proof (cases "Suc (fidx y) < MAX_FRAME_NUM")
      case True
      then have "if pid = - 2 then us = []
          else (\<forall>u \<in> set us. \<not> stops s pid u) \<and> Suc (fidx y) < MAX_FRAME_NUM \<and> safe_at s pid (fidx y)"
        using stop(2,3) False by (simp add: stops_def)
      from kalloc_chosen [OF inv [unfolded stop(1)] pid this] show ?thesis unfolding stop(1) by blast
    next
      case unsafe: False
      from inv have "mem_lock_ok s" "free_list s xs" "\<forall>z \<in> set xs. page_ok z" by (simp_all add: kmem_inv_def pages_ok_def)
      then obtain a where a: "km_acquire s = Inr a" "same_mem s a" "free_list a xs" "\<forall>z \<in> set xs. page_ok z"
        using km_enter same_mem_list by metis
      have "stops a pid u = stops s pid u" for u by (simp add: stops_def safe_at_def same_mem_fields [OF a(2)])
      then have "select_page pid a = Inl (Undefined ''pg2pid: index out of range'')"
        using select_page_none [of a us "y # zs" pid] a(3,4) stop(1,2) unsafe by simp
      then show ?thesis using False a(1) by (simp add: kalloc_def)
    qed
  next
    case none
    with kalloc_no_page [OF inv, of pid] False show ?thesis by simp
  qed
qed

lemma kalloc_takes:
  assumes "kmem_inv s xs" "pid \<noteq> - 1" "kalloc pid s = Inr (x, t)"
  shows "\<exists>us zs. xs = us @ x # zs \<and> kmem_inv t (us @ zs)"
  using kalloc_cases [OF assms(1,2)] assms(3) by auto

interpretation km: page_allocator kmem_inv kalloc kfree kmem_may_free isolated
proof unfold_locales
  show "\<exists>us zs. xs = us @ x # zs \<and> kmem_inv t (us @ zs)"
    if "kmem_inv s xs" "pid \<noteq> - 1" "kalloc pid s = Inr (x, t)" for s xs pid x t
    using that by (rule kalloc_takes)
  show "\<exists>t ys. kfree x s = Inr t \<and> kmem_inv t ys \<and> set ys = insert x (set xs)"
    if "kmem_inv s xs" "kmem_may_free s x" for s xs x
  proof -
    have "page_ok x" "km_end s \<le> x" "x \<notin> set xs"
      using that by (simp_all add: kmem_may_free_def kmem_inv_def pages_ok_def)
    from kfree_inv [OF that(1) this] show ?thesis by (metis set_insert_desc)
  qed
  show "isolated s" if "kmem_inv s xs" for s xs using that by (simp add: kmem_inv_def owners_ok_def)
qed


section \<open>Properties of the allocator\<close>

text \<open>An allocator with one free page, frame index 1, between two frames of unknown owner.\<close>

definition ex_kmem :: kmem where
  "ex_kmem = \<lparr>km_lock = \<lparr>sl_locked = 0, sl_name = ''kmem'', sl_cpu = None, sl_pcs = replicate 10 0\<rparr>,
     km_use_lock = True, km_free = page_at 57342, km_mem = (\<lambda>_. 0),
     km_pid = (\<lambda>_. - 2)(1 := - 1), km_count = 16383, km_init = True, km_end = KERNBASE,
     km_cpu = \<lparr>c_idx = 0, c_ncli = 0, c_intena = True, c_if = True, c_proc = None, c_stack = (\<lambda>_. 0), c_argp = 0\<rparr>\<rparr>"

lemma ex_page: "page_ok (page_at 57342)" "fidx (page_at 57342) = 1" "KERNBASE \<le> page_at 57342"
  using page_at [of 57342] by (simp_all add: word_le_nat_alt KERNBASE_def)

lemma ex_kmem_inv: "kmem_inv ex_kmem [page_at 57342]"
proof -
  let ?k = "ex_kmem\<lparr>km_pid := \<lambda>_. - 2\<rparr>"
  have "owned ?k = [0..<MAX_FRAME_NUM]" by (simp add: owned_def filter_True)
  moreover have "(1::nat) < MAX_FRAME_NUM" by (simp add: MAX_FRAME_NUM_def)
  ultimately have "Suc (length (owned (?k\<lparr>km_pid := (km_pid ?k)(1 := - 1)\<rparr>))) = MAX_FRAME_NUM"
    using owned_update(1) [of 1 ?k] by simp
  moreover have "owned (?k\<lparr>km_pid := (km_pid ?k)(1 := - 1)\<rparr>) = owned ex_kmem"
    by (simp add: owned_def ex_kmem_def)
  ultimately have "int (length (owned ex_kmem)) = 16383" by (simp add: MAX_FRAME_NUM_def)
  moreover have "isolated ex_kmem" by (simp add: isolated_def ex_kmem_def compatible_def)
  moreover have "(km_pid ex_kmem i = - 1) = (i \<in> fidx ` set [page_at 57342])" for i
    by (simp add: ex_page ex_kmem_def)
  ultimately have "owners_ok ex_kmem [page_at 57342]" by (simp add: owners_ok_def) (simp add: ex_kmem_def)
  moreover have "pages_ok ex_kmem [page_at 57342]"
    using ex_page page_nonzero [OF ex_page(1)]
    by (simp add: pages_ok_def free_list_def mem_lock_ok_def cpu_ok_def ex_kmem_def ptr_def)
  ultimately show ?thesis by (simp add: kmem_inv_def) (simp add: ex_kmem_def)
qed

text \<open>
  C9. Isolation. However clients allocate and free pages after initialisation, two adjacent
  frames never belong to two different known processes.
\<close>

theorem adjacent_frames_isolated:
  assumes "kmem_inv s xs" "alloc_run kalloc kfree kmem_may_free s t"
  shows "\<forall>i. Suc i < MAX_FRAME_NUM \<longrightarrow> km_pid t i = km_pid t (Suc i) \<or>
     km_pid t i \<in> {- 1, - 2} \<or> km_pid t (Suc i) \<in> {- 1, - 2}"
  using km.run_good [OF assms(2,1)] by (simp add: isolated_def compatible_def)

theorem adjacent_frames_isolated_witness:
  "\<exists>t. kalloc 5 ex_kmem = Inr (page_at 57342, t) \<and>
     (\<forall>i. Suc i < MAX_FRAME_NUM \<longrightarrow> km_pid t i = km_pid t (Suc i) \<or>
       km_pid t i \<in> {- 1, - 2} \<or> km_pid t (Suc i) \<in> {- 1, - 2})"
proof -
  have "safe_at ex_kmem 5 1" by (simp add: safe_at_def ex_kmem_def hostile_def)
  then obtain t where t: "kalloc 5 ex_kmem = Inr (page_at 57342, t)"
    using kalloc_chosen [of ex_kmem "[]" "page_at 57342" "[]" 5] ex_kmem_inv ex_page
    by (auto simp: MAX_FRAME_NUM_def)
  have "alloc_run kalloc kfree kmem_may_free ex_kmem t"
    using alloc_run.alloc [OF alloc_run.start [of kalloc kfree kmem_may_free ex_kmem], of 5 "page_at 57342" t] t by simp
  from adjacent_frames_isolated [OF ex_kmem_inv this] t show ?thesis by blast
qed

text \<open>
  \<open>kalloc\<close> for a process takes the highest free page whose neighbours allow it, hands it to
  the process and keeps the allocator consistent; for an unknown process, the highest free page.
\<close>

theorem kalloc_first_safe_page:
  assumes "kmem_inv s (us @ x # zs)" "pid \<noteq> - 1"
    "if pid = - 2 then us = []
     else (\<forall>u \<in> set us. \<not> stops s pid u) \<and> Suc (fidx x) < MAX_FRAME_NUM \<and> safe_at s pid (fidx x)"
  shows "\<exists>t. kalloc pid s = Inr (x, t) \<and> kmem_inv t (us @ zs) \<and>
     (\<forall>i < MAX_FRAME_NUM. km_pid t i = (if i = fidx x then pid else km_pid s i))"
  using kalloc_chosen [OF assms] by blast

theorem kalloc_first_safe_page_witness:
  "\<exists>t. kalloc 5 ex_kmem = Inr (page_at 57342, t) \<and> kmem_inv t [] \<and> km_pid t 1 = 5"
proof -
  have "safe_at ex_kmem 5 1" by (simp add: safe_at_def ex_kmem_def hostile_def)
  then show ?thesis
    using kalloc_first_safe_page [of ex_kmem "[]" "page_at 57342" "[]" 5] ex_kmem_inv ex_page
    by (auto simp: MAX_FRAME_NUM_def)
qed

text \<open>
  With no free page, or none that is safe for the process, \<open>kalloc\<close> does not return 0 as its
  comment says: it indexes \<open>pg2pid\<close> out of range.
\<close>

theorem kalloc_out_of_memory_faults:
  assumes "kmem_inv s xs" "if pid = - 2 then xs = [] else \<forall>u \<in> set xs. \<not> stops s pid u"
  shows "kalloc pid s = Inl (Undefined ''pg2pid: index out of range'')"
  using assms by (rule kalloc_no_page)

theorem kalloc_out_of_memory_faults_witness:
  "\<exists>t. kmem_inv t [] \<and> kalloc 5 t = Inl (Undefined ''pg2pid: index out of range'')"
proof -
  have "safe_at ex_kmem 5 1" by (simp add: safe_at_def ex_kmem_def hostile_def)
  then obtain t where "kmem_inv t []"
    using kalloc_chosen [of ex_kmem "[]" "page_at 57342" "[]" 5] ex_kmem_inv ex_page by (auto simp: MAX_FRAME_NUM_def)
  with kalloc_out_of_memory_faults [of t "[]" 5] show ?thesis by auto
qed

text \<open>
  C10. \<open>kfree\<close> of an allocated page puts it at its place in the descending free list, gives the
  frame back and keeps the allocator consistent.
\<close>

theorem kfree_sorted_insert:
  assumes "kmem_inv s xs" "page_ok v" "km_end s \<le> v" "v \<notin> set xs"
  shows "\<exists>t. kfree v s = Inr t \<and> kmem_inv t (insert_desc v xs)"
  using kfree_inv [OF assms] by blast

theorem kfree_sorted_insert_witness: "\<exists>t. kfree (page_at 57340) ex_kmem = Inr t \<and> kmem_inv t [page_at 57342, page_at 57340]"
proof -
  have "page_at 57340 < page_at 57342" "KERNBASE \<le> page_at 57340" "page_ok (page_at 57340)"
    using page_at [of 57342] page_at [of 57340] by (simp_all add: word_less_nat_alt word_le_nat_alt KERNBASE_def)
  then show ?thesis using kfree_sorted_insert [OF ex_kmem_inv, of "page_at 57340"]
    by (auto simp: insert_desc_def ex_kmem_def)
qed

text \<open>
  \<open>kinit2\<close> establishes the allocator's invariant: all pages from 4 MB to \<open>PHYSTOP\<close> are free, in
  descending order, above what \<open>kinit1\<close> left.
\<close>

theorem kinit2_establishes:
  assumes "pages_ok s xs" "\<forall>x \<in> set xs. pnum x < 1024" "km_end s \<le> page_at 1024" "\<not> km_init s"
    "km_count s = 0" "sl_locked (km_lock s) = 0" "cpu_ok (km_cpu s)" "c_ncli (km_cpu s) < 999" "\<not> km_use_lock s"
  shows "\<exists>t. kinit2 0x80400000 0x8E000000 s = Inr t \<and> kmem_inv t (page_range 1024 57344 @ xs)"
  using kinit2_ok [OF assms] by blast

theorem kinit2_establishes_witness:
  "\<exists>t. kinit2 0x80400000 0x8E000000
     (ex_kmem\<lparr>km_free := 0, km_use_lock := False, km_init := False, km_count := 0\<rparr>) = Inr t \<and>
     kmem_inv t (page_range 1024 57344)"
proof -
  let ?s = "ex_kmem\<lparr>km_free := 0, km_use_lock := False, km_init := False, km_count := 0\<rparr>"
  have "pages_ok ?s []" by (simp add: pages_ok_def free_list_def mem_lock_ok_def ptr_def)
  moreover have "km_end ?s \<le> page_at 1024"
    using page_at [of 1024] by (simp add: ex_kmem_def word_le_nat_alt KERNBASE_def)
  ultimately show ?thesis using kinit2_establishes [of ?s "[]"] by (simp add: ex_kmem_def cpu_ok_def)
qed

text \<open>
  \<open>sys_dump_physmem\<close> reports the frames in use, the highest first, each with its owner, as
  many as asked for, and fills the rest of the arrays with -1.
\<close>

theorem dump_reports_owned:
  assumes "kmem_inv s xs" "0 < n" "f \<noteq> 0" "p \<noteq> 0"
  shows "sys_dump_physmem (Some n) (Some f) (Some p) s =
    (let rows = map (frame_row s) (take (nat n) (owned s)) @ replicate (nat n - length (owned s)) (- 1, - 1)
     in Inr (Some (map fst rows, map snd rows)))"
  using assms by (rule dump_ok)

theorem dump_reports_owned_witness:
  "sys_dump_physmem (Some 1) (Some 4) (Some 8) ex_kmem = Inr (Some ([57343], [- 2]))"
proof -
  have "0 < MAX_FRAME_NUM" by (simp add: MAX_FRAME_NUM_def)
  then have "[0..<MAX_FRAME_NUM] = 0 # [Suc 0..<MAX_FRAME_NUM]" by (rule upt_conv_Cons)
  then have "owned ex_kmem = 0 # filter (\<lambda>i. km_pid ex_kmem i \<noteq> - 1) [Suc 0..<MAX_FRAME_NUM]"
    by (simp add: owned_def ex_kmem_def)
  then show ?thesis using dump_reports_owned [OF ex_kmem_inv, of 1 4 8] by (simp add: frame_row_def ex_kmem_def)
qed

end
