(* ===== verification/KallocGap.thy ===== *)
theory KallocGap
  imports KallocProps
begin

text \<open>
  The earlier stages of the allocator of project 5 (\<open>05_xv6_memory_safe_allocation/src/v1a\<close>, \<open>v1a-sort\<close> and
  \<open>v1b\<close>): they leave every second frame unused, so that no process has a frame next to another's. The data
  and the initialisation are as in \<open>Kalloc\<close>; \<open>v1a\<close> and \<open>v1b\<close> never reuse a page, \<open>v1a-sort\<close> frees a page
  together with the one below it.
\<close>

section \<open>Definitions\<close>

definition kfree_v1 :: "u32 \<Rightarrow> kmem \<Rightarrow> kmem res" where
  "kfree_v1 v s =
     (if v mod 4096 \<noteq> 0 \<or> v < km_end s \<or> V2P v \<ge> PHYSTOP then Inl (Panic ''kfree'')
      else
        let s = memset_page v s in
        rbind (if \<not> km_init s \<and> tracked v then set_pg2pid (uint (VA2IDX v)) (- 1) s else Inr s) (\<lambda>s.
        if \<not> km_init s
        then rbind (km_acquire s) (\<lambda>s. let s = km_write v (km_free s) s in km_release (s\<lparr>km_free := v\<rparr>))
        else Inr s))"

partial_function (option) freerange_loop_v1 :: "u32 \<Rightarrow> u32 \<Rightarrow> kmem \<Rightarrow> kmem res option" where
  "freerange_loop_v1 p vend s =
     (if p + 4096 \<le> vend then
        (case kfree_v1 p s of Inl e \<Rightarrow> Some (Inl e) | Inr s \<Rightarrow> freerange_loop_v1 (p + 4096) vend s)
      else Some (Inr s))"

definition freerange_v1 :: "u32 \<Rightarrow> u32 \<Rightarrow> kmem \<Rightarrow> kmem res" where
  "freerange_v1 vstart vend s =
     (case freerange_loop_v1 (PGROUNDUP vstart) vend s of None \<Rightarrow> Inl Hang | Some r \<Rightarrow> r)"

definition kinit1_v1 :: "u32 \<Rightarrow> u32 \<Rightarrow> kmem \<Rightarrow> kmem res" where
  "kinit1_v1 vstart vend s =
     freerange_v1 vstart vend (s\<lparr>km_lock := initlock ''kmem'' (km_lock s), km_use_lock := False\<rparr>)"

definition kinit2_v1 :: "u32 \<Rightarrow> u32 \<Rightarrow> kmem \<Rightarrow> kmem res" where
  "kinit2_v1 vstart vend s =
     rbind (freerange_v1 vstart vend s) (\<lambda>s. Inr (s\<lparr>km_use_lock := True, km_init := True\<rparr>))"

definition kalloc_v1b :: "int \<Rightarrow> kmem \<Rightarrow> (u32 \<times> kmem) res" where
  "kalloc_v1b pid s =
     rbind (km_acquire s) (\<lambda>s.
     let r = km_free s in
     if r = 0 then Inl (Undefined ''kalloc: null page'')
     else
       let s = s\<lparr>km_free := km_mem s r\<rparr> in
       rbind (if tracked r
              then rbind (set_pg2pid (uint (VA2IDX r)) pid s) (\<lambda>s.
                     let s = s\<lparr>km_count := cint (km_count s + 1)\<rparr> in
                     if km_free s = 0 then Inl (Undefined ''kalloc: null page'')
                     else Inr (s\<lparr>km_free := km_mem s (km_free s)\<rparr>))
              else Inr s) (\<lambda>s.
       rbind (km_release s) (\<lambda>s. Inr (r, s))))"

definition kalloc_v1a :: "int \<Rightarrow> kmem \<Rightarrow> (u32 \<times> kmem) res" where
  "kalloc_v1a pid s = kalloc_v1b (- 2) s"

text \<open>\<open>v1a-sort\<close>, with the same \<open>insert_freelist\<close> as the final allocator.\<close>

definition idx2framenum :: "int \<Rightarrow> int" where
  "idx2framenum idx = (if idx < 1024 then idx else sint (drop_bit 12 PHYSTOP) - (idx - 1024))"

definition kfree_gap :: "u32 \<Rightarrow> kmem \<Rightarrow> kmem res" where
  "kfree_gap v s =
     (if v mod 4096 \<noteq> 0 \<or> v < km_end s \<or> V2P v \<ge> PHYSTOP then Inl (Panic ''kfree'')
      else
        let s = memset_page v s in
        rbind (if tracked v
               then rbind (set_pg2pid (uint (VA2IDX v)) (- 1) s) (\<lambda>s.
                      if km_init s then insert_freelist (v - 4096) (s\<lparr>km_count := cint (km_count s - 1)\<rparr>) else Inr s)
               else Inr s)
          (insert_freelist v))"

partial_function (option) freerange_loop_gap :: "u32 \<Rightarrow> u32 \<Rightarrow> kmem \<Rightarrow> kmem res option" where
  "freerange_loop_gap p vend s =
     (if p + 4096 \<le> vend then
        (case kfree_gap p s of Inl e \<Rightarrow> Some (Inl e) | Inr s \<Rightarrow> freerange_loop_gap (p + 4096) vend s)
      else Some (Inr s))"

definition freerange_gap :: "u32 \<Rightarrow> u32 \<Rightarrow> kmem \<Rightarrow> kmem res" where
  "freerange_gap vstart vend s =
     (case freerange_loop_gap (PGROUNDUP vstart) vend s of None \<Rightarrow> Inl Hang | Some r \<Rightarrow> r)"

definition kinit1_gap :: "u32 \<Rightarrow> u32 \<Rightarrow> kmem \<Rightarrow> kmem res" where
  "kinit1_gap vstart vend s =
     freerange_gap vstart vend (s\<lparr>km_lock := initlock ''kmem'' (km_lock s), km_use_lock := False\<rparr>)"



section \<open>Pairs of frames\<close>

text \<open>The free list of \<open>v1a-sort\<close> starts with pairs of pages \<open>2p + 1\<close>, \<open>2p\<close>; only the upper one is given out.\<close>

definition pairs :: "nat list \<Rightarrow> u32 list" where
  "pairs ps = concat (map (\<lambda>p. [page_at (2 * p + 1), page_at (2 * p)]) ps)"


lemma pairs_simps [simp]: "pairs [] = []" "pairs (p # ps) = page_at (2 * p + 1) # page_at (2 * p) # pairs ps"
  by (simp_all add: pairs_def)







section \<open>The invariant of the pairs\<close>







lemma same_mem_pages: "same_mem s t \<Longrightarrow> mem_lock_ok t \<Longrightarrow> pages_ok s xs \<Longrightarrow> pages_ok t xs"
  using same_mem_list [of s t xs] by (simp add: pages_ok_def same_mem_fields)






section \<open>Freeing\<close>









section \<open>Booting\<close>













section \<open>Property of the pairs\<close>



end
