(* ===== verification/Vm.thy ===== *)
theory Vm
  imports Kalloc
begin

text \<open>
  Page tables and address spaces (\<open>05_xv6_memory_safe_allocation/src/v2-sort/vm.c\<close>), on top of the
  page allocator that records owners. A page directory and the page tables are pages of kernel
  memory with 1024 entries of one word; memory is by words, and bytes are parts of words.
\<close>

unbundle bit_operations_syntax

section \<open>Addresses and entries\<close>

definition PGSIZE :: u32 where "PGSIZE = 4096"
definition NPDENTRIES :: nat where "NPDENTRIES = 1024"
definition PTE_P :: u32 where "PTE_P = 1"
definition PTE_W :: u32 where "PTE_W = 2"
definition PTE_U :: u32 where "PTE_U = 4"

definition P2V :: "u32 \<Rightarrow> u32" where
  "P2V a = a + KERNBASE"

definition PGROUNDDOWN :: "u32 \<Rightarrow> u32" where
  "PGROUNDDOWN a = a AND NOT 4095"

definition PDX :: "u32 \<Rightarrow> u32" where
  "PDX va = drop_bit 22 va AND 0x3FF"

definition PTX :: "u32 \<Rightarrow> u32" where
  "PTX va = drop_bit 12 va AND 0x3FF"

definition PGADDR :: "u32 \<Rightarrow> u32 \<Rightarrow> u32 \<Rightarrow> u32" where
  "PGADDR d t off = push_bit 22 d OR push_bit 12 t OR off"

definition PTE_ADDR :: "u32 \<Rightarrow> u32" where
  "PTE_ADDR pte = pte AND NOT 0xFFF"

definition PTE_FLAGS :: "u32 \<Rightarrow> u32" where
  "PTE_FLAGS pte = pte AND 0xFFF"

text \<open>\<open>e & PTE_P\<close> and \<open>e & PTE_U\<close>\<close>

definition present :: "u32 \<Rightarrow> bool" where
  "present e \<longleftrightarrow> e AND PTE_P \<noteq> 0"

definition user :: "u32 \<Rightarrow> bool" where
  "user e \<longleftrightarrow> e AND PTE_U \<noteq> 0"

section \<open>Memory\<close>

text \<open>\<open>memset(v, 0, PGSIZE)\<close> and \<open>memmove(dst, src, PGSIZE)\<close> on pages.\<close>

definition zero_page :: "u32 \<Rightarrow> kmem \<Rightarrow> kmem" where
  "zero_page v s = s\<lparr>km_mem := (\<lambda>a. if v \<le> a \<and> a < v + 4096 then 0 else km_mem s a)\<rparr>"

definition copy_page :: "u32 \<Rightarrow> u32 \<Rightarrow> kmem \<Rightarrow> kmem" where
  "copy_page dst src s =
     s\<lparr>km_mem := (\<lambda>a. if dst \<le> a \<and> a < dst + 4096 then km_mem s (src + (a - dst)) else km_mem s a)\<rparr>"

text \<open>Bytes: the byte at address \<open>a\<close> is part of the word at \<open>a\<close> rounded down, lowest byte first.\<close>

definition byte_of :: "u32 \<Rightarrow> nat \<Rightarrow> u8" where
  "byte_of w k = ucast (drop_bit (8 * k) w)"

definition set_byte :: "u32 \<Rightarrow> nat \<Rightarrow> u8 \<Rightarrow> u32" where
  "set_byte w k b = (w AND NOT (push_bit (8 * k) 0xFF)) OR push_bit (8 * k) (ucast b)"

definition get_byte :: "u32 \<Rightarrow> kmem \<Rightarrow> u8" where
  "get_byte a s = byte_of (km_mem s (a AND NOT 3)) (unat (a AND 3))"

definition put_byte :: "u32 \<Rightarrow> u8 \<Rightarrow> kmem \<Rightarrow> kmem" where
  "put_byte a b s = km_write (a AND NOT 3) (set_byte (km_mem s (a AND NOT 3)) (unat (a AND 3)) b) s"

text \<open>\<open>memmove(dst, bs, n)\<close> from a buffer outside the page.\<close>

fun put_bytes :: "u32 \<Rightarrow> u8 list \<Rightarrow> kmem \<Rightarrow> kmem" where
  "put_bytes dst [] s = s"
| "put_bytes dst (b # bs) s = put_bytes (dst + 1) bs (put_byte dst b s)"

section \<open>Page tables\<close>

text \<open>\<open>walkpgdir\<close>: the address of the page table entry, 0 if there is none.\<close>

definition walkpgdir :: "u32 \<Rightarrow> u32 \<Rightarrow> bool \<Rightarrow> kmem \<Rightarrow> (u32 \<times> kmem) res" where
  "walkpgdir pgdir va alloc s =
     (let pde = pgdir + 4 * PDX va in
      if present (km_mem s pde) then Inr (P2V (PTE_ADDR (km_mem s pde)) + 4 * PTX va, s)
      else if \<not> alloc then Inr (0, s)
      else
        rbind (kalloc (- 2) s) (\<lambda>(pgtab, s).
        if pgtab = 0 then Inr (0, s)
        else
          let s = zero_page pgtab s;
              s = km_write pde (V2P pgtab OR PTE_P OR PTE_W OR PTE_U) s
          in Inr (pgtab + 4 * PTX va, s)))"

partial_function (option) map_loop ::
  "u32 \<Rightarrow> u32 \<Rightarrow> u32 \<Rightarrow> u32 \<Rightarrow> u32 \<Rightarrow> kmem \<Rightarrow> (int \<times> kmem) res option" where
  "map_loop pgdir a lst pa perm s =
     (case walkpgdir pgdir a True s of Inl e \<Rightarrow> Some (Inl e)
      | Inr (pte, s) \<Rightarrow>
          if pte = 0 then Some (Inr (- 1, s))
          else if present (km_mem s pte) then Some (Inl (Panic ''remap''))
          else
            let s = km_write pte (pa OR perm OR PTE_P) s in
            if a = lst then Some (Inr (0, s))
            else map_loop pgdir (a + PGSIZE) lst (pa + PGSIZE) perm s)"

text \<open>A loop that does not end.\<close>

definition ends :: "'x res option \<Rightarrow> 'x res" where
  "ends r = (case r of None \<Rightarrow> Inl Hang | Some x \<Rightarrow> x)"

definition mappages :: "u32 \<Rightarrow> u32 \<Rightarrow> u32 \<Rightarrow> u32 \<Rightarrow> u32 \<Rightarrow> kmem \<Rightarrow> (int \<times> kmem) res" where
  "mappages pgdir va sz pa perm s =
     ends (map_loop pgdir (PGROUNDDOWN va) (PGROUNDDOWN (va + sz - 1)) pa perm s)"

section \<open>Releasing\<close>

partial_function (option) dealloc_loop :: "u32 \<Rightarrow> u32 \<Rightarrow> u32 \<Rightarrow> kmem \<Rightarrow> kmem res option" where
  "dealloc_loop pgdir a oldsz s =
     (if a < oldsz then
        (case walkpgdir pgdir a False s of Inl e \<Rightarrow> Some (Inl e)
         | Inr (pte, s) \<Rightarrow>
             if pte = 0 then
               let a = PGADDR (PDX a + 1) 0 0 - PGSIZE in dealloc_loop pgdir (a + PGSIZE) oldsz s
             else if present (km_mem s pte) then
               let pa = PTE_ADDR (km_mem s pte) in
               if pa = 0 then Some (Inl (Panic ''kfree''))
               else
                 (case kfree (P2V pa) s of Inl e \<Rightarrow> Some (Inl e)
                  | Inr s \<Rightarrow> dealloc_loop pgdir (a + PGSIZE) oldsz (km_write pte 0 s))
             else dealloc_loop pgdir (a + PGSIZE) oldsz s)
      else Some (Inr s))"

definition deallocuvm :: "u32 \<Rightarrow> u32 \<Rightarrow> u32 \<Rightarrow> kmem \<Rightarrow> (u32 \<times> kmem) res" where
  "deallocuvm pgdir oldsz newsz s =
     (if newsz \<ge> oldsz then Inr (oldsz, s)
      else rbind (ends (dealloc_loop pgdir (PGROUNDUP newsz) oldsz s)) (\<lambda>s. Inr (newsz, s)))"

text \<open>\<open>freevm\<close>, with one round of the loop over the page directory.\<close>

definition free_table :: "u32 \<Rightarrow> nat \<Rightarrow> kmem \<Rightarrow> kmem res" where
  "free_table pgdir i s =
     (let e = km_mem s (pgdir + 4 * of_nat i) in if present e then kfree (P2V (PTE_ADDR e)) s else Inr s)"

definition freevm :: "u32 \<Rightarrow> kmem \<Rightarrow> kmem res" where
  "freevm pgdir s =
     (if pgdir = 0 then Inl (Panic ''freevm: no pgdir'')
      else
        rbind (deallocuvm pgdir KERNBASE 0 s) (\<lambda>(r, s).
        rbind (rfold (free_table pgdir) [0..<NPDENTRIES] s) (\<lambda>s.
        kfree pgdir s)))"

section \<open>The kernel part\<close>

text \<open>The table \<open>kmap\<close>; \<open>kdata\<close> is the linker's symbol \<open>data\<close>.\<close>

record kmap_entry =
  km_virt :: u32
  km_phys_start :: u32
  km_phys_end :: u32
  km_perm :: u32

definition EXTMEM :: u32 where "EXTMEM = 0x100000"
definition DEVSPACE :: u32 where "DEVSPACE = 0xFE000000"

definition kmap :: "u32 \<Rightarrow> kmap_entry list" where
  "kmap kdata =
     [\<lparr>km_virt = KERNBASE, km_phys_start = 0, km_phys_end = EXTMEM, km_perm = PTE_W\<rparr>,
      \<lparr>km_virt = KERNBASE + EXTMEM, km_phys_start = V2P (KERNBASE + EXTMEM), km_phys_end = V2P kdata, km_perm = 0\<rparr>,
      \<lparr>km_virt = kdata, km_phys_start = V2P kdata, km_phys_end = PHYSTOP, km_perm = PTE_W\<rparr>,
      \<lparr>km_virt = DEVSPACE, km_phys_start = DEVSPACE, km_phys_end = 0, km_perm = PTE_W\<rparr>]"

fun kmap_loop :: "u32 \<Rightarrow> kmap_entry list \<Rightarrow> kmem \<Rightarrow> (u32 \<times> kmem) res" where
  "kmap_loop pgdir [] s = Inr (pgdir, s)"
| "kmap_loop pgdir (k # ks) s =
     rbind (mappages pgdir (km_virt k) (km_phys_end k - km_phys_start k) (km_phys_start k) (km_perm k) s) (\<lambda>(r, s).
     if r < 0 then rbind (freevm pgdir s) (\<lambda>s. Inr (0, s)) else kmap_loop pgdir ks s)"

definition setupkvm :: "u32 \<Rightarrow> kmem \<Rightarrow> (u32 \<times> kmem) res" where
  "setupkvm kdata s =
     rbind (kalloc (- 2) s) (\<lambda>(pgdir, s).
     if pgdir = 0 then Inr (0, s)
     else
       let s = zero_page pgdir s in
       if P2V PHYSTOP > DEVSPACE then Inl (Panic ''PHYSTOP too high'') else kmap_loop pgdir (kmap kdata) s)"

text \<open>\<open>kvmalloc\<close> with \<open>switchkvm\<close>: the kernel's page directory and what \<open>lcr3\<close> loads.\<close>

definition switchkvm :: "u32 \<Rightarrow> u32" where
  "switchkvm kpgdir = V2P kpgdir"

definition kvmalloc :: "u32 \<Rightarrow> kmem \<Rightarrow> (u32 \<times> u32 \<times> kmem) res" where
  "kvmalloc kdata s = rbind (setupkvm kdata s) (\<lambda>(kpgdir, s). Inr (kpgdir, switchkvm kpgdir, s))"

text \<open>\<open>switchuvm\<close>: the fields of the process (if there is one); the result is what the hardware gets.\<close>

record hw_switch =
  hw_ss0 :: u32
  hw_esp0 :: u32
  hw_iomb :: u32
  hw_cr3 :: u32

definition switchuvm :: "(u32 \<times> u32) option \<Rightarrow> cpu_st \<Rightarrow> (hw_switch \<times> cpu_st) res" where
  "switchuvm p c =
     (case p of None \<Rightarrow> Inl (Panic ''switchuvm: no process'')
      | Some (kstack, pgdir) \<Rightarrow>
          if kstack = 0 then Inl (Panic ''switchuvm: no kstack'')
          else if pgdir = 0 then Inl (Panic ''switchuvm: no pgdir'')
          else rbind (popcli (pushcli c)) (\<lambda>c.
            Inr (\<lparr>hw_ss0 = 16, hw_esp0 = kstack + 4096, hw_iomb = 0xFFFF, hw_cr3 = V2P pgdir\<rparr>, c)))"

section \<open>User memory\<close>

definition inituvm :: "u32 \<Rightarrow> u8 list \<Rightarrow> kmem \<Rightarrow> kmem res" where
  "inituvm pgdir init s =
     (if length init \<ge> 4096 then Inl (Panic ''inituvm: more than a page'')
      else
        rbind (kalloc (- 2) s) (\<lambda>(mem, s).
        rbind (mappages pgdir 0 PGSIZE (V2P mem) (PTE_W OR PTE_U) (zero_page mem s)) (\<lambda>(r, s).
        Inr (put_bytes mem init s))))"

text \<open>\<open>readi off n\<close> is what reading the program file returns: a count and the bytes.\<close>

partial_function (option) load_loop ::
  "(u32 \<Rightarrow> u32 \<Rightarrow> int \<times> u8 list) \<Rightarrow> u32 \<Rightarrow> u32 \<Rightarrow> u32 \<Rightarrow> u32 \<Rightarrow> u32 \<Rightarrow> kmem \<Rightarrow> (int \<times> kmem) res option" where
  "load_loop readi pgdir addr offset i sz s =
     (if i < sz then
        (case walkpgdir pgdir (addr + i) False s of Inl e \<Rightarrow> Some (Inl e)
         | Inr (pte, s) \<Rightarrow>
             if pte = 0 then Some (Inl (Panic ''loaduvm: address should exist''))
             else
               let pa = PTE_ADDR (km_mem s pte);
                   n = (if sz - i < PGSIZE then sz - i else PGSIZE)
               in (case readi (offset + i) n of (r, bytes) \<Rightarrow>
                     let s = put_bytes (P2V pa) bytes s in
                     if r \<noteq> sint n then Some (Inr (- 1, s))
                     else load_loop readi pgdir addr offset (i + PGSIZE) sz s))
      else Some (Inr (0, s)))"

definition loaduvm ::
  "(u32 \<Rightarrow> u32 \<Rightarrow> int \<times> u8 list) \<Rightarrow> u32 \<Rightarrow> u32 \<Rightarrow> u32 \<Rightarrow> u32 \<Rightarrow> kmem \<Rightarrow> (int \<times> kmem) res" where
  "loaduvm readi pgdir addr offset sz s =
     (if addr mod PGSIZE \<noteq> 0 then Inl (Panic ''loaduvm: addr must be page aligned'')
      else ends (load_loop readi pgdir addr offset 0 sz s))"

text \<open>\<open>pid\<close> is \<open>myproc()->pid\<close>.\<close>

partial_function (option) alloc_loop ::
  "int \<Rightarrow> u32 \<Rightarrow> u32 \<Rightarrow> u32 \<Rightarrow> u32 \<Rightarrow> kmem \<Rightarrow> (u32 \<times> kmem) res option" where
  "alloc_loop pid pgdir a oldsz newsz s =
     (if a < newsz then
        (case kalloc pid s of Inl e \<Rightarrow> Some (Inl e)
         | Inr (mem, s) \<Rightarrow>
             if mem = 0 then Some (rbind (deallocuvm pgdir newsz oldsz s) (\<lambda>(r, s). Inr (0, s)))
             else
               (case mappages pgdir a PGSIZE (V2P mem) (PTE_W OR PTE_U) (zero_page mem s) of Inl e \<Rightarrow> Some (Inl e)
                | Inr (r, s) \<Rightarrow>
                    if r < 0 then
                      Some (rbind (deallocuvm pgdir newsz oldsz s) (\<lambda>(r, s). rbind (kfree mem s) (\<lambda>s. Inr (0, s))))
                    else alloc_loop pid pgdir (a + PGSIZE) oldsz newsz s))
      else Some (Inr (newsz, s)))"

definition allocuvm :: "int \<Rightarrow> u32 \<Rightarrow> u32 \<Rightarrow> u32 \<Rightarrow> kmem \<Rightarrow> (u32 \<times> kmem) res" where
  "allocuvm pid pgdir oldsz newsz s =
     (if newsz \<ge> KERNBASE then Inr (0, s)
      else if newsz < oldsz then Inr (oldsz, s)
      else ends (alloc_loop pid pgdir (PGROUNDUP oldsz) oldsz newsz s))"

definition clearpteu :: "u32 \<Rightarrow> u32 \<Rightarrow> kmem \<Rightarrow> kmem res" where
  "clearpteu pgdir uva s =
     rbind (walkpgdir pgdir uva False s) (\<lambda>(pte, s).
     if pte = 0 then Inl (Panic ''clearpteu'') else Inr (km_write pte (km_mem s pte AND NOT PTE_U) s))"

partial_function (option) copy_loop ::
  "u32 \<Rightarrow> u32 \<Rightarrow> u32 \<Rightarrow> u32 \<Rightarrow> int \<Rightarrow> kmem \<Rightarrow> (u32 \<times> kmem) res option" where
  "copy_loop pgdir d i sz child_pid s =
     (if i < sz then
        (case walkpgdir pgdir i False s of Inl e \<Rightarrow> Some (Inl e)
         | Inr (pte, s) \<Rightarrow>
             if pte = 0 then Some (Inl (Panic ''copyuvm: pte should exist''))
             else if \<not> present (km_mem s pte) then Some (Inl (Panic ''copyuvm: page not present''))
             else
               let pa = PTE_ADDR (km_mem s pte); flags = PTE_FLAGS (km_mem s pte) in
               (case kalloc child_pid s of Inl e \<Rightarrow> Some (Inl e)
                | Inr (mem, s) \<Rightarrow>
                    if mem = 0 then Some (rbind (freevm d s) (\<lambda>s. Inr (0, s)))
                    else
                      (case mappages d i PGSIZE (V2P mem) flags (copy_page mem (P2V pa) s) of Inl e \<Rightarrow> Some (Inl e)
                       | Inr (r, s) \<Rightarrow>
                           if r < 0 then
                             Some (rbind (kfree mem s) (\<lambda>s. rbind (freevm d s) (\<lambda>s. Inr (0, s))))
                           else copy_loop pgdir d (i + PGSIZE) sz child_pid s)))
      else Some (Inr (d, s)))"

definition copyuvm :: "u32 \<Rightarrow> u32 \<Rightarrow> u32 \<Rightarrow> int \<Rightarrow> kmem \<Rightarrow> (u32 \<times> kmem) res" where
  "copyuvm kdata pgdir sz child_pid s =
     rbind (setupkvm kdata s) (\<lambda>(d, s).
     if d = 0 then Inr (0, s) else ends (copy_loop pgdir d 0 sz child_pid s))"

section \<open>Access from the kernel\<close>

text \<open>\<open>uva2ka\<close> reads the entry without a check: a missing page table is a null dereference.\<close>

definition uva2ka :: "u32 \<Rightarrow> u32 \<Rightarrow> kmem \<Rightarrow> u32 res" where
  "uva2ka pgdir uva s =
     rbind (walkpgdir pgdir uva False s) (\<lambda>(pte, s).
     if pte = 0 then Inl (Undefined ''uva2ka: null pte'')
     else if \<not> present (km_mem s pte) then Inr 0
     else if \<not> user (km_mem s pte) then Inr 0
     else Inr (P2V (PTE_ADDR (km_mem s pte))))"

lemma page_rest: "0 < unat (PGSIZE - (va - PGROUNDDOWN va))"
proof -
  have "va - PGROUNDDOWN va = take_bit 12 va"
    using and_not_mask_sub [of va 12] by (simp add: PGROUNDDOWN_def mask_numeral)
  moreover have "unat (take_bit 12 va) < 4096" using unat_take_bit [of 12 va] by simp
  ultimately have "PGSIZE - (va - PGROUNDDOWN va) \<noteq> 0"
    by (auto simp: PGSIZE_def)
  then show ?thesis by (simp add: unat_gt_0)
qed

text \<open>The loop of \<open>copyout\<close> on the bytes that are left.\<close>

function copyout :: "u32 \<Rightarrow> u32 \<Rightarrow> u8 list \<Rightarrow> kmem \<Rightarrow> (int \<times> kmem) res" where
  "copyout pgdir va buf s =
     (if buf = [] then Inr (0, s)
      else
        let va0 = PGROUNDDOWN va in
        rbind (uva2ka pgdir va0 s) (\<lambda>pa0.
        if pa0 = 0 then Inr (- 1, s)
        else
          let n = min (unat (PGSIZE - (va - va0))) (length buf) in
          copyout pgdir (va0 + PGSIZE) (drop n buf) (put_bytes (pa0 + (va - va0)) (take n buf) s)))"
  by pat_completeness auto
termination
  by (relation "measure (\<lambda>(pgdir, va, buf, s). length buf)") (use page_rest in auto)

declare copyout.simps [simp del]

end
