(* ===== verification/VmProps.thy ===== *)
theory VmProps
  imports Vm KallocProps
begin

text \<open>
  Page tables as functions: \<open>ent s pgdir n\<close> is the entry of page number \<open>n\<close>. The pages that an address
  space uses (its directory, its tables, its user frames) are distinct, allocated and known, which
  is the invariant \<open>space_ok\<close>; the operations of \<open>vm.c\<close> keep it.
\<close>

unbundle bit_operations_syntax

section \<open>Addresses\<close>

text \<open>The \<open>k\<close>-th entry of a page.\<close>

definition slot :: "u32 \<Rightarrow> nat \<Rightarrow> u32" where
  "slot p k = p + 4 * of_nat k"

definition va_of :: "nat \<Rightarrow> u32" where
  "va_of n = of_nat (4096 * n)"

lemma unat_va_of [simp]: "n < 1048576 \<Longrightarrow> unat (va_of n) = 4096 * n"
  unfolding va_of_def unat_of_nat by simp

lemma unat_slot: "page_ok p \<Longrightarrow> k < 1024 \<Longrightarrow> unat (slot p k) = unat p + 4 * k"
  using page_unat [of p] pnum_less [of p] by (simp add: slot_def unat_word_ariths unat_of_nat)

lemma slot_inj:
  assumes "page_ok p" "page_ok q" "i < 1024" "j < 1024" "slot p i = slot q j"
  shows "p = q \<and> i = j"
proof -
  have "4096 * pnum p + 4 * i = 4096 * pnum q + 4 * j"
    using unat_slot [OF assms(1,3)] unat_slot [OF assms(2,4)] assms(5) page_unat [OF assms(1)] page_unat [OF assms(2)] by simp
  then have "1024 * pnum p + i = 1024 * pnum q + j" by simp
  then have "pnum p = pnum q \<and> i = j" using assms(3,4)
    by (metis div_mult_self3 mod_mult_self4 div_less mod_less add.right_neutral zero_neq_numeral add.commute mult.commute)
  then show ?thesis using page_unat [OF assms(1)] page_unat [OF assms(2)] by (simp add: word_unat_eq_iff)
qed

lemma slot_0 [simp]: "slot p 0 = p"
  by (simp add: slot_def)

lemma slot_page: "page_ok p \<Longrightarrow> page_ok x \<Longrightarrow> i < 1024 \<Longrightarrow> slot p i = x \<Longrightarrow> p = x"
  using slot_inj [of p x i 0] by simp

lemma in_page:
  assumes "page_ok p"
  shows "p \<le> a \<and> a < p + 4096 \<longleftrightarrow> unat p \<le> unat a \<and> unat a < unat p + 4096"
proof -
  have "unat (p + 4096) = unat p + 4096" using pnum_less [OF assms] page_unat [OF assms] by (simp add: unat_word_ariths)
  then show ?thesis by (simp add: word_le_nat_alt word_less_nat_alt)
qed

lemma slot_in_page:
  assumes "page_ok v" "page_ok p" "k < 1024"
  shows "v \<le> slot p k \<and> slot p k < v + 4096 \<longleftrightarrow> p = v"
proof -
  have "unat v \<le> unat p + 4 * k \<and> unat p + 4 * k < unat v + 4096 \<longleftrightarrow> pnum p = pnum v"
    using page_unat [OF assms(1)] page_unat [OF assms(2)] assms(3) by auto
  also have "pnum p = pnum v \<longleftrightarrow> p = v" using page_unat [OF assms(1)] page_unat [OF assms(2)] by (auto simp: word_unat_eq_iff)
  finally show ?thesis unfolding in_page [OF assms(1)] unat_slot [OF assms(2,3)] .
qed

lemma zero_page_slot: "page_ok v \<Longrightarrow> page_ok p \<Longrightarrow> k < 1024 \<Longrightarrow> km_mem (zero_page v s) (slot p k) = (if p = v then 0 else km_mem s (slot p k))"
  using slot_in_page by (simp add: zero_page_def)

lemma PDX_va [simp]: "n < 1048576 \<Longrightarrow> PDX (va_of n) = of_nat (n div 1024)"
proof -
  assume n: "n < 1048576"
  have "unat (PDX (va_of n)) = unat (drop_bit 22 (va_of n)) mod 2 ^ 10"
    using unat_and_mask [of "drop_bit 22 (va_of n)" 10] by (simp add: PDX_def mask_numeral)
  also have "unat (drop_bit 22 (va_of n)) = n div 1024" unfolding unat_drop_bit_eq
    using n div_mult2_eq [of "4096 * n" 4096 1024] by (simp add: drop_bit_eq_div)
  finally have "unat (PDX (va_of n)) = n div 1024" using n by simp
  then show ?thesis using n by (simp add: word_unat_eq_iff unat_of_nat)
qed

lemma PTX_va [simp]: "n < 1048576 \<Longrightarrow> PTX (va_of n) = of_nat (n mod 1024)"
proof -
  assume n: "n < 1048576"
  have "unat (PTX (va_of n)) = unat (drop_bit 12 (va_of n)) mod 2 ^ 10"
    using unat_and_mask [of "drop_bit 12 (va_of n)" 10] by (simp add: PTX_def mask_numeral)
  also have "unat (drop_bit 12 (va_of n)) = n" using n by (simp add: unat_drop12)
  finally have "unat (PTX (va_of n)) = n mod 1024" by simp
  then show ?thesis using n by (simp add: word_unat_eq_iff unat_of_nat)
qed

lemma page_ne_0: "page_ok p \<Longrightarrow> k < 1024 \<Longrightarrow> slot p k \<noteq> 0"
  using unat_slot [of p k] page_unat [of p] by auto

section \<open>Entries\<close>

text \<open>The page an entry refers to, and the entry that refers to a page.\<close>

definition frame :: "u32 \<Rightarrow> u32" where
  "frame e = P2V (PTE_ADDR e)"

lemma PTE_ADDR_low: "PTE_ADDR e = e - take_bit 12 e"
  using and_not_mask_sub [of e 12] by (simp add: PTE_ADDR_def mask_numeral)

lemma frame_or: "page_ok p \<Longrightarrow> take_bit 12 f = f \<Longrightarrow> frame (V2P p OR f) = p"
proof -
  assume p: "page_ok p" and f: "take_bit 12 f = f"
  have "unat (V2P p) mod 4096 = 0"
  proof -
    have "unat (V2P p) = 4096 * pnum p"
      using page_unat [OF p] pnum_less [OF p] by (simp add: V2P_def KERNBASE_def unat_sub word_le_nat_alt)
    then show ?thesis by simp
  qed
  then have z: "take_bit 12 (V2P p) = 0" using unat_take_bit [of 12 "V2P p"] by (simp add: unat_eq_0)
  have "\<not> bit (V2P p) k" if "k < 12" for k using z that by (metis bit_take_bit_iff bit_0_eq bot_apply bot_bool_def)
  moreover have "k < 12" if "bit f k" for k using f that by (metis bit_take_bit_iff)
  ultimately have "(V2P p OR f) AND NOT (mask 12) = V2P p" by (intro bit_eqI) (auto simp: bit_simps)
  then show ?thesis by (simp add: frame_def PTE_ADDR_def P2V_def V2P_def mask_numeral)
qed

lemma present_iff: "present e \<longleftrightarrow> odd e"
  by (simp add: present_def PTE_P_def and_one_eq odd_iff_mod_2_eq_one)

lemma present_or [simp]: "present (e OR PTE_P)" "present (e OR PTE_P OR f)" "\<not> present 0"
  by (simp_all add: present_iff PTE_P_def even_or_iff)

definition pde :: "kmem \<Rightarrow> u32 \<Rightarrow> nat \<Rightarrow> u32" where
  "pde s pgdir i = km_mem s (slot pgdir i)"

definition tab :: "kmem \<Rightarrow> u32 \<Rightarrow> nat \<Rightarrow> u32" where
  "tab s pgdir i = frame (pde s pgdir i)"

definition ent :: "kmem \<Rightarrow> u32 \<Rightarrow> nat \<Rightarrow> u32" where
  "ent s pgdir n =
     (if present (pde s pgdir (n div 1024)) then km_mem s (slot (tab s pgdir (n div 1024)) (n mod 1024)) else 0)"

text \<open>
  What an address space uses its pages for. Of the user pages, those with numbers below \<open>N\<close> count: all
  \<open>2^19\<close> of them, or none where only the page tables matter.
\<close>

datatype use = Dir | Tab nat | Usr nat

fun page_of :: "nat \<Rightarrow> kmem \<Rightarrow> u32 \<Rightarrow> use \<Rightarrow> u32 option" where
  "page_of N s pgdir Dir = Some pgdir"
| "page_of N s pgdir (Tab i) = (if i < 1024 \<and> present (pde s pgdir i) then Some (tab s pgdir i) else None)"
| "page_of N s pgdir (Usr n) = (if n < N \<and> present (ent s pgdir n) then Some (frame (ent s pgdir n)) else None)"

definition space_ok :: "nat \<Rightarrow> kmem \<Rightarrow> u32 \<Rightarrow> u32 list \<Rightarrow> bool" where
  "space_ok N s pgdir xs \<longleftrightarrow> kmem_inv s xs \<and>
     (\<forall>u a. page_of N s pgdir u = Some a \<longrightarrow> page_ok a \<and> km_end s \<le> a \<and> a \<notin> set xs) \<and>
     (\<forall>u v a. page_of N s pgdir u = Some a \<longrightarrow> page_of N s pgdir v = Some a \<longrightarrow> u = v)"

lemma space_okD:
  assumes "space_ok N s pgdir xs"
  shows "kmem_inv s xs" "page_of N s pgdir u = Some a \<Longrightarrow> page_ok a"
    "page_of N s pgdir u = Some a \<Longrightarrow> km_end s \<le> a" "page_of N s pgdir u = Some a \<Longrightarrow> a \<notin> set xs"
    "page_of N s pgdir u = Some a \<Longrightarrow> page_of N s pgdir v = Some a \<Longrightarrow> u = v"
  using assms unfolding space_ok_def by blast+

lemma space_dir: "space_ok N s pgdir xs \<Longrightarrow> page_ok pgdir \<and> km_end s \<le> pgdir \<and> pgdir \<notin> set xs"
  using space_okD(2-4) [of N s pgdir xs Dir pgdir] by simp

lemma space_tab:
  "space_ok N s pgdir xs \<Longrightarrow> i < 1024 \<Longrightarrow> present (pde s pgdir i) \<Longrightarrow>
    page_ok (tab s pgdir i) \<and> km_end s \<le> tab s pgdir i \<and> tab s pgdir i \<notin> set xs \<and> tab s pgdir i \<noteq> pgdir"
  using space_okD(2-4) [of N s pgdir xs "Tab i" "tab s pgdir i"] space_okD(5) [of N s pgdir xs "Tab i" "tab s pgdir i" Dir] by auto

lemma space_tab_inj:
  "space_ok N s pgdir xs \<Longrightarrow> i < 1024 \<Longrightarrow> j < 1024 \<Longrightarrow> present (pde s pgdir i) \<Longrightarrow> present (pde s pgdir j) \<Longrightarrow>
    tab s pgdir i = tab s pgdir j \<Longrightarrow> i = j"
  using space_okD(5) [of N s pgdir xs "Tab i" "tab s pgdir i" "Tab j"] by auto

section \<open>What operations keep\<close>

definition same_page :: "u32 \<Rightarrow> kmem \<Rightarrow> kmem \<Rightarrow> bool" where
  "same_page p s t \<longleftrightarrow> (\<forall>a. unat p \<le> unat a \<and> unat a < unat p + 4096 \<longrightarrow> km_mem t a = km_mem s a)"

text \<open>From \<open>s\<close> to \<open>t\<close> only pages in \<open>X\<close> changed hands, and only they and the pages in \<open>P\<close> changed contents.\<close>

definition evolves :: "u32 set \<Rightarrow> u32 set \<Rightarrow> kmem \<Rightarrow> kmem \<Rightarrow> bool" where
  "evolves X P s t \<longleftrightarrow> km_end t = km_end s \<and> km_use_lock t = km_use_lock s \<and> (\<forall>i < MAX_FRAME_NUM. i \<notin> fidx ` X \<longrightarrow> km_pid t i = km_pid s i) \<and>
     (\<forall>p. page_ok p \<longrightarrow> p \<notin> X \<longrightarrow> p \<notin> P \<longrightarrow> same_page p s t)"

lemma evolves_refl [simp]: "evolves X P s s"
  by (simp add: evolves_def same_page_def)

lemma evolves_trans: "evolves X P s t \<Longrightarrow> evolves Y Q t u \<Longrightarrow> Y \<subseteq> X \<Longrightarrow> Q \<subseteq> P \<union> X \<Longrightarrow> evolves X P s u"
  unfolding evolves_def same_page_def by (auto 0 3 dest: image_mono)

lemma evolves_mono: "evolves X P s t \<Longrightarrow> X \<subseteq> Y \<Longrightarrow> P \<subseteq> Q \<union> Y \<Longrightarrow> evolves Y Q s t"
  unfolding evolves_def by (auto 0 3)

lemma same_page_slot: "same_page p s t \<Longrightarrow> page_ok p \<Longrightarrow> k < 1024 \<Longrightarrow> km_mem t (slot p k) = km_mem s (slot p k)"
  by (simp add: same_page_def unat_slot)

text \<open>The allocator's invariant depends on memory only at the free pages.\<close>

lemma kmem_inv_mem:
  assumes "kmem_inv s xs" "t = s\<lparr>km_mem := m\<rparr>" "\<And>x. x \<in> set xs \<Longrightarrow> m x = km_mem s x"
  shows "kmem_inv t xs"
proof -
  have "chain (\<lambda>a. ptr (m a)) (ptr (km_free s)) xs = chain (\<lambda>a. ptr (km_mem s a)) (ptr (km_free s)) xs"
    by (rule seg_cong) (simp add: assms(3))
  then show ?thesis using assms(1)
    by (simp add: kmem_inv_def pages_ok_def owners_ok_def free_list_def mem_lock_ok_def owned_def isolated_def assms(2))
qed

lemma kmem_inv_free: "kmem_inv s xs \<Longrightarrow> x \<in> set xs \<Longrightarrow> page_ok x \<and> km_end s \<le> x"
  by (simp add: kmem_inv_def pages_ok_def)

lemma kmem_inv_write_slot: "kmem_inv s xs \<Longrightarrow> page_ok p \<Longrightarrow> p \<notin> set xs \<Longrightarrow> k < 1024 \<Longrightarrow> kmem_inv (km_write (slot p k) v s) xs"
  by (rule kmem_inv_mem [of s xs _ "(km_mem s)(slot p k := v)"])
    (auto simp: km_write_def dest: slot_page dest!: kmem_inv_free)

lemma kmem_inv_zero: "kmem_inv s xs \<Longrightarrow> page_ok v \<Longrightarrow> v \<notin> set xs \<Longrightarrow> kmem_inv (zero_page v s) xs"
  by (rule kmem_inv_mem [of s xs _ "km_mem (zero_page v s)"])
    (auto simp: zero_page_def kmem_inv_free slot_in_page [of v _ 0, simplified])

lemma evolves_write_slot: "page_ok p \<Longrightarrow> k < 1024 \<Longrightarrow> evolves X {p} s (km_write (slot p k) v s)"
  unfolding evolves_def same_page_def km_write_def
proof (clarsimp)
  fix q
  assume a: "page_ok p" "k < 1024" "page_ok q" "q \<noteq> p" "unat q \<le> unat (slot p k)" "unat (slot p k) < unat q + 4096"
  then have "q \<le> slot p k \<and> slot p k < q + 4096" using in_page by blast
  then have "p = q" using slot_in_page a by blast
  then show "v = km_mem s (slot p k)" using a by simp
qed

lemma page_start_other:
  "page_ok p \<Longrightarrow> page_ok x \<Longrightarrow> unat p \<le> unat x \<Longrightarrow> unat x < unat p + 4096 \<Longrightarrow> x = p"
  using slot_in_page [of p x 0] in_page [of p x] by simp

lemma pages_apart:
  "page_ok p \<Longrightarrow> page_ok v \<Longrightarrow> unat p \<le> unat a \<Longrightarrow> unat a < unat p + 4096 \<Longrightarrow> v \<le> a \<and> a < v + 4096 \<Longrightarrow> p = v"
  using page_unat [of p] page_unat [of v] unfolding in_page by (auto simp: word_unat_eq_iff)

lemma evolves_page:
  assumes "page_ok v" "t = s\<lparr>km_mem := m\<rparr>" "\<And>a. \<not> (v \<le> a \<and> a < v + 4096) \<Longrightarrow> m a = km_mem s a"
  shows "evolves X {v} s t"
  unfolding evolves_def same_page_def using assms pages_apart by auto

lemma evolves_zero: "page_ok v \<Longrightarrow> evolves X {v} s (zero_page v s)"
  by (rule evolves_page [where m = "km_mem (zero_page v s)"]) (auto simp: zero_page_def)

text \<open>The allocator never changes whether the lock is used.\<close>

lemma km_enter_use: "km_acquire s = Inr t \<Longrightarrow> km_use_lock t = km_use_lock s" "km_release s = Inr t \<Longrightarrow> km_use_lock t = km_use_lock s"
  by (auto simp: km_acquire_def km_release_def rbind_eq_Inr split: if_splits prod.splits)

lemma set_pg2pid_use: "set_pg2pid i v s = Inr t \<Longrightarrow> km_use_lock t = km_use_lock s"
  by (auto simp: set_pg2pid_def split: if_splits)

lemma select_page_use: "select_page pid s = Inr (r, t) \<Longrightarrow> km_use_lock t = km_use_lock s"
  by (auto simp: select_page_def rbind_eq_Inr km_write_def split: option.splits)

lemma kalloc_use: "kalloc pid s = Inr (x, t) \<Longrightarrow> km_use_lock t = km_use_lock s"
proof -
  assume k: "kalloc pid s = Inr (x, t)"
  then obtain a where a: "km_acquire s = Inr a" unfolding kalloc_def rbind_eq_Inr by blast
  let ?pick = "if pid = - 2 then let r = km_free a in Inr (r, if r \<noteq> 0 then a\<lparr>km_free := km_mem a r\<rparr> else a) else select_page pid a"
  obtain r b where b: "?pick = Inr (r, b)" using k a unfolding kalloc_def by (cases ?pick) auto
  obtain c where c: "km_release b = Inr c" using k a b unfolding kalloc_def by (cases "km_release b") simp_all
  have t: "(if tracked r then rbind (set_pg2pid (uint (VA2IDX r)) pid c) (\<lambda>s. Inr (r, s\<lparr>km_count := cint (km_count s + 1)\<rparr>)) else Inr (r, c)) = Inr (x, t)"
    using k a b c unfolding kalloc_def by simp
  have "km_use_lock b = km_use_lock a" using b select_page_use by (auto simp: Let_def split: if_splits)
  then have "km_use_lock c = km_use_lock s" using km_enter_use a c by simp
  then show ?thesis using t by (auto simp: rbind_eq_Inr dest: set_pg2pid_use split: if_splits)
qed

lemma insert_use: "insert_freelist v s = Inr t \<Longrightarrow> km_use_lock t = km_use_lock s"
proof -
  assume k: "insert_freelist v s = Inr t"
  then obtain a where a: "km_acquire s = Inr a" unfolding insert_freelist_def rbind_eq_Inr by blast
  let ?ins = "let prev = km_free a in if prev = 0 \<or> prev < v then Inr (km_write v prev (a\<lparr>km_free := v\<rparr>))
    else case insert_scan (km_mem a) v prev of None \<Rightarrow> Inl Hang
      | Some prev \<Rightarrow> let s = km_write v (km_mem a prev) a in Inr (km_write prev v s)"
  obtain b where b: "?ins = Inr b" "km_release b = Inr t" using k a unfolding insert_freelist_def by (auto simp: Let_def rbind_eq_Inr)
  have "km_use_lock b = km_use_lock a" using b(1) by (auto simp: Let_def km_write_def split: if_splits option.splits)
  then show ?thesis using km_enter_use a b(2) by simp
qed

lemma kfree_use: "kfree v s = Inr t \<Longrightarrow> km_use_lock t = km_use_lock s"
proof -
  let ?own = "\<lambda>s. if tracked v then rbind (set_pg2pid (uint (VA2IDX v)) (- 1) s) (\<lambda>s. Inr (if km_init s then s\<lparr>km_count := cint (km_count s - 1)\<rparr> else s))
    else Inr s"
  assume "kfree v s = Inr t"
  then obtain a where a: "?own (memset_page v s) = Inr a" "insert_freelist v a = Inr t" unfolding kfree_def
    by (simp only: Let_def rbind_eq_Inr split: if_split_asm) auto
  have "km_use_lock a = km_use_lock (memset_page v s)" using a(1) set_pg2pid_use by (auto simp: rbind_eq_Inr split: if_splits)
  then show ?thesis using insert_use [OF a(2)] by (simp add: memset_page_def)
qed

lemma evolves_kalloc:
  assumes "kmem_inv s (us @ x # zs)" "kalloc pid s = Inr (x, t)" "km_end t = km_end s" "\<forall>i < MAX_FRAME_NUM. km_pid t i = (if i = fidx x then pid else km_pid s i)"
    "\<forall>a. a \<notin> set us \<longrightarrow> km_mem t a = km_mem s a"
  shows "evolves (insert x (set us)) {} s t"
proof -
  have "km_mem t a = km_mem s a" if "page_ok p" "p \<notin> insert x (set us)" "unat p \<le> unat a" "unat a < unat p + 4096" for p a
  proof -
    have "a \<notin> set us"
    proof
      assume "a \<in> set us"
      then have "page_ok a" using kmem_inv_free [OF assms(1)] by simp
      then have "a = p" using that page_start_other by blast
      with \<open>a \<in> set us\<close> that(2) show False by simp
    qed
    then show ?thesis using assms(5) by simp
  qed
  then show ?thesis unfolding evolves_def same_page_def using assms(3,4) kalloc_use [OF assms(2)] by auto
qed

lemma kalloc_kernel:
  assumes "kmem_inv s (x # ys)"
  shows "\<exists>t. kalloc (- 2) s = Inr (x, t) \<and> kmem_inv t ys \<and> evolves {x} {} s t"
proof -
  have inv: "kmem_inv s ([] @ x # ys)" using assms by simp
  from kalloc_chosen [OF this, of "- 2"] obtain t where t: "kalloc (- 2) s = Inr (x, t)" "kmem_inv t ys"
    "\<forall>i < MAX_FRAME_NUM. km_pid t i = (if i = fidx x then - 2 else km_pid s i)" "km_end t = km_end s"
    "\<forall>a. a \<notin> set [] \<longrightarrow> km_mem t a = km_mem s a" by auto
  from evolves_kalloc [OF inv t(1,4,3,5)] t(1,2) show ?thesis by auto
qed

lemma evolves_kfree:
  assumes "kmem_inv s xs" "page_ok v" "km_end s \<le> v" "v \<notin> set xs"
  shows "\<exists>t. kfree v s = Inr t \<and> kmem_inv t (insert_desc v xs) \<and> evolves (insert v (set xs)) {} s t"
proof -
  have "pages_ok s xs" using assms(1) by (simp add: kmem_inv_def)
  from kfree_pages [OF this assms(2-4)] kfree_inv [OF assms]
  obtain t where t: "kfree v s = Inr t" "kmem_inv t (insert_desc v xs)" "km_end t = km_end s"
    "\<forall>a. a \<notin> set xs \<longrightarrow> \<not> (v \<le> a \<and> a < v + 4096) \<longrightarrow> km_mem t a = km_mem s a"
    "km_pid t = (if fidx v < MAX_FRAME_NUM then (km_pid s)(fidx v := - 1) else km_pid s)" by (auto split: if_splits)
  have "km_mem t a = km_mem s a" if p: "page_ok p" "p \<notin> insert v (set xs)" "unat p \<le> unat a" "unat a < unat p + 4096" for p a
  proof -
    have "a \<notin> set xs" using kmem_inv_free [OF assms(1)] page_start_other p by blast
    moreover have "\<not> (v \<le> a \<and> a < v + 4096)" using pages_apart [OF p(1) assms(2) p(3,4)] p(2) by blast
    ultimately show ?thesis using t(4) by blast
  qed
  moreover have "km_pid t i = km_pid s i" if "i \<notin> fidx ` insert v (set xs)" for i using t(5) that by (auto split: if_splits)
  ultimately have "evolves (insert v (set xs)) {} s t" unfolding evolves_def same_page_def using t(3) kfree_use [OF t(1)] by blast
  with t(1,2) show ?thesis by blast
qed

section \<open>Walking and writing\<close>

text \<open>An address space gained the free page \<open>x\<close> for the use \<open>U\<close>.\<close>

lemma space_ok_add:
  assumes "space_ok N s pgdir xs" "kmem_inv t ys" "km_end t = km_end s" "set ys \<subseteq> set xs - {x}"
    "page_ok x" "km_end s \<le> x" "\<And>u. page_of N s pgdir u \<noteq> Some x"
    "\<And>u a. page_of N t pgdir u = Some a \<Longrightarrow> page_of N s pgdir u = Some a \<or> u = U \<and> a = x"
  shows "space_ok N t pgdir ys"
proof -
  have "page_ok a \<and> km_end t \<le> a \<and> a \<notin> set ys" if "page_of N t pgdir u = Some a" for u a
    using assms(8) [OF that] space_okD(2-4) [OF assms(1), of u a] assms(3-6) by auto
  moreover have "u = v" if "page_of N t pgdir u = Some a" "page_of N t pgdir v = Some a" for u v a
    using assms(8) [OF that(1)] assms(8) [OF that(2)] space_okD(5) [OF assms(1), of u a v] assms(7) by auto
  ultimately show ?thesis unfolding space_ok_def using assms(2) by blast
qed

lemma space_ok_sub:
  assumes "space_ok N s pgdir xs" "kmem_inv t ys" "km_end t = km_end s"
    "\<And>u a. page_of N t pgdir u = Some a \<Longrightarrow> page_of N s pgdir u = Some a \<and> a \<notin> set ys"
  shows "space_ok N t pgdir ys"
proof -
  have "page_ok a \<and> km_end t \<le> a \<and> a \<notin> set ys" if "page_of N t pgdir u = Some a" for u a
    using assms(4) [OF that] space_okD(2-4) [OF assms(1), of u a] assms(3) by auto
  moreover have "u = v" if "page_of N t pgdir u = Some a" "page_of N t pgdir v = Some a" for u v a
    using assms(4) that space_okD(5) [OF assms(1), of u a v] by blast
  ultimately show ?thesis unfolding space_ok_def using assms(2) by blast
qed

lemma walk_present:
  "n < 1048576 \<Longrightarrow> present (pde s pgdir (n div 1024)) \<Longrightarrow>
    walkpgdir pgdir (va_of n) alloc s = Inr (slot (tab s pgdir (n div 1024)) (n mod 1024), s)"
  by (simp add: walkpgdir_def pde_def tab_def frame_def slot_def)

lemma walk_absent:
  "n < 1048576 \<Longrightarrow> \<not> present (pde s pgdir (n div 1024)) \<Longrightarrow> walkpgdir pgdir (va_of n) False s = Inr (0, s)"
  by (simp add: walkpgdir_def pde_def slot_def)

text \<open>Entries after the directory and the tables changed in known places.\<close>

lemma ent_cong:
  assumes "\<And>i. i < 1024 \<Longrightarrow> pde t pgdir i = pde s pgdir i"
    "\<And>i k. i < 1024 \<Longrightarrow> present (pde s pgdir i) \<Longrightarrow> k < 1024 \<Longrightarrow> km_mem t (slot (tab s pgdir i) k) = km_mem s (slot (tab s pgdir i) k)"
    "n < 1048576"
  shows "ent t pgdir n = ent s pgdir n"
proof -
  have n: "n div 1024 < 1024" "n mod 1024 < 1024" using assms(3) by auto
  have "tab t pgdir (n div 1024) = tab s pgdir (n div 1024)" using assms(1) [OF n(1)] by (simp add: tab_def)
  with assms(1,2) n show ?thesis by (simp add: ent_def)
qed

lemma page_of_cong:
  assumes "\<And>i. i < 1024 \<Longrightarrow> pde t pgdir i = pde s pgdir i" "\<And>n. n < N \<Longrightarrow> ent t pgdir n = ent s pgdir n"
  shows "page_of N t pgdir u = page_of N s pgdir u"
  by (cases u) (auto simp: assms tab_def)

lemma table_flags: "take_bit 12 (PTE_P OR PTE_W OR PTE_U :: u32) = PTE_P OR PTE_W OR PTE_U"
  by (simp add: PTE_P_def PTE_W_def PTE_U_def)

lemma walk_alloc:
  assumes sp: "space_ok N s pgdir (x # ys)" and N: "N \<le> 1048576" and n: "n < 1048576"
    and ab: "\<not> present (pde s pgdir (n div 1024))"
  shows "\<exists>t. walkpgdir pgdir (va_of n) True s = Inr (slot x (n mod 1024), t) \<and> space_ok N t pgdir ys \<and>
    (\<forall>m < 1048576. ent t pgdir m = ent s pgdir m) \<and> present (pde t pgdir (n div 1024)) \<and> tab t pgdir (n div 1024) = x \<and>
    (\<forall>i < 1024. i \<noteq> n div 1024 \<longrightarrow> pde t pgdir i = pde s pgdir i) \<and>
    (\<forall>M \<le> 1048576. page_of M t pgdir = (page_of M s pgdir)(Tab (n div 1024) \<mapsto> x)) \<and> evolves {x} {pgdir} s t"
proof -
  let ?d = "n div 1024" and ?e = "V2P x OR PTE_P OR PTE_W OR PTE_U"
  have d: "?d < 1024" using n by auto
  note dir = space_dir [OF sp] and inv = space_okD(1) [OF sp]
  have x: "page_ok x" "km_end s \<le> x" using kmem_inv_free [OF inv, of x] by simp_all
  have xd: "x \<noteq> pgdir" using dir by auto
  obtain a where a: "kalloc (- 2) s = Inr (x, a)" "kmem_inv a ys" "evolves {x} {} s a" using kalloc_kernel [OF inv] by blast
  define t where "t = km_write (slot pgdir ?d) ?e (zero_page x a)"
  have xy: "x \<notin> set ys" using inv by (auto simp: kmem_inv_def pages_ok_def)
  have walk: "walkpgdir pgdir (va_of n) True s = Inr (slot x (n mod 1024), t)"
    using n ab a(1) page_nonzero [OF x(1)] by (simp add: walkpgdir_def pde_def slot_def t_def)
  have ev: "evolves {x} {pgdir} s t"
  proof -
    have "evolves {x} {x} a (zero_page x a)" by (rule evolves_zero [OF x(1)])
    from evolves_trans [OF a(3) this] have "evolves {x} {} s (zero_page x a)" by simp
    then have "evolves {x} {pgdir} s (zero_page x a)" by (rule evolves_mono) auto
    from evolves_trans [OF this evolves_write_slot [of pgdir ?d "{x}"]] show ?thesis using dir d by (simp add: t_def)
  qed
  have mem: "km_mem t (slot p k) = (if p = x then 0 else if p = pgdir \<and> k = ?d then ?e else km_mem s (slot p k))"
    if "page_ok p" "k < 1024" for p k
  proof -
    have "slot p k = slot pgdir ?d \<longleftrightarrow> p = pgdir \<and> k = ?d" using slot_inj [of p pgdir k ?d] that dir d by auto
    moreover have "km_mem (zero_page x a) (slot p k) = (if p = x then 0 else km_mem a (slot p k))"
      by (rule zero_page_slot) (use x that in auto)
    moreover have "p \<noteq> x \<Longrightarrow> km_mem a (slot p k) = km_mem s (slot p k)"
      using a(3) that same_page_slot unfolding evolves_def by blast
    ultimately show ?thesis using xd by (auto simp: t_def km_write_def)
  qed
  have pd: "pde t pgdir i = (if i = ?d then ?e else pde s pgdir i)" if "i < 1024" for i
    using mem [of pgdir i] dir xd that by (simp add: pde_def)
  have tx: "tab t pgdir ?d = x"
    using pd [OF d] frame_or [OF x(1) table_flags] by (simp add: tab_def)
  have pr: "present (pde t pgdir ?d)" using pd [OF d] by (simp add: present_iff PTE_P_def even_or_iff)
  have en: "ent t pgdir m = ent s pgdir m" if m: "m < 1048576" for m
  proof (cases "m div 1024 = ?d")
    case True
    then show ?thesis using pr tx mem [of x "m mod 1024"] x(1) ab by (simp add: ent_def)
  next
    case False
    have md: "m div 1024 < 1024" using m by auto
    have "tab t pgdir (m div 1024) = tab s pgdir (m div 1024)" using pd [OF md] False by (simp add: tab_def)
    moreover have "km_mem t (slot (tab s pgdir (m div 1024)) (m mod 1024)) = km_mem s (slot (tab s pgdir (m div 1024)) (m mod 1024))"
      if "present (pde s pgdir (m div 1024))"
      using space_tab [OF sp md that] mem [of "tab s pgdir (m div 1024)" "m mod 1024"] by auto
    ultimately show ?thesis using pd [OF md] False by (simp add: ent_def)
  qed
  have po: "page_of M t pgdir = (page_of M s pgdir)(Tab ?d \<mapsto> x)" if "M \<le> 1048576" for M
  proof
    fix u
    show "page_of M t pgdir u = ((page_of M s pgdir)(Tab ?d \<mapsto> x)) u"
    proof (cases u)
      case (Tab i)
      then show ?thesis using pd [of i] pr tx d by (cases "i < 1024"; cases "i = ?d") (simp_all add: tab_def)
    next
      case (Usr m)
      then show ?thesis using en [of m] that by (cases "m < M") simp_all
    qed simp
  qed
  have "space_ok N t pgdir ys"
  proof (rule space_ok_add [OF sp, where x = x and U = "Tab ?d"])
    show "kmem_inv t ys" unfolding t_def
      by (rule kmem_inv_write_slot) (use dir d kmem_inv_zero [OF a(2) x(1) xy] in auto)
    show "km_end t = km_end s" using ev by (simp add: evolves_def)
    show "page_of N s pgdir u \<noteq> Some x" for u using space_okD(4) [OF sp, of u x] by auto
    show "page_of N s pgdir u = Some b \<or> u = Tab ?d \<and> b = x" if "page_of N t pgdir u = Some b" for u b
      using that fun_cong [OF po [OF N], of u] by (auto split: if_splits)
  qed (use x xy in auto)
  with walk en pr tx pd po ev show ?thesis by auto
qed

text \<open>A page is not used by the address space, and can be.\<close>

definition fresh :: "nat \<Rightarrow> kmem \<Rightarrow> u32 \<Rightarrow> u32 list \<Rightarrow> u32 \<Rightarrow> bool" where
  "fresh N s pgdir xs a \<longleftrightarrow> page_ok a \<and> km_end s \<le> a \<and> a \<notin> set xs \<and> (\<forall>u. page_of N s pgdir u \<noteq> Some a)"

lemma write_ent:
  assumes sp: "space_ok N s pgdir xs" and N: "N \<le> 1048576" and n: "n < 1048576" and pr: "present (pde s pgdir (n div 1024))"
    and v: "n < N \<Longrightarrow> present v \<Longrightarrow> fresh N s pgdir xs (frame v)"
    and t: "t = km_write (slot (tab s pgdir (n div 1024)) (n mod 1024)) v s"
  shows "space_ok N t pgdir xs" "\<And>m. m < 1048576 \<Longrightarrow> ent t pgdir m = (if m = n then v else ent s pgdir m)"
    "\<And>i. i < 1024 \<Longrightarrow> pde t pgdir i = pde s pgdir i" "evolves X {tab s pgdir (n div 1024)} s t"
    "\<And>M. M \<le> 1048576 \<Longrightarrow> page_of M t pgdir = (page_of M s pgdir)(Usr n := (if n < M \<and> present v then Some (frame v) else None))"
proof -
  let ?d = "n div 1024" and ?k = "n mod 1024"
  have dk: "?d < 1024" "?k < 1024" using n by auto
  note dir = space_dir [OF sp] and tb = space_tab [OF sp dk(1) pr]
  have mem: "km_mem t (slot p k) = (if p = tab s pgdir ?d \<and> k = ?k then v else km_mem s (slot p k))"
    if "page_ok p" "k < 1024" for p k
  proof -
    have "slot p k = slot (tab s pgdir ?d) ?k \<longleftrightarrow> p = tab s pgdir ?d \<and> k = ?k"
      using slot_inj [of p "tab s pgdir ?d" k ?k] that tb dk by auto
    then show ?thesis by (auto simp: t km_write_def)
  qed
  show pd: "pde t pgdir i = pde s pgdir i" if "i < 1024" for i
    using mem [of pgdir i] dir tb that by (auto simp: pde_def)
  show en: "ent t pgdir m = (if m = n then v else ent s pgdir m)" if m: "m < 1048576" for m
  proof -
    have md: "m div 1024 < 1024" using m by auto
    have tt: "tab t pgdir (m div 1024) = tab s pgdir (m div 1024)" using pd [OF md] by (simp add: tab_def)
    show ?thesis
    proof (cases "present (pde s pgdir (m div 1024))")
      case True
      have "tab s pgdir (m div 1024) = tab s pgdir ?d \<longleftrightarrow> m div 1024 = ?d" using space_tab_inj [OF sp md dk(1) True pr] by auto
      moreover have "m div 1024 = ?d \<and> m mod 1024 = ?k \<longleftrightarrow> m = n" by (metis div_mult_mod_eq)
      ultimately show ?thesis using mem [of "tab s pgdir (m div 1024)" "m mod 1024"] space_tab [OF sp md True] pd [OF md] tt True
        by (auto simp: ent_def)
    next
      case False
      then have "m \<noteq> n" using pr by auto
      then show ?thesis using False pd [OF md] by (simp add: ent_def)
    qed
  qed
  show "evolves X {tab s pgdir ?d} s t" unfolding t by (rule evolves_write_slot) (use tb dk in auto)
  show po: "page_of M t pgdir = (page_of M s pgdir)(Usr n := (if n < M \<and> present v then Some (frame v) else None))"
    if "M \<le> 1048576" for M
  proof
    fix u
    show "page_of M t pgdir u = ((page_of M s pgdir)(Usr n := (if n < M \<and> present v then Some (frame v) else None))) u"
    proof (cases u)
      case (Tab i)
      then show ?thesis using pd [of i] by (cases "i < 1024") (simp_all add: tab_def)
    next
      case (Usr m)
      then show ?thesis using en [of m] that by (cases "m < M") auto
    qed simp
  qed
  have ke: "km_end t = km_end s" by (simp add: t km_write_def)
  have inv: "kmem_inv t xs" unfolding t by (rule kmem_inv_write_slot) (use space_okD(1) [OF sp] tb dk in auto)
  show "space_ok N t pgdir xs"
  proof (cases "n < N \<and> present v")
    case True
    then have f: "fresh N s pgdir xs (frame v)" using v by blast
    show ?thesis
    proof (rule space_ok_add [OF sp inv ke, where x = "frame v" and U = "Usr n"])
      show "page_of N s pgdir u = Some a \<or> u = Usr n \<and> a = frame v" if "page_of N t pgdir u = Some a" for u a
        using that fun_cong [OF po [OF N], of u] True by (auto split: if_splits)
    qed (use f in \<open>auto simp: fresh_def\<close>)
  next
    case False
    have "page_of N s pgdir u = Some a" if "page_of N t pgdir u = Some a" for u a
      using that fun_cong [OF po [OF N], of u] False by (auto split: if_splits)
    with space_ok_sub [OF sp inv ke] space_okD(4) [OF sp] show ?thesis by blast
  qed
qed

section \<open>Mapping\<close>

definition used :: "nat \<Rightarrow> kmem \<Rightarrow> u32 \<Rightarrow> u32 set" where
  "used N s pgdir = {a. \<exists>u. page_of N s pgdir u = Some a}"

lemma page_of_0: "(page_of 0 s pgdir)(Usr n := None) = page_of 0 s pgdir"
  by (rule ext) simp

lemma used_upd: "page_of N s pgdir u = None \<Longrightarrow> page_of N t pgdir = (page_of N s pgdir)(u \<mapsto> x) \<Longrightarrow> used N t pgdir = insert x (used N s pgdir)"
  unfolding used_def by (auto split: if_splits) (metis fun_upd_other option.distinct(1))

lemma used_tab: "i < 1024 \<Longrightarrow> present (pde s pgdir i) \<Longrightarrow> tab s pgdir i \<in> used N s pgdir"
  unfolding used_def by (auto intro!: exI [of _ "Tab i"])

lemma used_dir: "pgdir \<in> used N s pgdir"
  unfolding used_def using page_of.simps(1) by blast

lemma ent_slot: "present (pde s pgdir (n div 1024)) \<Longrightarrow> km_mem s (slot (tab s pgdir (n div 1024)) (n mod 1024)) = ent s pgdir n"
  by (simp add: ent_def)

text \<open>What is known after entering \<open>v\<close> for page \<open>n\<close>; \<open>zs\<close> are the pages taken for tables.\<close>

definition entered :: "nat \<Rightarrow> u32 \<Rightarrow> nat \<Rightarrow> u32 \<Rightarrow> u32 list \<Rightarrow> kmem \<Rightarrow> kmem \<Rightarrow> bool" where
  "entered N pgdir n v zs s t \<longleftrightarrow> (\<forall>m < 1048576. ent t pgdir m = (if m = n then v else ent s pgdir m)) \<and>
     present (pde t pgdir (n div 1024)) \<and> (\<forall>i < 1024. i \<noteq> n div 1024 \<longrightarrow> pde t pgdir i = pde s pgdir i) \<and>
     (present (pde s pgdir (n div 1024)) \<longrightarrow> zs = [] \<and> pde t pgdir (n div 1024) = pde s pgdir (n div 1024)) \<and>
     length zs \<le> 1 \<and> used 0 t pgdir = used 0 s pgdir \<union> set zs \<and> evolves (set zs) (used 0 s pgdir) s t"

lemma map_step:
  assumes sp: "space_ok N s pgdir xs" and N: "N \<le> 1048576" and n: "n < 1048576" and free: "\<not> present (ent s pgdir n)"
    and room: "present (pde s pgdir (n div 1024)) \<or> xs \<noteq> []" and v: "n < N \<Longrightarrow> fresh N s pgdir xs (frame v)"
  shows "\<exists>pte a zs ys. walkpgdir pgdir (va_of n) True s = Inr (pte, a) \<and> pte \<noteq> 0 \<and> \<not> present (km_mem a pte) \<and>
    xs = zs @ ys \<and> space_ok N (km_write pte v a) pgdir ys \<and> entered N pgdir n v zs s (km_write pte v a)"
proof (cases "present (pde s pgdir (n div 1024))")
  case True
  let ?pte = "slot (tab s pgdir (n div 1024)) (n mod 1024)" and ?d = "n div 1024"
  have d: "?d < 1024" using n by auto
  note tb = space_tab [OF sp d True]
  note w = write_ent [OF sp N n True v refl]
  have "used 0 (km_write ?pte v s) pgdir = used 0 s pgdir"
    using w(5) [of 0] by (simp add: used_def page_of_0)
  moreover have "evolves {} (used 0 s pgdir) s (km_write ?pte v s)"
    by (rule evolves_mono [OF w(4) [where X = "{}"]]) (use used_tab [OF d True, of 0] in auto)
  ultimately have "entered N pgdir n v [] s (km_write ?pte v s)"
    unfolding entered_def using w(2,3) True d by auto
  moreover have "?pte \<noteq> 0" by (rule page_ne_0) (use tb in auto)
  ultimately show ?thesis using walk_present [OF n True, of True] free ent_slot [OF True] w(1) by (metis append_Nil)
next
  case False
  let ?d = "n div 1024"
  have d: "?d < 1024" using n by auto
  obtain x ys where xs: "xs = x # ys" using room False by (cases xs) auto
  from walk_alloc [OF sp [unfolded xs] N n False] obtain a where a: "walkpgdir pgdir (va_of n) True s = Inr (slot x (n mod 1024), a)"
    "space_ok N a pgdir ys" "\<forall>m < 1048576. ent a pgdir m = ent s pgdir m" "present (pde a pgdir ?d)" "tab a pgdir ?d = x"
    "\<forall>i < 1024. i \<noteq> ?d \<longrightarrow> pde a pgdir i = pde s pgdir i"
    and po: "\<forall>M \<le> 1048576. page_of M a pgdir = (page_of M s pgdir)(Tab ?d \<mapsto> x)" and ev: "evolves {x} {pgdir} s a" by blast
  have x: "page_ok x" using kmem_inv_free [OF space_okD(1) [OF sp], of x] xs by simp
  have fr: "fresh N a pgdir ys (frame v)" if "n < N"
  proof -
    have f: "fresh N s pgdir xs (frame v)" using v that by blast
    then have "page_of N a pgdir u \<noteq> Some (frame v)" for u using po N xs by (auto simp: fresh_def)
    then show ?thesis using f ev xs by (auto simp: fresh_def evolves_def)
  qed
  let ?t = "km_write (slot x (n mod 1024)) v a"
  have t: "?t = km_write (slot (tab a pgdir ?d) (n mod 1024)) v a" by (simp add: a(5))
  note w = write_ent [OF a(2) N n a(4) fr t]
  have "used 0 ?t pgdir = used 0 a pgdir" using w(5) [of 0] by (simp add: used_def page_of_0)
  also have "\<dots> = insert x (used 0 s pgdir)" by (rule used_upd [of _ _ _ "Tab ?d"]) (use po False in auto)
  finally have us: "used 0 ?t pgdir = used 0 s pgdir \<union> set [x]" by simp
  have "evolves {x} {pgdir} s ?t" by (rule evolves_trans [OF ev w(4) [where X = "{x}"]]) (auto simp: a(5))
  then have "evolves {x} (used 0 s pgdir) s ?t" by (rule evolves_mono) (use used_dir in auto)
  with us have "entered N pgdir n v [x] s ?t" unfolding entered_def using w(2,3) a(3,4,6) d False by auto
  moreover have "slot x (n mod 1024) \<noteq> 0" by (rule page_ne_0) (use x in auto)
  moreover have "\<not> present (km_mem a (slot x (n mod 1024)))" using ent_slot [OF a(4)] a(3,5) n free by simp
  ultimately show ?thesis using a(1) w(1) xs by (metis append_Cons append_Nil)
qed

text \<open>The number of page tables that a range of pages still needs.\<close>

definition missing :: "kmem \<Rightarrow> u32 \<Rightarrow> nat \<Rightarrow> nat \<Rightarrow> nat" where
  "missing s pgdir n l = card {i. n div 1024 \<le> i \<and> i \<le> l div 1024 \<and> \<not> present (pde s pgdir i)}"

lemma missing_step:
  assumes "entered N pgdir n v zs s t" "l < 1048576" "n \<le> l"
  shows "missing t pgdir (Suc n) l + length zs \<le> missing s pgdir n l"
proof -
  let ?A = "{i. n div 1024 \<le> i \<and> i \<le> l div 1024 \<and> \<not> present (pde s pgdir i)}"
  let ?B = "{i. Suc n div 1024 \<le> i \<and> i \<le> l div 1024 \<and> \<not> present (pde t pgdir i)}"
  have fin: "finite ?A" by (rule finite_subset [of _ "{..l div 1024}"]) auto
  have l: "l div 1024 < 1024" using assms(2) by auto
  have sub: "?B \<subseteq> ?A - {n div 1024}"
  proof
    fix i assume i: "i \<in> ?B"
    then have "i < 1024" "i \<noteq> n div 1024" using l assms(1) by (auto simp: entered_def)
    moreover have "n div 1024 \<le> Suc n div 1024" by (rule div_le_mono) simp
    ultimately show "i \<in> ?A - {n div 1024}" using i assms(1) by (auto simp: entered_def)
  qed
  then have le: "card ?B \<le> card (?A - {n div 1024})" using fin by (intro card_mono) auto
  show ?thesis
  proof (cases "present (pde s pgdir (n div 1024))")
    case True
    then have "zs = []" using assms(1) by (simp add: entered_def)
    moreover have "card (?A - {n div 1024}) \<le> card ?A" using fin by (intro card_mono) auto
    ultimately show ?thesis using le by (simp add: missing_def)
  next
    case False
    then have "n div 1024 \<in> ?A" using assms(3) by (simp add: div_le_mono)
    then have "Suc (card (?A - {n div 1024})) = card ?A" by (rule card_Suc_Diff1 [OF fin])
    moreover have "length zs \<le> 1" using assms(1) by (simp add: entered_def)
    ultimately show ?thesis using le unfolding missing_def by linarith
  qed
qed

text \<open>What is known after mapping the pages from \<open>n\<close> to \<open>l\<close> to the physical addresses from \<open>pa\<close>.\<close>

definition mapped :: "u32 \<Rightarrow> nat \<Rightarrow> nat \<Rightarrow> u32 \<Rightarrow> u32 \<Rightarrow> u32 list \<Rightarrow> kmem \<Rightarrow> kmem \<Rightarrow> bool" where
  "mapped pgdir n l pa perm zs s t \<longleftrightarrow>
     (\<forall>m < 1048576. ent t pgdir m =
        (if n \<le> m \<and> m \<le> l then (pa + 4096 * of_nat (m - n)) OR perm OR PTE_P else ent s pgdir m)) \<and>
     (\<forall>i < 1024. present (pde s pgdir i) \<longrightarrow> pde t pgdir i = pde s pgdir i) \<and>
     used 0 t pgdir = used 0 s pgdir \<union> set zs \<and> evolves (set zs) (used 0 s pgdir) s t"

lemma va_of_next [simp]: "va_of n + PGSIZE = va_of (Suc n)"
  by (simp add: va_of_def PGSIZE_def)

lemma va_of_inj [simp]: "n < 1048576 \<Longrightarrow> l < 1048576 \<Longrightarrow> va_of n = va_of l \<longleftrightarrow> n = l"
  by (auto dest: arg_cong [where f = unat])

lemma mapped_one: "entered N pgdir n (pa OR perm OR PTE_P) zs s t \<Longrightarrow> mapped pgdir n n pa perm zs s t"
  unfolding entered_def mapped_def by (auto dest: le_antisym)

lemma mapped_step:
  assumes e: "entered N pgdir n (pa OR perm OR PTE_P) zs s a" and m: "mapped pgdir (Suc n) l (pa + PGSIZE) perm ws a t" and nl: "n < l"
  shows "mapped pgdir n l pa perm (zs @ ws) s t"
proof -
  have "ent t pgdir m = (if n \<le> m \<and> m \<le> l then (pa + 4096 * of_nat (m - n)) OR perm OR PTE_P else ent s pgdir m)"
    if "m < 1048576" for m
  proof (cases "n < m \<and> m \<le> l")
    case True
    then obtain k where k: "m = Suc (n + k)" by (metis less_iff_Suc_add)
    have pa: "pa + PGSIZE + 4096 * of_nat (m - Suc n) = pa + 4096 * of_nat (m - n)"
      unfolding k PGSIZE_def by (simp add: algebra_simps)
    have "ent t pgdir m = (pa + PGSIZE + 4096 * of_nat (m - Suc n)) OR perm OR PTE_P"
      using m that True by (simp add: mapped_def)
    then show ?thesis unfolding pa using True by simp
  next
    case False
    then show ?thesis using m e that nl by (cases "m = n") (auto simp: mapped_def entered_def)
  qed
  moreover have "pde t pgdir i = pde s pgdir i" if "i < 1024" "present (pde s pgdir i)" for i
    using e m that by (cases "i = n div 1024") (auto simp: mapped_def entered_def)
  moreover have "evolves (set (zs @ ws)) (used 0 s pgdir) s t"
  proof -
    have "evolves (set (zs @ ws)) (used 0 s pgdir) s a" by (rule evolves_mono [of "set zs" "used 0 s pgdir"]) (use e in \<open>auto simp: entered_def\<close>)
    moreover have "evolves (set ws) (used 0 a pgdir) a t" using m by (simp add: mapped_def)
    ultimately show ?thesis by (rule evolves_trans) (use e in \<open>auto simp: entered_def\<close>)
  qed
  ultimately show ?thesis using e m by (auto simp: mapped_def entered_def)
qed

lemma missing_room: "n \<le> l \<Longrightarrow> missing s pgdir n l \<le> length xs \<Longrightarrow> present (pde s pgdir (n div 1024)) \<or> xs \<noteq> []"
proof (rule disjCI)
  assume a: "n \<le> l" "missing s pgdir n l \<le> length xs" "\<not> xs \<noteq> []"
  have "finite {i. n div 1024 \<le> i \<and> i \<le> l div 1024 \<and> \<not> present (pde s pgdir i)}"
    by (rule finite_subset [of _ "{..l div 1024}"]) auto
  with a show "present (pde s pgdir (n div 1024))" by (auto simp: missing_def div_le_mono)
qed

lemma map_loop_ok:
  assumes "space_ok N s pgdir xs" "N \<le> 1048576" "n \<le> l" "l < 1048576"
    "\<And>m. n \<le> m \<Longrightarrow> m \<le> l \<Longrightarrow> \<not> present (ent s pgdir m)" "missing s pgdir n l \<le> length xs"
    "n < N \<Longrightarrow> l = n \<and> fresh N s pgdir xs (frame (pa OR perm OR PTE_P))"
  shows "\<exists>t zs ys. map_loop pgdir (va_of n) (va_of l) pa perm s = Some (Inr (0, t)) \<and> xs = zs @ ys \<and>
    space_ok N t pgdir ys \<and> mapped pgdir n l pa perm zs s t \<and> length zs \<le> missing s pgdir n l"
  using assms
proof (induction "l - n" arbitrary: n s xs pa)
  case (0 n s xs pa)
  then have nl: "l = n" by simp
  have n: "n < 1048576" using 0 nl by simp
  note room = missing_room [OF "0.prems"(3,6)]
  obtain pte a zs ys where s: "walkpgdir pgdir (va_of n) True s = Inr (pte, a)" "pte \<noteq> 0" "\<not> present (km_mem a pte)"
    "xs = zs @ ys" "space_ok N (km_write pte (pa OR perm OR PTE_P) a) pgdir ys"
    "entered N pgdir n (pa OR perm OR PTE_P) zs s (km_write pte (pa OR perm OR PTE_P) a)"
    using map_step [OF "0.prems"(1,2) n _ room, of "pa OR perm OR PTE_P"] "0.prems"(5,7) nl by auto
  have "length zs \<le> missing s pgdir n l" using missing_step [OF s(6) "0.prems"(4,3)] by simp
  moreover have "map_loop pgdir (va_of n) (va_of l) pa perm s = Some (Inr (0, km_write pte (pa OR perm OR PTE_P) a))"
    using s(1-3) by (subst map_loop.simps) (simp add: nl)
  ultimately show ?case using mapped_one [OF s(6)] s(4,5) unfolding nl by blast
next
  case (Suc k n s xs pa)
  then have nl: "n < l" and n: "n < 1048576" and N: "N \<le> n" by linarith+
  note room = missing_room [OF Suc.prems(3,6)]
  let ?v = "pa OR perm OR PTE_P"
  have "\<not> present (ent s pgdir n)" using Suc.prems(5) nl by simp
  then obtain pte a zs ys where s: "walkpgdir pgdir (va_of n) True s = Inr (pte, a)" "pte \<noteq> 0" "\<not> present (km_mem a pte)"
    "xs = zs @ ys" "space_ok N (km_write pte ?v a) pgdir ys" "entered N pgdir n ?v zs s (km_write pte ?v a)"
    using map_step [OF Suc.prems(1,2) n _ room, of ?v] N by auto
  let ?t = "km_write pte ?v a"
  have fr: "\<not> present (ent ?t pgdir m)" if "Suc n \<le> m" "m \<le> l" for m
    using s(6) that Suc.prems(4,5) by (auto simp: entered_def)
  have ms: "missing ?t pgdir (Suc n) l \<le> length ys"
    using missing_step [OF s(6) Suc.prems(4,3)] Suc.prems(6) s(4) by simp
  have "k = l - Suc n" "Suc n \<le> l" using Suc.hyps(2) nl by auto
  from Suc.hyps(1) [OF this(1) s(5) Suc.prems(2) this(2) Suc.prems(4) fr ms, of "pa + PGSIZE"] N
  obtain t ws zs' where t: "map_loop pgdir (va_of (Suc n)) (va_of l) (pa + PGSIZE) perm ?t = Some (Inr (0, t))"
    "ys = ws @ zs'" "space_ok N t pgdir zs'" "mapped pgdir (Suc n) l (pa + PGSIZE) perm ws ?t t"
    and lw: "length ws \<le> missing ?t pgdir (Suc n) l" by auto
  have "map_loop pgdir (va_of n) (va_of l) pa perm s = Some (Inr (0, t))"
    using s(1-3) t(1) nl n Suc.prems(4) by (subst map_loop.simps) simp
  moreover have "xs = (zs @ ws) @ zs'" using s(4) t(2) by simp
  moreover have "length (zs @ ws) \<le> missing s pgdir n l" using missing_step [OF s(6) Suc.prems(4,3)] lw by simp
  ultimately show ?case using mapped_step [OF s(6) t(4) nl] t(3) by blast
qed

lemma vpn_less: "unat (va :: u32) div 4096 < 1048576"
proof -
  have "unat va < 1048576 * 4096" using unsigned_less [of va, where ?'a = nat] by simp
  then show ?thesis by (rule less_mult_imp_div_less)
qed

lemma PGROUNDDOWN_va: "PGROUNDDOWN va = va_of (unat va div 4096)"
proof -
  have "unat va div 4096 < 1048576" by (rule vpn_less)
  then have "unat (PGROUNDDOWN va) = unat (va_of (unat va div 4096))"
    using unat_and_not_mask [of va 12] by (simp add: PGROUNDDOWN_def mask_numeral)
  then show ?thesis by (simp only: word_unat_eq_iff)
qed

lemma mappages_ok:
  assumes "space_ok N s pgdir xs" "N \<le> 1048576" "n = unat va div 4096" "l = unat (va + sz - 1) div 4096" "n \<le> l"
    "\<And>m. n \<le> m \<Longrightarrow> m \<le> l \<Longrightarrow> \<not> present (ent s pgdir m)" "missing s pgdir n l \<le> length xs"
    "n < N \<Longrightarrow> l = n \<and> fresh N s pgdir xs (frame (pa OR perm OR PTE_P))"
  shows "\<exists>t zs ys. mappages pgdir va sz pa perm s = Inr (0, t) \<and> xs = zs @ ys \<and>
    space_ok N t pgdir ys \<and> mapped pgdir n l pa perm zs s t \<and> length zs \<le> missing s pgdir n l"
proof -
  have l: "l < 1048576" unfolding assms(4) by (rule vpn_less)
  obtain t zs ys where t: "map_loop pgdir (va_of n) (va_of l) pa perm s = Some (Inr (0, t))" "xs = zs @ ys"
    "space_ok N t pgdir ys" "mapped pgdir n l pa perm zs s t" "length zs \<le> missing s pgdir n l"
    using map_loop_ok [OF assms(1,2,5) l assms(6,7,8)] by blast
  have "mappages pgdir va sz pa perm s = Inr (0, t)"
    using t(1) by (simp add: mappages_def PGROUNDDOWN_va assms(3,4) ends_def)
  with t(2-5) show ?thesis by blast
qed

section \<open>Releasing pages\<close>

lemma page_of_less: "page_of M s pgdir u = Some a \<Longrightarrow> M \<le> N \<Longrightarrow> page_of N s pgdir u = Some a"
  by (cases u) (auto split: if_splits)

lemma space_ok_less: "space_ok N s pgdir xs \<Longrightarrow> M \<le> N \<Longrightarrow> space_ok M s pgdir xs"
  unfolding space_ok_def using page_of_less [of M s pgdir _ _ N] by blast

text \<open>Operations that leave the directory and the tables alone do not change the address space.\<close>

lemma evolves_space:
  assumes sp: "space_ok 0 s pgdir xs" and ev: "evolves X P s t" and X: "used 0 s pgdir \<inter> X = {}" and P: "used 0 s pgdir \<inter> P = {}"
  shows "\<And>i. i < 1024 \<Longrightarrow> pde t pgdir i = pde s pgdir i" "\<And>n. n < 1048576 \<Longrightarrow> ent t pgdir n = ent s pgdir n"
    "\<And>M. M \<le> 1048576 \<Longrightarrow> page_of M t pgdir = page_of M s pgdir"
proof -
  have keep: "km_mem t (slot p k) = km_mem s (slot p k)" if "p \<in> used 0 s pgdir" "k < 1024" for p k
  proof -
    have "page_ok p" using that(1) space_okD(2) [OF sp] by (auto simp: used_def)
    moreover have "p \<notin> X" "p \<notin> P" using that(1) X P by auto
    ultimately show ?thesis using ev that(2) same_page_slot unfolding evolves_def by blast
  qed
  show pd: "pde t pgdir i = pde s pgdir i" if "i < 1024" for i using keep [OF used_dir that] by (simp add: pde_def)
  show en: "ent t pgdir n = ent s pgdir n" if "n < 1048576" for n
    by (rule ent_cong [OF pd keep [OF used_tab]]) (use that in auto)
  show "page_of M t pgdir = page_of M s pgdir" if "M \<le> 1048576" for M
    by (rule ext, rule page_of_cong) (use pd en that in auto)
qed

lemma free_user:
  assumes sp: "space_ok N s pgdir xs" and N: "N \<le> 1048576" and n: "n < N" and pr: "present (pde s pgdir (n div 1024))"
    and e: "present (ent s pgdir n)" and f: "f = frame (ent s pgdir n)"
  shows "\<exists>a. kfree f s = Inr a \<and>
    (let t = km_write (slot (tab s pgdir (n div 1024)) (n mod 1024)) 0 a in
      space_ok N t pgdir (insert_desc f xs) \<and> (\<forall>m < 1048576. ent t pgdir m = (if m = n then 0 else ent s pgdir m)) \<and>
      (\<forall>i < 1024. pde t pgdir i = pde s pgdir i) \<and> evolves (insert f (set xs)) (used 0 s pgdir) s t)"
proof -
  have n': "n < 1048576" and d: "n div 1024 < 1024" using n N by auto
  have pf: "page_of N s pgdir (Usr n) = Some f" using n e f by simp
  note ff = space_okD(2-4) [OF sp pf]
  obtain a where a: "kfree f s = Inr a" "kmem_inv a (insert_desc f xs)" "evolves (insert f (set xs)) {} s a"
    using evolves_kfree [OF space_okD(1) [OF sp] ff] by blast
  have sp0: "space_ok 0 s pgdir xs" using space_ok_less [OF sp] by simp
  have nu: "f \<notin> used 0 s pgdir"
  proof
    assume "f \<in> used 0 s pgdir"
    then obtain u where u: "page_of 0 s pgdir u = Some f" by (auto simp: used_def)
    then have "u = Usr n" using space_okD(5) [OF sp page_of_less [OF u] pf] by simp
    with u show False by simp
  qed
  have "used 0 s pgdir \<inter> insert f (set xs) = {}" using nu space_okD(4) [OF sp0] by (auto simp: used_def)
  note same = evolves_space [OF sp0 a(3) this]
  have ta: "tab a pgdir (n div 1024) = tab s pgdir (n div 1024)" using same(1) [OF _ d] by (simp add: tab_def)
  have ke: "km_end a = km_end s" using a(3) by (simp add: evolves_def)
  have po0: "page_of 0 s pgdir u = Some b \<and> b \<notin> set (insert_desc f xs)" if "page_of 0 a pgdir u = Some b" for u b
  proof -
    have "page_of 0 s pgdir u = Some b" using that same(3) [of 0] by simp
    then show ?thesis using space_okD(4) [OF sp0] nu by (auto simp: used_def)
  qed
  have spa: "space_ok 0 a pgdir (insert_desc f xs)" by (rule space_ok_sub [OF sp0 a(2) ke po0])
  let ?t = "km_write (slot (tab s pgdir (n div 1024)) (n mod 1024)) 0 a"
  have t: "?t = km_write (slot (tab a pgdir (n div 1024)) (n mod 1024)) 0 a" by (simp add: ta)
  have pra: "present (pde a pgdir (n div 1024))" using same(1) [OF _ d] pr by simp
  note w = write_ent [OF spa _ n' pra _ t]
  have inv: "kmem_inv ?t (insert_desc f xs)" using w(1) space_okD(1) by simp
  have "space_ok N ?t pgdir (insert_desc f xs)"
  proof (rule space_ok_sub [OF sp inv])
    show "km_end ?t = km_end s" using ke by (simp add: km_write_def)
    fix u b
    assume "page_of N ?t pgdir u = Some b"
    then have u: "u \<noteq> Usr n" "page_of N s pgdir u = Some b"
      using w(5) [of N] N same(3) [of N] by (auto split: if_splits)
    then have "b \<noteq> f" using space_okD(5) [OF sp u(2), of "Usr n"] pf by auto
    with u(2) show "page_of N s pgdir u = Some b \<and> b \<notin> set (insert_desc f xs)" using space_okD(4) [OF sp] by auto
  qed
  moreover have "evolves (insert f (set xs)) (used 0 s pgdir) s ?t"
  proof -
    have "evolves (insert f (set xs)) (used 0 s pgdir) s a" by (rule evolves_mono [OF a(3)]) auto
    from evolves_trans [OF this w(4) [where X = "{}"]] show ?thesis using used_tab [OF d pr, of 0] ta by simp
  qed
  ultimately show ?thesis using a(1) w(2,3) same by auto
qed

end
