(* ===== verification/VmSpace.thy ===== *)
theory VmSpace
  imports VmProps
begin

text \<open>
  Whole address spaces: shrinking and freeing them (\<open>deallocuvm\<close>, \<open>freevm\<close>), building the kernel part
  (\<open>setupkvm\<close>), growing them (\<open>allocuvm\<close>) and copying them (\<open>copyuvm\<close>).
\<close>

unbundle bit_operations_syntax

abbreviation UPAGES :: nat where "UPAGES \<equiv> 524288"

section \<open>Shrinking\<close>

text \<open>The frames of the user pages from \<open>n\<close> up to \<open>l\<close>.\<close>

definition frames :: "kmem \<Rightarrow> u32 \<Rightarrow> nat \<Rightarrow> nat \<Rightarrow> u32 set" where
  "frames s pgdir n l = (\<lambda>m. frame (ent s pgdir m)) ` {m. n \<le> m \<and> m < l \<and> present (ent s pgdir m)}"

text \<open>What is known after the pages from \<open>n\<close> up to \<open>l\<close> were released.\<close>

definition released :: "u32 \<Rightarrow> nat \<Rightarrow> nat \<Rightarrow> u32 list \<Rightarrow> u32 list \<Rightarrow> kmem \<Rightarrow> kmem \<Rightarrow> bool" where
  "released pgdir n l xs ys s t \<longleftrightarrow>
     (\<forall>m < 1048576. ent t pgdir m = (if n \<le> m \<and> m < l \<and> present (ent s pgdir m) then 0 else ent s pgdir m)) \<and>
     (\<forall>i < 1024. pde t pgdir i = pde s pgdir i) \<and> set ys = set xs \<union> frames s pgdir n l \<and>
     evolves (set ys) (used 0 s pgdir) s t"

lemma frames_cong: "(\<And>m. n \<le> m \<Longrightarrow> m < l \<Longrightarrow> ent t pgdir m = ent s pgdir m) \<Longrightarrow> frames t pgdir n l = frames s pgdir n l"
  unfolding frames_def by (rule image_cong) auto

lemma released_skip:
  assumes "\<And>m. n \<le> m \<Longrightarrow> m < k \<Longrightarrow> \<not> present (ent s pgdir m)" "n \<le> k" "released pgdir k l xs ys s t"
  shows "released pgdir n l xs ys s t"
proof -
  have eq: "n \<le> m \<and> m < l \<and> present (ent s pgdir m) \<longleftrightarrow> k \<le> m \<and> m < l \<and> present (ent s pgdir m)" for m
    using assms(1) [of m] assms(2) by (cases "k \<le> m") auto
  then have "frames s pgdir n l = frames s pgdir k l" by (simp add: frames_def)
  with assms(3) show ?thesis unfolding released_def eq by metis
qed

lemma released_none: "l \<le> n \<Longrightarrow> released pgdir n l xs xs s s"
  by (auto simp: released_def frames_def)

lemma used_0_cong: "(\<And>i. i < 1024 \<Longrightarrow> pde t pgdir i = pde s pgdir i) \<Longrightarrow> used 0 t pgdir = used 0 s pgdir"
  using page_of_cong [of t pgdir s 0] by (simp add: used_def)

lemma released_step:
  assumes "n < l" "l \<le> 1048576" "present (ent s pgdir n)" "f = frame (ent s pgdir n)"
    and a: "\<forall>m < 1048576. ent a pgdir m = (if m = n then 0 else ent s pgdir m)" "\<forall>i < 1024. pde a pgdir i = pde s pgdir i"
      "evolves (insert f (set xs)) (used 0 s pgdir) s a"
    and t: "released pgdir (Suc n) l (insert_desc f xs) ys a t"
  shows "released pgdir n l xs ys s t"
proof -
  have fr: "frames a pgdir (Suc n) l = frames s pgdir (Suc n) l"
    by (rule frames_cong) (use a(1) assms(2) in simp)
  have "frames s pgdir n l = insert f (frames s pgdir (Suc n) l)"
  proof
    show "frames s pgdir n l \<subseteq> insert f (frames s pgdir (Suc n) l)"
      unfolding frames_def assms(4) by (auto simp: Suc_le_eq le_less)
    show "insert f (frames s pgdir (Suc n) l) \<subseteq> frames s pgdir n l"
      unfolding frames_def assms(4) using assms(1,3) by (auto dest: Suc_leD)
  qed
  then have ys: "set ys = set xs \<union> frames s pgdir n l" using t fr by (auto simp: released_def)
  have "evolves (set ys) (used 0 s pgdir) s t"
  proof -
    have "evolves (set ys) (used 0 s pgdir) s a" by (rule evolves_mono [OF a(3)]) (use t in \<open>auto simp: released_def\<close>)
    moreover have "evolves (set ys) (used 0 s pgdir) a t" using t used_0_cong [of a pgdir s] a(2) unfolding released_def by metis
    ultimately show ?thesis by (rule evolves_trans) auto
  qed
  moreover have "ent t pgdir m = (if n \<le> m \<and> m < l \<and> present (ent s pgdir m) then 0 else ent s pgdir m)" if "m < 1048576" for m
    using t a(1) that assms(1,3) by (cases "m = n") (auto simp: released_def)
  moreover have "\<forall>i < 1024. pde t pgdir i = pde s pgdir i" using t a(2) by (simp add: released_def)
  ultimately show ?thesis using ys by (simp add: released_def)
qed

definition npages :: "u32 \<Rightarrow> nat" where
  "npages sz = (unat sz + 4095) div 4096"

lemma npages_less: "n < 1048576 \<Longrightarrow> va_of n < sz \<longleftrightarrow> n < npages sz"
  unfolding npages_def by (auto simp: word_less_nat_alt)

lemma npages_user: "sz \<le> KERNBASE \<Longrightarrow> npages sz \<le> UPAGES"
  unfolding npages_def by (auto simp: KERNBASE_def word_le_nat_alt)

lemma PGADDR_next: "d < 1023 \<Longrightarrow> PGADDR (of_nat d + 1) 0 0 = va_of (1024 * Suc d)"
  unfolding PGADDR_def va_of_def by (simp add: push_bit_eq_mult algebra_simps)

lemma frame_zero: "PTE_ADDR e = 0 \<Longrightarrow> frame e = KERNBASE"
  by (simp add: frame_def P2V_def)

lemma dealloc_loop_ok:
  assumes "space_ok UPAGES s pgdir xs" "KERNBASE < km_end s" "oldsz \<le> KERNBASE" "n \<le> UPAGES"
  shows "\<exists>t ys. dealloc_loop pgdir (va_of n) oldsz s = Some (Inr t) \<and> space_ok UPAGES t pgdir ys \<and>
    released pgdir n (npages oldsz) xs ys s t"
  using assms
proof (induction "UPAGES - n" arbitrary: n s xs rule: less_induct)
  case (less n s xs)
  let ?L = "npages oldsz" and ?d = "n div 1024"
  have n: "n < 1048576" and d: "?d < 1024" using less.prems(4) by auto
  have L: "?L \<le> UPAGES" using npages_user less.prems(3) by blast
  show ?case
  proof (cases "n < ?L")
    case False
    then show ?thesis using n npages_less less.prems(1) released_none [of ?L n] by (subst dealloc_loop.simps) auto
  next
    case True
    then have lt: "va_of n < oldsz" and nu: "n < UPAGES" using n npages_less L by auto
    show ?thesis
    proof (cases "present (pde s pgdir ?d)")
      case False
      let ?k = "1024 * Suc ?d"
      have k: "n < ?k" "?k \<le> UPAGES" "?d < 1023" using nu by auto
      have "PDX (va_of n) = of_nat ?d" using n by simp
      then have "PGADDR (PDX (va_of n) + 1) 0 0 - PGSIZE + PGSIZE = va_of ?k" using PGADDR_next [OF k(3)] by simp
      then have run: "dealloc_loop pgdir (va_of n) oldsz s = dealloc_loop pgdir (va_of ?k) oldsz s"
        using lt walk_absent [OF n False] by (subst dealloc_loop.simps) simp
      have none: "\<not> present (ent s pgdir m)" if "n \<le> m" "m < ?k" for m
      proof -
        have "m div 1024 = ?d" using that by auto
        then show ?thesis using False by (simp add: ent_def)
      qed
      have "UPAGES - ?k < UPAGES - n" using k nu by linarith
      from less.hyps [OF this less.prems(1,2,3) k(2)] show ?thesis
        unfolding run using released_skip [OF none] k(1) by (meson less_imp_le_nat)
    next
      case pr: True
      let ?pte = "slot (tab s pgdir ?d) (n mod 1024)"
      have ne: "?pte \<noteq> 0" by (rule page_ne_0) (use space_tab [OF less.prems(1) d pr] in auto)
      note wk = walk_present [OF n pr, of False]
      have dec: "UPAGES - Suc n < UPAGES - n" using nu by linarith
      show ?thesis
      proof (cases "present (ent s pgdir n)")
        case False
        then have run: "dealloc_loop pgdir (va_of n) oldsz s = dealloc_loop pgdir (va_of (Suc n)) oldsz s"
          using lt wk ne ent_slot [OF pr] by (subst dealloc_loop.simps) simp
        have "\<not> present (ent s pgdir m)" if "n \<le> m" "m < Suc n" for m using that False by (simp add: le_less_Suc_eq)
        from released_skip [OF this] less.hyps [OF dec less.prems(1,2,3)] nu show ?thesis
          unfolding run by (metis Suc_leI le_SucI order_refl)
      next
        case e: True
        define f where "f = frame (ent s pgdir n)"
        from free_user [OF less.prems(1) _ nu pr e f_def] obtain a where a: "kfree f s = Inr a"
          and t: "space_ok UPAGES (km_write ?pte 0 a) pgdir (insert_desc f xs)"
            "\<forall>m < 1048576. ent (km_write ?pte 0 a) pgdir m = (if m = n then 0 else ent s pgdir m)"
            "\<forall>i < 1024. pde (km_write ?pte 0 a) pgdir i = pde s pgdir i"
            "evolves (insert f (set xs)) (used 0 s pgdir) s (km_write ?pte 0 a)" by auto
        have "km_end s \<le> f" using space_okD(3) [OF less.prems(1), of "Usr n" f] nu e f_def by simp
        then have "PTE_ADDR (ent s pgdir n) \<noteq> 0" using frame_zero less.prems(2) f_def by fastforce
        then have run: "dealloc_loop pgdir (va_of n) oldsz s = dealloc_loop pgdir (va_of (Suc n)) oldsz (km_write ?pte 0 a)"
          using lt wk ne ent_slot [OF pr] e a unfolding f_def frame_def by (subst dealloc_loop.simps) simp
        have ke: "KERNBASE < km_end (km_write ?pte 0 a)" using t(4) less.prems(2) by (simp add: evolves_def)
        have "Suc n \<le> UPAGES" using nu by simp
        from less.hyps [OF dec t(1) ke less.prems(3) this] obtain u ys where
          u: "dealloc_loop pgdir (va_of (Suc n)) oldsz (km_write ?pte 0 a) = Some (Inr u)" "space_ok UPAGES u pgdir ys"
            "released pgdir (Suc n) ?L (insert_desc f xs) ys (km_write ?pte 0 a) u" by blast
        have "released pgdir n ?L xs ys s u"
          by (rule released_step [OF True _ e f_def t(2-4) u(3)]) (use L in simp)
        with u(1,2) run show ?thesis by auto
      qed
    qed
  qed
qed

lemma PGROUNDUP_va: "sz \<le> KERNBASE \<Longrightarrow> PGROUNDUP sz = va_of (npages sz)"
proof -
  assume sz: "sz \<le> KERNBASE"
  then have "unat (sz + 4095) = unat sz + 4095" by (simp add: KERNBASE_def word_le_nat_alt unat_word_ariths)
  then show ?thesis using PGROUNDDOWN_va [of "sz + 4095"] by (simp add: PGROUNDUP_def PGROUNDDOWN_def npages_def)
qed

lemma deallocuvm_ok:
  assumes sp: "space_ok UPAGES s pgdir xs" and e: "KERNBASE < km_end s" "oldsz \<le> KERNBASE"
  shows "\<exists>t ys. deallocuvm pgdir oldsz newsz s = Inr (if newsz \<ge> oldsz then oldsz else newsz, t) \<and>
    space_ok UPAGES t pgdir ys \<and> released pgdir (npages newsz) (npages oldsz) xs ys s t"
proof (cases "newsz \<ge> oldsz")
  case True
  then have "npages oldsz \<le> npages newsz" by (simp add: npages_def word_le_nat_alt div_le_mono)
  with True sp released_none show ?thesis by (auto simp: deallocuvm_def)
next
  case False
  then have k: "newsz \<le> KERNBASE" using e(2) by simp
  then have "npages newsz \<le> UPAGES" by (rule npages_user)
  from dealloc_loop_ok [OF sp e this] False show ?thesis
    by (auto simp: deallocuvm_def PGROUNDUP_va [OF k] ends_def)
qed

section \<open>Freeing\<close>

definition tables_from :: "kmem \<Rightarrow> u32 \<Rightarrow> nat \<Rightarrow> u32 set" where
  "tables_from s pgdir j = tab s pgdir ` {i. j \<le> i \<and> i < 1024 \<and> present (pde s pgdir i)}"

lemma free_tables:
  assumes "kmem_inv s xs" "page_ok pgdir" "pgdir \<notin> set xs" "j \<le> 1024"
    "\<And>i. j \<le> i \<Longrightarrow> i < 1024 \<Longrightarrow> present (pde s pgdir i) \<Longrightarrow>
       page_ok (tab s pgdir i) \<and> km_end s \<le> tab s pgdir i \<and> tab s pgdir i \<notin> set xs \<and> tab s pgdir i \<noteq> pgdir"
    "inj_on (tab s pgdir) {i. j \<le> i \<and> i < 1024 \<and> present (pde s pgdir i)}"
  shows "\<exists>t ys. rfold (free_table pgdir) [j..<NPDENTRIES] s = Inr t \<and> kmem_inv t ys \<and>
    set ys = set xs \<union> tables_from s pgdir j \<and> evolves (set ys) {} s t"
  using assms
proof (induction "1024 - j" arbitrary: j s xs)
  case 0
  then have "j = 1024" by simp
  with 0 have "[j..<NPDENTRIES] = []" "tables_from s pgdir j = {}" by (auto simp: tables_from_def NPDENTRIES_def)
  with 0 show ?case by auto
next
  case (Suc k j s xs)
  have j: "j < 1024" and k: "k = 1024 - Suc j" using Suc.hyps(2) by linarith+
  have up: "[j..<NPDENTRIES] = j # [Suc j..<NPDENTRIES]" by (rule upt_conv_Cons) (use j in \<open>simp add: NPDENTRIES_def\<close>)
  have e: "km_mem s (pgdir + 4 * of_nat j) = pde s pgdir j" by (simp add: pde_def slot_def)
  let ?I = "\<lambda>j. {i. j \<le> i \<and> i < 1024 \<and> present (pde s pgdir i)}"
  show ?case
  proof (cases "present (pde s pgdir j)")
    case False
    have I: "?I j = ?I (Suc j)" using False by (auto simp: Suc_le_eq le_less)
    then have T: "tables_from s pgdir j = tables_from s pgdir (Suc j)" by (simp add: tables_from_def)
    from Suc.hyps(1) [OF k Suc.prems(1-3), of] Suc.prems(5,6) j I False show ?thesis
      unfolding up T by (auto simp: e free_table_def Suc_le_eq)
  next
    case True
    define f where "f = tab s pgdir j"
    have I: "?I j = insert j (?I (Suc j))" using True j by (auto simp: Suc_le_eq le_less)
    have f: "page_ok f" "km_end s \<le> f" "f \<notin> set xs" "f \<noteq> pgdir" using Suc.prems(5) [of j] j True by (simp_all add: f_def)
    obtain a where a: "kfree f s = Inr a" "kmem_inv a (insert_desc f xs)" "evolves (insert f (set xs)) {} s a"
      using evolves_kfree [OF Suc.prems(1) f(1-3)] by blast
    have "same_page pgdir s a" using a(3) Suc.prems(2,3) f(4) unfolding evolves_def by auto
    then have pd: "pde a pgdir i = pde s pgdir i" if "i < 1024" for i
      using same_page_slot [OF _ Suc.prems(2) that] by (simp add: pde_def)
    then have tb: "tab a pgdir i = tab s pgdir i" if "i < 1024" for i using that by (simp add: tab_def)
    have Ia: "{i. Suc j \<le> i \<and> i < 1024 \<and> present (pde a pgdir i)} = ?I (Suc j)" using pd by auto
    have Ta: "tables_from a pgdir (Suc j) = tables_from s pgdir (Suc j)"
      unfolding tables_from_def Ia by (rule image_cong) (use tb in auto)
    have inj: "inj_on (tab s pgdir) (?I (Suc j))" using Suc.prems(6) unfolding I by simp
    have other: "tab s pgdir i \<noteq> f" if "i \<in> ?I (Suc j)" for i
      using Suc.prems(6) that j True unfolding f_def inj_on_def I by fastforce
    have "\<exists>t ys. rfold (free_table pgdir) [Suc j..<NPDENTRIES] a = Inr t \<and> kmem_inv t ys \<and>
      set ys = set (insert_desc f xs) \<union> tables_from a pgdir (Suc j) \<and> evolves (set ys) {} a t"
    proof (rule Suc.hyps(1) [OF k a(2)])
      show "pgdir \<notin> set (insert_desc f xs)" using Suc.prems(3) f(4) by auto
      show "inj_on (tab a pgdir) {i. Suc j \<le> i \<and> i < 1024 \<and> present (pde a pgdir i)}"
        unfolding Ia using inj tb by (simp add: inj_on_def)
      show "page_ok (tab a pgdir i) \<and> km_end a \<le> tab a pgdir i \<and> tab a pgdir i \<notin> set (insert_desc f xs) \<and> tab a pgdir i \<noteq> pgdir"
        if "Suc j \<le> i" "i < 1024" "present (pde a pgdir i)" for i
        using Suc.prems(5) [of i] other [of i] that pd tb a(3) by (auto simp: evolves_def)
    qed (use Suc.prems(2) j in auto)
    then obtain t ys where t: "rfold (free_table pgdir) [Suc j..<NPDENTRIES] a = Inr t" "kmem_inv t ys"
      "set ys = insert f (set xs) \<union> tables_from s pgdir (Suc j)" "evolves (set ys) {} a t" unfolding Ta by auto
    have T: "tables_from s pgdir j = insert f (tables_from s pgdir (Suc j))" unfolding tables_from_def I f_def by simp
    have "evolves (set ys) {} s t"
    proof (rule evolves_trans [OF _ t(4)])
      show "evolves (set ys) {} s a" by (rule evolves_mono [OF a(3)]) (use t(3) in auto)
    qed auto
    moreover have "set ys = set xs \<union> tables_from s pgdir j" using t(3) T by auto
    moreover have "kfree (P2V (PTE_ADDR (pde s pgdir j))) s = Inr a" using a(1) by (simp add: f_def tab_def frame_def)
    ultimately show ?thesis unfolding up using t(1,2) True by (auto simp: e free_table_def)
  qed
qed

lemma used_parts: "used N s pgdir = insert pgdir (tables_from s pgdir 0 \<union> frames s pgdir 0 N)"
proof
  show "used N s pgdir \<subseteq> insert pgdir (tables_from s pgdir 0 \<union> frames s pgdir 0 N)"
  proof
    fix a assume "a \<in> used N s pgdir"
    then obtain u where "page_of N s pgdir u = Some a" by (auto simp: used_def)
    then show "a \<in> insert pgdir (tables_from s pgdir 0 \<union> frames s pgdir 0 N)"
      by (cases u) (auto simp: tables_from_def frames_def split: if_splits)
  qed
  show "insert pgdir (tables_from s pgdir 0 \<union> frames s pgdir 0 N) \<subseteq> used N s pgdir"
  proof -
    have "tables_from s pgdir 0 \<subseteq> used N s pgdir" using used_tab by (auto simp: tables_from_def)
    moreover have "frame (ent s pgdir m) \<in> used N s pgdir" if "m < N" "present (ent s pgdir m)" for m
      unfolding used_def using that by (auto intro!: exI [of _ "Usr m"])
    ultimately show ?thesis using used_dir by (auto simp: frames_def)
  qed
qed

lemma freevm_ok:
  assumes sp: "space_ok UPAGES s pgdir xs" and e: "KERNBASE < km_end s"
  shows "\<exists>t ys. freevm pgdir s = Inr t \<and> kmem_inv t ys \<and> set ys = set xs \<union> used UPAGES s pgdir \<and> evolves (set ys) {} s t"
proof -
  note dir = space_dir [OF sp]
  have np: "npages 0 = 0" "npages KERNBASE = UPAGES" by (simp_all add: npages_def KERNBASE_def)
  obtain a ys where a: "deallocuvm pgdir KERNBASE 0 s = Inr (0, a)" "space_ok UPAGES a pgdir ys" "released pgdir 0 UPAGES xs ys s a"
    using deallocuvm_ok [OF sp e order_refl, of 0] np by (auto simp: KERNBASE_def)
  have ys: "set ys = set xs \<union> frames s pgdir 0 UPAGES" and ea: "evolves (set ys) (used 0 s pgdir) s a"
    and pd: "\<And>i. i < 1024 \<Longrightarrow> pde a pgdir i = pde s pgdir i" using a(3) unfolding released_def by blast+
  have tabs: "tables_from a pgdir 0 = tables_from s pgdir 0"
    unfolding tables_from_def by (rule image_cong) (use pd in \<open>auto simp: tab_def\<close>)
  have inj: "inj_on (tab a pgdir) {i. 0 \<le> i \<and> i < 1024 \<and> present (pde a pgdir i)}"
    using space_tab_inj [OF a(2)] by (auto simp: inj_on_def)
  have da: "page_ok pgdir" "pgdir \<notin> set ys" using space_dir [OF a(2)] by simp_all
  have ta: "page_ok (tab a pgdir i) \<and> km_end a \<le> tab a pgdir i \<and> tab a pgdir i \<notin> set ys \<and> tab a pgdir i \<noteq> pgdir"
    if "i < 1024" "present (pde a pgdir i)" for i using space_tab [OF a(2) that] .
  have "\<exists>b zs. rfold (free_table pgdir) [0..<NPDENTRIES] a = Inr b \<and> kmem_inv b zs \<and>
      set zs = set ys \<union> tables_from a pgdir 0 \<and> evolves (set zs) {} a b"
    by (rule free_tables [OF space_okD(1) [OF a(2)] da(1,2) le0 ta inj])
  then obtain b zs where b: "rfold (free_table pgdir) [0..<NPDENTRIES] a = Inr b" "kmem_inv b zs"
    "set zs = set ys \<union> tables_from a pgdir 0" "evolves (set zs) {} a b" by blast
  have "pgdir \<notin> tables_from a pgdir 0"
  proof
    assume "pgdir \<in> tables_from a pgdir 0"
    then obtain i where i: "i < 1024" "present (pde a pgdir i)" "pgdir = tab a pgdir i" unfolding tables_from_def by blast
    from ta [OF i(1,2)] i(3) show False by argo
  qed
  then have "pgdir \<notin> set zs" using b(3) space_dir [OF a(2)] by auto
  moreover have "km_end b = km_end s" using b(4) ea by (simp add: evolves_def)
  ultimately obtain t where t: "kfree pgdir b = Inr t" "kmem_inv t (insert_desc pgdir zs)" "evolves (insert pgdir (set zs)) {} b t"
    using evolves_kfree [OF b(2), of pgdir] dir by auto
  let ?Y = "set (insert_desc pgdir zs)"
  have Y: "?Y = set xs \<union> used UPAGES s pgdir" unfolding used_parts using b(3) ys tabs by auto
  have "pgdir \<noteq> 0" using dir page_nonzero by auto
  then have "freevm pgdir s = Inr t" using a(1) b(1) t(1) by (simp add: freevm_def)
  moreover have "evolves ?Y {} s t"
  proof -
    have "evolves ?Y {} s a" by (rule evolves_mono [OF ea]) (use b(3) Y used_parts [of 0 s pgdir] tabs in \<open>auto simp: frames_def\<close>)
    moreover have "evolves ?Y {} a b" by (rule evolves_mono [OF b(4)]) auto
    ultimately have "evolves ?Y {} s b" by (rule evolves_trans) auto
    moreover have "evolves ?Y {} b t" using t(3) by simp
    ultimately show ?thesis by (rule evolves_trans) auto
  qed
  ultimately show ?thesis using t(2) Y by blast
qed

section \<open>Growing\<close>

text \<open>Memory is exhausted (or no free page is safe for the process): the allocator indexes out of range.\<close>

definition no_page :: fault where
  "no_page = Undefined ''pg2pid: index out of range''"

text \<open>The free pages that \<open>kalloc\<close> may give to a process, and steps after which such pages are still safe.\<close>

definition good :: "int \<Rightarrow> kmem \<Rightarrow> u32 \<Rightarrow> bool" where
  "good pid s x \<longleftrightarrow> Suc (fidx x) < MAX_FRAME_NUM \<and> safe_at s pid (fidx x)"

definition room :: "int \<Rightarrow> kmem \<Rightarrow> u32 list \<Rightarrow> nat" where
  "room pid s xs = card {x \<in> set xs. good pid s x}"

definition calm :: "int \<Rightarrow> kmem \<Rightarrow> kmem \<Rightarrow> bool" where
  "calm pid s t \<longleftrightarrow> (\<forall>i < MAX_FRAME_NUM. km_pid t i = km_pid s i \<or> \<not> hostile pid (km_pid t i))"

lemma calm_then: "calm pid s t \<Longrightarrow> calm pid t u \<Longrightarrow> calm pid s u"
  unfolding calm_def by metis

lemma calm_same: "km_pid t = km_pid s \<Longrightarrow> calm pid s t"
  by (simp add: calm_def)

lemma calm_kernel: "calm (- 2) s t \<Longrightarrow> calm pid s t"
  unfolding calm_def hostile_def by blast

lemma calm_hostile: "calm pid s t \<Longrightarrow> i < MAX_FRAME_NUM \<Longrightarrow> \<not> hostile pid (km_pid s i) \<Longrightarrow> \<not> hostile pid (km_pid t i)"
  unfolding calm_def by metis

lemma calm_good: "calm pid s t \<Longrightarrow> good pid s x \<Longrightarrow> good pid t x"
  using calm_hostile [of pid s t "Suc (fidx x)"] calm_hostile [of pid s t "fidx x - 1"]
  unfolding good_def safe_at_def by (meson Suc_lessD diff_le_self order.strict_trans1)

lemma room_taken:
  assumes "calm pid s t" "set xs \<subseteq> set ys \<union> set zs"
  shows "room pid s xs \<le> room pid t ys + length zs"
proof -
  have "{x \<in> set xs. good pid s x} \<subseteq> {x \<in> set ys. good pid t x} \<union> set zs" using assms calm_good by blast
  then have "room pid s xs \<le> card ({x \<in> set ys. good pid t x} \<union> set zs)" unfolding room_def by (simp add: card_mono)
  also have "\<dots> \<le> room pid t ys + card (set zs)" unfolding room_def by (rule card_Un_le)
  finally show ?thesis using card_length [of zs] by simp
qed

lemma kalloc_room:
  assumes inv: "kmem_inv s xs" and pid: "pid \<noteq> - 1" and rm: "0 < room pid s xs"
  shows "\<exists>x t. kalloc pid s = Inr (x, t)"
proof -
  obtain us x zs where x: "xs = us @ x # zs" "good pid s x" "\<forall>u \<in> set us. \<not> good pid s u"
  proof -
    have "\<exists>x \<in> set xs. good pid s x" using rm unfolding room_def by (auto simp: card_gt_0_iff)
    from split_list_first_prop [OF this] that show thesis by blast
  qed
  show ?thesis
  proof (cases "pid = - 2")
    case True
    obtain y ys where "xs = [] @ y # ys" using x(1) by (cases us) auto
    with kalloc_chosen [of s "[]" y ys pid] inv pid True show ?thesis by auto
  next
    case False
    have "\<not> stops s pid u" if u: "u \<in> set us" for u
    proof -
      have "x < u" "page_ok u" "page_ok x" using inv u x(1) by (auto simp: kmem_inv_def pages_ok_def sorted_wrt_append)
      then have "fidx u \<le> fidx x" using page_less [of x u] by (simp add: fidx_def)
      then show ?thesis using x(2,3) u by (auto simp: stops_def good_def)
    qed
    with kalloc_chosen [OF inv [unfolded x(1)] pid] x(2) False show ?thesis by (auto simp: good_def)
  qed
qed

lemma kalloc_evolves:
  assumes "kmem_inv s xs" "pid \<noteq> - 1"
  shows "kalloc pid s = Inl no_page \<and> room pid s xs = 0 \<or> (\<exists>x ys t. kalloc pid s = Inr (x, t) \<and> x \<in> set xs \<and> kmem_inv t ys \<and>
    set ys = set xs - {x} \<and> evolves (set xs) {} s t \<and> (fidx x < MAX_FRAME_NUM \<longrightarrow> km_pid t (fidx x) = pid) \<and> calm pid s t)"
  using kalloc_cases [OF assms]
proof
  assume "\<exists>us x zs t. xs = us @ x # zs \<and> kalloc pid s = Inr (x, t) \<and> kmem_inv t (us @ zs) \<and>
      (\<forall>i < MAX_FRAME_NUM. km_pid t i = (if i = fidx x then pid else km_pid s i)) \<and>
      km_end t = km_end s \<and> (\<forall>a. a \<notin> set us \<longrightarrow> km_mem t a = km_mem s a)"
  then obtain us x zs t where t: "xs = us @ x # zs" "kalloc pid s = Inr (x, t)" "kmem_inv t (us @ zs)"
      "\<forall>i < MAX_FRAME_NUM. km_pid t i = (if i = fidx x then pid else km_pid s i)"
      "km_end t = km_end s" "\<forall>a. a \<notin> set us \<longrightarrow> km_mem t a = km_mem s a" by blast
  have "distinct xs" using assms(1) chain_distinct by (auto simp: kmem_inv_def pages_ok_def free_list_def)
  then have "set (us @ zs) = set xs - {x}" using t(1) by auto
  moreover have "evolves (set xs) {} s t"
    by (rule evolves_mono [OF evolves_kalloc [OF assms(1) [unfolded t(1)] t(2,5,4,6)]]) (auto simp: t(1))
  moreover have "calm pid s t" using t(4) by (simp add: calm_def hostile_def)
  moreover have "x \<in> set xs" "fidx x < MAX_FRAME_NUM \<Longrightarrow> km_pid t (fidx x) = pid" using t(1,4) by simp_all
  ultimately show ?thesis using t(2,3) by blast
next
  assume "kalloc pid s = Inl (Undefined ''pg2pid: index out of range'')"
  then show ?thesis using kalloc_room [OF assms] by (auto simp: no_page_def)
qed

text \<open>Page tables belong to the kernel, so mapping a page harms no free page.\<close>

lemma km_enter_pid: "km_acquire s = Inr t \<Longrightarrow> km_pid t = km_pid s" "km_release s = Inr t \<Longrightarrow> km_pid t = km_pid s"
  by (auto simp: km_acquire_def km_release_def rbind_eq_Inr split: if_splits prod.splits)

lemma select_page_pid: "select_page pid s = Inr (r, t) \<Longrightarrow> km_pid t = km_pid s"
  by (auto simp: select_page_def rbind_eq_Inr km_write_def split: option.splits)

lemma kalloc_calm: "kalloc pid s = Inr (x, t) \<Longrightarrow> calm pid s t"
proof -
  assume k: "kalloc pid s = Inr (x, t)"
  then obtain a where a: "km_acquire s = Inr a" unfolding kalloc_def rbind_eq_Inr by blast
  let ?pick = "if pid = - 2 then let r = km_free a in Inr (r, if r \<noteq> 0 then a\<lparr>km_free := km_mem a r\<rparr> else a) else select_page pid a"
  obtain r b where b: "?pick = Inr (r, b)" using k a unfolding kalloc_def by (cases ?pick) auto
  obtain c where c: "km_release b = Inr c" using k a b unfolding kalloc_def by (cases "km_release b") simp_all
  have t: "(if tracked r then rbind (set_pg2pid (uint (VA2IDX r)) pid c) (\<lambda>s. Inr (r, s\<lparr>km_count := cint (km_count s + 1)\<rparr>)) else Inr (r, c)) = Inr (x, t)"
    using k a b c unfolding kalloc_def by simp
  have "km_pid b = km_pid a" using b select_page_pid by (auto simp: Let_def split: if_splits)
  then have "km_pid c = km_pid s" using km_enter_pid a c by simp
  then show ?thesis using t by (auto simp: calm_def hostile_def set_pg2pid_def rbind_eq_Inr split: if_splits)
qed

lemma walkpgdir_calm: "walkpgdir pgdir va alloc s = Inr (pte, t) \<Longrightarrow> calm (- 2) s t"
  unfolding walkpgdir_def Let_def
  by (auto simp: rbind_def calm_def km_write_def zero_page_def split: if_splits sum.splits prod.splits dest!: kalloc_calm)

lemma map_loop_calm_res: "map_loop pgdir a lst pa perm s = Some y \<Longrightarrow> \<forall>r t. y = Inr (r, t) \<longrightarrow> calm (- 2) s t"
proof (induction rule: map_loop.raw_induct [rotated, consumes 1])
  case (1 map_loop pgdir a lst pa perm s y)
  show ?case
  proof (cases "walkpgdir pgdir a True s")
    case (Inr p)
    obtain pte u where p: "p = (pte, u)" by (cases p)
    let ?w = "km_write pte (pa OR perm OR PTE_P) u"
    have u: "calm (- 2) s u" using walkpgdir_calm Inr p by simp
    then have w: "calm (- 2) s ?w" by (simp add: calm_def km_write_def)
    have body: "(if pte = 0 then Some (Inr (- 1, u)) else if present (km_mem u pte) then Some (Inl (Panic ''remap''))
        else let s = ?w in if a = lst then Some (Inr (0, s)) else map_loop pgdir (a + PGSIZE) lst (pa + PGSIZE) perm s) = Some y"
      using 1(2) unfolding Inr p by simp
    consider "pte = 0" | "pte \<noteq> 0" "present (km_mem u pte)" | "pte \<noteq> 0" "\<not> present (km_mem u pte)" "a = lst"
      | "pte \<noteq> 0" "\<not> present (km_mem u pte)" "a \<noteq> lst" by blast
    then show ?thesis
    proof cases
      case 4
      then have "map_loop pgdir (a + PGSIZE) lst (pa + PGSIZE) perm ?w = Some y" using body by (simp add: Let_def)
      then show ?thesis using 1(1) calm_then w by blast
    qed (use body u w in \<open>simp_all add: Let_def\<close>, auto)
  qed (use 1 in auto)
qed

lemma map_loop_calm: "map_loop pgdir a lst pa perm s = Some (Inr (r, t)) \<Longrightarrow> calm (- 2) s t"
  using map_loop_calm_res by blast

lemma mappages_calm: "mappages pgdir va sz pa perm s = Inr (r, t) \<Longrightarrow> calm (- 2) s t"
  unfolding mappages_def ends_def using map_loop_calm by (auto split: option.splits)

text \<open>A page taken from the free list and filled: the address space is as before, the page is fresh.\<close>

lemma taken_page:
  assumes sp: "space_ok N s pgdir xs" and N: "N \<le> 1048576" and x: "x \<in> set xs" "set ys = set xs - {x}"
    and inv: "kmem_inv b ys" and ev: "evolves (set xs) {} s b"
  shows "space_ok N b pgdir ys" "fresh N b pgdir ys x" "\<And>i. i < 1024 \<Longrightarrow> pde b pgdir i = pde s pgdir i"
    "\<And>n. n < 1048576 \<Longrightarrow> ent b pgdir n = ent s pgdir n" "\<And>M. M \<le> 1048576 \<Longrightarrow> page_of M b pgdir = page_of M s pgdir"
proof -
  have sp0: "space_ok 0 s pgdir xs" using space_ok_less [OF sp] by simp
  have "used 0 s pgdir \<inter> set xs = {}" using space_okD(4) [OF sp0] by (auto simp: used_def)
  note same = evolves_space [OF sp0 ev this]
  show "\<And>i. i < 1024 \<Longrightarrow> pde b pgdir i = pde s pgdir i" "\<And>n. n < 1048576 \<Longrightarrow> ent b pgdir n = ent s pgdir n"
    and po: "\<And>M. M \<le> 1048576 \<Longrightarrow> page_of M b pgdir = page_of M s pgdir" using same by simp_all
  have ke: "km_end b = km_end s" using ev by (simp add: evolves_def)
  show "space_ok N b pgdir ys"
    by (rule space_ok_sub [OF sp inv ke]) (use po [OF N] space_okD(4) [OF sp] x in auto)
  show "fresh N b pgdir ys x"
    using kmem_inv_free [OF space_okD(1) [OF sp] x(1)] space_okD(4) [OF sp] x po [OF N] ke by (auto simp: fresh_def)
qed

lemma evolves_taken:
  assumes "evolves X {} s a" "x \<in> X" "evolves {} {x} a b"
  shows "evolves X {} s b"
  by (rule evolves_trans [OF assms(1,3)]) (use assms(2) in auto)

lemma low_flags: "take_bit 12 perm = perm \<Longrightarrow> take_bit 12 (perm OR PTE_P) = perm OR PTE_P" for perm :: u32
  by (simp add: PTE_P_def)

lemma frame_entry: "page_ok x \<Longrightarrow> take_bit 12 perm = perm \<Longrightarrow> frame (V2P x OR perm OR PTE_P) = x"
  using frame_or [of x "perm OR PTE_P"] low_flags [of perm] by (simp add: or.assoc)

lemma missing_one: "missing s pgdir n n = (if present (pde s pgdir (n div 1024)) then 0 else 1)"
proof -
  have "{i. n div 1024 \<le> i \<and> i \<le> n div 1024 \<and> \<not> present (pde s pgdir i)} =
      (if present (pde s pgdir (n div 1024)) then {} else {n div 1024})"
    by (auto dest: le_antisym)
  then show ?thesis by (simp add: missing_def)
qed

lemma map_user:
  assumes sp: "space_ok UPAGES b pgdir ys" and n: "n < UPAGES" and free: "\<not> present (ent b pgdir n)"
    and x: "fresh UPAGES b pgdir ys x" and perm: "take_bit 12 perm = perm"
  shows "mappages pgdir (va_of n) PGSIZE (V2P x) perm b = Inl no_page \<and> ys = [] \<or>
    (\<exists>t zs ws. mappages pgdir (va_of n) PGSIZE (V2P x) perm b = Inr (0, t) \<and> ys = zs @ ws \<and> length zs \<le> 1 \<and>
      space_ok UPAGES t pgdir ws \<and> mapped pgdir n n (V2P x) perm zs b t)"
proof -
  have n': "n < 1048576" using n by simp
  have "unat (va_of n + PGSIZE - 1) = 4096 * n + 4095" using n
    by (simp add: va_of_def PGSIZE_def unat_word_ariths unat_of_nat)
  then have nl: "n = unat (va_of n) div 4096" "n = unat (va_of n + PGSIZE - 1) div 4096" using n' by simp_all
  show ?thesis
  proof (cases "present (pde b pgdir (n div 1024)) \<or> ys \<noteq> []")
    case True
    then have ms: "missing b pgdir n n \<le> length ys" by (cases ys) (auto simp: missing_one)
    have fr: "\<not> present (ent b pgdir m)" if "n \<le> m" "m \<le> n" for m using free that le_antisym by blast
    have fx: "n = n \<and> fresh UPAGES b pgdir ys (frame (V2P x OR perm OR PTE_P))"
      using x perm frame_entry [of x perm] by (simp add: fresh_def)
    have le: "UPAGES \<le> 1048576" by simp
    have "missing b pgdir n n \<le> 1" by (simp add: missing_one)
    with mappages_ok [OF sp le nl order_refl fr ms fx] show ?thesis by (meson le_trans)
  next
    case False
    then have "kmem_inv b []" using space_okD(1) [OF sp] by simp
    then have "kalloc (- 2) b = Inl no_page" using kalloc_no_page [of b "[]" "- 2"] by (simp add: no_page_def)
    then have "walkpgdir pgdir (va_of n) True b = Inl no_page" using False n' by (simp add: walkpgdir_def pde_def slot_def)
    then have "map_loop pgdir (va_of n) (va_of n) (V2P x) perm b = Some (Inl no_page)" by (subst map_loop.simps) simp
    then show ?thesis using nl False by (simp add: mappages_def PGROUNDDOWN_va ends_def)
  qed
qed

text \<open>
  The user pages from \<open>n\<close> up to \<open>l\<close> were added: page \<open>m\<close> has a frame of its own from the free pages, owned by
  \<open>pid\<close>, with the flags \<open>perm m\<close> and the contents \<open>c m\<close>. What was free is still free or used here. A page took
  at most two of the free pages that \<open>pid\<close> may get, one of them for a page table.
\<close>

definition new_page :: "int \<Rightarrow> u32 \<Rightarrow> (nat \<Rightarrow> u32) \<Rightarrow> u32 list \<Rightarrow> u32 \<Rightarrow> kmem \<Rightarrow> u32 \<Rightarrow> bool" where
  "new_page pid perm c xs e t f \<longleftrightarrow> f \<in> set xs \<and> e = V2P f OR perm OR PTE_P \<and> (\<forall>k < 1024. km_mem t (slot f k) = c k) \<and>
     (fidx f < MAX_FRAME_NUM \<longrightarrow> km_pid t (fidx f) = pid)"

definition grown :: "int \<Rightarrow> u32 \<Rightarrow> nat \<Rightarrow> nat \<Rightarrow> (nat \<Rightarrow> u32) \<Rightarrow> (nat \<Rightarrow> nat \<Rightarrow> u32) \<Rightarrow> u32 list \<Rightarrow> u32 list \<Rightarrow> kmem \<Rightarrow> kmem \<Rightarrow> bool" where
  "grown pid pgdir n l perm c xs ys s t \<longleftrightarrow>
     (\<forall>m. n \<le> m \<longrightarrow> m < l \<longrightarrow> (\<exists>f. new_page pid (perm m) (c m) xs (ent t pgdir m) t f)) \<and>
     (\<forall>m < 1048576. \<not> (n \<le> m \<and> m < l) \<longrightarrow> ent t pgdir m = ent s pgdir m) \<and> set ys \<subseteq> set xs \<and>
     used UPAGES t pgdir = used UPAGES s pgdir \<union> (set xs - set ys) \<and>
     (\<forall>p \<in> used 0 t pgdir. p \<in> used 0 s pgdir \<or> p \<in> set xs) \<and> evolves (set xs) (used 0 s pgdir) s t \<and>
     room pid s xs \<le> room pid t ys + 2 * (l - n)"

lemma new_page_evolves:
  assumes "new_page pid perm c xs e s f" "page_ok f" "evolves Y P s t" "f \<notin> Y" "f \<notin> P" "\<And>y. y \<in> Y \<Longrightarrow> page_ok y"
  shows "new_page pid perm c xs e t f"
proof -
  have "same_page f s t" using assms unfolding evolves_def by blast
  then have "km_mem t (slot f k) = km_mem s (slot f k)" if "k < 1024" for k using same_page_slot assms(2) that by blast
  moreover have "fidx f \<notin> fidx ` Y" using fidx_inj assms(2,4,6) by blast
  then have "fidx f < MAX_FRAME_NUM \<Longrightarrow> km_pid t (fidx f) = km_pid s (fidx f)" using assms(3) unfolding evolves_def by blast
  ultimately show ?thesis using assms(1) by (simp add: new_page_def)
qed

lemma grown_none: "l \<le> n \<Longrightarrow> grown pid pgdir n l perm c xs xs s s"
  by (auto simp: grown_def)

lemma frames_add:
  assumes "n < N" "N \<le> 1048576" "\<not> present (ent s pgdir n)" "present v"
    "\<And>m. m < 1048576 \<Longrightarrow> ent t pgdir m = (if m = n then v else ent s pgdir m)"
  shows "frames t pgdir 0 N = insert (frame v) (frames s pgdir 0 N)"
proof -
  have "{m. 0 \<le> m \<and> m < N \<and> present (ent t pgdir m)} = insert n {m. 0 \<le> m \<and> m < N \<and> present (ent s pgdir m)}"
    using assms by auto
  moreover have "(\<lambda>m. frame (ent t pgdir m)) ` {m. 0 \<le> m \<and> m < N \<and> present (ent s pgdir m)} =
      (\<lambda>m. frame (ent s pgdir m)) ` {m. 0 \<le> m \<and> m < N \<and> present (ent s pgdir m)}"
    by (rule image_cong) (use assms in auto)
  ultimately show ?thesis unfolding frames_def using assms(1,2,5) by simp
qed

lemma grow_step:
  assumes sp: "space_ok UPAGES s pgdir xs" and n: "n < UPAGES" "\<not> present (ent s pgdir n)" and perm: "take_bit 12 perm = perm"
    and x: "x \<in> set xs" "set ys = set xs - {x}" and inv: "kmem_inv b ys" and ev: "evolves (set xs) {} s b"
    and c: "\<And>k. k < 1024 \<Longrightarrow> km_mem b (slot x k) = c k" "fidx x < MAX_FRAME_NUM \<Longrightarrow> km_pid b (fidx x) = pid"
    and cb: "calm pid s b"
  shows "mappages pgdir (va_of n) PGSIZE (V2P x) perm b = Inl no_page \<and> room pid s xs < 2 \<or>
    (\<exists>t ws. mappages pgdir (va_of n) PGSIZE (V2P x) perm b = Inr (0, t) \<and> space_ok UPAGES t pgdir ws \<and>
      grown pid pgdir n (Suc n) (\<lambda>_. perm) (\<lambda>_. c) xs ws s t)"
proof -
  have le: "UPAGES \<le> 1048576" by simp
  note tk = taken_page [OF sp le x inv ev]
  have px: "page_ok x" using kmem_inv_free [OF space_okD(1) [OF sp] x(1)] by simp
  have rb: "room pid s xs \<le> room pid b ys + length [x]" by (rule room_taken [OF cb]) (use x in auto)
  have "\<not> present (ent b pgdir n)" using tk(4) n by simp
  from map_user [OF tk(1) n(1) this tk(2) perm] show ?thesis
  proof
    assume "mappages pgdir (va_of n) PGSIZE (V2P x) perm b = Inl no_page \<and> ys = []"
    then show ?thesis using rb by (simp add: room_def)
  next
    assume "\<exists>t zs ws. mappages pgdir (va_of n) PGSIZE (V2P x) perm b = Inr (0, t) \<and> ys = zs @ ws \<and> length zs \<le> 1 \<and>
      space_ok UPAGES t pgdir ws \<and> mapped pgdir n n (V2P x) perm zs b t"
    then obtain t zs ws where t: "mappages pgdir (va_of n) PGSIZE (V2P x) perm b = Inr (0, t)" "ys = zs @ ws"
      "space_ok UPAGES t pgdir ws" "mapped pgdir n n (V2P x) perm zs b t" "length zs \<le> 1" by blast
    have "room pid b ys \<le> room pid t ws + length zs"
      by (rule room_taken [OF calm_kernel [OF mappages_calm [OF t(1)]]]) (use t(2) in auto)
    with rb t(5) have rt: "room pid s xs \<le> room pid t ws + 2 * (Suc n - n)" by simp
    let ?v = "V2P x OR perm OR PTE_P"
    have en: "ent t pgdir m = (if m = n then ?v else ent s pgdir m)" if "m < 1048576" for m
      using t(4) that tk(4) by (auto simp: mapped_def)
    have us: "used 0 t pgdir = used 0 s pgdir \<union> set zs" and et: "evolves (set zs) (used 0 s pgdir) b t"
      using t(4) tk(5) [of 0] by (simp_all add: mapped_def used_def)
    have fv: "frame ?v = x" "present ?v" using frame_entry [OF px perm] by (simp_all add: or.assoc [symmetric])
    have dis: "distinct ys" using inv chain_distinct by (auto simp: kmem_inv_def pages_ok_def free_list_def)
    have uu: "used UPAGES t pgdir = used UPAGES s pgdir \<union> (set xs - set ws)"
    proof -
      have "used UPAGES t pgdir = used 0 t pgdir \<union> frames t pgdir 0 UPAGES" for t
        unfolding used_parts by (auto simp: frames_def)
      moreover have "frames t pgdir 0 UPAGES = insert x (frames s pgdir 0 UPAGES)"
        using frames_add [OF n(1) le n(2) fv(2) en] fv(1) by simp
      moreover have "set xs - set ws = insert x (set zs)" using x t(2) dis by auto
      ultimately show ?thesis using us by auto
    qed
    have ev': "evolves (set xs) (used 0 s pgdir) s t"
    proof -
      have "evolves (set xs) (used 0 s pgdir) s b" by (rule evolves_mono [OF ev]) auto
      moreover have "evolves (set xs) (used 0 s pgdir) b t" by (rule evolves_mono [OF et]) (use t(2) x in auto)
      ultimately show ?thesis by (rule evolves_trans) auto
    qed
    have "new_page pid perm c xs ?v b x" using x(1) c by (simp add: new_page_def)
    then have "new_page pid perm c xs ?v t x"
    proof (rule new_page_evolves [OF _ px et])
      show "x \<notin> set zs" using x t(2) by auto
      show "x \<notin> used 0 s pgdir" using space_okD(4) [OF space_ok_less [OF sp, of 0]] x(1) by (auto simp: used_def)
      show "page_ok y" if "y \<in> set zs" for y using kmem_inv_free [OF inv, of y] that t(2) by simp
    qed
    then have "\<exists>f. new_page pid perm c xs (ent t pgdir m) t f" if "n \<le> m" "m < Suc n" for m
    proof -
      have "m = n" using that by simp
      then show ?thesis using \<open>new_page pid perm c xs ?v t x\<close> en [of n] n(1) by auto
    qed
    moreover have "ent t pgdir m = ent s pgdir m" if "m < 1048576" "\<not> (n \<le> m \<and> m < Suc n)" for m
      using en that by auto
    moreover have "set ws \<subseteq> set xs" using t(2) x by auto
    moreover have "\<forall>p \<in> used 0 t pgdir. p \<in> used 0 s pgdir \<or> p \<in> set xs" using us t(2) x by auto
    ultimately have "grown pid pgdir n (Suc n) (\<lambda>_. perm) (\<lambda>_. c) xs ws s t"
      unfolding grown_def using uu ev' rt by blast
    with t(1,3) show ?thesis by blast
  qed
qed

lemma grown_one: "grown pid pgdir n (Suc n) (\<lambda>_. perm n) (\<lambda>_. c n) xs ys s t \<Longrightarrow> grown pid pgdir n (Suc n) perm c xs ys s t"
  unfolding grown_def by (auto simp: le_less_Suc_eq)

lemma new_page_user:
  assumes "space_ok UPAGES s pgdir xs" "new_page pid perm c ys (ent s pgdir m) s f" "m < UPAGES" "page_ok f" "take_bit 12 perm = perm"
  shows "f \<notin> set xs" "f \<notin> used 0 s pgdir"
proof -
  have f: "frame (ent s pgdir m) = f" "present (ent s pgdir m)"
    using assms(2) frame_entry [OF assms(4,5)] by (simp_all add: new_page_def or.assoc [symmetric])
  then have u: "page_of UPAGES s pgdir (Usr m) = Some f" using assms(3) by simp
  show "f \<notin> set xs" using space_okD(4) [OF assms(1) u] .
  show "f \<notin> used 0 s pgdir"
  proof
    assume "f \<in> used 0 s pgdir"
    then obtain v where v: "page_of 0 s pgdir v = Some f" by (auto simp: used_def)
    then have "v = Usr m" using space_okD(5) [OF assms(1) page_of_less [OF v] u] by simp
    with v show False by simp
  qed
qed

lemma grown_trans:
  assumes g: "grown pid pgdir n k perm c xs ys s a" and h: "grown pid pgdir k l perm c ys zs a t"
    and sp: "space_ok UPAGES a pgdir ys" and inv: "kmem_inv s xs" and k: "n \<le> k" "k \<le> l" "l \<le> UPAGES"
    and perm: "\<And>m. n \<le> m \<Longrightarrow> m < k \<Longrightarrow> take_bit 12 (perm m) = perm m"
  shows "grown pid pgdir n l perm c xs zs s t"
proof -
  have ha: "evolves (set ys) (used 0 a pgdir) a t" and sub: "set ys \<subseteq> set xs" "set zs \<subseteq> set ys"
    and us: "used UPAGES a pgdir = used UPAGES s pgdir \<union> (set xs - set ys)" "used UPAGES t pgdir = used UPAGES a pgdir \<union> (set ys - set zs)"
    and u0: "\<forall>p \<in> used 0 a pgdir. p \<in> used 0 s pgdir \<or> p \<in> set xs" "\<forall>p \<in> used 0 t pgdir. p \<in> used 0 a pgdir \<or> p \<in> set ys"
    and ga: "evolves (set xs) (used 0 s pgdir) s a"
    and rm: "room pid s xs \<le> room pid a ys + 2 * (k - n)" "room pid a ys \<le> room pid t zs + 2 * (l - k)"
    using g h unfolding grown_def by blast+
  have "\<exists>f. new_page pid (perm m) (c m) xs (ent t pgdir m) t f" if m: "n \<le> m" "m < l" for m
  proof (cases "m < k")
    case True
    then obtain f where f: "new_page pid (perm m) (c m) xs (ent a pgdir m) a f" using g m unfolding grown_def by blast
    have pf: "page_ok f" using kmem_inv_free [OF inv] f by (simp add: new_page_def)
    have "m < UPAGES" using m k by simp
    note nu = new_page_user [OF sp f this pf perm [OF m(1) True]]
    have "page_ok y" if "y \<in> set ys" for y using kmem_inv_free [OF space_okD(1) [OF sp] that] by simp
    from new_page_evolves [OF f pf ha nu this] have "new_page pid (perm m) (c m) xs (ent a pgdir m) t f" .
    moreover have "ent t pgdir m = ent a pgdir m" using h True m k unfolding grown_def by auto
    ultimately show ?thesis by auto
  next
    case False
    then obtain f where "new_page pid (perm m) (c m) ys (ent t pgdir m) t f" using h m unfolding grown_def by (meson not_le)
    then show ?thesis using sub unfolding new_page_def by blast
  qed
  moreover have "ent t pgdir m = ent s pgdir m" if "m < 1048576" "\<not> (n \<le> m \<and> m < l)" for m
    using g h that k unfolding grown_def by (metis le_trans less_le_trans)
  moreover have "used UPAGES t pgdir = used UPAGES s pgdir \<union> (set xs - set zs)" using us sub by blast
  moreover have "evolves (set xs) (used 0 s pgdir) s t" by (rule evolves_trans [OF ga ha sub(1)]) (use u0 in blast)
  moreover have "set zs \<subseteq> set xs" "\<forall>p \<in> used 0 t pgdir. p \<in> used 0 s pgdir \<or> p \<in> set xs" using sub u0 by blast+
  moreover have "room pid s xs \<le> room pid t zs + 2 * (l - n)" using rm k by linarith
  ultimately show ?thesis unfolding grown_def by simp
qed

text \<open>The flags of a user page.\<close>

lemma user_flags: "take_bit 12 (PTE_W OR PTE_U) = PTE_W OR PTE_U"
  by (simp add: PTE_W_def PTE_U_def)

lemma zero_taken:
  assumes "kmem_inv a ys" "page_ok x" "x \<notin> set ys"
  shows "kmem_inv (zero_page x a) ys" "evolves {} {x} a (zero_page x a)" "\<And>k. k < 1024 \<Longrightarrow> km_mem (zero_page x a) (slot x k) = 0"
    "km_pid (zero_page x a) = km_pid a"
  using assms kmem_inv_zero evolves_zero zero_page_slot by (auto simp: zero_page_def)

lemma alloc_round:
  assumes sp: "space_ok UPAGES s pgdir xs" and pid: "pid \<noteq> - 1" and n: "n < UPAGES" "n < npages newsz"
    and nf: "\<not> present (ent s pgdir n)"
  shows "alloc_loop pid pgdir (va_of n) oldsz newsz s = Some (Inl no_page) \<and> room pid s xs < 2 \<or>
    (\<exists>t ws. alloc_loop pid pgdir (va_of n) oldsz newsz s = alloc_loop pid pgdir (va_of (Suc n)) oldsz newsz t \<and>
      space_ok UPAGES t pgdir ws \<and> grown pid pgdir n (Suc n) (\<lambda>_. PTE_W OR PTE_U) (\<lambda>_ _. 0) xs ws s t)"
proof -
  let ?f = "PTE_W OR PTE_U"
  have lt: "va_of n < newsz" using npages_less [of n newsz] n by simp
  note inv = space_okD(1) [OF sp]
  from kalloc_evolves [OF inv pid] show ?thesis
  proof
    assume "kalloc pid s = Inl no_page \<and> room pid s xs = 0"
    then show ?thesis using lt by (subst alloc_loop.simps) simp
  next
    assume "\<exists>x ys t. kalloc pid s = Inr (x, t) \<and> x \<in> set xs \<and> kmem_inv t ys \<and> set ys = set xs - {x} \<and>
      evolves (set xs) {} s t \<and> (fidx x < MAX_FRAME_NUM \<longrightarrow> km_pid t (fidx x) = pid) \<and> calm pid s t"
    then obtain x ys a where a: "kalloc pid s = Inr (x, a)" "x \<in> set xs" "kmem_inv a ys" "set ys = set xs - {x}"
      "evolves (set xs) {} s a" "fidx x < MAX_FRAME_NUM \<longrightarrow> km_pid a (fidx x) = pid" "calm pid s a" by blast
    have px: "page_ok x" "x \<notin> set ys" "x \<noteq> 0" using kmem_inv_free [OF inv a(2)] a(4) page_nonzero by auto
    note z = zero_taken [OF a(3) px(1,2)]
    have o: "fidx x < MAX_FRAME_NUM \<Longrightarrow> km_pid (zero_page x a) (fidx x) = pid" using z(4) a(6) by simp
    have cz: "calm pid s (zero_page x a)" using a(7) z(4) by (simp add: calm_def)
    from grow_step [OF sp n(1) nf user_flags a(2,4) z(1) evolves_taken [OF a(5,2) z(2)] z(3) o cz] show ?thesis
    proof
      assume "mappages pgdir (va_of n) PGSIZE (V2P x) ?f (zero_page x a) = Inl no_page \<and> room pid s xs < 2"
      then show ?thesis using lt a(1) px(3) by (subst alloc_loop.simps) simp
    next
      assume "\<exists>t ws. mappages pgdir (va_of n) PGSIZE (V2P x) ?f (zero_page x a) = Inr (0, t) \<and> space_ok UPAGES t pgdir ws \<and>
        grown pid pgdir n (Suc n) (\<lambda>_. ?f) (\<lambda>_ _. 0) xs ws s t"
      then obtain t ws where t: "mappages pgdir (va_of n) PGSIZE (V2P x) ?f (zero_page x a) = Inr (0, t)"
        "space_ok UPAGES t pgdir ws" "grown pid pgdir n (Suc n) (\<lambda>_. ?f) (\<lambda>_ _. 0) xs ws s t" by blast
      have "alloc_loop pid pgdir (va_of n) oldsz newsz s = alloc_loop pid pgdir (va_of (Suc n)) oldsz newsz t"
        using lt a(1) px(3) t(1) by (subst alloc_loop.simps) simp
      with t(2,3) show ?thesis by blast
    qed
  qed
qed

lemma alloc_loop_ok:
  assumes "space_ok UPAGES s pgdir xs" "pid \<noteq> - 1" "newsz < KERNBASE" "n \<le> UPAGES"
    "\<And>m. n \<le> m \<Longrightarrow> m < npages newsz \<Longrightarrow> \<not> present (ent s pgdir m)"
  shows "alloc_loop pid pgdir (va_of n) oldsz newsz s = Some (Inl no_page) \<and> room pid s xs < 2 * (npages newsz - n) \<or>
    (\<exists>t ys. alloc_loop pid pgdir (va_of n) oldsz newsz s = Some (Inr (newsz, t)) \<and> space_ok UPAGES t pgdir ys \<and>
      grown pid pgdir n (npages newsz) (\<lambda>_. PTE_W OR PTE_U) (\<lambda>_ _. 0) xs ys s t)"
  using assms
proof (induction "UPAGES - n" arbitrary: n s xs rule: less_induct)
  case (less n s xs)
  let ?l = "npages newsz" and ?f = "PTE_W OR PTE_U"
  have L: "?l \<le> UPAGES" using npages_user [of newsz] less.prems(3) by simp
  show ?case
  proof (cases "n < ?l")
    case False
    then show ?thesis using less.prems npages_less [of n newsz] grown_none by (subst alloc_loop.simps) auto
  next
    case True
    have n: "n < UPAGES" "Suc n \<le> ?l" "UPAGES - Suc n < UPAGES - n" "Suc n \<le> UPAGES" using True L by linarith+
    have "\<not> present (ent s pgdir n)" using less.prems(5) True by simp
    from alloc_round [OF less.prems(1,2) n(1) True this] show ?thesis
    proof
      assume "\<exists>t ws. alloc_loop pid pgdir (va_of n) oldsz newsz s = alloc_loop pid pgdir (va_of (Suc n)) oldsz newsz t \<and>
        space_ok UPAGES t pgdir ws \<and> grown pid pgdir n (Suc n) (\<lambda>_. ?f) (\<lambda>_ _. 0) xs ws s t"
      then obtain t ws where t: "alloc_loop pid pgdir (va_of n) oldsz newsz s = alloc_loop pid pgdir (va_of (Suc n)) oldsz newsz t"
        "space_ok UPAGES t pgdir ws" "grown pid pgdir n (Suc n) (\<lambda>_. ?f) (\<lambda>_ _. 0) xs ws s t" by blast
      have rm: "room pid s xs \<le> room pid t ws + 2" using t(3) by (simp add: grown_def)
      have fr: "\<not> present (ent t pgdir m)" if "Suc n \<le> m" "m < ?l" for m
      proof -
        have "ent t pgdir m = ent s pgdir m" using t(3) that L unfolding grown_def by auto
        then show ?thesis using less.prems(5) that by simp
      qed
      have all: "grown pid pgdir n ?l (\<lambda>_. ?f) (\<lambda>_ _. 0) xs zs s u" if "grown pid pgdir (Suc n) ?l (\<lambda>_. ?f) (\<lambda>_ _. 0) ws zs t u" for zs u
        using grown_trans [OF t(3) that t(2) space_okD(1) [OF less.prems(1)] le_SucI [OF order_refl] n(2) L user_flags] .
      have few: "room pid t ws < 2 * (?l - Suc n) \<Longrightarrow> room pid s xs < 2 * (?l - n)" using rm True by linarith
      from less.hyps [OF n(3) t(2) less.prems(2,3) n(4)] fr show ?thesis unfolding t(1) using all few by blast
    qed (use True in auto)
  qed
qed

text \<open>\<open>allocuvm\<close>: the new size, or what failed.\<close>

lemma allocuvm_ok:
  assumes sp: "space_ok UPAGES s pgdir xs" and pid: "pid \<noteq> - 1" and sz: "oldsz \<le> newsz" "newsz < KERNBASE"
    and free: "\<And>m. npages oldsz \<le> m \<Longrightarrow> m < npages newsz \<Longrightarrow> \<not> present (ent s pgdir m)"
  shows "allocuvm pid pgdir oldsz newsz s = Inl no_page \<and> room pid s xs < 2 * (npages newsz - npages oldsz) \<or>
    (\<exists>t ys. allocuvm pid pgdir oldsz newsz s = Inr (newsz, t) \<and> space_ok UPAGES t pgdir ys \<and>
      grown pid pgdir (npages oldsz) (npages newsz) (\<lambda>_. PTE_W OR PTE_U) (\<lambda>_ _. 0) xs ys s t)"
proof -
  have k: "oldsz \<le> KERNBASE" using sz by simp
  have "allocuvm pid pgdir oldsz newsz s = ends (alloc_loop pid pgdir (va_of (npages oldsz)) oldsz newsz s)"
    using sz unfolding allocuvm_def PGROUNDUP_va [OF k] by auto
  with alloc_loop_ok [OF sp pid sz(2) npages_user [OF k] free, of oldsz] show ?thesis by (auto simp: ends_def)
qed

end
