(* ===== verification/VmCopy.thy ===== *)
theory VmCopy
  imports VmSpace
begin

text \<open>
  Building the kernel part of an address space (\<open>setupkvm\<close>), growing a process (\<open>allocuvm\<close>) and copying
  a process (\<open>copyuvm\<close>).
\<close>

unbundle bit_operations_syntax

section \<open>The kernel part\<close>

lemma missing_le: "n \<le> l \<Longrightarrow> missing s pgdir n l \<le> Suc (l div 1024 - n div 1024)"
proof -
  assume nl: "n \<le> l"
  have "missing s pgdir n l \<le> card {n div 1024..l div 1024}"
    unfolding missing_def by (rule card_mono) auto
  also have "\<dots> = Suc (l div 1024) - n div 1024" by simp
  also have "\<dots> = Suc (l div 1024 - n div 1024)" using div_le_mono [OF nl, of 1024] by simp
  finally show ?thesis .
qed

text \<open>A page directory with no entry.\<close>

lemma empty_space:
  assumes "kmem_inv s (x # ys)" "N \<le> 1048576"
  shows "\<exists>t. kalloc (- 2) s = Inr (x, t) \<and> space_ok N (zero_page x t) x ys \<and>
    (\<forall>n < 1048576. ent (zero_page x t) x n = 0) \<and> used 0 (zero_page x t) x = {x} \<and> evolves {x} {} s (zero_page x t) \<and>
    calm (- 2) s (zero_page x t)"
proof -
  obtain t where t: "kalloc (- 2) s = Inr (x, t)" "kmem_inv t ys" "evolves {x} {} s t" using kalloc_kernel [OF assms(1)] by blast
  have x: "page_ok x" "km_end s \<le> x" "x \<notin> set ys"
    using kmem_inv_free [OF assms(1), of x] assms(1) by (auto simp: kmem_inv_def pages_ok_def)
  note z = zero_taken [OF t(2) x(1,3)]
  have ev: "evolves {x} {} s (zero_page x t)" by (rule evolves_taken [OF t(3) _ z(2)]) simp
  have pd: "pde (zero_page x t) x i = 0" if "i < 1024" for i using z(3) [OF that] by (simp add: pde_def)
  have en: "ent (zero_page x t) x n = 0" if "n < 1048576" for n
  proof -
    have "n div 1024 < 1024" using that by auto
    then show ?thesis using pd by (simp add: ent_def)
  qed
  have po: "page_of M (zero_page x t) x u = Some a \<Longrightarrow> u = Dir \<and> a = x" if "M \<le> 1048576" for M u a
    using that pd en by (cases u) (auto split: if_splits)
  have ke: "km_end (zero_page x t) = km_end s" using ev by (simp add: evolves_def)
  have "space_ok N (zero_page x t) x ys"
    unfolding space_ok_def using z(1) x ke po [OF assms(2)] by auto
  moreover have "used 0 (zero_page x t) x = {x}" using po [of 0] used_dir unfolding used_def by auto
  moreover have "calm (- 2) s (zero_page x t)" using kalloc_calm [OF t(1)] z(4) by (simp add: calm_def)
  ultimately show ?thesis using t(1) en ev by auto
qed

lemma kernel_map:
  assumes sp: "space_ok UPAGES s pgdir xs" and nl: "n = unat va div 4096" "l = unat (va + sz - 1) div 4096" "UPAGES \<le> n" "n \<le> l"
    and free: "\<And>m. n \<le> m \<Longrightarrow> m \<le> l \<Longrightarrow> \<not> present (ent s pgdir m)" and room: "Suc (l div 1024 - n div 1024) \<le> length xs"
  shows "\<exists>t zs ys. mappages pgdir va sz pa perm s = Inr (0, t) \<and> xs = zs @ ys \<and> space_ok UPAGES t pgdir ys \<and>
    mapped pgdir n l pa perm zs s t \<and> length zs \<le> Suc (l div 1024 - n div 1024)"
proof -
  have le: "UPAGES \<le> 1048576" by simp
  have ms: "missing s pgdir n l \<le> length xs" using missing_le [OF nl(4)] room le_trans by blast
  have no: "l = n \<and> fresh UPAGES s pgdir xs (frame (pa OR perm OR PTE_P))" if "n < UPAGES" using that nl(3) by simp
  from mappages_ok [OF sp le nl(1,2,4) free ms no] missing_le [OF nl(4)] show ?thesis by (meson le_trans)
qed

text \<open>A page directory in construction: \<open>zs\<close> are the pages of its tables, \<open>E\<close> its entries.\<close>

definition building :: "u32 \<Rightarrow> kmem \<Rightarrow> u32 list \<Rightarrow> u32 list \<Rightarrow> (nat \<Rightarrow> u32) \<Rightarrow> kmem \<Rightarrow> bool" where
  "building x s zs ys E t \<longleftrightarrow> space_ok UPAGES t x ys \<and> (\<forall>m < 1048576. ent t x m = E m) \<and>
     used 0 t x = insert x (set zs) \<and> evolves (insert x (set zs)) {} s t \<and> calm (- 2) s t"

lemma building_map:
  assumes b: "building x s zs ys E t" and nl: "n = unat va div 4096" "l = unat (va + sz - 1) div 4096" "UPAGES \<le> n" "n \<le> l"
    and free: "\<And>m. n \<le> m \<Longrightarrow> m \<le> l \<Longrightarrow> \<not> present (E m)" and room: "Suc (l div 1024 - n div 1024) \<le> k" "k \<le> length ys"
  shows "\<exists>u ws vs. mappages x va sz pa perm t = Inr (0, u) \<and> ys = ws @ vs \<and> length ws \<le> k \<and>
    building x s (zs @ ws) vs (\<lambda>m. if n \<le> m \<and> m \<le> l then (pa + 4096 * of_nat (m - n)) OR perm OR PTE_P else E m) u"
proof -
  have sp: "space_ok UPAGES t x ys" and en: "\<forall>m < 1048576. ent t x m = E m" and us: "used 0 t x = insert x (set zs)"
    and ev: "evolves (insert x (set zs)) {} s t" and ct: "calm (- 2) s t" using b by (simp_all add: building_def)
  have l: "l < 1048576" unfolding nl(2) by (rule vpn_less)
  have fr: "\<not> present (ent t x m)" if "n \<le> m" "m \<le> l" for m using free that en l by simp
  have r: "Suc (l div 1024 - n div 1024) \<le> length ys" using room by simp
  obtain u ws vs where u: "mappages x va sz pa perm t = Inr (0, u)" "ys = ws @ vs" "space_ok UPAGES u x vs"
    "mapped x n l pa perm ws t u" "length ws \<le> Suc (l div 1024 - n div 1024)"
    using kernel_map [OF sp nl fr r] by blast
  have "evolves (insert x (set (zs @ ws))) {} s u"
  proof -
    have "evolves (insert x (set (zs @ ws))) {} s t" by (rule evolves_mono [OF ev]) auto
    moreover have "evolves (insert x (set (zs @ ws))) {} t u"
      by (rule evolves_mono [of "set ws" "used 0 t x"]) (use u(4) us in \<open>auto simp: mapped_def\<close>)
    ultimately show ?thesis by (rule evolves_trans) auto
  qed
  then have "building x s (zs @ ws) vs (\<lambda>m. if n \<le> m \<and> m \<le> l then (pa + 4096 * of_nat (m - n)) OR perm OR PTE_P else E m) u"
    using u(3,4) us en calm_then [OF ct mappages_calm [OF u(1)]] by (auto simp: building_def mapped_def)
  moreover have "length ws \<le> k" using u(5) room(1) by simp
  ultimately show ?thesis using u(1,2) by blast
qed

text \<open>
  The entries of the kernel part when the symbol \<open>data\<close> is at page \<open>D\<close>: physical memory from \<open>KERNBASE\<close>
  on, the kernel's text read-only; the devices at the top; nothing else.
\<close>

definition kernel_ent :: "nat \<Rightarrow> nat \<Rightarrow> u32" where
  "kernel_ent D m =
     (if UPAGES \<le> m \<and> m < UPAGES + 57344
      then (4096 * of_nat (m - UPAGES)) OR (if UPAGES + 256 \<le> m \<and> m < D then 0 else PTE_W) OR PTE_P
      else if 1040384 \<le> m then (0xFE000000 + 4096 * of_nat (m - 1040384)) OR PTE_W OR PTE_P else 0)"

lemma kern_addr: "UPAGES \<le> n \<Longrightarrow> n \<le> m \<Longrightarrow> (of_nat (4096 * (n - UPAGES)) :: u32) + 4096 * of_nat (m - n) = 4096 * of_nat (m - UPAGES)"
proof -
  assume a: "UPAGES \<le> n" "n \<le> m"
  then have "4096 * (n - UPAGES) + 4096 * (m - n) = 4096 * (m - UPAGES)" by simp
  from arg_cong [OF this, of "of_nat :: nat \<Rightarrow> u32"] show ?thesis by (simp only: of_nat_add of_nat_mult of_nat_numeral)
qed

text \<open>The four ranges of \<open>kmap\<close>, as page numbers.\<close>

lemma kmap_pages:
  assumes D: "kdata = va_of D" "UPAGES + 256 < D" "D < UPAGES + 57344"
  shows "UPAGES = unat KERNBASE div 4096" "UPAGES + 255 = unat (KERNBASE + (EXTMEM - 0) - 1) div 4096"
    "UPAGES + 256 = unat (KERNBASE + EXTMEM) div 4096"
    "D - 1 = unat (KERNBASE + EXTMEM + (V2P kdata - V2P (KERNBASE + EXTMEM)) - 1) div 4096"
    "D = unat kdata div 4096" "UPAGES + 57343 = unat (kdata + (PHYSTOP - V2P kdata) - 1) div 4096"
    "1040384 = unat DEVSPACE div 4096" "1048575 = unat (DEVSPACE + (0 - DEVSPACE) - 1) div 4096"
    "V2P kdata = of_nat (4096 * (D - UPAGES))"
proof -
  have uD: "unat kdata = 4096 * D" using D by simp
  have "unat (kdata - 1) = 4096 * D - 1" using uD D by (simp add: unat_sub word_le_nat_alt)
  moreover have "(4096 * D - 1) div 4096 = D - 1" using D by linarith
  moreover have e: "KERNBASE + EXTMEM + (V2P kdata - V2P (KERNBASE + EXTMEM)) - 1 = kdata - 1" by (simp add: V2P_def)
  ultimately show "D - 1 = unat (KERNBASE + EXTMEM + (V2P kdata - V2P (KERNBASE + EXTMEM)) - 1) div 4096" unfolding e by simp
  have "kdata + (PHYSTOP - V2P kdata) - 1 = 0x8DFFFFFF" by (simp add: V2P_def PHYSTOP_def KERNBASE_def)
  then show "UPAGES + 57343 = unat (kdata + (PHYSTOP - V2P kdata) - 1) div 4096" by simp
  have "unat (V2P kdata) = 4096 * D - 2147483648" using uD D by (simp add: V2P_def KERNBASE_def unat_sub word_le_nat_alt)
  moreover have "4096 * D - 2147483648 = 4096 * (D - UPAGES)" "4096 * (D - UPAGES) < 2 ^ 32" using D by simp_all
  ultimately show "V2P kdata = of_nat (4096 * (D - UPAGES))" unfolding word_unat_eq_iff unat_of_nat by simp
  have e: "DEVSPACE + (0 - DEVSPACE) - 1 = 0xFFFFFFFF" by simp
  show "1048575 = unat (DEVSPACE + (0 - DEVSPACE) - 1) div 4096" unfolding e by simp
qed (use D in \<open>simp_all add: KERNBASE_def EXTMEM_def DEVSPACE_def\<close>)

text \<open>What the four ranges amount to.\<close>

lemma kernel_ent_ranges:
  assumes D: "kdata = va_of D" "UPAGES + 256 < D" "D < UPAGES + 57344" and m: "m < 1048576"
  shows "(if 1040384 \<le> m \<and> m \<le> 1048575 then (DEVSPACE + 4096 * of_nat (m - 1040384)) OR PTE_W OR PTE_P
     else if D \<le> m \<and> m \<le> UPAGES + 57343 then (V2P kdata + 4096 * of_nat (m - D)) OR PTE_W OR PTE_P
     else if UPAGES + 256 \<le> m \<and> m \<le> D - 1 then (V2P (KERNBASE + EXTMEM) + 4096 * of_nat (m - (UPAGES + 256))) OR 0 OR PTE_P
     else if UPAGES \<le> m \<and> m \<le> UPAGES + 255 then (0 + 4096 * of_nat (m - UPAGES)) OR PTE_W OR PTE_P else 0) = kernel_ent D m"
proof -
  have a: "V2P (KERNBASE + EXTMEM) = of_nat (4096 * (UPAGES + 256 - UPAGES))" by (simp add: V2P_def EXTMEM_def)
  consider "1040384 \<le> m" | "D \<le> m" "m < UPAGES + 57344" | "UPAGES + 256 \<le> m" "m < D" | "UPAGES \<le> m" "m < UPAGES + 256"
    | "m < UPAGES" | "UPAGES + 57344 \<le> m" "m < 1040384" by linarith
  then show ?thesis
  proof cases
    case 2
    then show ?thesis using kern_addr [of D m] kmap_pages(9) [OF D] D by (simp add: kernel_ent_def)
  next
    case 3
    then have "m \<le> D - 1" by linarith
    with 3 show ?thesis using kern_addr [of "UPAGES + 256" m] a D by (simp add: kernel_ent_def)
  qed (use D m in \<open>auto simp: kernel_ent_def DEVSPACE_def\<close>)
qed

lemma setupkvm_ok:
  assumes inv: "kmem_inv s (x # xs)" and room: "128 \<le> length xs" and D: "kdata = va_of D" "UPAGES + 256 < D" "D < UPAGES + 57344"
  shows "\<exists>t zs ys. setupkvm kdata s = Inr (x, t) \<and> xs = zs @ ys \<and> length zs \<le> 128 \<and> building x s zs ys (kernel_ent D) t"
proof -
  note pg = kmap_pages [OF D]
  have ar: "UPAGES + 256 \<le> D - 1" "Suc ((D - 1) div 1024 - (UPAGES + 256) div 1024) \<le> 57" "UPAGES \<le> D" "D \<le> UPAGES + 57343"
    "Suc ((UPAGES + 57343) div 1024 - D div 1024) \<le> 57"
    using D(2,3) by auto
  have page: "x \<noteq> 0" using page_nonzero kmem_inv_free [OF inv, of x] by auto
  obtain a where a: "kalloc (- 2) s = Inr (x, a)" and s0: "building x s [] xs (\<lambda>_. 0) (zero_page x a)"
    using empty_space [OF inv, of UPAGES] by (auto simp: building_def)
  let ?k = "V2P (KERNBASE + EXTMEM)"
  define E1 where "E1 = (\<lambda>m. if UPAGES \<le> m \<and> m \<le> UPAGES + 255 then (0 + 4096 * of_nat (m - UPAGES)) OR PTE_W OR PTE_P else 0)"
  define E2 where "E2 = (\<lambda>m. if UPAGES + 256 \<le> m \<and> m \<le> D - 1 then (?k + 4096 * of_nat (m - (UPAGES + 256))) OR 0 OR PTE_P else E1 m)"
  define E3 where "E3 = (\<lambda>m. if D \<le> m \<and> m \<le> UPAGES + 57343 then (V2P kdata + 4096 * of_nat (m - D)) OR PTE_W OR PTE_P else E2 m)"
  define E4 where "E4 = (\<lambda>m. if 1040384 \<le> m \<and> m \<le> 1048575 then (DEVSPACE + 4096 * of_nat (m - 1040384)) OR PTE_W OR PTE_P else E3 m)"
  have f1: "\<not> present (E1 m)" if "UPAGES + 256 \<le> m" for m using that by (simp add: E1_def)
  have f2: "\<not> present (E2 m)" if "D \<le> m" for m
  proof -
    have "\<not> m \<le> D - 1" "UPAGES + 256 \<le> m" using that D(2) by linarith+
    then show ?thesis using f1 by (simp add: E2_def)
  qed
  have f3: "\<not> present (E3 m)" if "1040384 \<le> m" for m
  proof -
    have "\<not> m \<le> UPAGES + 57343" "D \<le> m" using that D(3) by linarith+
    then show ?thesis using f2 by (simp add: E3_def)
  qed
  obtain s1 z1 y1 where s1: "mappages x KERNBASE (EXTMEM - 0) 0 PTE_W (zero_page x a) = Inr (0, s1)" "xs = z1 @ y1" "length z1 \<le> 1"
    "building x s ([] @ z1) y1 E1 s1"
    using building_map [OF s0 pg(1,2), of 1 0 PTE_W] room unfolding E1_def by auto
  have y1: "57 \<le> length y1" "127 \<le> length y1" using s1(2,3) room by simp_all
  obtain s2 z2 y2 where s2: "mappages x (KERNBASE + EXTMEM) (V2P kdata - ?k) ?k 0 s1 = Inr (0, s2)" "y1 = z2 @ y2" "length z2 \<le> 57"
    "building x s (([] @ z1) @ z2) y2 E2 s2"
    using building_map [OF s1(4) pg(3,4) le_add1 ar(1) f1 ar(2) y1(1), of ?k 0] unfolding E2_def by blast
  have y2: "57 \<le> length y2" "70 \<le> length y2" using s2(2,3) y1 by simp_all
  obtain s3 z3 y3 where s3: "mappages x kdata (PHYSTOP - V2P kdata) (V2P kdata) PTE_W s2 = Inr (0, s3)" "y2 = z3 @ y3" "length z3 \<le> 57"
    "building x s ((([] @ z1) @ z2) @ z3) y3 E3 s3"
    using building_map [OF s2(4) pg(5,6) ar(3,4) f2 ar(5) y2(1), of "V2P kdata" PTE_W] unfolding E3_def by blast
  have "13 \<le> length y3" using s3(2,3) y2 by simp
  then obtain s4 z4 y4 where s4: "mappages x DEVSPACE (0 - DEVSPACE) DEVSPACE PTE_W s3 = Inr (0, s4)" "y3 = z4 @ y4"
    "building x s (((([] @ z1) @ z2) @ z3) @ z4) y4 E4 s4" "length z4 \<le> 8"
    using building_map [OF s3(4) pg(7,8) _ _ f3, of 8 DEVSPACE PTE_W] unfolding E4_def by auto
  have E4: "E4 m = kernel_ent D m" if "m < 1048576" for m
    unfolding E4_def E3_def E2_def E1_def by (rule kernel_ent_ranges [OF D that])
  have "building x s (z1 @ z2 @ z3 @ z4) y4 (kernel_ent D) s4"
    using s4(3) E4 by (simp add: building_def)
  moreover have "setupkvm kdata s = Inr (x, s4)"
    using a page s1(1) s2(1) s3(1) s4(1) by (simp add: setupkvm_def kmap_def P2V_def PHYSTOP_def DEVSPACE_def KERNBASE_def)
  moreover have "xs = (z1 @ z2 @ z3 @ z4) @ y4" using s1(2) s2(2) s3(2) s4(2) by simp
  moreover have "length (z1 @ z2 @ z3 @ z4) \<le> 128" using s1(3) s2(3) s3(3) s4(4) by simp
  ultimately show ?thesis by blast
qed

section \<open>Copying\<close>

lemma copy_taken:
  assumes "kmem_inv a ys" "page_ok x" "x \<notin> set ys"
  shows "kmem_inv (copy_page x p a) ys" "evolves {} {x} a (copy_page x p a)"
    "\<And>k. k < 1024 \<Longrightarrow> km_mem (copy_page x p a) (slot x k) = km_mem a (slot p k)" "km_pid (copy_page x p a) = km_pid a"
proof -
  show "kmem_inv (copy_page x p a) ys"
    by (rule kmem_inv_mem [OF assms(1), of _ "km_mem (copy_page x p a)"])
      (use assms kmem_inv_free [OF assms(1)] slot_in_page [of x _ 0] in \<open>auto simp: copy_page_def\<close>)
  show "evolves {} {x} a (copy_page x p a)"
    by (rule evolves_page [where m = "km_mem (copy_page x p a)"]) (use assms(2) in \<open>auto simp: copy_page_def\<close>)
  show "km_mem (copy_page x p a) (slot x k) = km_mem a (slot p k)" if "k < 1024" for k
    using slot_in_page [OF assms(2,2) that] by (simp add: copy_page_def slot_def)
qed (simp add: copy_page_def)

lemma flags_low: "take_bit 12 (PTE_FLAGS e) = PTE_FLAGS e"
  using take_bit_eq_mask [of 12 e] by (simp add: PTE_FLAGS_def mask_numeral)

lemma present_flags: "present (PTE_FLAGS e) = present e"
  by (simp add: present_def PTE_P_def PTE_FLAGS_def and.assoc)

text \<open>Two address spaces that share no page.\<close>

definition apart :: "kmem \<Rightarrow> u32 \<Rightarrow> u32 \<Rightarrow> bool" where
  "apart s p d \<longleftrightarrow> used UPAGES s p \<inter> used UPAGES s d = {}"

text \<open>What happens to one address space does not concern another.\<close>

lemma other_space:
  assumes p: "space_ok UPAGES s p xs" and inv: "kmem_inv t ys" and ys: "set ys \<subseteq> set xs"
    and ev: "evolves (set xs) P s t" and P: "used UPAGES s p \<inter> P = {}"
  shows "space_ok UPAGES t p ys" "\<And>n. n < 1048576 \<Longrightarrow> ent t p n = ent s p n" "used UPAGES t p = used UPAGES s p"
    "\<And>n k. n < UPAGES \<Longrightarrow> present (ent s p n) \<Longrightarrow> k < 1024 \<Longrightarrow> km_mem t (slot (frame (ent s p n)) k) = km_mem s (slot (frame (ent s p n)) k)"
proof -
  have sp0: "space_ok 0 s p xs" using space_ok_less [OF p] by simp
  have u0: "used 0 s p \<subseteq> used UPAGES s p" using page_of_less [of 0 s p _ _ UPAGES] by (auto simp: used_def)
  have "used 0 s p \<inter> set xs = {}" using space_okD(4) [OF sp0] by (auto simp: used_def)
  note same = evolves_space [OF sp0 ev this]
  have dis: "used 0 s p \<inter> P = {}" using u0 P by blast
  show "ent t p n = ent s p n" if "n < 1048576" for n using same(2) [OF dis that] .
  have po: "page_of UPAGES t p = page_of UPAGES s p" using same(3) [OF dis] by simp
  then show "used UPAGES t p = used UPAGES s p" by (simp add: used_def)
  show "space_ok UPAGES t p ys"
    by (rule space_ok_sub [OF p inv]) (use ev po ys space_okD(4) [OF p] in \<open>auto simp: evolves_def\<close>)
  show "km_mem t (slot (frame (ent s p n)) k) = km_mem s (slot (frame (ent s p n)) k)"
    if "n < UPAGES" "present (ent s p n)" "k < 1024" for n k
  proof -
    have u: "page_of UPAGES s p (Usr n) = Some (frame (ent s p n))" using that by simp
    then have "frame (ent s p n) \<in> used UPAGES s p" unfolding used_def by blast
    then have "frame (ent s p n) \<notin> P" using P by blast
    then have "same_page (frame (ent s p n)) s t"
      using ev space_okD(2,4) [OF p u] unfolding evolves_def by blast
    then show ?thesis using same_page_slot space_okD(2) [OF p u] that(3) by blast
  qed
qed

text \<open>The parent's pages from \<open>n\<close> up to \<open>l\<close> are present, with the flags \<open>perm\<close> and the contents \<open>c\<close>.\<close>

definition has_pages :: "kmem \<Rightarrow> u32 \<Rightarrow> nat \<Rightarrow> nat \<Rightarrow> (nat \<Rightarrow> u32) \<Rightarrow> (nat \<Rightarrow> nat \<Rightarrow> u32) \<Rightarrow> bool" where
  "has_pages s p n l perm c \<longleftrightarrow> (\<forall>m. n \<le> m \<longrightarrow> m < l \<longrightarrow> present (ent s p m) \<and> PTE_FLAGS (ent s p m) = perm m \<and>
     (\<forall>k < 1024. km_mem s (slot (frame (ent s p m)) k) = c m k))"

lemma ent_present: "present (ent s p n) \<Longrightarrow> present (pde s p (n div 1024))"
  by (auto simp: ent_def split: if_splits)

lemma copy_step:
  assumes p: "space_ok UPAGES s p xs" and d: "space_ok UPAGES s d xs" and ap: "apart s p d" and pid: "pid \<noteq> - 1"
    and n: "n < UPAGES" "present (ent s p n)" "\<not> present (ent s d n)"
  shows "kalloc pid s = Inl no_page \<and> room pid s xs = 0 \<or>
    (\<exists>x a. kalloc pid s = Inr (x, a) \<and> x \<noteq> 0 \<and>
      (let b = copy_page x (frame (ent s p n)) a in
       mappages d (va_of n) PGSIZE (V2P x) (PTE_FLAGS (ent s p n)) b = Inl no_page \<and> room pid s xs < 2 \<or>
       (\<exists>t ws. mappages d (va_of n) PGSIZE (V2P x) (PTE_FLAGS (ent s p n)) b = Inr (0, t) \<and> space_ok UPAGES t d ws \<and>
         grown pid d n (Suc n) (\<lambda>_. PTE_FLAGS (ent s p n)) (\<lambda>_ k. km_mem s (slot (frame (ent s p n)) k)) xs ws s t)))"
proof -
  note inv = space_okD(1) [OF d]
  from kalloc_evolves [OF inv pid] show ?thesis
  proof
    assume "\<exists>x ys t. kalloc pid s = Inr (x, t) \<and> x \<in> set xs \<and> kmem_inv t ys \<and> set ys = set xs - {x} \<and>
      evolves (set xs) {} s t \<and> (fidx x < MAX_FRAME_NUM \<longrightarrow> km_pid t (fidx x) = pid) \<and> calm pid s t"
    then obtain x ys a where a: "kalloc pid s = Inr (x, a)" "x \<in> set xs" "kmem_inv a ys" "set ys = set xs - {x}"
      "evolves (set xs) {} s a" "fidx x < MAX_FRAME_NUM \<longrightarrow> km_pid a (fidx x) = pid" "calm pid s a" by blast
    have px: "page_ok x" "x \<notin> set ys" using kmem_inv_free [OF inv a(2)] a(4) by auto
    let ?f = "frame (ent s p n)"
    note z = copy_taken [OF a(3) px, where p = ?f]
    have sub: "set ys \<subseteq> set xs" using a(4) by auto
    have c: "km_mem (copy_page x ?f a) (slot x k) = km_mem s (slot ?f k)" if "k < 1024" for k
      using z(3) [OF that] other_space(4) [OF p a(3) sub a(5) _ n(1,2) that] by simp
    have o: "fidx x < MAX_FRAME_NUM \<Longrightarrow> km_pid (copy_page x ?f a) (fidx x) = pid" using a(6) z(4) by simp
    have cc: "calm pid s (copy_page x ?f a)" using a(7) z(4) by (simp add: calm_def)
    note gs = grow_step [OF d n(1,3) flags_low a(2,4) z(1) evolves_taken [OF a(5,2) z(2)] c o cc]
    show ?thesis
      by (rule disjI2, intro exI [of _ x] exI [of _ a]) (use gs a(1) page_nonzero [OF px(1)] in simp)
  qed blast
qed

lemma has_pages_other:
  assumes "has_pages s p n l perm c" "l \<le> UPAGES" "\<And>m. m < 1048576 \<Longrightarrow> ent t p m = ent s p m"
    "\<And>m k. m < UPAGES \<Longrightarrow> present (ent s p m) \<Longrightarrow> k < 1024 \<Longrightarrow> km_mem t (slot (frame (ent s p m)) k) = km_mem s (slot (frame (ent s p m)) k)"
  shows "has_pages t p n l perm c"
  unfolding has_pages_def
proof (intro allI impI)
  fix m assume m: "n \<le> m" "m < l"
  then have "present (ent s p m)" "PTE_FLAGS (ent s p m) = perm m" "\<forall>k < 1024. km_mem s (slot (frame (ent s p m)) k) = c m k"
    using assms(1) unfolding has_pages_def by blast+
  moreover have "ent t p m = ent s p m" using assms(2,3) m by simp
  ultimately show "present (ent t p m) \<and> PTE_FLAGS (ent t p m) = perm m \<and> (\<forall>k < 1024. km_mem t (slot (frame (ent t p m)) k) = c m k)"
    using assms(2,4) m by simp
qed

lemma copy_round:
  assumes p: "space_ok UPAGES s p xs" and d: "space_ok UPAGES s d xs" and ap: "apart s p d" and pid: "pid \<noteq> - 1"
    and n: "n < UPAGES" "n < npages sz" "npages sz \<le> UPAGES" and hp: "has_pages s p n (npages sz) perm c" and fr: "\<not> present (ent s d n)"
  shows "copy_loop p d (va_of n) sz pid s = Some (Inl no_page) \<and> room pid s xs < 2 \<or>
    (\<exists>t ws. copy_loop p d (va_of n) sz pid s = copy_loop p d (va_of (Suc n)) sz pid t \<and> space_ok UPAGES t d ws \<and>
      grown pid d n (Suc n) perm c xs ws s t)"
proof -
  have lt: "va_of n < sz" using npages_less [of n sz] n by simp
  have pr: "present (ent s p n)" "PTE_FLAGS (ent s p n) = perm n" "\<forall>k < 1024. km_mem s (slot (frame (ent s p n)) k) = c n k"
    using hp n(2) unfolding has_pages_def by blast+
  have n': "n < 1048576" "n div 1024 < 1024" using n by auto
  let ?pte = "slot (tab s p (n div 1024)) (n mod 1024)" and ?f = "frame (ent s p n)"
  have wk: "walkpgdir p (va_of n) False s = Inr (?pte, s)" "km_mem s ?pte = ent s p n"
    using walk_present [OF n'(1) ent_present [OF pr(1)]] ent_slot [OF ent_present [OF pr(1)]] by simp_all
  have ne: "?pte \<noteq> 0" by (rule page_ne_0) (use space_tab [OF p n'(2) ent_present [OF pr(1)]] in auto)
  from copy_step [OF p d ap pid n(1) pr(1) fr] consider (none) "kalloc pid s = Inl no_page" "room pid s xs = 0"
    | (nomap) x a where "kalloc pid s = Inr (x, a)" "x \<noteq> 0"
        "mappages d (va_of n) PGSIZE (V2P x) (PTE_FLAGS (ent s p n)) (copy_page x ?f a) = Inl no_page" "room pid s xs < 2"
    | (ok) x a t ws where "kalloc pid s = Inr (x, a)" "x \<noteq> 0" "space_ok UPAGES t d ws"
        "mappages d (va_of n) PGSIZE (V2P x) (PTE_FLAGS (ent s p n)) (copy_page x ?f a) = Inr (0, t)"
        "grown pid d n (Suc n) (\<lambda>_. PTE_FLAGS (ent s p n)) (\<lambda>_ k. km_mem s (slot ?f k)) xs ws s t"
    unfolding Let_def by meson
  then show ?thesis
  proof cases
    case none
    then show ?thesis using lt wk ne pr(1) by (subst copy_loop.simps) simp
  next
    case nomap
    then show ?thesis using lt wk ne pr(1) by (subst copy_loop.simps) (simp add: frame_def)
  next
    case ok
    have "copy_loop p d (va_of n) sz pid s = copy_loop p d (va_of (Suc n)) sz pid t"
      using ok(1,2,4) lt wk ne pr(1) by (subst copy_loop.simps) (simp add: frame_def)
    moreover have "grown pid d n (Suc n) perm c xs ws s t"
      by (rule grown_one) (use ok(5) pr(2,3) in \<open>simp add: grown_def new_page_def\<close>)
    ultimately show ?thesis using ok(3) by blast
  qed
qed

text \<open>The parent after a round of the copy.\<close>

lemma copy_parent:
  assumes p: "space_ok UPAGES s p xs" and ap: "apart s p d" and d: "space_ok UPAGES t d ws" and g: "grown pid d n k perm c xs ws s t"
  shows "space_ok UPAGES t p ws" "apart t p d" "\<And>m. m < 1048576 \<Longrightarrow> ent t p m = ent s p m"
    "l \<le> UPAGES \<Longrightarrow> has_pages s p i l perm c \<Longrightarrow> has_pages t p i l perm c"
    "\<And>m k. m < UPAGES \<Longrightarrow> present (ent s p m) \<Longrightarrow> k < 1024 \<Longrightarrow> km_mem t (slot (frame (ent s p m)) k) = km_mem s (slot (frame (ent s p m)) k)"
proof -
  have ev: "evolves (set xs) (used 0 s d) s t" and sub: "set ws \<subseteq> set xs"
    and ud: "used UPAGES t d = used UPAGES s d \<union> (set xs - set ws)" using g unfolding grown_def by blast+
  have "used 0 s d \<subseteq> used UPAGES s d" using page_of_less [of 0 s d _ _ UPAGES] by (auto simp: used_def)
  then have P: "used UPAGES s p \<inter> used 0 s d = {}" using ap unfolding apart_def by blast
  note os = other_space [OF p space_okD(1) [OF d] sub ev P]
  show "space_ok UPAGES t p ws" "\<And>m. m < 1048576 \<Longrightarrow> ent t p m = ent s p m"
    "\<And>m k. m < UPAGES \<Longrightarrow> present (ent s p m) \<Longrightarrow> k < 1024 \<Longrightarrow> km_mem t (slot (frame (ent s p m)) k) = km_mem s (slot (frame (ent s p m)) k)"
    using os by blast+
  have "used UPAGES s p \<inter> set xs = {}" using space_okD(4) [OF p] by (auto simp: used_def)
  then show "apart t p d" using ap os(3) ud unfolding apart_def by blast
  show "has_pages t p i l perm c" if "l \<le> UPAGES" "has_pages s p i l perm c"
    by (rule has_pages_other [OF that(2,1) os(2,4)])
qed

lemma copy_loop_ok:
  assumes "space_ok UPAGES s p xs" "space_ok UPAGES s d xs" "apart s p d" "pid \<noteq> - 1" "sz \<le> KERNBASE" "n \<le> UPAGES"
    "has_pages s p n (npages sz) perm c" "\<And>m. n \<le> m \<Longrightarrow> m < npages sz \<Longrightarrow> \<not> present (ent s d m)"
  shows "copy_loop p d (va_of n) sz pid s = Some (Inl no_page) \<and> room pid s xs < 2 * (npages sz - n) \<or>
    (\<exists>t ys. copy_loop p d (va_of n) sz pid s = Some (Inr (d, t)) \<and> space_ok UPAGES t d ys \<and>
      grown pid d n (npages sz) perm c xs ys s t)"
  using assms
proof (induction "UPAGES - n" arbitrary: n s xs rule: less_induct)
  case (less n s xs)
  let ?l = "npages sz"
  have L: "?l \<le> UPAGES" using npages_user less.prems(5) by blast
  show ?case
  proof (cases "n < ?l")
    case False
    then show ?thesis using less.prems(2,6) npages_less [of n sz] grown_none by (subst copy_loop.simps) auto
  next
    case True
    have n: "n < UPAGES" "Suc n \<le> ?l" "UPAGES - Suc n < UPAGES - n" "Suc n \<le> UPAGES" using True L by linarith+
    have fr: "\<not> present (ent s d n)" using less.prems(8) True by simp
    from copy_round [OF less.prems(1-4) n(1) True L less.prems(7) fr] show ?thesis
    proof
      assume "\<exists>t ws. copy_loop p d (va_of n) sz pid s = copy_loop p d (va_of (Suc n)) sz pid t \<and> space_ok UPAGES t d ws \<and>
        grown pid d n (Suc n) perm c xs ws s t"
      then obtain t ws where t: "copy_loop p d (va_of n) sz pid s = copy_loop p d (va_of (Suc n)) sz pid t"
        "space_ok UPAGES t d ws" "grown pid d n (Suc n) perm c xs ws s t" by blast
      note cp = copy_parent [OF less.prems(1,3) t(2,3)]
      have hp: "has_pages t p (Suc n) ?l perm c" using cp(4) [OF L less.prems(7)] unfolding has_pages_def by simp
      have fr': "\<not> present (ent t d m)" if "Suc n \<le> m" "m < ?l" for m
      proof -
        have "ent t d m = ent s d m" using t(3) that L unfolding grown_def by auto
        then show ?thesis using less.prems(8) that by simp
      qed
      have low: "take_bit 12 (perm m) = perm m" if "n \<le> m" "m < Suc n" for m
      proof -
        have "perm m = PTE_FLAGS (ent s p m)" using less.prems(7) that True unfolding has_pages_def by auto
        then show ?thesis by (simp add: flags_low)
      qed
      have all: "grown pid d n ?l perm c xs zs s u" if "grown pid d (Suc n) ?l perm c ws zs t u" for zs u
        using grown_trans [OF t(3) that t(2) space_okD(1) [OF less.prems(2)] le_SucI [OF order_refl] n(2) L] low by blast
      have few: "room pid t ws < 2 * (?l - Suc n) \<Longrightarrow> room pid s xs < 2 * (?l - n)"
        using t(3) True unfolding grown_def by linarith
      have "copy_loop p d (va_of (Suc n)) sz pid t = Some (Inl no_page) \<and> room pid t ws < 2 * (?l - Suc n) \<or>
        (\<exists>u ys. copy_loop p d (va_of (Suc n)) sz pid t = Some (Inr (d, u)) \<and> space_ok UPAGES u d ys \<and>
          grown pid d (Suc n) ?l perm c ws ys t u)"
        using less.hyps [OF n(3) cp(1) t(2) cp(2) less.prems(4,5) n(4) hp] fr' by blast
      then show ?thesis unfolding t(1) using all few by blast
    qed (use True in auto)
  qed
qed

text \<open>The pages that were added, seen as contents of the address space.\<close>

lemma low_split:
  assumes "take_bit 12 perm = perm" "PTE_ADDR e = e"
  shows "PTE_FLAGS (e OR perm) = perm"
proof -
  have "take_bit 12 e = 0" using assms(2) by (simp add: PTE_ADDR_low)
  then show ?thesis using assms(1) take_bit_eq_mask [of 12 "e OR perm"] by (simp add: PTE_FLAGS_def mask_numeral)
qed

lemma present_odd: "present e \<longleftrightarrow> odd e"
  by (simp add: present_def PTE_P_def and_one_eq odd_iff_mod_2_eq_one)

lemma present_or_P: "present e \<Longrightarrow> e OR PTE_P = e"
  by (simp add: present_odd PTE_P_def or_one_eq)

lemma present_or_left: "present e \<Longrightarrow> present (a OR e)"
  by (simp add: present_odd even_or_iff)

lemma V2P_addr: "page_ok f \<Longrightarrow> PTE_ADDR (V2P f) = V2P f"
  using frame_or [of f 0] by (simp add: frame_def P2V_def V2P_def algebra_simps)

lemma grown_pages:
  assumes g: "grown pid d n l perm c xs ys s t" and inv: "kmem_inv s xs"
    and perm: "\<And>m. n \<le> m \<Longrightarrow> m < l \<Longrightarrow> take_bit 12 (perm m) = perm m \<and> present (perm m)"
  shows "has_pages t d n l perm c" "\<And>m. n \<le> m \<Longrightarrow> m < l \<Longrightarrow> frame (ent t d m) \<in> set xs \<and>
    (fidx (frame (ent t d m)) < MAX_FRAME_NUM \<longrightarrow> km_pid t (fidx (frame (ent t d m))) = pid)"
proof -
  have page: "\<exists>f. f \<in> set xs \<and> frame (ent t d m) = f \<and> present (ent t d m) \<and> PTE_FLAGS (ent t d m) = perm m \<and>
      (\<forall>k < 1024. km_mem t (slot f k) = c m k) \<and> (fidx f < MAX_FRAME_NUM \<longrightarrow> km_pid t (fidx f) = pid)" if m: "n \<le> m" "m < l" for m
  proof -
    obtain f where f: "new_page pid (perm m) (c m) xs (ent t d m) t f" using g m unfolding grown_def by blast
    have pm: "take_bit 12 (perm m) = perm m" "perm m OR PTE_P = perm m" using perm [OF m] present_or_P by blast+
    then have e: "ent t d m = V2P f OR perm m" using f by (simp add: new_page_def or.assoc)
    have "page_ok f" using f kmem_inv_free [OF inv] by (simp add: new_page_def)
    then have "frame (ent t d m) = f" "PTE_FLAGS (ent t d m) = perm m" "present (ent t d m)"
      using frame_or pm(1) low_split [OF pm(1) V2P_addr] frame_entry [of f "perm m"] f unfolding e by (simp_all add: present_or_left perm [OF m])
    then show ?thesis using f unfolding new_page_def by blast
  qed
  show "has_pages t d n l perm c" unfolding has_pages_def using page by metis
  show "frame (ent t d m) \<in> set xs \<and> (fidx (frame (ent t d m)) < MAX_FRAME_NUM \<longrightarrow> km_pid t (fidx (frame (ent t d m))) = pid)"
    if "n \<le> m" "m < l" for m using page [OF that] by blast
qed

lemma copyuvm_ok:
  assumes p: "space_ok UPAGES s p (x # xs)" and len: "128 \<le> length xs" and D: "kdata = va_of D" "UPAGES + 256 < D" "D < UPAGES + 57344"
    and pid: "pid \<noteq> - 1" and sz: "sz \<le> KERNBASE" and hp: "has_pages s p 0 (npages sz) perm c"
  shows "copyuvm kdata p sz pid s = Inl no_page \<and> room pid s (x # xs) < 129 + 2 * npages sz \<or>
    (\<exists>t ys. copyuvm kdata p sz pid s = Inr (x, t) \<and> space_ok UPAGES t x ys \<and> space_ok UPAGES t p ys \<and> apart t p x \<and>
      has_pages t x 0 (npages sz) perm c \<and> has_pages t p 0 (npages sz) perm c \<and>
      (\<forall>m < npages sz. fidx (frame (ent t x m)) < MAX_FRAME_NUM \<longrightarrow> km_pid t (fidx (frame (ent t x m))) = pid) \<and>
      (\<forall>m < 1048576. npages sz \<le> m \<longrightarrow> ent t x m = kernel_ent D m) \<and> (\<forall>m < 1048576. ent t p m = ent s p m))"
proof -
  note inv = space_okD(1) [OF p]
  obtain a zs ys where a: "setupkvm kdata s = Inr (x, a)" "xs = zs @ ys" "length zs \<le> 128" "building x s zs ys (kernel_ent D) a"
    using setupkvm_ok [OF inv len D] by blast
  have d: "space_ok UPAGES a x ys" and en: "\<And>m. m < 1048576 \<Longrightarrow> ent a x m = kernel_ent D m" and us: "used 0 a x = insert x (set zs)"
    and ev: "evolves (insert x (set zs)) {} s a" and ca: "calm (- 2) s a" using a(4) by (simp_all add: building_def)
  have ev': "evolves (set (x # xs)) {} s a" by (rule evolves_mono [OF ev]) (use a(2) in auto)
  have sub: "set ys \<subseteq> set (x # xs)" using a(2) by auto
  note os = other_space [OF p space_okD(1) [OF d] sub ev' Int_empty_right]
  have none: "\<not> present (ent a x m)" if "m < UPAGES" for m using en that by (simp add: kernel_ent_def)
  have "frames a x 0 UPAGES = {}" "frames a x 0 0 = {}" using none unfolding frames_def by blast+
  then have "used UPAGES a x = insert x (set zs)" using us unfolding used_parts by simp
  moreover have "used UPAGES s p \<inter> set (x # xs) = {}" using space_okD(4) [OF p] by (auto simp: used_def)
  ultimately have ap: "apart a p x" using os(3) a(2) unfolding apart_def by auto
  have hp': "has_pages a p 0 (npages sz) perm c" by (rule has_pages_other [OF hp npages_user [OF sz] os(2,4)])
  have cp: "copyuvm kdata p sz pid s = ends (copy_loop p x (va_of 0) sz pid a)"
    using a(1) page_nonzero kmem_inv_free [OF inv, of x] by (simp add: copyuvm_def va_of_def)
  have fr: "\<not> present (ent a x m)" if "0 \<le> m" "m < npages sz" for m using none that npages_user [OF sz] by simp
  have rm: "room pid s (x # xs) \<le> room pid a ys + 129"
  proof -
    have "set (x # xs) \<subseteq> set ys \<union> set (x # zs)" using a(2) by auto
    from room_taken [OF calm_kernel [OF ca] this, of pid] a(3) show ?thesis by simp
  qed
  from copy_loop_ok [OF os(1) d ap pid sz _ hp' fr] show ?thesis
  proof
    assume "copy_loop p x (va_of 0) sz pid a = Some (Inl no_page) \<and> room pid a ys < 2 * (npages sz - 0)"
    then show ?thesis using cp rm by (simp add: ends_def)
  next
    assume "\<exists>t zs. copy_loop p x (va_of 0) sz pid a = Some (Inr (x, t)) \<and> space_ok UPAGES t x zs \<and> grown pid x 0 (npages sz) perm c ys zs a t"
    then obtain t ws where t: "copy_loop p x (va_of 0) sz pid a = Some (Inr (x, t))" "space_ok UPAGES t x ws"
      "grown pid x 0 (npages sz) perm c ys ws a t" by blast
    note cpt = copy_parent [OF os(1) ap t(2,3)]
    have low: "take_bit 12 (perm m) = perm m \<and> present (perm m)" if "0 \<le> m" "m < npages sz" for m
      using hp that flags_low present_flags unfolding has_pages_def by metis
    note gp = grown_pages [OF t(3) space_okD(1) [OF d] low]
    have "ent t x m = kernel_ent D m" if "m < 1048576" "npages sz \<le> m" for m
      using t(3) en that unfolding grown_def by auto
    moreover have "has_pages t p 0 (npages sz) perm c" using cpt(4) [OF npages_user [OF sz] hp'] .
    moreover have "ent t p m = ent s p m" if "m < 1048576" for m using cpt(3) os(2) that by simp
    ultimately show ?thesis using cp t(1,2) cpt(1,2) gp by (auto simp: ends_def)
  qed simp
qed

end
