(* ===== verification/VmBytes.thy ===== *)
theory VmBytes
  imports VmCopy
begin

text \<open>
  User memory by bytes: \<open>ubyte s d a\<close> is the byte the process with page directory \<open>d\<close> has at address \<open>a\<close>.
  Writing bytes into a page, and \<open>copyout\<close> across pages.
\<close>

unbundle bit_operations_syntax

section \<open>Bytes of words\<close>

lemma bit_byte_of: "bit (byte_of w k) i \<longleftrightarrow> i < 8 \<and> bit w (8 * k + i)"
proof -
  have "bit (ucast x :: u8) i \<longleftrightarrow> i < LENGTH(8) \<and> bit x i" for x :: u32 by (rule bit_ucast_iff)
  moreover have "LENGTH(8) = 8" by simp
  ultimately show ?thesis unfolding byte_of_def by (simp add: bit_drop_bit_eq)
qed

lemma bit_set_byte:
  assumes "k < 4" "i < 32"
  shows "bit (set_byte w k b) i \<longleftrightarrow> (if 8 * k \<le> i \<and> i < 8 * k + 8 then bit b (i - 8 * k) else bit w i)"
proof -
  have m: "bit (0xFF :: u32) j \<longleftrightarrow> j < 8" for j
  proof -
    have e: "(0xFF :: u32) = mask 8" by (simp add: mask_numeral)
    show ?thesis unfolding e bit_mask_iff by auto
  qed
  have "bit (set_byte w k b) i \<longleftrightarrow> bit w i \<and> \<not> (8 * k \<le> i \<and> bit (0xFF :: u32) (i - 8 * k)) \<or> 8 * k \<le> i \<and> bit (ucast b :: u32) (i - 8 * k)"
    using assms(2) unfolding set_byte_def by (simp add: bit_or_iff bit_and_iff bit_not_iff bit_push_bit_iff)
  then show ?thesis using assms bit_imp_le_length [of b "i - 8 * k"] unfolding m bit_ucast_iff by auto
qed

lemma byte_of_set_byte:
  assumes "j < 4" "k < 4"
  shows "byte_of (set_byte w k b) j = (if j = k then b else byte_of w j)"
proof (rule bit_word_eqI)
  fix i assume "i < LENGTH(8)"
  then have i: "i < 8" by simp
  have "8 * j + i < 32" using assms i by simp
  then show "bit (byte_of (set_byte w k b) j) i \<longleftrightarrow> bit (if j = k then b else byte_of w j) i"
    using assms i by (auto simp: bit_byte_of bit_set_byte)
qed

section \<open>Bytes of memory\<close>

lemma word_part: "unat (a AND NOT 3) = unat a div 4 * 4" "unat (a AND 3) = unat a mod 4" for a :: u32
  using unat_and_not_mask [of a 2] unat_and_mask [of a 2] by (simp_all add: mask_numeral)

lemma byte_addr: "a AND NOT 3 = b AND NOT 3 \<Longrightarrow> unat (a AND 3) = unat (b AND 3) \<Longrightarrow> a = b" for a b :: u32
proof -
  assume e: "a AND NOT 3 = b AND NOT 3" "unat (a AND 3) = unat (b AND 3)"
  have "unat a div 4 * 4 = unat b div 4 * 4" using arg_cong [OF e(1), of unat] by (simp only: word_part)
  moreover have "unat a mod 4 = unat b mod 4" using e(2) by (simp only: word_part)
  ultimately have "unat a = unat b" by (metis div_mult_mod_eq)
  then show ?thesis by (simp only: word_unat_eq_iff)
qed

lemma get_put_byte: "get_byte x (put_byte a b s) = (if x = a then b else get_byte x s)"
proof -
  have lt: "unat (y AND 3) < 4" for y :: u32 by (simp add: word_part)
  show ?thesis
  proof (cases "x AND NOT 3 = a AND NOT 3")
    case True
    then have "x = a \<longleftrightarrow> unat (x AND 3) = unat (a AND 3)" using byte_addr by blast
    then show ?thesis using True lt by (simp add: get_byte_def put_byte_def km_write_def byte_of_set_byte)
  next
    case False
    then have "x \<noteq> a" by blast
    then show ?thesis using False by (simp add: get_byte_def put_byte_def km_write_def)
  qed
qed

lemma get_put_bytes:
  assumes "length bs < 2 ^ 32"
  shows "get_byte x (put_bytes a bs s) = (if unat (x - a) < length bs then bs ! unat (x - a) else get_byte x s)"
  using assms
proof (induction bs arbitrary: a s)
  case (Cons b bs)
  have IH: "get_byte x (put_bytes (a + 1) bs t) = (if unat (x - (a + 1)) < length bs then bs ! unat (x - (a + 1)) else get_byte x t)" for t
    using Cons by simp
  show ?case
  proof (cases "x = a")
    case True
    then have "unat (x - (a + 1)) = 2 ^ 32 - 1" by (simp add: unsigned_minus_1_eq_mask mask_eq_exp_minus_1)
    then show ?thesis using IH True Cons.prems by (simp add: get_put_byte)
  next
    case False
    then have "x - a \<noteq> 0" by simp
    then have "unat (x - a) = Suc (unat (x - (a + 1)))" using unat_minus_one [of "x - a"] by (simp add: algebra_simps unat_gt_0)
    then show ?thesis using IH False by (simp add: get_put_byte)
  qed
qed simp

text \<open>Only the words of the bytes change.\<close>

lemma put_bytes_mem:
  "put_bytes a bs s = s\<lparr>km_mem := km_mem (put_bytes a bs s)\<rparr>"
  "(\<And>i. i < length bs \<Longrightarrow> q \<noteq> (a + of_nat i) AND NOT 3) \<Longrightarrow> km_mem (put_bytes a bs s) q = km_mem s q"
proof (induction bs arbitrary: a s)
  case (Cons b bs)
  {
    case 1
    show ?case using Cons.IH(1) [of "a + 1" "put_byte a b s"] by (simp add: put_byte_def km_write_def)
  next
    case 2
    have "q \<noteq> a AND NOT 3" using 2 [of 0] by simp
    moreover have "q \<noteq> (a + 1 + of_nat i) AND NOT 3" if "i < length bs" for i
      using 2 [of "Suc i"] that by (simp add: algebra_simps)
    ultimately show ?case using Cons.IH(2) [of "a + 1" "put_byte a b s"] by (simp add: put_byte_def km_write_def)
  }
qed simp_all

section \<open>User memory\<close>

definition ubyte :: "kmem \<Rightarrow> u32 \<Rightarrow> nat \<Rightarrow> u8" where
  "ubyte s d a = get_byte (frame (ent s d (a div 4096)) + of_nat (a mod 4096)) s"

text \<open>The process may access the byte at \<open>a\<close>.\<close>

definition uok :: "kmem \<Rightarrow> u32 \<Rightarrow> nat \<Rightarrow> bool" where
  "uok s d a \<longleftrightarrow> present (ent s d (a div 4096)) \<and> user (ent s d (a div 4096))"

lemma unat_sub_wrap: "unat (x - y) = (if unat y \<le> unat x then unat x - unat y else 2 ^ 32 + unat x - unat y)" for x y :: u32
proof (cases "unat y \<le> unat x")
  case True
  then show ?thesis by (simp add: unat_sub word_le_nat_alt)
next
  case False
  let ?z = "unat (x - y)"
  have m: "(?z + unat y) mod 2 ^ 32 = unat x" using unat_word_ariths(1) [of "x - y" y] by simp
  have lt: "?z < 2 ^ 32" "unat y < 2 ^ 32" using unsigned_less [of "x - y", where ?'a = nat] unsigned_less [of y, where ?'a = nat] by simp_all
  have ge: "\<not> ?z + unat y < 2 ^ 32"
  proof
    assume "?z + unat y < 2 ^ 32"
    then have "?z + unat y = unat x" using m by simp
    then show False using False by simp
  qed
  then have "(?z + unat y) mod 2 ^ 32 = ?z + unat y - 2 ^ 32" using lt by (subst le_mod_geq) simp_all
  then show ?thesis using m ge False by simp
qed

lemma unat_in_page: "page_ok f \<Longrightarrow> k < 4096 \<Longrightarrow> unat (f + of_nat k) = unat f + k"
  using page_unat [of f] pnum_less [of f] by (simp add: unat_word_ariths unat_of_nat)

text \<open>Where a byte of one page lies from a byte of another.\<close>

lemma page_distance:
  assumes "page_ok f" "page_ok g" "k < 4096" "off + n \<le> 4096" "0 < n"
  shows "unat ((g + of_nat k) - (f + of_nat off)) < n \<longleftrightarrow> g = f \<and> off \<le> k \<and> k < off + n"
    "g = f \<Longrightarrow> off \<le> k \<Longrightarrow> unat ((g + of_nat k) - (f + of_nat off)) = k - off"
proof -
  have u: "unat (g + of_nat k) = 2147483648 + 4096 * pnum g + k" "unat (f + of_nat off) = 2147483648 + 4096 * pnum f + off"
    using unat_in_page page_unat assms by simp_all
  have eq: "g = f \<longleftrightarrow> pnum g = pnum f" using page_unat [OF assms(1)] page_unat [OF assms(2)] by (auto simp: word_unat_eq_iff)
  have b: "pnum f < 57344" "pnum g < 57344" using pnum_less assms by auto
  show "unat ((g + of_nat k) - (f + of_nat off)) < n \<longleftrightarrow> g = f \<and> off \<le> k \<and> k < off + n"
  proof (cases "pnum g" "pnum f" rule: linorder_cases)
    case less
    then show ?thesis using eq b assms unfolding unat_sub_wrap u by auto
  next
    case equal
    then show ?thesis using eq b assms unfolding unat_sub_wrap u by auto
  next
    case greater
    then obtain e where "pnum g = Suc (pnum f + e)" by (metis less_iff_Suc_add)
    then show ?thesis using eq assms unfolding unat_sub_wrap u by auto
  qed
  show "g = f \<Longrightarrow> off \<le> k \<Longrightarrow> unat ((g + of_nat k) - (f + of_nat off)) = k - off"
    unfolding unat_sub_wrap u by simp
qed

lemma put_bytes_page:
  assumes "page_ok f" "off + length bs \<le> 4096"
  shows "evolves X {f} s (put_bytes (f + of_nat off) bs s)"
    "kmem_inv s xs \<Longrightarrow> f \<notin> set xs \<Longrightarrow> kmem_inv (put_bytes (f + of_nat off) bs s) xs"
proof -
  let ?t = "put_bytes (f + of_nat off) bs s"
  have out: "km_mem ?t q = km_mem s q" if q: "\<not> (f \<le> q \<and> q < f + 4096)" for q
  proof (rule put_bytes_mem(2))
    fix i assume i: "i < length bs"
    have "unat (f + of_nat off + of_nat i) = unat f + (off + i)"
      using unat_in_page [OF assms(1), of "off + i"] i assms(2) by (simp add: add.assoc)
    then have "unat ((f + of_nat off + of_nat i) AND NOT 3) = (unat f + (off + i)) div 4 * 4" by (simp only: word_part)
    moreover have "(unat f + (off + i)) div 4 * 4 = unat f + (off + i) div 4 * 4"
    proof -
      obtain B where "unat f = 4 * B" using page_unat [OF assms(1)] that [of "536870912 + 1024 * pnum f"] by simp
      then show ?thesis by simp
    qed
    ultimately have "unat ((f + of_nat off + of_nat i) AND NOT 3) = unat f + (off + i) div 4 * 4" by (rule trans)
    moreover have "(off + i) div 4 * 4 < 4096" using div_times_less_eq_dividend [of "off + i" 4] i assms(2) by linarith
    ultimately have "f \<le> (f + of_nat off + of_nat i) AND NOT 3 \<and> (f + of_nat off + of_nat i) AND NOT 3 < f + 4096"
      unfolding in_page [OF assms(1)] by linarith
    then show "q \<noteq> (f + of_nat off + of_nat i) AND NOT 3" using q by metis
  qed
  show "evolves X {f} s ?t" by (rule evolves_page [OF assms(1) put_bytes_mem(1)]) (rule out)
  show "kmem_inv ?t xs" if inv: "kmem_inv s xs" and nf: "f \<notin> set xs"
  proof (rule kmem_inv_mem [OF inv put_bytes_mem(1)])
    fix x assume x: "x \<in> set xs"
    then have "page_ok x" "x \<noteq> f" using kmem_inv_free [OF inv] nf by auto
    then have "\<not> (f \<le> x \<and> x < f + 4096)" using slot_in_page [OF assms(1), of x 0] by (simp add: slot_def)
    then show "km_mem ?t x = km_mem s x" by (rule out)
  qed
qed

text \<open>Writing into a user page changes its bytes and nothing else of the address space.\<close>

lemma user_page:
  assumes "space_ok UPAGES s d xs" "n < UPAGES" "present (ent s d n)"
  shows "page_ok (frame (ent s d n))" "frame (ent s d n) \<notin> set xs" "used 0 s d \<inter> {frame (ent s d n)} = {}"
    "\<And>m. m < UPAGES \<Longrightarrow> present (ent s d m) \<Longrightarrow> frame (ent s d m) = frame (ent s d n) \<Longrightarrow> m = n"
proof -
  have u: "page_of UPAGES s d (Usr n) = Some (frame (ent s d n))" using assms by simp
  show "page_ok (frame (ent s d n))" "frame (ent s d n) \<notin> set xs" using space_okD(2,4) [OF assms(1) u] by simp_all
  show "m = n" if "m < UPAGES" "present (ent s d m)" "frame (ent s d m) = frame (ent s d n)" for m
    using space_okD(5) [OF assms(1) u, of "Usr m"] that by simp
  have "frame (ent s d n) \<notin> used 0 s d"
  proof
    assume "frame (ent s d n) \<in> used 0 s d"
    then obtain v where v: "page_of 0 s d v = Some (frame (ent s d n))" by (auto simp: used_def)
    then have "v = Usr n" using space_okD(5) [OF assms(1) u, of v] page_of_less [OF v, of UPAGES] by simp
    with v show False by simp
  qed
  then show "used 0 s d \<inter> {frame (ent s d n)} = {}" by simp
qed

lemma in_block:
  fixes a n off l :: nat
  assumes "off + l \<le> 4096"
  shows "4096 * n + off \<le> a \<and> a < 4096 * n + off + l \<longleftrightarrow> a div 4096 = n \<and> off \<le> a mod 4096 \<and> a mod 4096 < off + l"
proof -
  obtain m k where a: "a = 4096 * m + k" "k < 4096" using that [of "a div 4096" "a mod 4096"] by simp
  then have "a div 4096 = m" "a mod 4096 = k" by simp_all
  then show ?thesis using a assms by (cases m n rule: linorder_cases) (auto dest!: less_imp_Suc_add)
qed

lemma next_block: "w + (4096 - w mod 4096) = 4096 * Suc (w div 4096)" for w :: nat
proof -
  obtain m k where a: "w = 4096 * m + k" "k < 4096" using that [of "w div 4096" "w mod 4096"] by simp
  then show ?thesis by simp
qed

lemma write_user:
  assumes sp: "space_ok UPAGES s d xs" and n: "n < UPAGES" "present (ent s d n)" and off: "off + length bs \<le> 4096"
    and t: "t = put_bytes (frame (ent s d n) + of_nat off) bs s"
  shows "space_ok UPAGES t d xs" "\<And>m. m < 1048576 \<Longrightarrow> ent t d m = ent s d m" "km_end t = km_end s"
    "\<And>a. a < 4096 * UPAGES \<Longrightarrow> present (ent s d (a div 4096)) \<Longrightarrow>
      ubyte t d a = (if 4096 * n + off \<le> a \<and> a < 4096 * n + off + length bs then bs ! (a - (4096 * n + off)) else ubyte s d a)"
proof -
  let ?f = "frame (ent s d n)"
  note up = user_page [OF sp n]
  note pb = put_bytes_page [OF up(1) off]
  have ev: "evolves {} {?f} s t" unfolding t by (rule pb(1))
  have inv: "kmem_inv t xs" unfolding t by (rule pb(2) [OF space_okD(1) [OF sp] up(2)])
  note es = evolves_space [OF space_ok_less [OF sp, of 0, simplified] ev _ up(3)]
  show ent: "\<And>m. m < 1048576 \<Longrightarrow> ent t d m = ent s d m" using es(2) by simp
  show ke: "km_end t = km_end s" using ev by (simp add: evolves_def)
  have "page_of UPAGES t d = page_of UPAGES s d" using es(3) by simp
  then show "space_ok UPAGES t d xs" using space_ok_sub [OF sp inv ke] space_okD(4) [OF sp] by simp
  fix a assume a: "a < 4096 * UPAGES" "present (ent s d (a div 4096))"
  let ?m = "a div 4096" and ?k = "a mod 4096"
  have m: "?m < UPAGES" using a(1) by (simp add: less_mult_imp_div_less)
  note um = user_page [OF sp m a(2)]
  have ue: "ubyte t d a = get_byte (frame (ent s d ?m) + of_nat ?k) t" using ent [of ?m] m by (simp add: ubyte_def)
  show "ubyte t d a = (if 4096 * n + off \<le> a \<and> a < 4096 * n + off + length bs then bs ! (a - (4096 * n + off)) else ubyte s d a)"
  proof (cases "bs = []")
    case True
    then show ?thesis using ue t by (auto simp: ubyte_def)
  next
    case False
    then have pos: "0 < length bs" by simp
    have kl: "?k < 4096" by simp
    note pd = page_distance [OF up(1) um(1) kl off pos]
    have g: "ubyte t d a = (if unat ((frame (ent s d ?m) + of_nat ?k) - (?f + of_nat off)) < length bs
        then bs ! unat ((frame (ent s d ?m) + of_nat ?k) - (?f + of_nat off)) else ubyte s d a)"
      using ue get_put_bytes [of bs] off unfolding t by (simp add: ubyte_def)
    have same: "frame (ent s d ?m) = ?f \<longleftrightarrow> ?m = n" using up(4) [OF m a(2)] by auto
    have ak: "?m = n \<Longrightarrow> a - (4096 * n + off) = ?k - off" by (auto simp: minus_mult_div_eq_mod [symmetric])
    have "4096 * n + off \<le> a \<and> a < 4096 * n + off + length bs \<longleftrightarrow> ?m = n \<and> off \<le> ?k \<and> ?k < off + length bs"
      using in_block [OF off] .
    then show ?thesis using g pd same ak by auto
  qed
qed

section \<open>copyout\<close>

lemma uva2ka_ok:
  assumes "space_ok UPAGES s d xs" "n < UPAGES" "present (ent s d n)" "user (ent s d n)"
  shows "uva2ka d (va_of n) s = Inr (frame (ent s d n)) \<and> frame (ent s d n) \<noteq> 0"
proof -
  have n: "n < 1048576" "n div 1024 < 1024" using assms(2) by auto
  have pd: "present (pde s d (n div 1024))" using ent_present assms(3) by blast
  let ?pte = "slot (tab s d (n div 1024)) (n mod 1024)"
  have "walkpgdir d (va_of n) False s = Inr (?pte, s)" using walk_present [OF n(1) pd] .
  moreover have "km_mem s ?pte = ent s d n" using ent_slot [OF pd] .
  moreover have "?pte \<noteq> 0" by (rule page_ne_0) (use space_tab [OF assms(1) n(2) pd] in auto)
  ultimately show ?thesis using assms(3,4) page_nonzero [OF user_page(1) [OF assms(1-3)]] by (simp add: uva2ka_def frame_def)
qed

lemma va_offset: "va - PGROUNDDOWN va = of_nat (unat va mod 4096)"
proof -
  have "va - PGROUNDDOWN va = take_bit 12 va" using and_not_mask_sub [of va 12] by (simp add: PGROUNDDOWN_def mask_numeral)
  then have "unat (va - PGROUNDDOWN va) = unat va mod 4096" using unat_take_bit [of 12 va] by simp
  then show ?thesis by (simp add: word_unat_eq_iff unat_of_nat)
qed

text \<open>What is known after writing \<open>buf\<close> at \<open>a\<close> in user memory.\<close>

definition uwritten :: "u32 \<Rightarrow> nat \<Rightarrow> u8 list \<Rightarrow> u32 list \<Rightarrow> kmem \<Rightarrow> kmem \<Rightarrow> bool" where
  "uwritten d a buf xs s t \<longleftrightarrow> space_ok UPAGES t d xs \<and> (\<forall>m < 1048576. ent t d m = ent s d m) \<and> km_end t = km_end s \<and>
     (\<forall>x < 4096 * UPAGES. present (ent s d (x div 4096)) \<longrightarrow>
       ubyte t d x = (if a \<le> x \<and> x < a + length buf then buf ! (x - a) else ubyte s d x))"

lemma uwritten_trans:
  assumes "uwritten d a bs xs s t" "uwritten d (a + length bs) cs xs t u"
  shows "uwritten d a (bs @ cs) xs s u"
proof -
  have e: "x div 4096 < 1048576" if "x < 4096 * UPAGES" for x using that by (simp add: less_mult_imp_div_less)
  show ?thesis using assms unfolding uwritten_def by (auto simp: nth_append e)
qed

lemma copyout_ok:
  assumes "space_ok UPAGES s d xs" "unat va + length buf \<le> 4096 * UPAGES"
    "\<And>x. unat va \<le> x \<Longrightarrow> x < unat va + length buf \<Longrightarrow> uok s d x"
  shows "\<exists>t. copyout d va buf s = Inr (0, t) \<and> uwritten d (unat va) buf xs s t"
  using assms
proof (induction "length buf" arbitrary: va buf s rule: less_induct)
  case less
  show ?case
  proof (cases "buf = []")
    case True
    then show ?thesis using less.prems(1) by (subst copyout.simps) (auto simp: uwritten_def)
  next
    case False
    let ?n = "unat va div 4096" and ?o = "unat va mod 4096"
    let ?k = "min (4096 - ?o) (length buf)"
    have n: "?n < UPAGES" using less.prems(2) False by (cases buf) (auto intro!: less_mult_imp_div_less)
    have "uok s d (unat va)" using less.prems(3) [of "unat va"] False by simp
    then have pr: "present (ent s d ?n)" "user (ent s d ?n)" by (simp_all add: uok_def)
    note ka = uva2ka_ok [OF less.prems(1) n pr]
    let ?t = "put_bytes (frame (ent s d ?n) + of_nat ?o) (take ?k buf) s"
    have fit: "?o + length (take ?k buf) \<le> 4096" by simp
    note w = write_user [OF less.prems(1) n pr(1) fit refl]
    have va: "unat va = 4096 * ?n + ?o" by simp
    have wr: "uwritten d (unat va) (take ?k buf) xs s ?t" unfolding uwritten_def using w va by simp
    have un: "unat (PGSIZE - (va - PGROUNDDOWN va)) = 4096 - ?o"
      unfolding va_offset PGSIZE_def by (subst unat_sub) (simp_all add: word_le_nat_alt unat_of_nat)
    have step: "copyout d va buf s = copyout d (va_of (Suc ?n)) (drop ?k buf) ?t"
      using False ka un by (subst copyout.simps) (simp add: PGROUNDDOWN_va va_offset [unfolded PGROUNDDOWN_va])
    show ?thesis
    proof (cases "drop ?k buf = []")
      case True
      then have "copyout d (va_of (Suc ?n)) (drop ?k buf) ?t = Inr (0, ?t)" "take ?k buf = buf" by (subst copyout.simps, simp_all)
      then show ?thesis using step wr by metis
    next
      case more: False
      then have k: "?k = 4096 - ?o" "4096 - ?o < length buf" by auto
      have n': "unat (va_of (Suc ?n)) = unat va + ?k" 
        unfolding k(1) next_block [of "unat va"] by (rule unat_va_of) (use n in simp)
      have "\<exists>u. copyout d (va_of (Suc ?n)) (drop ?k buf) ?t = Inr (0, u) \<and> uwritten d (unat (va_of (Suc ?n))) (drop ?k buf) xs ?t u"
      proof (rule less.hyps)
        show "length (drop ?k buf) < length buf" using False by simp
        show "space_ok UPAGES ?t d xs" by (rule w(1))
        show "unat (va_of (Suc ?n)) + length (drop ?k buf) \<le> 4096 * UPAGES" using less.prems(2) n' k by simp
        show "uok ?t d x" if "unat (va_of (Suc ?n)) \<le> x" "x < unat (va_of (Suc ?n)) + length (drop ?k buf)" for x
        proof -
          have "x < 4096 * UPAGES" using that less.prems(2) n' k by simp
          then have "x div 4096 < 1048576" by (simp add: less_mult_imp_div_less)
          moreover have "uok s d x" using less.prems(3) [of x] that n' k by simp
          ultimately show ?thesis using w(2) by (simp add: uok_def)
        qed
      qed
      then obtain u where u: "copyout d (va_of (Suc ?n)) (drop ?k buf) ?t = Inr (0, u)" "uwritten d (unat va + ?k) (drop ?k buf) xs ?t u"
        unfolding n' by blast
      have "length (take ?k buf) = ?k" by simp
      then have "uwritten d (unat va) (take ?k buf @ drop ?k buf) xs s u" using uwritten_trans [OF wr, of "drop ?k buf" u] u(2) by metis
      then show ?thesis using step u(1) by (metis append_take_drop_id)
    qed
  qed
qed

end
