(* ===== verification/Exec.thy ===== *)
theory Exec
  imports VmBytes
begin

text \<open>
  Replacing the program of a process (\<open>05_xv6_memory_safe_allocation/src/v2-sort/exec.c\<close>, with the file
  format of \<open>elf.h\<close>) and the reading of system call arguments from user memory (\<open>syscall.c\<close>). The program
  file is an argument: what \<open>namei\<close> finds, as the function \<open>readi\<close> from an offset and a count to the number
  of bytes read and the bytes.
\<close>

unbundle bit_operations_syntax

section \<open>The program file\<close>

type_synonym reader = "u32 \<Rightarrow> u32 \<Rightarrow> int \<times> u8 list"

text \<open>Numbers in a file, lowest byte first.\<close>

definition word_at :: "u8 list \<Rightarrow> nat \<Rightarrow> u32" where
  "word_at bs i = ucast (bs ! i) OR push_bit 8 (ucast (bs ! (i + 1))) OR push_bit 16 (ucast (bs ! (i + 2))) OR push_bit 24 (ucast (bs ! (i + 3)))"

definition half_at :: "u8 list \<Rightarrow> nat \<Rightarrow> nat" where
  "half_at bs i = unat (bs ! i) + 256 * unat (bs ! (i + 1))"

record elfhdr =
  e_magic :: u32
  e_entry :: u32
  e_phoff :: u32
  e_phnum :: nat

definition elfhdr_of :: "u8 list \<Rightarrow> elfhdr" where
  "elfhdr_of bs = \<lparr>e_magic = word_at bs 0, e_entry = word_at bs 24, e_phoff = word_at bs 28, e_phnum = half_at bs 44\<rparr>"

record proghdr =
  ph_type :: u32
  ph_off :: u32
  ph_vaddr :: u32
  ph_filesz :: u32
  ph_memsz :: u32

definition proghdr_of :: "u8 list \<Rightarrow> proghdr" where
  "proghdr_of bs =
     \<lparr>ph_type = word_at bs 0, ph_off = word_at bs 4, ph_vaddr = word_at bs 8, ph_filesz = word_at bs 16, ph_memsz = word_at bs 20\<rparr>"

definition ELF_MAGIC :: u32 where "ELF_MAGIC = 0x464C457F"
definition ELF_PROG_LOAD :: u32 where "ELF_PROG_LOAD = 1"

section \<open>exec\<close>

text \<open>\<open>None\<close> is the jump to \<open>bad\<close>. The loop over the program headers: \<open>n\<close> are left.\<close>

fun exec_load :: "reader \<Rightarrow> int \<Rightarrow> u32 \<Rightarrow> nat \<Rightarrow> u32 \<Rightarrow> u32 \<Rightarrow> kmem \<Rightarrow> (u32 option \<times> kmem) res" where
  "exec_load readi pid pgdir 0 off sz s = Inr (Some sz, s)"
| "exec_load readi pid pgdir (Suc n) off sz s =
     (case readi off 32 of (r, bytes) \<Rightarrow>
        if r \<noteq> 32 then Inr (None, s)
        else
          let ph = proghdr_of bytes in
          if ph_type ph \<noteq> ELF_PROG_LOAD then exec_load readi pid pgdir n (off + 32) sz s
          else if ph_memsz ph < ph_filesz ph then Inr (None, s)
          else if ph_vaddr ph + ph_memsz ph < ph_vaddr ph then Inr (None, s)
          else
            rbind (allocuvm pid pgdir sz (ph_vaddr ph + ph_memsz ph) s) (\<lambda>(sz, s).
            if sz = 0 then Inr (None, s)
            else if ph_vaddr ph mod PGSIZE \<noteq> 0 then Inr (None, s)
            else
              rbind (loaduvm readi pgdir (ph_vaddr ph) (ph_off ph) (ph_filesz ph) s) (\<lambda>(r, s).
              if r < 0 then Inr (None, s) else exec_load readi pid pgdir n (off + 32) sz s)))"

definition MAXARG :: nat where "MAXARG = 32"

text \<open>The loop over the arguments: their number, the stack pointer, and the pointers in \<open>ustack\<close>.\<close>

fun exec_args :: "u32 \<Rightarrow> u8 list list \<Rightarrow> nat \<Rightarrow> u32 \<Rightarrow> u32 list \<Rightarrow> kmem \<Rightarrow> ((nat \<times> u32 \<times> u32 list) option \<times> kmem) res" where
  "exec_args pgdir [] argc sp us s = Inr (Some (argc, sp, us), s)"
| "exec_args pgdir (a # argv) argc sp us s =
     (if argc \<ge> MAXARG then Inr (None, s)
      else
        let sp = (sp - (of_nat (length a) + 1)) AND NOT 3 in
        rbind (copyout pgdir sp (a @ [0]) s) (\<lambda>(r, s).
        if r < 0 then Inr (None, s) else exec_args pgdir argv (argc + 1) sp (us @ [sp]) s))"

definition word_bytes :: "u32 \<Rightarrow> u8 list" where
  "word_bytes w = [byte_of w 0, byte_of w 1, byte_of w 2, byte_of w 3]"

text \<open>The stack: two pages, the lower one inaccessible, the arguments in the upper one. The new size and stack pointer.\<close>

definition exec_stack :: "int \<Rightarrow> u32 \<Rightarrow> u32 \<Rightarrow> u8 list list \<Rightarrow> kmem \<Rightarrow> ((u32 \<times> u32) option \<times> kmem) res" where
  "exec_stack pid pgdir sz argv s =
     (let sz = PGROUNDUP sz in
      rbind (allocuvm pid pgdir sz (sz + 2 * PGSIZE) s) (\<lambda>(sz, s).
      if sz = 0 then Inr (None, s)
      else
        rbind (clearpteu pgdir (sz - 2 * PGSIZE) s) (\<lambda>s.
        rbind (exec_args pgdir argv 0 sz [] s) (\<lambda>(r, s).
        case r of None \<Rightarrow> Inr (None, s)
        | Some (argc, sp, us) \<Rightarrow>
            let ustack = [0xFFFFFFFF, of_nat argc, sp - (of_nat argc + 1) * 4] @ us @ [0];
                sp = sp - (3 + of_nat argc + 1) * 4
            in rbind (copyout pgdir sp (concat (map word_bytes ustack)) s) (\<lambda>(r, s).
               if r < 0 then Inr (None, s) else Inr (Some (sz, sp), s))))))"

text \<open>The last element of the path, cut to the 16 bytes of \<open>name\<close>.\<close>

fun last_elem :: "u8 list \<Rightarrow> u8 list \<Rightarrow> u8 list" where
  "last_elem lst [] = lst"
| "last_elem lst (c # cs) = (if c = 0x2F then last_elem cs cs else last_elem lst cs)"

record uproc =
  up_pid :: int
  up_kstack :: u32
  up_pgdir :: u32
  up_sz :: u32
  up_eip :: u32
  up_esp :: u32
  up_name :: "u8 list"

text \<open>The label \<open>bad\<close>.\<close>

definition exec_bad :: "u32 \<Rightarrow> uproc \<Rightarrow> kmem \<Rightarrow> (int \<times> uproc \<times> kmem) res" where
  "exec_bad pgdir p s =
     rbind (if pgdir \<noteq> 0 then freevm pgdir s else Inr s) (\<lambda>s. Inr (- 1, p, s))"

definition exec :: "u32 \<Rightarrow> reader option \<Rightarrow> u8 list \<Rightarrow> u8 list list \<Rightarrow> uproc \<Rightarrow> kmem \<Rightarrow> (int \<times> uproc \<times> kmem) res" where
  "exec kdata ip path argv p s =
     (case ip of None \<Rightarrow> Inr (- 1, p, s)
      | Some readi \<Rightarrow>
          (case readi 0 52 of (r, bytes) \<Rightarrow>
             if r \<noteq> 52 then exec_bad 0 p s
             else
               let elf = elfhdr_of bytes in
               if e_magic elf \<noteq> ELF_MAGIC then exec_bad 0 p s
               else
                 rbind (setupkvm kdata s) (\<lambda>(pgdir, s).
                 if pgdir = 0 then exec_bad 0 p s
                 else
                   rbind (exec_load readi (up_pid p) pgdir (e_phnum elf) (e_phoff elf) 0 s) (\<lambda>(r, s).
                   case r of None \<Rightarrow> exec_bad pgdir p s
                   | Some sz \<Rightarrow>
                       rbind (exec_stack (up_pid p) pgdir sz argv s) (\<lambda>(r, s).
                       case r of None \<Rightarrow> exec_bad pgdir p s
                       | Some (sz, sp) \<Rightarrow>
                           let oldpgdir = up_pgdir p;
                               p = p\<lparr>up_name := take 15 (last_elem path path), up_pgdir := pgdir, up_sz := sz,
                                     up_eip := e_entry elf, up_esp := sp\<rparr>
                           in rbind (switchuvm (Some (up_kstack p, pgdir)) (km_cpu s)) (\<lambda>(hw, c).
                              rbind (freevm oldpgdir (s\<lparr>km_cpu := c\<rparr>)) (\<lambda>s. Inr (0, p, s))))))))"

section \<open>System call arguments\<close>

text \<open>
  \<open>fetchint\<close> and its callers return the value where the code returns 0, and \<open>None\<close> where it returns -1. The
  memory of the process is read through its page table; a page that is not mapped faults in the kernel.
\<close>

definition user_byte :: "u32 \<Rightarrow> u32 \<Rightarrow> kmem \<Rightarrow> u8 res" where
  "user_byte pgdir va s =
     rbind (walkpgdir pgdir va False s) (\<lambda>(pte, s).
     if pte = 0 \<or> \<not> present (km_mem s pte) then Inl (Undefined ''page fault in the kernel'')
     else Inr (get_byte (P2V (PTE_ADDR (km_mem s pte)) + (va - PGROUNDDOWN va)) s))"

definition fetchint :: "uproc \<Rightarrow> u32 \<Rightarrow> kmem \<Rightarrow> int option res" where
  "fetchint p addr s =
     (if addr \<ge> up_sz p \<or> addr + 4 > up_sz p then Inr None
      else
        rbind (user_byte (up_pgdir p) addr s) (\<lambda>b0.
        rbind (user_byte (up_pgdir p) (addr + 1) s) (\<lambda>b1.
        rbind (user_byte (up_pgdir p) (addr + 2) s) (\<lambda>b2.
        rbind (user_byte (up_pgdir p) (addr + 3) s) (\<lambda>b3.
        Inr (Some (sint (word_at [b0, b1, b2, b3] 0))))))))"

function fetchstr_loop :: "uproc \<Rightarrow> u32 \<Rightarrow> u32 \<Rightarrow> kmem \<Rightarrow> int option res" where
  "fetchstr_loop p q addr s =
     (if q < up_sz p then
        rbind (user_byte (up_pgdir p) q s) (\<lambda>c.
        if c = 0 then Inr (Some (sint (q - addr))) else fetchstr_loop p (q + 1) addr s)
      else Inr None)"
  by pat_completeness auto
termination
proof (relation "measure (\<lambda>(p, q, addr, s). unat (up_sz p) - unat q)", goal_cases)
  case (2 p q addr s c)
  have "unat q + 1 \<le> unat (up_sz p)" using 2(1) by (simp add: word_less_nat_alt)
  moreover have "unat (up_sz p) < 2 ^ 32" using unsigned_less [of "up_sz p", where ?'a = nat] by simp
  ultimately have "unat (q + 1) = unat q + 1" by (simp add: unat_word_ariths)
  with 2 show ?case by (simp add: word_less_nat_alt)
qed simp

declare fetchstr_loop.simps [simp del]

text \<open>The string stays in user memory: the result is its address and length.\<close>

definition fetchstr :: "uproc \<Rightarrow> u32 \<Rightarrow> kmem \<Rightarrow> (u32 \<times> int) option res" where
  "fetchstr p addr s =
     (if addr \<ge> up_sz p then Inr None
      else rbind (fetchstr_loop p addr addr s) (\<lambda>n. Inr (map_option (\<lambda>n. (addr, n)) n)))"

definition argint :: "uproc \<Rightarrow> nat \<Rightarrow> kmem \<Rightarrow> int option res" where
  "argint p n s = fetchint p (up_esp p + 4 + 4 * of_nat n) s"

definition argptr :: "uproc \<Rightarrow> nat \<Rightarrow> int \<Rightarrow> kmem \<Rightarrow> u32 option res" where
  "argptr p n len s =
     rbind (argint p n s) (\<lambda>r.
     case r of None \<Rightarrow> Inr None
     | Some i \<Rightarrow>
         if len < 0 \<or> word_of_int i \<ge> up_sz p \<or> word_of_int i + word_of_int len > up_sz p then Inr None
         else Inr (Some (word_of_int i)))"

definition argstr :: "uproc \<Rightarrow> nat \<Rightarrow> kmem \<Rightarrow> (u32 \<times> int) option res" where
  "argstr p n s =
     rbind (argint p n s) (\<lambda>r. case r of None \<Rightarrow> Inr None | Some addr \<Rightarrow> fetchstr p (word_of_int addr) s)"

end
