(* ===== verification/VmResults.thy ===== *)
theory VmResults
  imports VmCopy
begin

text \<open>
  What the functions on address spaces promise: the kernel part is complete, growing adds zeroed pages the
  process owns, shrinking and freeing give every page back, and a copied process has the same memory in pages
  of its own.
\<close>

unbundle bit_operations_syntax

lemma grown_user:
  assumes "grown pid d n l (\<lambda>_. PTE_W OR PTE_U) c xs ys s t" "kmem_inv s xs"
  shows "has_pages t d n l (\<lambda>_. PTE_P OR PTE_W OR PTE_U) c" "\<forall>m. n \<le> m \<longrightarrow> m < l \<longrightarrow> frame (ent t d m) \<in> set xs \<and>
    (fidx (frame (ent t d m)) < MAX_FRAME_NUM \<longrightarrow> km_pid t (fidx (frame (ent t d m))) = pid)"
proof -
  have "new_page pid (PTE_W OR PTE_U) = new_page pid (PTE_P OR PTE_W OR PTE_U)"
    by (rule ext)+ (simp add: new_page_def PTE_P_def PTE_W_def PTE_U_def or.assoc)
  then have g: "grown pid d n l (\<lambda>_. PTE_P OR PTE_W OR PTE_U) c xs ys s t" using assms(1) by (simp add: grown_def)
  have "take_bit 12 (PTE_P OR PTE_W OR PTE_U) = PTE_P OR PTE_W OR PTE_U \<and> present (PTE_P OR PTE_W OR PTE_U)"
    by (simp add: PTE_P_def PTE_W_def PTE_U_def present_def)
  with grown_pages [OF g assms(2)] show "has_pages t d n l (\<lambda>_. PTE_P OR PTE_W OR PTE_U) c"
    "\<forall>m. n \<le> m \<longrightarrow> m < l \<longrightarrow> frame (ent t d m) \<in> set xs \<and>
    (fidx (frame (ent t d m)) < MAX_FRAME_NUM \<longrightarrow> km_pid t (fidx (frame (ent t d m))) = pid)" by blast+
qed

section \<open>Example states\<close>

text \<open>Memory after booting with a kernel of 2 MB, and a process with only the kernel part.\<close>

definition ex_boot :: kmem where
  "ex_boot = ex_kmem\<lparr>km_free := 0, km_use_lock := False, km_init := False, km_count := 0, km_end := page_at 512\<rparr>"

lemma page_range_top: "m \<le> n \<Longrightarrow> page_range m (Suc n) = page_at n # page_range m n"
  by (simp add: page_range_def)

lemma length_page_range: "length (page_range m n) = n - m"
  by (simp add: page_range_def)

lemma boot_pages: "page_range 1024 57344 = page_at 57343 # page_range 1024 57343"
  using page_range_top [of 1024 57343] by simp

lemma room_range:
  assumes inv: "kmem_inv s (page_range 1024 57344)"
  shows "8000 \<le> room pid s (page_range 1024 57344)"
proof -
  have free: "km_pid s i = - 1" if "i < MAX_FRAME_NUM" for i
  proof -
    have "57343 - i \<in> {1024..<57344}" "fidx (page_at (57343 - i)) = i"
      using that page_at(4) [of "57343 - i"] by (auto simp: MAX_FRAME_NUM_def)
    then have "i \<in> fidx ` set (page_range 1024 57344)" unfolding page_range_set by (metis image_eqI)
    then show ?thesis using inv that by (simp add: kmem_inv_def owners_ok_def)
  qed
  have "good pid s (page_at n)" if n: "n \<in> {49344..<57344}" for n
  proof -
    have "Suc (fidx (page_at n)) < MAX_FRAME_NUM" using n page_at(4) [of n] by (auto simp: MAX_FRAME_NUM_def)
    then show ?thesis using free by (simp add: good_def safe_at_def hostile_def)
  qed
  then have sub: "page_at ` {49344..<57344} \<subseteq> {x \<in> set (page_range 1024 57344). good pid s x}"
    unfolding page_range_set by auto
  have "inj_on page_at {49344..<57344}" using page_at(3) by (intro inj_on_inverseI [of _ pnum]) auto
  then have "card (page_at ` {49344..<57344}) = 8000" by (simp add: card_image)
  with card_mono [OF _ sub] show ?thesis by (simp add: room_def)
qed

lemma booted: "\<exists>s xs. kinit2 0x80400000 0x8E000000 ex_boot = Inr s \<and> kmem_inv s (page_at 57343 # xs) \<and> KERNBASE < km_end s \<and>
  8000 \<le> length xs \<and> (\<forall>pid. 8000 \<le> room pid s (page_at 57343 # xs))"
proof -
  have po: "pages_ok ex_boot []" by (simp add: pages_ok_def free_list_def mem_lock_ok_def ptr_def ex_boot_def)
  have ends: "km_end ex_boot \<le> page_at 1024" "KERNBASE < km_end ex_boot"
    using page_at(1) [of 1024] page_at(1) [of 512] by (simp_all add: ex_boot_def word_le_nat_alt word_less_nat_alt KERNBASE_def)
  obtain s where s: "kinit2 0x80400000 0x8E000000 ex_boot = Inr s" "kmem_inv s (page_range 1024 57344)" "km_end s = km_end ex_boot"
    using kinit2_ok [OF po _ ends(1)] by (auto simp: ex_boot_def ex_kmem_def cpu_ok_def)
  have "8000 \<le> length (page_range 1024 57343)" by (simp add: length_page_range)
  then show ?thesis using s ends(2) room_range [OF s(2)] unfolding boot_pages by metis
qed

lemma room_length: "room pid s xs \<le> length xs"
proof -
  have "room pid s xs \<le> card (set xs)" unfolding room_def by (rule card_mono) auto
  then show ?thesis using card_length [of xs] by linarith
qed

lemma room_kernel: "room (- 2) s xs \<le> room pid s xs"
  unfolding room_def by (rule card_mono) (auto simp: good_def safe_at_def hostile_def)

lemma ex_process: "\<exists>s xs. space_ok UPAGES s (page_at 57343) xs \<and> KERNBASE < km_end s \<and> 7000 \<le> room (- 2) s xs \<and>
  (\<forall>m < UPAGES. \<not> present (ent s (page_at 57343) m)) \<and> km_use_lock s"
proof -
  obtain s xs where s: "kmem_inv s (page_at 57343 # xs)" "KERNBASE < km_end s" "8000 \<le> length xs"
    "8000 \<le> room (- 2) s (page_at 57343 # xs)" "kinit2 0x80400000 0x8E000000 ex_boot = Inr s" using booted by blast
  have use: "km_use_lock s" using s(5) by (auto simp: kinit2_def rbind_eq_Inr)
  have len: "128 \<le> length xs" using s(3) by linarith
  obtain t zs ys where t: "xs = zs @ ys" "length zs \<le> 128" "building (page_at 57343) s zs ys (kernel_ent (UPAGES + 512)) t"
    using setupkvm_ok [OF s(1) len refl, of "UPAGES + 512"] by auto
  have b: "space_ok UPAGES t (page_at 57343) ys" "km_end t = km_end s \<and> km_use_lock t = km_use_lock s" "calm (- 2) s t"
    "\<forall>m < 1048576. ent t (page_at 57343) m = kernel_ent (UPAGES + 512) m"
    using t(3) by (simp_all add: building_def evolves_def)
  have "set (page_at 57343 # xs) \<subseteq> set ys \<union> set (page_at 57343 # zs)" using t(1) by auto
  from room_taken [OF b(3) this] s(4) t(2) have "7000 \<le> room (- 2) t ys" by simp
  moreover have "\<not> present (ent t (page_at 57343) m)" if "m < UPAGES" for m using b(4) that by (simp add: kernel_ent_def)
  ultimately show ?thesis using b(1,2) s(2) use by metis
qed

text \<open>The same process with two pages.\<close>

lemma ex_two_pages: "\<exists>s xs. space_ok UPAGES s (page_at 57343) xs \<and> KERNBASE < km_end s \<and> 6000 \<le> room (- 2) s xs \<and>
  has_pages s (page_at 57343) 0 (npages 8192) (\<lambda>_. PTE_P OR PTE_W OR PTE_U) (\<lambda>_ _. 0)"
proof -
  obtain s xs where s: "space_ok UPAGES s (page_at 57343) xs" "KERNBASE < km_end s" "7000 \<le> room (- 2) s xs"
    "\<forall>m < UPAGES. \<not> present (ent s (page_at 57343) m)" using ex_process by blast
  have np: "npages 8192 = 2" "npages 0 = 0" by (simp_all add: npages_def)
  obtain t ys where t: "space_ok UPAGES t (page_at 57343) ys" "grown (- 2) (page_at 57343) 0 2 (\<lambda>_. PTE_W OR PTE_U) (\<lambda>_ _. 0) xs ys s t"
    using allocuvm_ok [OF s(1), of "- 2" 0 8192] s(3,4) np by (auto simp: KERNBASE_def)
  have "has_pages t (page_at 57343) 0 2 (\<lambda>_. PTE_P OR PTE_W OR PTE_U) (\<lambda>_ _. 0)"
    using grown_user [OF t(2) space_okD(1) [OF s(1)]] by blast
  moreover have "km_end t = km_end s" "room (- 2) s xs \<le> room (- 2) t ys + 4" using t(2) by (simp_all add: grown_def evolves_def)
  ultimately show ?thesis using t(1) s(2,3) np by (intro exI [of _ t] exI [of _ ys]) simp
qed

section \<open>Properties of address spaces\<close>

text \<open>
  C12. \<open>copyuvm\<close> copies a process: the new page directory has the pages of the parent at the same addresses
  with the same flags and contents, in frames of its own that the child owns, and the kernel part; the parent
  is unchanged. It fails only if memory is short, and then with an access outside \<open>pg2pid\<close>.
\<close>

theorem copyuvm_copies:
  assumes "space_ok UPAGES s p (x # xs)" "128 \<le> length xs" "kdata = va_of D" "UPAGES + 256 < D" "D < UPAGES + 57344"
    "pid \<noteq> - 1" "sz \<le> KERNBASE" "has_pages s p 0 (npages sz) perm c"
  shows "copyuvm kdata p sz pid s = Inl no_page \<and> room pid s (x # xs) < 129 + 2 * npages sz \<or>
    (\<exists>t ys. copyuvm kdata p sz pid s = Inr (x, t) \<and> space_ok UPAGES t x ys \<and> space_ok UPAGES t p ys \<and> apart t p x \<and>
      has_pages t x 0 (npages sz) perm c \<and> has_pages t p 0 (npages sz) perm c \<and>
      (\<forall>m < npages sz. fidx (frame (ent t x m)) < MAX_FRAME_NUM \<longrightarrow> km_pid t (fidx (frame (ent t x m))) = pid) \<and>
      (\<forall>m < 1048576. npages sz \<le> m \<longrightarrow> ent t x m = kernel_ent D m) \<and> (\<forall>m < 1048576. ent t p m = ent s p m))"
  by (rule copyuvm_ok [OF assms])

theorem copyuvm_copies_witness:
  "\<exists>s t x ys. copyuvm (va_of (UPAGES + 512)) (page_at 57343) 8192 4 s = Inr (x, t) \<and>
     space_ok UPAGES t x ys \<and> has_pages t x 0 2 (\<lambda>_. PTE_P OR PTE_W OR PTE_U) (\<lambda>_ _. 0) \<and> apart t (page_at 57343) x"
proof -
  obtain s xs where s: "space_ok UPAGES s (page_at 57343) xs" "6000 \<le> room (- 2) s xs"
    "has_pages s (page_at 57343) 0 (npages 8192) (\<lambda>_. PTE_P OR PTE_W OR PTE_U) (\<lambda>_ _. 0)" using ex_two_pages by blast
  have rm: "6000 \<le> room 4 s xs" using s(2) room_kernel [of s xs 4] by linarith
  then have "6000 \<le> length xs" using room_length [of 4 s xs] by linarith
  then obtain x ys where xs: "xs = x # ys" "128 \<le> length ys" by (cases xs) auto
  have np: "npages 8192 = 2" by (simp add: npages_def)
  have ar: "UPAGES + 256 < UPAGES + 512" "UPAGES + 512 < UPAGES + 57344" "(4 :: int) \<noteq> - 1" "(8192 :: u32) \<le> KERNBASE"
    by (simp_all add: KERNBASE_def)
  have few: "\<not> room 4 s (x # ys) < 129 + 2 * npages 8192" using rm xs np by simp
  from copyuvm_copies [OF s(1) [unfolded xs(1)] xs(2) refl ar s(3)] few show ?thesis unfolding np by meson
qed

text \<open>
  C13. \<open>allocuvm\<close> grows a process: the pages between the sizes get zeroed frames from the free list,
  writable by the user and owned by the process; other entries are unchanged, and every page taken from the
  free list is used by the process. It fails only if memory is short, and then with an access outside
  \<open>pg2pid\<close>, not by returning 0.
\<close>

theorem allocuvm_grows:
  assumes "space_ok UPAGES s pgdir xs" "pid \<noteq> - 1" "oldsz \<le> newsz" "newsz < KERNBASE"
    "\<And>m. npages oldsz \<le> m \<Longrightarrow> m < npages newsz \<Longrightarrow> \<not> present (ent s pgdir m)"
  shows "allocuvm pid pgdir oldsz newsz s = Inl no_page \<and> room pid s xs < 2 * (npages newsz - npages oldsz) \<or>
    (\<exists>t ys. allocuvm pid pgdir oldsz newsz s = Inr (newsz, t) \<and> space_ok UPAGES t pgdir ys \<and>
      has_pages t pgdir (npages oldsz) (npages newsz) (\<lambda>_. PTE_P OR PTE_W OR PTE_U) (\<lambda>_ _. 0) \<and>
      (\<forall>m. npages oldsz \<le> m \<longrightarrow> m < npages newsz \<longrightarrow>
        frame (ent t pgdir m) \<in> set xs \<and> (fidx (frame (ent t pgdir m)) < MAX_FRAME_NUM \<longrightarrow> km_pid t (fidx (frame (ent t pgdir m))) = pid)) \<and>
      (\<forall>m < 1048576. \<not> (npages oldsz \<le> m \<and> m < npages newsz) \<longrightarrow> ent t pgdir m = ent s pgdir m) \<and>
      set ys \<subseteq> set xs \<and> used UPAGES t pgdir = used UPAGES s pgdir \<union> (set xs - set ys))"
  using allocuvm_ok [OF assms]
proof
  assume "\<exists>t ys. allocuvm pid pgdir oldsz newsz s = Inr (newsz, t) \<and> space_ok UPAGES t pgdir ys \<and>
    grown pid pgdir (npages oldsz) (npages newsz) (\<lambda>_. PTE_W OR PTE_U) (\<lambda>_ _. 0) xs ys s t"
  then obtain t ys where t: "allocuvm pid pgdir oldsz newsz s = Inr (newsz, t)" "space_ok UPAGES t pgdir ys"
    "grown pid pgdir (npages oldsz) (npages newsz) (\<lambda>_. PTE_W OR PTE_U) (\<lambda>_ _. 0) xs ys s t" by blast
  have "\<forall>m < 1048576. \<not> (npages oldsz \<le> m \<and> m < npages newsz) \<longrightarrow> ent t pgdir m = ent s pgdir m"
    "set ys \<subseteq> set xs" "used UPAGES t pgdir = used UPAGES s pgdir \<union> (set xs - set ys)"
    using t(3) unfolding grown_def by blast+
  with t(1,2) grown_user [OF t(3) space_okD(1) [OF assms(1)]] show ?thesis by blast
qed (assumption+, rule disjI1)

theorem allocuvm_grows_witness:
  "\<exists>s t ys. allocuvm 3 (page_at 57343) 0 8192 s = Inr (8192, t) \<and> space_ok UPAGES t (page_at 57343) ys \<and>
     has_pages t (page_at 57343) 0 2 (\<lambda>_. PTE_P OR PTE_W OR PTE_U) (\<lambda>_ _. 0)"
proof -
  obtain s xs where s: "space_ok UPAGES s (page_at 57343) xs" "7000 \<le> room (- 2) s xs"
    "\<forall>m < UPAGES. \<not> present (ent s (page_at 57343) m)" using ex_process by blast
  have np: "npages 8192 = 2" "npages 0 = 0" by (simp_all add: npages_def)
  have ar: "(3 :: int) \<noteq> - 1" "(0 :: u32) \<le> 8192" "(8192 :: u32) < KERNBASE" by (simp_all add: KERNBASE_def)
  have fr: "\<not> present (ent s (page_at 57343) m)" if "npages 0 \<le> m" "m < npages 8192" for m using s(3) that np by simp
  have few: "\<not> room 3 s xs < 2 * (2 - 0)" using s(2) room_kernel [of s xs 3] by linarith
  from allocuvm_grows [OF s(1) ar fr] few show ?thesis unfolding np by meson
qed

text \<open>
  C14. \<open>deallocuvm\<close> ends and shrinks a process: it returns the new size, clears exactly the entries of the
  pages above it, and puts exactly their frames on the free list; page tables stay.
\<close>

theorem deallocuvm_frees:
  assumes "space_ok UPAGES s pgdir xs" "KERNBASE < km_end s" "oldsz \<le> KERNBASE"
  shows "\<exists>t ys. deallocuvm pgdir oldsz newsz s = Inr (min oldsz newsz, t) \<and> space_ok UPAGES t pgdir ys \<and>
    (\<forall>m < 1048576. ent t pgdir m = (if npages newsz \<le> m \<and> m < npages oldsz \<and> present (ent s pgdir m) then 0 else ent s pgdir m)) \<and>
    (\<forall>i < 1024. pde t pgdir i = pde s pgdir i) \<and>
    set ys = set xs \<union> {frame (ent s pgdir m) |m. npages newsz \<le> m \<and> m < npages oldsz \<and> present (ent s pgdir m)}"
proof -
  obtain t ys where t: "deallocuvm pgdir oldsz newsz s = Inr (if newsz \<ge> oldsz then oldsz else newsz, t)" "space_ok UPAGES t pgdir ys"
    "released pgdir (npages newsz) (npages oldsz) xs ys s t" using deallocuvm_ok [OF assms] by blast
  have "frames s pgdir n l = {frame (ent s pgdir m) |m. n \<le> m \<and> m < l \<and> present (ent s pgdir m)}" for n l
    unfolding frames_def by blast
  then show ?thesis using t unfolding released_def min_def by (intro exI [of _ t] exI [of _ ys]) simp
qed

theorem deallocuvm_frees_witness:
  "\<exists>s t ys. deallocuvm (page_at 57343) 8192 4096 s = Inr (4096, t) \<and> space_ok UPAGES t (page_at 57343) ys \<and>
     ent t (page_at 57343) 1 = 0 \<and> frame (ent s (page_at 57343) 1) \<in> set ys"
proof -
  obtain s xs where s: "space_ok UPAGES s (page_at 57343) xs" "KERNBASE < km_end s"
    "has_pages s (page_at 57343) 0 (npages 8192) (\<lambda>_. PTE_P OR PTE_W OR PTE_U) (\<lambda>_ _. 0)" using ex_two_pages by blast
  have np: "npages 8192 = 2" "npages 4096 = 1" by (simp_all add: npages_def)
  have pr: "present (ent s (page_at 57343) 1)" using s(3) unfolding np has_pages_def by simp
  have "(8192 :: u32) \<le> KERNBASE" by (simp add: KERNBASE_def)
  from deallocuvm_frees [OF s(1,2) this, of 4096] obtain t ys where t:
    "deallocuvm (page_at 57343) 8192 4096 s = Inr (min 8192 4096, t)" "space_ok UPAGES t (page_at 57343) ys"
    "\<forall>m < 1048576. ent t (page_at 57343) m = (if 1 \<le> m \<and> m < 2 \<and> present (ent s (page_at 57343) m) then 0 else ent s (page_at 57343) m)"
    "set ys = set xs \<union> {frame (ent s (page_at 57343) m) |m. 1 \<le> m \<and> m < 2 \<and> present (ent s (page_at 57343) m)}"
    unfolding np by blast
  have "frame (ent s (page_at 57343) 1) \<in> set ys" unfolding t(4) using pr by (intro UnI2 CollectI exI [of _ 1]) simp
  moreover have "ent t (page_at 57343) 1 = 0" using t(3) pr by simp
  moreover have "min 8192 4096 = (4096 :: u32)" by (simp add: min_def)
  ultimately show ?thesis using t(1,2) by auto
qed

text \<open>
  C15. \<open>freevm\<close> ends and gives every page of the address space back, the user pages, the page tables and the
  page directory: no page is lost and none is freed twice.
\<close>

theorem freevm_returns_all:
  assumes "space_ok UPAGES s pgdir xs" "KERNBASE < km_end s"
  shows "\<exists>t ys. freevm pgdir s = Inr t \<and> kmem_inv t ys \<and> set ys = set xs \<union> used UPAGES s pgdir"
  using freevm_ok [OF assms] by blast

theorem freevm_returns_all_witness:
  "\<exists>s t ys. freevm (page_at 57343) s = Inr t \<and> kmem_inv t ys \<and> page_at 57343 \<in> set ys \<and> frame (ent s (page_at 57343) 1) \<in> set ys"
proof -
  obtain s xs where s: "space_ok UPAGES s (page_at 57343) xs" "KERNBASE < km_end s"
    "has_pages s (page_at 57343) 0 (npages 8192) (\<lambda>_. PTE_P OR PTE_W OR PTE_U) (\<lambda>_ _. 0)" using ex_two_pages by blast
  have np: "npages 8192 = 2" by (simp add: npages_def)
  have "present (ent s (page_at 57343) 1)" using s(3) unfolding np has_pages_def by simp
  then have "page_of UPAGES s (page_at 57343) (Usr 1) = Some (frame (ent s (page_at 57343) 1))" by simp
  then have "frame (ent s (page_at 57343) 1) \<in> used UPAGES s (page_at 57343)" unfolding used_def by blast
  with freevm_returns_all [OF s(1,2)] used_dir [of "page_at 57343" UPAGES s] show ?thesis by blast
qed

text \<open>
  \<open>setupkvm\<close> builds the kernel part of an address space: physical memory from \<open>KERNBASE\<close> on with the
  kernel's text read-only, the devices at the top of the address space, and nothing for the user. It takes the
  page directory and at most 128 page tables.
\<close>

theorem setupkvm_maps_kernel:
  assumes "kmem_inv s (x # xs)" "128 \<le> length xs" "kdata = va_of D" "UPAGES + 256 < D" "D < UPAGES + 57344"
  shows "\<exists>t zs ys. setupkvm kdata s = Inr (x, t) \<and> xs = zs @ ys \<and> length zs \<le> 128 \<and> space_ok UPAGES t x ys \<and>
    (\<forall>m < 1048576. ent t x m = kernel_ent D m)"
  using setupkvm_ok [OF assms] unfolding building_def by blast

theorem setupkvm_maps_kernel_witness:
  "\<exists>s t. setupkvm (va_of (UPAGES + 512)) s = Inr (page_at 57343, t) \<and> ent t (page_at 57343) (UPAGES + 300) = 0x12C001"
proof -
  obtain s xs where s: "kmem_inv s (page_at 57343 # xs)" "8000 \<le> length xs" using booted by blast
  have len: "128 \<le> length xs" using s(2) by linarith
  have ar: "UPAGES + 256 < UPAGES + 512" "UPAGES + 512 < UPAGES + 57344" by simp_all
  have "kernel_ent (UPAGES + 512) (UPAGES + 300) = 0x12C001" by (simp add: kernel_ent_def PTE_P_def)
  moreover obtain t where "setupkvm (va_of (UPAGES + 512)) s = Inr (page_at 57343, t)"
    "\<forall>m < 1048576. ent t (page_at 57343) m = kernel_ent (UPAGES + 512) m"
    using setupkvm_maps_kernel [OF s(1) len refl ar] by blast
  ultimately show ?thesis by (intro exI [of _ s] exI [of _ t]) simp
qed

end
