(* ===== verification/ExecProps.thy ===== *)
theory ExecProps
  imports Exec VmResults
begin

text \<open>
  A new program finds its arguments on its stack, and system calls read their arguments only from memory the
  process has.
\<close>

unbundle bit_operations_syntax

section \<open>Words in user memory\<close>

definition ubytes :: "kmem \<Rightarrow> u32 \<Rightarrow> nat \<Rightarrow> nat \<Rightarrow> u8 list" where
  "ubytes s d a n = map (\<lambda>i. ubyte s d (a + i)) [0..<n]"

definition uword :: "kmem \<Rightarrow> u32 \<Rightarrow> nat \<Rightarrow> u32" where
  "uword s d a = word_at (ubytes s d a 4) 0"

lemma word_at_bytes: "word_at (word_bytes w) 0 = w"
proof (rule bit_word_eqI)
  fix i assume "i < LENGTH(32)"
  then have i: "i < 32" by simp
  have u: "bit (ucast b :: u32) j \<longleftrightarrow> bit b j" for b :: u8 and j
    using bit_imp_le_length [of b j] by (auto simp: bit_ucast_iff)
  have "bit (word_at (word_bytes w) 0) i \<longleftrightarrow> bit (byte_of w 0) i \<or> 8 \<le> i \<and> bit (byte_of w 1) (i - 8) \<or>
      16 \<le> i \<and> bit (byte_of w 2) (i - 16) \<or> 24 \<le> i \<and> bit (byte_of w 3) (i - 24)"
    using i unfolding word_at_def word_bytes_def by (simp add: bit_or_iff bit_push_bit_iff u)
  also have "\<dots> \<longleftrightarrow> bit w i"
  proof -
    consider "i < 8" | "8 \<le> i" "i < 16" | "16 \<le> i" "i < 24" | "24 \<le> i" by linarith
    then show ?thesis using i by cases (auto simp: bit_byte_of)
  qed
  finally show "bit (word_at (word_bytes w) 0) i \<longleftrightarrow> bit w i" .
qed

lemma length_word_bytes [simp]: "length (word_bytes w) = 4"
  by (simp add: word_bytes_def)

lemma word_block: "j < length ws \<Longrightarrow> take 4 (drop (4 * j) (concat (map word_bytes ws))) = word_bytes (ws ! j)"
proof (induction ws arbitrary: j)
  case (Cons w ws)
  then show ?case by (cases j) (simp_all add: drop_append)
qed simp

lemma length_words [simp]: "length (concat (map word_bytes ws)) = 4 * length ws"
  by (induction ws) auto

lemma present_low: "\<forall>x. lo \<le> x \<and> x < hi \<longrightarrow> uok s d x \<Longrightarrow> lo \<le> x \<Longrightarrow> x < hi \<Longrightarrow> present (ent s d (x div 4096))"
  by (simp add: uok_def)

lemma ubytes_written:
  assumes "uwritten d a buf xs s t" "a + length buf \<le> 4096 * UPAGES" "\<forall>x. a \<le> x \<and> x < a + length buf \<longrightarrow> uok s d x"
  shows "i + n \<le> length buf \<Longrightarrow> ubytes t d (a + i) n = take n (drop i buf)"
proof -
  assume n: "i + n \<le> length buf"
  have "ubyte t d (a + i + j) = buf ! (i + j)" if "j < n" for j
    using assms n that unfolding uwritten_def uok_def by simp
  then show ?thesis using n by (intro nth_equalityI) (simp_all add: ubytes_def)
qed

lemma ubytes_kept:
  assumes "uwritten d a buf xs s t" "b + n \<le> a \<or> a + length buf \<le> b" "b + n \<le> 4096 * UPAGES" "\<forall>x. b \<le> x \<and> x < b + n \<longrightarrow> uok s d x"
  shows "ubytes t d b n = ubytes s d b n"
proof -
  have "ubyte t d (b + j) = ubyte s d (b + j)" if "j < n" for j
    using assms that unfolding uwritten_def uok_def by auto
  then show ?thesis by (simp add: ubytes_def)
qed

lemma uwritten_uok: "uwritten d a buf xs s t \<Longrightarrow> x < 4096 * UPAGES \<Longrightarrow> uok t d x = uok s d x"
  unfolding uwritten_def uok_def by (simp add: less_mult_imp_div_less)

section \<open>The arguments of a program\<close>

definition args_size :: "u8 list list \<Rightarrow> nat" where
  "args_size argv = sum_list (map (\<lambda>a. length a + 4) argv)"

text \<open>The strings \<open>as\<close> are in user memory between \<open>sp\<close> and \<open>hi\<close>, at the addresses \<open>us\<close>.\<close>

definition strings_at :: "kmem \<Rightarrow> u32 \<Rightarrow> nat \<Rightarrow> nat \<Rightarrow> u32 list \<Rightarrow> u8 list list \<Rightarrow> bool" where
  "strings_at s d sp hi us as \<longleftrightarrow> length us = length as \<and>
     (\<forall>i < length as. sp \<le> unat (us ! i) \<and> unat (us ! i) + length (as ! i) + 1 \<le> hi \<and>
        ubytes s d (unat (us ! i)) (length (as ! i) + 1) = as ! i @ [0])"

lemma strings_snoc:
  assumes "strings_at s d sp hi us as" "sp' \<le> sp" "sp' \<le> unat q" "unat q + length a + 1 \<le> hi" "ubytes s d (unat q) (length a + 1) = a @ [0]"
  shows "strings_at s d sp' hi (us @ [q]) (as @ [a])"
  using assms unfolding strings_at_def by (auto simp: nth_append less_Suc_eq)

lemma strings_kept:
  assumes "strings_at s d sp hi us as" "uwritten d a buf xs s t" "a + length buf \<le> sp" "hi \<le> 4096 * UPAGES"
    "\<forall>x. lo \<le> x \<and> x < hi \<longrightarrow> uok s d x" "lo \<le> sp"
  shows "strings_at t d sp hi us as"
  unfolding strings_at_def
proof (intro conjI allI impI)
  show "length us = length as" using assms(1) by (simp add: strings_at_def)
  fix i assume i: "i < length as"
  have q: "sp \<le> unat (us ! i)" "unat (us ! i) + length (as ! i) + 1 \<le> hi"
    "ubytes s d (unat (us ! i)) (length (as ! i) + 1) = as ! i @ [0]" using assms(1) i by (simp_all add: strings_at_def)
  then show "sp \<le> unat (us ! i)" "unat (us ! i) + length (as ! i) + 1 \<le> hi" by simp_all
  have "ubytes t d (unat (us ! i)) (length (as ! i) + 1) = ubytes s d (unat (us ! i)) (length (as ! i) + 1)"
    by (rule ubytes_kept [OF assms(2)]) (use q assms in auto)
  then show "ubytes t d (unat (us ! i)) (length (as ! i) + 1) = as ! i @ [0]" using q(3) by simp
qed

text \<open>The stack pointer after reserving room for a string.\<close>

lemma string_room:
  assumes "n + 4 \<le> unat (sp :: u32)"
  shows "unat ((sp - (of_nat n + 1)) AND NOT 3) + n + 1 \<le> unat sp" "unat sp \<le> unat ((sp - (of_nat n + 1)) AND NOT 3) + n + 4"
proof -
  have "unat sp < 2 ^ 32" using unsigned_less [of sp, where ?'a = nat] by simp
  then have n: "unat (of_nat (n + 1) :: u32) = n + 1" using assms by (simp add: unat_of_nat del: of_nat_add of_nat_Suc)
  then have "unat (sp - of_nat (n + 1)) = unat sp - (n + 1)" using assms by (subst unat_sub) (simp_all add: word_le_nat_alt)
  then have "unat ((sp - (of_nat n + 1)) AND NOT 3) = (unat sp - (n + 1)) div 4 * 4" by (simp only: word_part of_nat_add of_nat_1)
  moreover have "(unat sp - (n + 1)) div 4 * 4 \<le> unat sp - (n + 1)" "unat sp - (n + 1) < (unat sp - (n + 1)) div 4 * 4 + 4"
    using div_mult_mod_eq [of "unat sp - (n + 1)" 4] mod_less_divisor [of 4 "unat sp - (n + 1)"] by linarith+
  ultimately show "unat ((sp - (of_nat n + 1)) AND NOT 3) + n + 1 \<le> unat sp" "unat sp \<le> unat ((sp - (of_nat n + 1)) AND NOT 3) + n + 4"
    using assms by linarith+
qed

definition same_space :: "u32 \<Rightarrow> u32 list \<Rightarrow> kmem \<Rightarrow> kmem \<Rightarrow> bool" where
  "same_space d xs s t \<longleftrightarrow> space_ok UPAGES t d xs \<and> (\<forall>m < 1048576. ent t d m = ent s d m) \<and> km_end t = km_end s"

lemma exec_args_ok:
  assumes "space_ok UPAGES s d xs" "hi \<le> 4096 * UPAGES" "\<forall>x. lo \<le> x \<and> x < hi \<longrightarrow> uok s d x" "unat sp \<le> hi"
    "lo + args_size argv \<le> unat sp" "length as + length argv \<le> 32" "strings_at s d (unat sp) hi us as"
  shows "\<exists>t sp' vs. exec_args d argv (length as) sp us s = Inr (Some (length as + length argv, sp', vs), t) \<and> same_space d xs s t \<and>
    unat sp \<le> unat sp' + args_size argv \<and> unat sp' \<le> unat sp \<and> strings_at t d (unat sp') hi vs (as @ argv)"
  using assms
proof (induction argv arbitrary: as sp us s)
  case Nil
  then show ?case by (simp add: same_space_def args_size_def)
next
  case (Cons a argv)
  let ?sp = "(sp - (of_nat (length a) + 1)) AND NOT 3"
  have sz: "lo + length a + 4 + args_size argv \<le> unat sp" using Cons.prems(5) by (simp add: args_size_def)
  then have "length a + 4 \<le> unat sp" by simp
  note q = string_room [OF this]
  have lo: "lo + args_size argv \<le> unat ?sp" using q sz by linarith
  have rng: "unat ?sp + length (a @ [0]) \<le> hi" using q(1) Cons.prems(4) by simp
  have ok: "\<And>x. unat ?sp \<le> x \<Longrightarrow> x < unat ?sp + length (a @ [0]) \<Longrightarrow> uok s d x" using Cons.prems(3) rng lo by simp
  obtain t where t: "copyout d ?sp (a @ [0]) s = Inr (0, t)" "uwritten d (unat ?sp) (a @ [0]) xs s t"
    using copyout_ok [OF Cons.prems(1) le_trans [OF rng Cons.prems(2)] ok] by blast
  have acc: "\<forall>x. lo \<le> x \<and> x < hi \<longrightarrow> uok t d x" using uwritten_uok [OF t(2)] Cons.prems(2,3) by auto
  have "ubytes t d (unat ?sp + 0) (length a + 1) = take (length a + 1) (drop 0 (a @ [0]))"
    by (rule ubytes_written [OF t(2)]) (use rng Cons.prems(2) ok in auto)
  then have new: "ubytes t d (unat ?sp) (length a + 1) = a @ [0]" by simp
  have old: "strings_at t d (unat sp) hi us as"
    by (rule strings_kept [OF Cons.prems(7) t(2) _ Cons.prems(2,3)]) (use q sz in auto)
  have st: "strings_at t d (unat ?sp) hi (us @ [?sp]) (as @ [a])"
    by (rule strings_snoc [OF old _ order_refl _ new]) (use q rng in auto)
  have sp: "space_ok UPAGES t d xs" using t(2) by (simp add: uwritten_def)
  have "\<exists>u sp' vs. exec_args d argv (length (as @ [a])) ?sp (us @ [?sp]) t =
      Inr (Some (length (as @ [a]) + length argv, sp', vs), u) \<and> same_space d xs t u \<and>
      unat ?sp \<le> unat sp' + args_size argv \<and> unat sp' \<le> unat ?sp \<and> strings_at u d (unat sp') hi vs ((as @ [a]) @ argv)"
    by (rule Cons.IH [OF sp Cons.prems(2) acc _ lo _ st]) (use rng Cons.prems(6) in auto)
  then obtain u sp' vs where u: "exec_args d argv (length (as @ [a])) ?sp (us @ [?sp]) t =
      Inr (Some (length (as @ [a]) + length argv, sp', vs), u)" "same_space d xs t u"
      "unat ?sp \<le> unat sp' + args_size argv" "unat sp' \<le> unat ?sp" "strings_at u d (unat sp') hi vs ((as @ [a]) @ argv)" by blast
  have "same_space d xs s u" using u(2) t(2) by (simp add: same_space_def uwritten_def)
  moreover have "\<not> length as \<ge> MAXARG" using Cons.prems(6) by (simp add: MAXARG_def)
  then have "exec_args d (a # argv) (length as) sp us s = Inr (Some (length as + length (a # argv), sp', vs), u)"
    using t(1) u(1) by simp
  moreover have "unat sp \<le> unat sp' + args_size (a # argv)" "unat sp' \<le> unat sp" using u(3,4) q by (simp_all add: args_size_def)
  ultimately show ?case using u(5) by (intro exI [of _ u] exI [of _ sp'] exI [of _ vs]) simp
qed

section \<open>The stack of a program\<close>

lemma words_written:
  assumes "uwritten d a (concat (map word_bytes ws)) xs s t" "a + 4 * length ws \<le> 4096 * UPAGES"
    "\<forall>x. a \<le> x \<and> x < a + 4 * length ws \<longrightarrow> uok s d x" "j < length ws"
  shows "uword t d (a + 4 * j) = ws ! j"
proof -
  have "ubytes t d (a + 4 * j) 4 = take 4 (drop (4 * j) (concat (map word_bytes ws)))"
    by (rule ubytes_written [OF assms(1)]) (use assms in auto)
  then show ?thesis using word_block [OF assms(4)] by (simp add: uword_def word_at_bytes)
qed

lemma guard_entry: "present (e AND NOT PTE_U) = present e" "frame (e AND NOT PTE_U) = frame e" "\<not> user (e AND NOT PTE_U)"
proof -
  show "present (e AND NOT PTE_U) = present e" by (simp add: present_odd PTE_U_def even_and_iff even_not_iff)
  have "(e AND NOT 4) AND NOT 0xFFF = e AND (NOT 4 AND NOT (0xFFF :: u32))" by (rule and.assoc)
  then show "frame (e AND NOT PTE_U) = frame e" by (simp add: frame_def PTE_ADDR_def PTE_U_def)
  show "\<not> user (e AND NOT PTE_U)" by (simp add: user_def and.assoc)
qed

text \<open>\<open>clearpteu\<close> takes a page from the user and changes nothing else.\<close>

lemma clearpteu_ok:
  assumes sp: "space_ok UPAGES s d xs" and n: "n < UPAGES" "present (ent s d n)"
  shows "\<exists>t. clearpteu d (va_of n) s = Inr t \<and> space_ok UPAGES t d xs \<and>
    (\<forall>m < 1048576. ent t d m = (if m = n then ent s d n AND NOT PTE_U else ent s d m))"
proof -
  have n': "n < 1048576" "n div 1024 < 1024" using n(1) by auto
  have pd: "present (pde s d (n div 1024))" using ent_present n(2) by blast
  let ?pte = "slot (tab s d (n div 1024)) (n mod 1024)" and ?v = "ent s d n AND NOT PTE_U"
  let ?t = "km_write ?pte ?v s"
  have nz: "?pte \<noteq> 0" by (rule page_ne_0) (use space_tab [OF sp n'(2) pd] in auto)
  have c: "clearpteu d (va_of n) s = Inr ?t" using walk_present [OF n'(1) pd] nz ent_slot [OF pd] by (simp add: clearpteu_def)
  note w = write_ent [OF space_ok_less [OF sp, of 0, simplified] _ n'(1) pd _ refl, of ?v, simplified]
  have po: "page_of UPAGES ?t d = page_of UPAGES s d"
    using w(5) [of UPAGES] n by (auto simp: guard_entry)
  have "space_ok UPAGES ?t d xs"
    by (rule space_ok_sub [OF sp space_okD(1) [OF w(1)]]) (use po space_okD(4) [OF sp] in \<open>auto simp: km_write_def\<close>)
  with c w(2) show ?thesis by blast
qed

lemma npages_va [simp]: "n < 1048576 \<Longrightarrow> npages (va_of n) = n"
  by (simp add: npages_def)

lemma va_of_add2: "va_of n + 2 * PGSIZE = va_of (n + 2)" "va_of (n + 2) - 2 * PGSIZE = va_of n"
  by (simp_all add: va_of_def PGSIZE_def algebra_simps)

lemma user_flags_iff: "user e \<longleftrightarrow> user (PTE_FLAGS e)"
proof -
  have "PTE_FLAGS e AND PTE_U = e AND (0xFFF AND PTE_U)" unfolding PTE_FLAGS_def by (rule and.assoc)
  moreover have "0xFFF AND PTE_U = (PTE_U :: u32)" by (simp add: PTE_U_def)
  ultimately show ?thesis by (simp add: user_def)
qed

text \<open>The two new pages: a guard page the user cannot touch, and above it the page of the stack.\<close>

lemma stack_pages:
  assumes sp: "space_ok UPAGES s d xs" and pid: "pid \<noteq> - 1" and n: "n + 2 < UPAGES"
    and free: "\<not> present (ent s d n)" "\<not> present (ent s d (n + 1))" and rm: "4 \<le> room pid s xs"
  shows "\<exists>t u ys. allocuvm pid d (va_of n) (va_of (n + 2)) s = Inr (va_of (n + 2), t) \<and> clearpteu d (va_of n) t = Inr u \<and>
    space_ok UPAGES u d ys \<and> present (ent u d n) \<and> \<not> user (ent u d n) \<and> present (ent u d (n + 1)) \<and> user (ent u d (n + 1)) \<and>
    (\<forall>m < 1048576. m \<noteq> n \<longrightarrow> m \<noteq> n + 1 \<longrightarrow> ent u d m = ent s d m)"
proof -
  have np: "npages (va_of n) = n" "npages (va_of (n + 2)) = n + 2" using n by simp_all
  have le: "va_of n \<le> va_of (n + 2)" "va_of (n + 2) < KERNBASE" using n by (simp_all add: word_le_nat_alt word_less_nat_alt KERNBASE_def)
  have fr: "\<not> present (ent s d m)" if "npages (va_of n) \<le> m" "m < npages (va_of (n + 2))" for m
  proof -
    have "m = n \<or> m = n + 1" using that np by arith
    then show ?thesis using free by auto
  qed
  have few: "\<not> room pid s xs < 2 * (npages (va_of (n + 2)) - npages (va_of n))" using rm np by simp
  obtain t ys where t: "allocuvm pid d (va_of n) (va_of (n + 2)) s = Inr (va_of (n + 2), t)" "space_ok UPAGES t d ys"
    "grown pid d n (n + 2) (\<lambda>_. PTE_W OR PTE_U) (\<lambda>_ _. 0) xs ys s t"
    using allocuvm_ok [OF sp pid le fr] few unfolding np by blast
  have hp: "present (ent t d m) \<and> user (ent t d m)" if "n \<le> m" "m < n + 2" for m
  proof -
    have "present (ent t d m)" "PTE_FLAGS (ent t d m) = PTE_P OR PTE_W OR PTE_U"
      using grown_user(1) [OF t(3) space_okD(1) [OF sp]] that unfolding has_pages_def by blast+
    then show ?thesis using user_flags_iff [of "ent t d m"] by (simp add: user_def PTE_P_def PTE_W_def PTE_U_def)
  qed
  have n': "n < UPAGES" using n by simp
  obtain u where u: "clearpteu d (va_of n) t = Inr u" "space_ok UPAGES u d ys"
    "\<forall>m < 1048576. ent u d m = (if m = n then ent t d n AND NOT PTE_U else ent t d m)"
    using clearpteu_ok [OF t(2) n'] hp [of n] by auto
  have "\<forall>m < 1048576. \<not> (n \<le> m \<and> m < n + 2) \<longrightarrow> ent t d m = ent s d m" using t(3) unfolding grown_def by blast
  then have "\<forall>m < 1048576. m \<noteq> n \<longrightarrow> m \<noteq> n + 1 \<longrightarrow> ent u d m = ent s d m" using u(3) by auto
  moreover have "ent u d n = ent t d n AND NOT PTE_U" "ent u d (n + 1) = ent t d (n + 1)" using u(3) n by auto
  ultimately show ?thesis using t(1) u(1,2) hp [of n] hp [of "n + 1"] guard_entry [of "ent t d n"]
    by (intro exI [of _ t] exI [of _ u] exI [of _ ys]) simp
qed

text \<open>What a program finds at its stack pointer: a return address, \<open>argc\<close>, \<open>argv\<close>, and the array \<open>argv\<close> ended by 0.\<close>

definition passed :: "kmem \<Rightarrow> u32 \<Rightarrow> nat \<Rightarrow> u32 \<Rightarrow> u8 list list \<Rightarrow> bool" where
  "passed t d hi sp argv \<longleftrightarrow> unat sp + 16 + 4 * length argv \<le> hi \<and> uword t d (unat sp) = 0xFFFFFFFF \<and> uword t d (unat sp + 4) = of_nat (length argv) \<and>
     uword t d (unat sp + 8) = sp + 12 \<and> uword t d (unat sp + 12 + 4 * length argv) = 0 \<and>
     (\<forall>i < length argv. ubytes t d (unat (uword t d (unat sp + 12 + 4 * i))) (length (argv ! i) + 1) = argv ! i @ [0] \<and>
       0 < unat (uword t d (unat sp + 12 + 4 * i)) \<and> unat (uword t d (unat sp + 12 + 4 * i)) + length (argv ! i) + 1 \<le> hi)"

lemma unat_below: "4 * k \<le> unat sp \<Longrightarrow> unat (sp - of_nat k * 4) = unat sp - 4 * k" for sp :: u32
proof -
  assume k: "4 * k \<le> unat sp"
  have "unat sp < 2 ^ 32" using unsigned_less [of sp, where ?'a = nat] by simp
  then have "unat (of_nat (4 * k) :: u32) = 4 * k" using k by (simp add: unat_of_nat del: of_nat_mult)
  then have "unat (sp - of_nat (4 * k)) = unat sp - 4 * k" using k by (subst unat_sub) (simp_all add: word_le_nat_alt del: of_nat_mult)
  then show ?thesis by (simp add: mult.commute)
qed

lemma vector_passed:
  assumes sp: "space_ok UPAGES s d xs" and ok: "\<forall>x. lo \<le> x \<and> x < hi \<longrightarrow> uok s d x" "hi \<le> 4096 * UPAGES" "unat sp \<le> hi"
    and st: "strings_at s d (unat sp) hi us argv" and rm: "lo + 4 * (length argv + 4) \<le> unat sp"
    and ws: "ws = [0xFFFFFFFF, of_nat (length argv), sp - (of_nat (length argv) + 1) * 4] @ us @ [0]"
    and q: "q = sp - (3 + of_nat (length argv) + 1) * 4"
  shows "\<exists>t. copyout d q (concat (map word_bytes ws)) s = Inr (0, t) \<and> space_ok UPAGES t d xs \<and>
    (\<forall>m < 1048576. ent t d m = ent s d m) \<and> passed t d hi q argv"
proof -
  let ?c = "length argv"
  have q': "q = sp - of_nat (?c + 4) * 4" unfolding q by (simp add: algebra_simps)
  have uq: "unat q + 4 * (?c + 4) = unat sp" unfolding q' using unat_below [of "?c + 4" sp] rm by simp
  have us: "length us = ?c" using st by (simp add: strings_at_def)
  then have lw: "length ws = ?c + 4" unfolding ws by simp
  have rng: "unat q + length (concat (map word_bytes ws)) = unat sp" using uq lw by simp
  obtain t where t: "copyout d q (concat (map word_bytes ws)) s = Inr (0, t)" "uwritten d (unat q) (concat (map word_bytes ws)) xs s t"
    using copyout_ok [OF sp, of q "concat (map word_bytes ws)"] rng ok rm uq by auto
  have w: "uword t d (unat q + 4 * j) = ws ! j" if "j < ?c + 4" for j
    by (rule words_written [OF t(2)]) (use that lw uq ok rm in auto)
  have stt: "strings_at t d (unat sp) hi us argv"
    by (rule strings_kept [OF st t(2) _ ok(2,1)]) (use rng rm in auto)
  have str: "ubytes t d (unat (us ! i)) (length (argv ! i) + 1) = argv ! i @ [0] \<and> 0 < unat (us ! i) \<and>
      unat (us ! i) + length (argv ! i) + 1 \<le> hi" if i: "i < ?c" for i
  proof -
    have "unat sp \<le> unat (us ! i)" "unat (us ! i) + length (argv ! i) + 1 \<le> hi"
      "ubytes t d (unat (us ! i)) (length (argv ! i) + 1) = argv ! i @ [0]" using stt i unfolding strings_at_def by blast+
    moreover have "0 < unat sp" using rm by simp
    ultimately show ?thesis by simp
  qed
  have "uword t d (unat q) = 0xFFFFFFFF" "uword t d (unat q + 4) = of_nat ?c" using w [of 0] w [of 1] by (simp_all add: ws)
  moreover have "uword t d (unat q + 8) = q + 12" using w [of 2] unfolding q by (simp add: ws algebra_simps)
  moreover have el: "uword t d (unat q + 12 + 4 * i) = (us @ [0]) ! i" if "i < ?c + 1" for i
  proof -
    have "ws ! (3 + i) = (us @ [0]) ! i" unfolding ws by simp
    then show ?thesis using w [of "3 + i"] that by (simp add: algebra_simps)
  qed
  moreover have "ubytes t d (unat (uword t d (unat q + 12 + 4 * i))) (length (argv ! i) + 1) = argv ! i @ [0] \<and>
      0 < unat (uword t d (unat q + 12 + 4 * i)) \<and> unat (uword t d (unat q + 12 + 4 * i)) + length (argv ! i) + 1 \<le> hi" if "i < ?c" for i
    using el [of i] str [OF that] that us by (simp add: nth_append)
  moreover have "unat q + 16 + 4 * ?c \<le> hi" using uq ok(3) by simp
  ultimately have "passed t d hi q argv" using us unfolding passed_def by (simp add: nth_append)
  with t show ?thesis unfolding uwritten_def by blast
qed

lemma exec_stack_ok:
  assumes sp: "space_ok UPAGES s d xs" and pid: "pid \<noteq> - 1" and n: "sz \<le> KERNBASE" "npages sz + 2 < UPAGES"
    and free: "\<not> present (ent s d (npages sz))" "\<not> present (ent s d (npages sz + 1))" and rm: "4 \<le> room pid s xs"
    and few: "length argv \<le> 32" "args_size argv + 4 * (length argv + 4) \<le> 4096"
  shows "\<exists>t ys sp. exec_stack pid d sz argv s = Inr (Some (va_of (npages sz + 2), sp), t) \<and> space_ok UPAGES t d ys \<and> passed t d (4096 * (npages sz + 2)) sp argv \<and>
    present (ent t d (npages sz)) \<and> \<not> user (ent t d (npages sz)) \<and> present (ent t d (npages sz + 1)) \<and> user (ent t d (npages sz + 1)) \<and>
    (\<forall>m < 1048576. m \<noteq> npages sz \<longrightarrow> m \<noteq> npages sz + 1 \<longrightarrow> ent t d m = ent s d m)"
proof -
  let ?n = "npages sz"
  obtain a u ys where u: "allocuvm pid d (va_of ?n) (va_of (?n + 2)) s = Inr (va_of (?n + 2), a)" "clearpteu d (va_of ?n) a = Inr u"
    "space_ok UPAGES u d ys" "present (ent u d ?n)" "\<not> user (ent u d ?n)" "present (ent u d (?n + 1))" "user (ent u d (?n + 1))"
    "\<forall>m < 1048576. m \<noteq> ?n \<longrightarrow> m \<noteq> ?n + 1 \<longrightarrow> ent u d m = ent s d m"
    using stack_pages [OF sp pid n(2) free rm] by blast
  let ?lo = "4096 * (?n + 1)" and ?hi = "4096 * (?n + 2)"
  have hi: "unat (va_of (?n + 2)) = ?hi" by (rule unat_va_of) (use n(2) in simp)
  have ok: "\<forall>x. ?lo \<le> x \<and> x < ?hi \<longrightarrow> uok u d x"
  proof (intro allI impI)
    fix x assume "?lo \<le> x \<and> x < ?hi"
    then have "x div 4096 = ?n + 1" using in_block [of 0 4096 "?n + 1" x] by simp
    then show "uok u d x" using u(6,7) by (simp add: uok_def)
  qed
  have "\<exists>t sp' vs. exec_args d argv (length ([] :: u8 list list)) (va_of (?n + 2)) [] u = Inr (Some (length ([] :: u8 list list) + length argv, sp', vs), t) \<and>
    same_space d ys u t \<and> unat (va_of (?n + 2)) \<le> unat sp' + args_size argv \<and> unat sp' \<le> unat (va_of (?n + 2)) \<and> strings_at t d (unat sp') ?hi vs ([] @ argv)"
    by (rule exec_args_ok [OF u(3) _ ok]) (use n(2) few hi in \<open>auto simp: strings_at_def\<close>)
  then obtain t sp' vs where t: "exec_args d argv 0 (va_of (?n + 2)) [] u = Inr (Some (length argv, sp', vs), t)" "same_space d ys u t"
    "?hi \<le> unat sp' + args_size argv" "unat sp' \<le> ?hi" "strings_at t d (unat sp') ?hi vs argv" unfolding hi by auto
  have t': "space_ok UPAGES t d ys" "\<forall>m < 1048576. ent t d m = ent u d m" using t(2) by (simp_all add: same_space_def)
  have okt: "\<forall>x. ?lo \<le> x \<and> x < ?hi \<longrightarrow> uok t d x"
  proof (intro allI impI)
    fix x assume x: "?lo \<le> x \<and> x < ?hi"
    then have "x < 4096 * 1048576" using n(2) by simp
    then have "x div 4096 < 1048576" by (simp add: less_mult_imp_div_less)
    then show "uok t d x" using ok x t'(2) by (simp add: uok_def)
  qed
  have hi': "?hi \<le> 4096 * UPAGES" using n(2) by simp
  have rmv: "?lo + 4 * (length argv + 4) \<le> unat sp'" using t(3) few by simp
  obtain v where v: "copyout d (sp' - (3 + of_nat (length argv) + 1) * 4)
      (concat (map word_bytes ([0xFFFFFFFF, of_nat (length argv), sp' - (of_nat (length argv) + 1) * 4] @ vs @ [0]))) t = Inr (0, v)"
    "space_ok UPAGES v d ys" "\<forall>m < 1048576. ent v d m = ent t d m" "passed v d ?hi (sp' - (3 + of_nat (length argv) + 1) * 4) argv"
    using vector_passed [OF t'(1) okt hi' t(4,5) rmv refl refl] by blast
  have nz: "va_of (?n + 2) \<noteq> 0" using hi by (metis unat_0 mult_eq_0_iff add_is_0 zero_neq_numeral)
  have "exec_stack pid d sz argv s = Inr (Some (va_of (?n + 2), sp' - (3 + of_nat (length argv) + 1) * 4), v)"
    unfolding exec_stack_def PGROUNDUP_va [OF n(1)] Let_def va_of_add2 u(1) rbind_Inr using nz u(2) t(1) v(1)
    by (simp add: va_of_add2 del: add_2_eq_Suc add_2_eq_Suc')
  moreover have "ent v d m = ent u d m" if "m < 1048576" for m using v(3) t'(2) that by simp
  ultimately show ?thesis using v(2,4) u(4-8) n(2) by (intro exI [of _ v] exI [of _ ys] exI [of _ "sp' - (3 + of_nat (length argv) + 1) * 4"]) simp
qed

section \<open>Reading user memory\<close>

lemma walk_page: "walkpgdir d va alloc s = walkpgdir d (PGROUNDDOWN va) alloc s"
proof -
  have "drop_bit 22 (va AND NOT 0xFFF) AND 0x3FF = drop_bit 22 va AND (0x3FF :: u32)"
    "drop_bit 12 (va AND NOT 0xFFF) AND 0x3FF = drop_bit 12 va AND (0x3FF :: u32)"
    by (simp_all add: drop_bit_and and.assoc)
  then have "PDX (PGROUNDDOWN va) = PDX va" "PTX (PGROUNDDOWN va) = PTX va" by (simp_all add: PDX_def PTX_def PGROUNDDOWN_def)
  then show ?thesis by (simp only: walkpgdir_def)
qed

lemma user_byte_ok:
  assumes sp: "space_ok UPAGES s d xs" and va: "unat va div 4096 < UPAGES" "present (ent s d (unat va div 4096))"
  shows "user_byte d va s = Inr (ubyte s d (unat va))"
proof -
  let ?n = "unat va div 4096"
  have n: "?n < 1048576" "?n div 1024 < 1024" using va(1) by auto
  have pd: "present (pde s d (?n div 1024))" using ent_present va(2) by blast
  let ?pte = "slot (tab s d (?n div 1024)) (?n mod 1024)"
  have "walkpgdir d va False s = Inr (?pte, s)" using walk_present [OF n(1) pd] walk_page [of d va] by (simp add: PGROUNDDOWN_va)
  moreover have "?pte \<noteq> 0" by (rule page_ne_0) (use space_tab [OF sp n(2) pd] in auto)
  ultimately show ?thesis using va(2) ent_slot [OF pd] by (simp add: user_byte_def ubyte_def va_offset frame_def)
qed

text \<open>All memory of a process is mapped.\<close>

definition mapped_to :: "uproc \<Rightarrow> u32 list \<Rightarrow> kmem \<Rightarrow> bool" where
  "mapped_to p xs s \<longleftrightarrow> space_ok UPAGES s (up_pgdir p) xs \<and> up_sz p \<le> KERNBASE \<and> (\<forall>m < npages (up_sz p). present (ent s (up_pgdir p) m))"

lemma read_byte:
  assumes "mapped_to p xs s" "unat va < unat (up_sz p)"
  shows "user_byte (up_pgdir p) va s = Inr (ubyte s (up_pgdir p) (unat va))"
proof (rule user_byte_ok)
  show "space_ok UPAGES s (up_pgdir p) xs" using assms(1) by (simp add: mapped_to_def)
  have "unat va div 4096 < npages (up_sz p)" using assms(2) unfolding npages_def by (auto intro!: less_mult_imp_div_less simp: div_mult_mod_eq)
  moreover have "npages (up_sz p) \<le> UPAGES" using assms(1) npages_user by (simp add: mapped_to_def)
  ultimately show "unat va div 4096 < UPAGES" "present (ent s (up_pgdir p) (unat va div 4096))"
    using assms(1) by (simp_all add: mapped_to_def)
qed

lemma size_low: "mapped_to p xs s \<Longrightarrow> unat (up_sz p) \<le> 2147483648"
  by (simp add: mapped_to_def KERNBASE_def word_le_nat_alt)

lemma fetchint_ok:
  assumes m: "mapped_to p xs s"
  shows "fetchint p addr s = Inr (if unat addr + 4 \<le> unat (up_sz p) then Some (sint (uword s (up_pgdir p) (unat addr))) else None)"
proof (cases "addr < up_sz p")
  case True
  then have lt: "unat addr < unat (up_sz p)" by (simp add: word_less_nat_alt)
  then have a: "unat (addr + of_nat k) = unat addr + k" if "k \<le> 4" for k
    using size_low [OF m] that by (simp add: unat_word_ariths unat_of_nat)
  have n: "unat (addr + 1) = unat addr + 1" "unat (addr + 2) = unat addr + 2" "unat (addr + 3) = unat addr + 3" "unat (addr + 4) = unat addr + 4"
    using a [of 1] a [of 2] a [of 3] a [of 4] by simp_all
  have u: "[0..<4] = [0, 1, 2, 3 :: nat]" by (simp add: upt_rec)
  show ?thesis
  proof (cases "unat addr + 4 \<le> unat (up_sz p)")
    case in_range: True
    have "\<not> (addr \<ge> up_sz p \<or> addr + 4 > up_sz p)" using True in_range n by (simp add: word_less_nat_alt word_le_nat_alt)
    moreover have "user_byte (up_pgdir p) addr s = Inr (ubyte s (up_pgdir p) (unat addr))" by (rule read_byte [OF m lt])
    moreover have "user_byte (up_pgdir p) (addr + 1) s = Inr (ubyte s (up_pgdir p) (unat addr + 1))"
      "user_byte (up_pgdir p) (addr + 2) s = Inr (ubyte s (up_pgdir p) (unat addr + 2))"
      "user_byte (up_pgdir p) (addr + 3) s = Inr (ubyte s (up_pgdir p) (unat addr + 3))"
      using read_byte [OF m] n in_range by simp_all
    ultimately show ?thesis using in_range by (simp add: fetchint_def uword_def ubytes_def u)
  qed (use n in \<open>simp add: fetchint_def word_less_nat_alt word_le_nat_alt\<close>)
qed (simp add: fetchint_def word_less_nat_alt word_le_nat_alt)

lemma argptr_ok:
  assumes m: "mapped_to p xs s" and len: "len < 2 ^ 31"
    and a: "a = unat (up_esp p + 4 + 4 * of_nat n)" and q: "q = uword s (up_pgdir p) a"
  shows "argptr p n len s =
    Inr (if a + 4 \<le> unat (up_sz p) \<and> 0 \<le> len \<and> q < up_sz p \<and> unat q + nat len \<le> unat (up_sz p) then Some q else None)"
proof -
  have i: "argint p n s = Inr (if a + 4 \<le> unat (up_sz p) then Some (sint q) else None)"
    using fetchint_ok [OF m] unfolding a q argint_def by simp
  have l: "unat q + nat len \<le> unat (up_sz p) \<longleftrightarrow> q + word_of_int len \<le> up_sz p" if nn: "0 \<le> len" and qs: "q < up_sz p"
  proof -
    obtain k where k: "len = int k" using nonneg_int_cases [OF nn] by metis
    have lt: "k < 2147483648" "unat q < 2147483648" using k len qs size_low [OF m] by (simp_all add: word_less_nat_alt)
    have "unat (of_nat k :: u32) = k" using lt(1) by (simp add: unat_of_nat)
    then have "unat (q + of_nat k) = (unat q + k) mod 4294967296" by (simp add: unat_word_ariths)
    then have "unat (q + word_of_int len) = unat q + k" using lt unfolding k by simp
    then show ?thesis using k by (simp add: word_le_nat_alt)
  qed
  show ?thesis
  proof (cases "a + 4 \<le> unat (up_sz p)")
    case True
    then have "argptr p n len s = Inr (if 0 \<le> len \<and> q < up_sz p \<and> q + word_of_int len \<le> up_sz p then Some q else None)"
      unfolding argptr_def i by (auto simp: not_less not_le)
    then show ?thesis using True l by auto
  qed (simp add: argptr_def i)
qed

text \<open>There is a string of \<open>k\<close> bytes at \<open>a\<close>, with its end below \<open>sz\<close>.\<close>

definition ustring :: "kmem \<Rightarrow> u32 \<Rightarrow> nat \<Rightarrow> nat \<Rightarrow> nat \<Rightarrow> bool" where
  "ustring s d sz a k \<longleftrightarrow> a + k < sz \<and> ubyte s d (a + k) = 0 \<and> (\<forall>j < k. ubyte s d (a + j) \<noteq> 0)"

lemma ustring_next: "ubyte s d a \<noteq> 0 \<Longrightarrow> ustring s d sz (Suc a) k \<longleftrightarrow> ustring s d sz a (Suc k)"
  unfolding ustring_def by (auto simp: less_Suc_eq_0_disj)

lemma ustring_none: "ubyte s d a \<noteq> 0 \<Longrightarrow> (\<exists>k. ustring s d sz (Suc a) k) \<longleftrightarrow> (\<exists>k. ustring s d sz a k)"
proof -
  assume a: "ubyte s d a \<noteq> 0"
  then have "\<not> ustring s d sz a 0" by (simp add: ustring_def)
  then show ?thesis using ustring_next [OF a] by (metis nat.exhaust)
qed

lemma fetchstr_loop_ok:
  assumes m: "mapped_to p xs s" and q: "unat q \<le> unat (up_sz p)"
  shows "fetchstr_loop p q addr s = Inr None \<and> (\<nexists>k. ustring s (up_pgdir p) (unat (up_sz p)) (unat q) k) \<or>
    (\<exists>k. fetchstr_loop p q addr s = Inr (Some (sint (q + of_nat k - addr))) \<and> ustring s (up_pgdir p) (unat (up_sz p)) (unat q) k)"
  using q
proof (induction "unat (up_sz p) - unat q" arbitrary: q rule: less_induct)
  case less
  show ?case
  proof (cases "q < up_sz p")
    case True
    then have lt: "unat q < unat (up_sz p)" by (simp add: word_less_nat_alt)
    note rb = read_byte [OF m lt]
    have n: "unat (q + 1) = Suc (unat q)" using lt size_low [OF m] by (simp add: unat_word_ariths)
    show ?thesis
    proof (cases "ubyte s (up_pgdir p) (unat q) = 0")
      case end_found: True
      then have "fetchstr_loop p q addr s = Inr (Some (sint (q + of_nat 0 - addr)))" using True rb by (subst fetchstr_loop.simps) simp
      moreover have "ustring s (up_pgdir p) (unat (up_sz p)) (unat q) 0" using end_found lt by (simp add: ustring_def)
      ultimately show ?thesis by blast
    next
      case more: False
      then have step: "fetchstr_loop p q addr s = fetchstr_loop p (q + 1) addr s" using True rb by (subst fetchstr_loop.simps) simp
      have "unat (up_sz p) - unat (q + 1) < unat (up_sz p) - unat q" "unat (q + 1) \<le> unat (up_sz p)" using n lt by simp_all
      from less.hyps [OF this] consider
          "fetchstr_loop p (q + 1) addr s = Inr None" "\<nexists>k. ustring s (up_pgdir p) (unat (up_sz p)) (Suc (unat q)) k"
        | k where "fetchstr_loop p (q + 1) addr s = Inr (Some (sint (q + 1 + of_nat k - addr)))" "ustring s (up_pgdir p) (unat (up_sz p)) (Suc (unat q)) k"
        unfolding n by blast
      then show ?thesis
      proof cases
        case 1
        then show ?thesis using step ustring_none [OF more] by simp
      next
        case 2
        have "ustring s (up_pgdir p) (unat (up_sz p)) (unat q) (Suc k)" using 2(2) ustring_next [OF more] by simp
        moreover have "fetchstr_loop p q addr s = Inr (Some (sint (q + of_nat (Suc k) - addr)))" using 2(1) step by (simp add: algebra_simps)
        ultimately show ?thesis by blast
      qed
    qed
  next
    case False
    then have "unat (up_sz p) \<le> unat q" by (simp add: word_less_nat_alt)
    then show ?thesis using False by (subst (1) fetchstr_loop.simps) (simp add: ustring_def)
  qed
qed

lemma fetchstr_ok:
  assumes m: "mapped_to p xs s"
  shows "fetchstr p addr s = Inr None \<and> (\<nexists>k. ustring s (up_pgdir p) (unat (up_sz p)) (unat addr) k) \<or>
    (\<exists>k. fetchstr p addr s = Inr (Some (addr, int k)) \<and> ustring s (up_pgdir p) (unat (up_sz p)) (unat addr) k)"
proof (cases "addr < up_sz p")
  case True
  then have lt: "unat addr < unat (up_sz p)" "unat addr \<le> unat (up_sz p)" by (simp_all add: word_less_nat_alt)
  have num: "sint (addr + of_nat k - addr) = int k" if "ustring s (up_pgdir p) (unat (up_sz p)) (unat addr) k" for k
  proof -
    have k: "k < 2147483648" using that size_low [OF m] by (simp add: ustring_def)
    then have "sint (of_nat k :: u32) = int k" by (simp add: signed_of_nat signed_take_bit_int_eq_self)
    then show ?thesis by simp
  qed
  from fetchstr_loop_ok [OF m lt(2), of addr] True num show ?thesis by (auto simp: fetchstr_def)
next
  case False
  then have "up_sz p \<le> addr" "unat (up_sz p) \<le> unat addr" by (simp_all add: word_less_nat_alt word_le_nat_alt)
  then show ?thesis by (simp add: fetchstr_def ustring_def)
qed

text \<open>The bytes of a page in terms of its words.\<close>

lemma ubyte_page:
  assumes sp: "space_ok UPAGES s d xs" and x: "x div 4096 < UPAGES" and c: "has_pages s d n l perm c" "n \<le> x div 4096" "x div 4096 < l"
  shows "ubyte s d x = byte_of (c (x div 4096) (x mod 4096 div 4)) (x mod 4)"
proof -
  let ?m = "x div 4096" and ?k = "x mod 4096"
  have hp: "present (ent s d ?m)" "\<And>k. k < 1024 \<Longrightarrow> km_mem s (slot (frame (ent s d ?m)) k) = c ?m k" using c unfolding has_pages_def by blast+
  let ?f = "frame (ent s d ?m)"
  have f: "page_ok ?f" by (rule user_page(1) [OF sp x hp(1)])
  have k: "?k div 4 < 1024" by (simp add: less_mult_imp_div_less)
  have u: "unat (?f + of_nat ?k) = unat ?f + ?k" by (rule unat_in_page [OF f]) simp
  obtain B where B: "unat ?f = 4 * B" using page_unat [OF f] that [of "536870912 + 1024 * pnum ?f"] by simp
  have "(unat ?f + ?k) div 4 * 4 = unat ?f + 4 * (?k div 4)" "(unat ?f + ?k) mod 4 = x mod 4" unfolding B by (simp_all add: mod_mod_cancel)
  then have "unat ((?f + of_nat ?k) AND NOT 3) = unat (slot ?f (?k div 4))" "unat ((?f + of_nat ?k) AND 3) = x mod 4"
    unfolding word_part u unat_slot [OF f k] by blast+
  then show ?thesis using hp(2) [OF k] by (simp add: ubyte_def get_byte_def word_unat_eq_iff [symmetric])
qed

section \<open>Properties of program loading\<close>

text \<open>
  \<open>exec\<close> passes the arguments: after \<open>exec_stack\<close> the user memory at the new stack pointer holds a
  return address, \<open>argc\<close> and a pointer to an array, ended by 0, of pointers to the argument strings, each with
  its end; the page below the stack is present but not accessible to the user, and other entries are unchanged.
\<close>

theorem exec_passes_arguments:
  assumes "space_ok UPAGES s d xs" "pid \<noteq> - 1" "sz \<le> KERNBASE" "npages sz + 2 < UPAGES"
    "\<not> present (ent s d (npages sz))" "\<not> present (ent s d (npages sz + 1))" "4 \<le> room pid s xs"
    "length argv \<le> 32" "args_size argv + 4 * (length argv + 4) \<le> 4096"
  shows "\<exists>t ys sp. exec_stack pid d sz argv s = Inr (Some (va_of (npages sz + 2), sp), t) \<and> space_ok UPAGES t d ys \<and>
    uword t d (unat sp) = 0xFFFFFFFF \<and> uword t d (unat sp + 4) = of_nat (length argv) \<and> uword t d (unat sp + 8) = sp + 12 \<and>
    uword t d (unat sp + 12 + 4 * length argv) = 0 \<and>
    (\<forall>i < length argv. ubytes t d (unat (uword t d (unat sp + 12 + 4 * i))) (length (argv ! i) + 1) = argv ! i @ [0]) \<and>
    present (ent t d (npages sz)) \<and> \<not> user (ent t d (npages sz)) \<and> present (ent t d (npages sz + 1)) \<and> user (ent t d (npages sz + 1)) \<and>
    (\<forall>m < 1048576. m \<noteq> npages sz \<longrightarrow> m \<noteq> npages sz + 1 \<longrightarrow> ent t d m = ent s d m)"
  using exec_stack_ok [OF assms] unfolding passed_def by blast

text \<open>The arguments \<open>ls a\<close>.\<close>

definition ex_args :: "u8 list list" where
  "ex_args = [[0x6C, 0x73], [0x61]]"

theorem exec_passes_arguments_witness:
  "\<exists>s t sp. exec_stack 3 (page_at 57343) 4096 ex_args s = Inr (Some (0x3000, sp), t) \<and>
     uword t (page_at 57343) (unat sp + 4) = 2 \<and>
     ubytes t (page_at 57343) (unat (uword t (page_at 57343) (unat sp + 12))) 3 = [0x6C, 0x73, 0]"
proof -
  obtain s xs where s: "space_ok UPAGES s (page_at 57343) xs" "7000 \<le> room (- 2) s xs"
    "\<forall>m < UPAGES. \<not> present (ent s (page_at 57343) m)" using ex_process by blast
  have np: "npages 4096 = 1" by (simp add: npages_def)
  have ar: "(3 :: int) \<noteq> - 1" "(4096 :: u32) \<le> KERNBASE" "npages 4096 + 2 < UPAGES" "length ex_args \<le> 32"
    "args_size ex_args + 4 * (length ex_args + 4) \<le> 4096" by (simp_all add: KERNBASE_def np ex_args_def args_size_def)
  have fr: "\<not> present (ent s (page_at 57343) (npages 4096))" "\<not> present (ent s (page_at 57343) (npages 4096 + 1))"
    unfolding np using s(3) by simp_all
  have rm: "4 \<le> room 3 s xs" using s(2) room_kernel [of s xs 3] by linarith
  obtain t sp where t: "exec_stack 3 (page_at 57343) 4096 ex_args s = Inr (Some (va_of (npages 4096 + 2), sp), t)"
    "uword t (page_at 57343) (unat sp + 4) = of_nat (length ex_args)"
    "\<forall>i < length ex_args. ubytes t (page_at 57343) (unat (uword t (page_at 57343) (unat sp + 12 + 4 * i))) (length (ex_args ! i) + 1) = ex_args ! i @ [0]"
    using exec_passes_arguments [OF s(1) ar(1-3) fr rm ar(4,5)] by blast
  have l: "length ex_args = 2" "ex_args ! 0 = [0x6C, 0x73]" by (simp_all add: ex_args_def)
  have "ubytes t (page_at 57343) (unat (uword t (page_at 57343) (unat sp + 12))) 3 = [0x6C, 0x73, 0]"
    using spec [OF t(3), of 0] l by (simp add: numeral_3_eq_3)
  moreover have "va_of (npages 4096 + 2) = 0x3000" unfolding np by (simp add: va_of_def)
  ultimately show ?thesis using t(1,2) l(1) by (intro exI [of _ s] exI [of _ t] exI [of _ sp]) simp
qed

text \<open>
  C17. Pointers from the user are checked: with the memory of the process mapped, \<open>argptr\<close> never faults, and
  it accepts an argument exactly if the argument itself and the block it points to lie below the size of the
  process, whatever address and length the process gives.
\<close>

theorem argptr_stays_inside:
  assumes "space_ok UPAGES s (up_pgdir p) xs" "up_sz p \<le> KERNBASE" "\<And>m. m < npages (up_sz p) \<Longrightarrow> present (ent s (up_pgdir p) m)"
    "len < 2 ^ 31" "a = unat (up_esp p + 4 + 4 * of_nat n)" "q = uword s (up_pgdir p) a"
  shows "argptr p n len s =
    Inr (if a + 4 \<le> unat (up_sz p) \<and> 0 \<le> len \<and> q < up_sz p \<and> unat q + nat len \<le> unat (up_sz p) then Some q else None)"
  by (rule argptr_ok) (use assms in \<open>auto simp: mapped_to_def\<close>)

text \<open>A process of two zeroed pages that makes a system call.\<close>

definition ex_caller :: "u32 \<Rightarrow> uproc" where
  "ex_caller d = \<lparr>up_pid = 3, up_kstack = 0, up_pgdir = d, up_sz = 8192, up_eip = 0, up_esp = 4096, up_name = []\<rparr>"

lemma ex_caller_mapped: "\<exists>s xs. mapped_to (ex_caller (page_at 57343)) xs s \<and> (\<forall>x < 8192. ubyte s (page_at 57343) x = 0)"
proof -
  obtain s xs where s: "space_ok UPAGES s (page_at 57343) xs"
    "has_pages s (page_at 57343) 0 (npages 8192) (\<lambda>_. PTE_P OR PTE_W OR PTE_U) (\<lambda>_ _. 0)" using ex_two_pages by blast
  have np: "npages 8192 = 2" by (simp add: npages_def)
  have "ubyte s (page_at 57343) x = 0" if "x < 8192" for x
  proof -
    have x: "x div 4096 < 2" by (rule less_mult_imp_div_less) (use that in simp)
    have "ubyte s (page_at 57343) x = byte_of 0 (x mod 4)"
      by (rule ubyte_page [OF s(1) _ s(2)]) (use x np in auto)
    then show ?thesis by (simp add: byte_of_def)
  qed
  moreover have "mapped_to (ex_caller (page_at 57343)) xs s"
    using s unfolding mapped_to_def ex_caller_def has_pages_def by (auto simp: KERNBASE_def)
  ultimately show ?thesis by blast
qed

lemma uword_zero: "\<forall>x < hi. ubyte s d x = 0 \<Longrightarrow> a + 4 \<le> hi \<Longrightarrow> uword s d a = 0"
proof -
  assume z: "\<forall>x < hi. ubyte s d x = 0" "a + 4 \<le> hi"
  have "ubytes s d a 4 = [0, 0, 0, 0]" using z by (simp add: ubytes_def upt_rec)
  then show ?thesis by (simp add: uword_def word_at_def)
qed

theorem argptr_stays_inside_witness:
  "\<exists>s. argptr (ex_caller (page_at 57343)) 0 8192 s = Inr (Some 0) \<and> argptr (ex_caller (page_at 57343)) 1 8193 s = Inr None"
proof -
  let ?p = "ex_caller (page_at 57343)"
  obtain s xs where s: "mapped_to ?p xs s" "\<forall>x < 8192. ubyte s (page_at 57343) x = 0" using ex_caller_mapped by blast
  have pg: "up_pgdir ?p = page_at 57343" "up_sz ?p = 8192" "up_esp ?p = 4096" by (simp_all add: ex_caller_def)
  have m: "space_ok UPAGES s (up_pgdir ?p) xs" "up_sz ?p \<le> KERNBASE" "\<And>m. m < npages (up_sz ?p) \<Longrightarrow> present (ent s (up_pgdir ?p) m)"
    using s(1) by (simp_all add: mapped_to_def)
  have u: "unat (up_esp ?p + 4 + 4 * of_nat 0) = 4100" "unat (up_esp ?p + 4 + 4 * of_nat 1) = 4104" unfolding pg by simp_all
  have w: "uword s (up_pgdir ?p) 4100 = 0" "uword s (up_pgdir ?p) 4104 = 0" unfolding pg by (rule uword_zero [OF s(2)], simp)+
  have len: "(8192 :: int) < 2 ^ 31" "(8193 :: int) < 2 ^ 31" by simp_all
  have "argptr ?p 0 8192 s = Inr (Some 0)"
    using argptr_stays_inside [OF m len(1) u(1) [symmetric] w(1) [symmetric]] by (simp add: pg)
  moreover have "argptr ?p 1 8193 s = Inr None"
    using argptr_stays_inside [OF m len(2) u(2) [symmetric] w(2) [symmetric]] by (simp add: pg)
  ultimately show ?thesis by blast
qed

text \<open>
  \<open>argstr\<close> terminates without a fault and accepts an argument exactly if a string with its end lies below
  the size of the process at the address the argument holds; the result is that address and the length of the
  string, the distance to the first zero byte.
\<close>

theorem argstr_finds_string:
  assumes "space_ok UPAGES s (up_pgdir p) xs" "up_sz p \<le> KERNBASE" "\<And>m. m < npages (up_sz p) \<Longrightarrow> present (ent s (up_pgdir p) m)"
    "a = unat (up_esp p + 4 + 4 * of_nat n)" "q = uword s (up_pgdir p) a"
  shows "if a + 4 \<le> unat (up_sz p) \<and> (\<exists>k. ustring s (up_pgdir p) (unat (up_sz p)) (unat q) k)
    then \<exists>k. argstr p n s = Inr (Some (q, int k)) \<and> ustring s (up_pgdir p) (unat (up_sz p)) (unat q) k
    else argstr p n s = Inr None"
proof -
  have m: "mapped_to p xs s" using assms(1-3) by (simp add: mapped_to_def)
  have i: "argint p n s = Inr (if a + 4 \<le> unat (up_sz p) then Some (sint q) else None)"
    using fetchint_ok [OF m] unfolding assms(4,5) argint_def by simp
  show ?thesis
  proof (cases "a + 4 \<le> unat (up_sz p)")
    case True
    then have "argstr p n s = fetchstr p q s" by (simp add: argstr_def i)
    with fetchstr_ok [OF m, of q] True show ?thesis by auto
  qed (simp add: argstr_def i)
qed

theorem argstr_finds_string_witness:
  "\<exists>s. argstr (ex_caller (page_at 57343)) 0 s = Inr (Some (0, 0))"
proof -
  let ?p = "ex_caller (page_at 57343)"
  obtain s xs where s: "mapped_to ?p xs s" "\<forall>x < 8192. ubyte s (page_at 57343) x = 0" using ex_caller_mapped by blast
  have pg: "up_pgdir ?p = page_at 57343" "up_sz ?p = 8192" "up_esp ?p = 4096" by (simp_all add: ex_caller_def)
  have m: "space_ok UPAGES s (up_pgdir ?p) xs" "up_sz ?p \<le> KERNBASE" "\<And>m. m < npages (up_sz ?p) \<Longrightarrow> present (ent s (up_pgdir ?p) m)"
    using s(1) by (simp_all add: mapped_to_def)
  have u: "unat (up_esp ?p + 4 + 4 * of_nat 0) = 4100" unfolding pg by simp
  have w: "uword s (up_pgdir ?p) 4100 = 0" unfolding pg by (rule uword_zero [OF s(2)]) simp
  have z: "ubyte s (page_at 57343) 0 = 0" using s(2) by simp
  then have only: "ustring s (page_at 57343) 8192 0 k \<longleftrightarrow> k = 0" for k unfolding ustring_def by (cases k) auto
  have "\<exists>k. argstr ?p 0 s = Inr (Some (0, int k)) \<and> ustring s (page_at 57343) 8192 0 k"
    using argstr_finds_string [OF m u [symmetric] w [symmetric]] only unfolding pg by auto
  then show ?thesis using only by auto
qed

end
