(* ===== verification/Syscall.thy ===== *)
theory Syscall
  imports ExecProps
begin

text \<open>
  System calls that read user memory or change the size of a process: the collection of the arguments of
  \<open>sys_exec\<close>, \<open>growproc\<close> and \<open>sys_sbrk\<close> (\<open>proc.c\<close>, \<open>sysfile.c\<close>, \<open>sysproc.c\<close> and the dispatch of
  \<open>syscall.c\<close> in \<open>05_xv6_memory_safe_allocation/src/v2-sort\<close>), and the two calls that project 2 adds
  (\<open>02_New_SysCall/sysproc.c\<close>), which look at the open files of a process.
\<close>

unbundle bit_operations_syntax

section \<open>sys\_exec\<close>

text \<open>\<open>n\<close> bytes of user memory: what \<open>exec\<close> reads behind a pointer that \<open>fetchstr\<close> accepted.\<close>

fun user_bytes :: "u32 \<Rightarrow> u32 \<Rightarrow> nat \<Rightarrow> kmem \<Rightarrow> u8 list res" where
  "user_bytes pgdir a 0 s = Inr []"
| "user_bytes pgdir a (Suc n) s =
     rbind (user_byte pgdir a s) (\<lambda>b. rbind (user_bytes pgdir (a + 1) n s) (\<lambda>bs. Inr (b # bs)))"

text \<open>The loop over the arguments; \<open>n\<close> entries of \<open>argv\<close> are left.\<close>

fun sys_exec_argv :: "uproc \<Rightarrow> u32 \<Rightarrow> nat \<Rightarrow> nat \<Rightarrow> kmem \<Rightarrow> u8 list list option res" where
  "sys_exec_argv p uargv 0 i s = Inr None"
| "sys_exec_argv p uargv (Suc n) i s =
     rbind (fetchint p (uargv + 4 * of_nat i) s) (\<lambda>r.
     case r of None \<Rightarrow> Inr None
     | Some uarg \<Rightarrow>
         if uarg = 0 then Inr (Some [])
         else
           rbind (fetchstr p (word_of_int uarg) s) (\<lambda>r.
           case r of None \<Rightarrow> Inr None
           | Some (a, l) \<Rightarrow>
               rbind (user_bytes (up_pgdir p) a (nat l) s) (\<lambda>bs.
               rbind (sys_exec_argv p uargv n (i + 1) s) (\<lambda>r.
               Inr (map_option (\<lambda>rest. bs # rest) r)))))"

text \<open>\<open>namei\<close> gives the program file.\<close>

definition sys_exec :: "u32 \<Rightarrow> (u8 list \<Rightarrow> reader option) \<Rightarrow> uproc \<Rightarrow> kmem \<Rightarrow> (int \<times> uproc \<times> kmem) res" where
  "sys_exec kdata namei p s =
     rbind (argstr p 0 s) (\<lambda>r.
     case r of None \<Rightarrow> Inr (- 1, p, s)
     | Some (a, l) \<Rightarrow>
         rbind (argint p 1 s) (\<lambda>r.
         case r of None \<Rightarrow> Inr (- 1, p, s)
         | Some uargv \<Rightarrow>
             rbind (sys_exec_argv p (word_of_int uargv) MAXARG 0 s) (\<lambda>r.
             case r of None \<Rightarrow> Inr (- 1, p, s)
             | Some argv \<Rightarrow>
                 rbind (user_bytes (up_pgdir p) a (nat l) s) (\<lambda>path. exec kdata (namei path) path argv p s))))"

section \<open>The size of a process\<close>

definition growproc_vm :: "int \<Rightarrow> uproc \<Rightarrow> kmem \<Rightarrow> (int \<times> uproc \<times> kmem) res" where
  "growproc_vm n p s =
     (let sz = up_sz p in
      rbind (if n > 0 then allocuvm (up_pid p) (up_pgdir p) sz (sz + word_of_int n) s
             else if n < 0 then deallocuvm (up_pgdir p) sz (sz + word_of_int n) s
             else Inr (sz, s)) (\<lambda>(sz, s).
      if n \<noteq> 0 \<and> sz = 0 then Inr (- 1, p, s)
      else
        rbind (switchuvm (Some (up_kstack p, up_pgdir p)) (km_cpu s)) (\<lambda>(hw, c).
        Inr (0, p\<lparr>up_sz := sz\<rparr>, s\<lparr>km_cpu := c\<rparr>))))"

definition sys_sbrk :: "uproc \<Rightarrow> kmem \<Rightarrow> (int \<times> uproc \<times> kmem) res" where
  "sys_sbrk p s =
     rbind (argint p 0 s) (\<lambda>r.
     case r of None \<Rightarrow> Inr (- 1, p, s)
     | Some n \<Rightarrow>
         let addr = sint (up_sz p) in
         rbind (growproc_vm n p s) (\<lambda>(r, p, s). if r < 0 then Inr (- 1, p, s) else Inr (addr, p, s)))"

section \<open>Open files of a process\<close>

record oproc =
  op_pid :: int
  op_ofile :: "u32 list"

definition getprocbyid :: "int \<Rightarrow> oproc list \<Rightarrow> oproc option" where
  "getprocbyid pid ptable = find (\<lambda>p. op_pid p = pid) ptable"

fun ofile_cnt :: "u32 list \<Rightarrow> int \<Rightarrow> int" where
  "ofile_cnt [] cnt = cnt"
| "ofile_cnt (f # fs) cnt = ofile_cnt fs (if f \<noteq> 0 then cnt + 1 else cnt)"

definition sys_getofilecnt :: "oproc list \<Rightarrow> uproc \<Rightarrow> kmem \<Rightarrow> int res" where
  "sys_getofilecnt ptable p s =
     rbind (argint p 0 s) (\<lambda>r.
     case r of None \<Rightarrow> Inr (- 1)
     | Some pid \<Rightarrow> (case getprocbyid pid ptable of None \<Rightarrow> Inr (- 1) | Some q \<Rightarrow> Inr (ofile_cnt (op_ofile q) 0)))"

fun ofile_next :: "u32 list \<Rightarrow> int \<Rightarrow> int" where
  "ofile_next [] i = - 1"
| "ofile_next (f # fs) i = (if f = 0 then i else ofile_next fs (i + 1))"

definition sys_getofilenext :: "oproc list \<Rightarrow> uproc \<Rightarrow> kmem \<Rightarrow> int res" where
  "sys_getofilenext ptable p s =
     rbind (argint p 0 s) (\<lambda>r.
     case r of None \<Rightarrow> Inr (- 1)
     | Some pid \<Rightarrow> (case getprocbyid pid ptable of None \<Rightarrow> Inr (- 1) | Some q \<Rightarrow> Inr (ofile_next (op_ofile q) 0)))"

lemma ofile_cnt_filter: "ofile_cnt fs c = c + int (length (filter (\<lambda>f. f \<noteq> 0) fs))"
  by (induction fs arbitrary: c) auto

text \<open>The next descriptor is the first free one, and there is none exactly if all of them are counted.\<close>

lemma ofile_next_first:
  "0 \<le> i \<Longrightarrow> ofile_next fs i = - 1 \<and> 0 \<notin> set fs \<or>
    (\<exists>k < length fs. ofile_next fs i = i + int k \<and> fs ! k = 0 \<and> (\<forall>j < k. fs ! j \<noteq> 0))"
proof (induction fs arbitrary: i)
  case (Cons f fs)
  show ?case
  proof (cases "f = 0")
    case False
    from Cons.IH [of "i + 1"] Cons.prems consider "ofile_next fs (i + 1) = - 1" "0 \<notin> set fs"
      | k where "k < length fs" "ofile_next fs (i + 1) = i + 1 + int k" "fs ! k = 0" "\<forall>j < k. fs ! j \<noteq> 0" by auto
    then show ?thesis
    proof cases
      case (2 k)
      then have "Suc k < length (f # fs) \<and> ofile_next (f # fs) i = i + int (Suc k) \<and> (f # fs) ! Suc k = 0 \<and> (\<forall>j < Suc k. (f # fs) ! j \<noteq> 0)"
        using False by (auto simp: less_Suc_eq_0_disj)
      then show ?thesis by blast
    qed (use False in auto)
  qed auto
qed simp

lemma ofile_next_full: "ofile_next fs 0 = - 1 \<longleftrightarrow> ofile_cnt fs 0 = int (length fs)"
proof -
  have "ofile_next fs 0 = - 1 \<longleftrightarrow> 0 \<notin> set fs" using ofile_next_first [of 0 fs] by (auto simp: in_set_conv_nth)
  also have "\<dots> \<longleftrightarrow> filter (\<lambda>f. f \<noteq> 0) fs = fs" by (auto simp: filter_id_conv)
  also have "\<dots> \<longleftrightarrow> length (filter (\<lambda>f. f \<noteq> 0) fs) = length fs" by (metis filter_id_conv length_filter_less less_irrefl)
  finally show ?thesis by (simp add: ofile_cnt_filter)
qed

section \<open>Growing and shrinking\<close>



text \<open>A process whose page table has exactly the pages of its size.\<close>

definition sized :: "uproc \<Rightarrow> u32 list \<Rightarrow> kmem \<Rightarrow> bool" where
  "sized p xs s \<longleftrightarrow> space_ok UPAGES s (up_pgdir p) xs \<and> up_sz p \<le> KERNBASE \<and>
     (\<forall>m < UPAGES. present (ent s (up_pgdir p) m) \<longleftrightarrow> m < npages (up_sz p))"

lemma sized_mapped: "sized p xs s \<Longrightarrow> mapped_to p xs s"
  using npages_user unfolding sized_def mapped_to_def by fastforce





lemma grow_less:
  assumes sp: "sized p xs s" and use: "km_use_lock s" and ke: "KERNBASE < km_end s" and new: "sz \<le> up_sz p"
  shows "\<exists>t ys. deallocuvm (up_pgdir p) (up_sz p) sz s = Inr (sz, t) \<and> space_ok UPAGES t (up_pgdir p) ys \<and> km_use_lock t \<and>
    (\<forall>m < UPAGES. present (ent t (up_pgdir p) m) \<longleftrightarrow> m < npages sz)"
proof -
  let ?d = "up_pgdir p" and ?n = "npages (up_sz p)" and ?l = "npages sz"
  have s: "space_ok UPAGES s ?d xs" "up_sz p \<le> KERNBASE" "\<And>m. m < UPAGES \<Longrightarrow> present (ent s ?d m) \<longleftrightarrow> m < ?n"
    using sp by (simp_all add: sized_def)
  obtain t ys where t: "deallocuvm ?d (up_sz p) sz s = Inr (if sz \<ge> up_sz p then up_sz p else sz, t)" "space_ok UPAGES t ?d ys"
    "released ?d ?l ?n xs ys s t" using deallocuvm_ok [OF s(1) ke s(2)] by blast
  have e: "\<forall>m < 1048576. ent t ?d m = (if ?l \<le> m \<and> m < ?n \<and> present (ent s ?d m) then 0 else ent s ?d m)" "evolves (set ys) (used 0 s ?d) s t"
    using t(3) unfolding released_def by blast+
  have nl: "?l \<le> ?n" using new(1) unfolding npages_def by (simp add: word_le_nat_alt div_le_mono)
  have "present (ent t ?d m) \<longleftrightarrow> m < ?l" if "m < UPAGES" for m using e(1) s(3) [OF that] that nl by auto
  moreover have "km_use_lock t" using e(2) use by (simp add: evolves_def)
  moreover have eq: "(if sz \<ge> up_sz p then up_sz p else sz) = sz" using new by simp
  ultimately show ?thesis using t(1) [unfolded eq] t(2) by blast
qed


section \<open>Collecting the arguments\<close>

lemma user_bytes_ok:
  assumes m: "mapped_to p xs s"
  shows "unat a + n \<le> unat (up_sz p) \<Longrightarrow> user_bytes (up_pgdir p) a n s = Inr (ubytes s (up_pgdir p) (unat a) n)"
proof (induction n arbitrary: a)
  case (Suc n)
  have lt: "unat a < unat (up_sz p)" using Suc.prems by simp
  have nx: "unat (a + 1) = Suc (unat a)" using lt size_low [OF m] by (simp add: unat_word_ariths)
  have "user_bytes (up_pgdir p) (a + 1) n s = Inr (ubytes s (up_pgdir p) (unat (a + 1)) n)" by (rule Suc.IH) (use Suc.prems nx in simp)
  moreover have "ubytes s (up_pgdir p) (unat a) (Suc n) = ubyte s (up_pgdir p) (unat a) # ubytes s (up_pgdir p) (Suc (unat a)) n"
    unfolding ubytes_def upt_conv_Cons [OF zero_less_Suc] by (simp add: map_Suc_upt [symmetric] del: upt_Suc)
  ultimately show ?case using read_byte [OF m lt] nx by simp
qed (simp add: ubytes_def)

lemma ustring_bytes:
  assumes "ubytes s d a (length str + 1) = str @ [0]" "0 \<notin> set str" "a + length str + 1 \<le> sz"
  shows "ustring s d sz a k \<longleftrightarrow> k = length str"
proof -
  have b: "ubyte s d (a + j) = (str @ [0]) ! j" if "j \<le> length str" for j
  proof -
    have "ubytes s d a (length str + 1) ! j = ubyte s d (a + j)" unfolding ubytes_def using that by (simp del: upt_Suc)
    then show ?thesis using assms(1) by simp
  qed
  have z: "ubyte s d (a + length str) = 0" using b [of "length str"] by simp
  have nz: "ubyte s d (a + j) \<noteq> 0" if "j < length str" for j
  proof -
    have "ubyte s d (a + j) = str ! j" using b [of j] that by (simp add: nth_append)
    then show ?thesis using assms(2) nth_mem [OF that] by metis
  qed
  show ?thesis
  proof
    assume u: "ustring s d sz a k"
    show "k = length str"
    proof (cases k "length str" rule: linorder_cases)
      case less
      then show ?thesis using u nz unfolding ustring_def by blast
    next
      case greater
      then show ?thesis using u z unfolding ustring_def by blast
    qed
  next
    assume "k = length str"
    then show "ustring s d sz a k" using z nz assms(3) by (simp add: ustring_def)
  qed
qed

lemma sint_zero: "sint w = 0 \<longleftrightarrow> w = 0" for w :: u32
proof
  assume "sint w = 0"
  then have "of_int (sint w) = (0 :: u32)" by simp
  then show "w = 0" by (simp only: of_int_sint scast_id)
qed simp

lemma argv_round:
  assumes m: "mapped_to p xs s" and fit: "unat uargv + 4 * k + 4 \<le> unat (up_sz p)"
  shows "fetchint p (uargv + 4 * of_nat k) s = Inr (Some (sint (uword s (up_pgdir p) (unat uargv + 4 * k))))"
proof -
  have lt: "unat uargv + 4 * k < 4294967296" using fit size_low [OF m] by simp
  have "unat (of_nat (4 * k) :: u32) = 4 * k" using lt by (simp add: unat_of_nat del: of_nat_mult)
  then have "unat (uargv + of_nat (4 * k)) = unat uargv + 4 * k" using lt by (simp add: unat_word_ariths del: of_nat_mult)
  then have "unat (uargv + 4 * of_nat k) = unat uargv + 4 * k" by simp
  then show ?thesis using fetchint_ok [OF m, of "uargv + 4 * of_nat k"] fit by simp
qed

text \<open>The pointers from number \<open>k\<close> on lead to the strings \<open>argv\<close>, and a zero ends them.\<close>

lemma sys_exec_argv_ok:
  assumes m: "mapped_to p xs s"
  shows "length argv < n \<Longrightarrow> unat uargv + 4 * (k + length argv) + 4 \<le> unat (up_sz p) \<Longrightarrow>
    uword s (up_pgdir p) (unat uargv + 4 * (k + length argv)) = 0 \<Longrightarrow>
    (\<And>i. i < length argv \<Longrightarrow> ubytes s (up_pgdir p) (unat (uword s (up_pgdir p) (unat uargv + 4 * (k + i)))) (length (argv ! i) + 1) = argv ! i @ [0] \<and>
      0 \<notin> set (argv ! i) \<and> 0 < unat (uword s (up_pgdir p) (unat uargv + 4 * (k + i))) \<and>
      unat (uword s (up_pgdir p) (unat uargv + 4 * (k + i))) + length (argv ! i) + 1 \<le> unat (up_sz p)) \<Longrightarrow>
    sys_exec_argv p uargv n k s = Inr (Some argv)"
proof (induction argv arbitrary: n k)
  case Nil
  then obtain n' where n: "n = Suc n'" by (cases n) auto
  have "fetchint p (uargv + 4 * of_nat k) s = Inr (Some 0)" using argv_round [OF m, of uargv k] Nil by simp
  then show ?case by (simp add: n)
next
  case (Cons str argv)
  from Cons.prems(1) obtain n' where n: "n = Suc n'" "length argv < n'" by (cases n) auto
  let ?u = "uword s (up_pgdir p) (unat uargv + 4 * k)"
  have str: "ubytes s (up_pgdir p) (unat ?u) (length str + 1) = str @ [0]" "0 \<notin> set str" "0 < unat ?u" "unat ?u + length str + 1 \<le> unat (up_sz p)"
    using Cons.prems(4) [of 0] by simp_all
  have f: "fetchint p (uargv + 4 * of_nat k) s = Inr (Some (sint ?u))" by (rule argv_round [OF m]) (use Cons.prems(2) in simp)
  have nz: "sint ?u \<noteq> 0" using str(3) sint_zero [of ?u] by auto
  have fs: "fetchstr p ?u s = Inr (Some (?u, int (length str)))"
    using fetchstr_ok [OF m, of ?u] ustring_bytes [OF str(1,2,4)] by auto
  have "user_bytes (up_pgdir p) ?u (length str) s = Inr (ubytes s (up_pgdir p) (unat ?u) (length str))"
    by (rule user_bytes_ok [OF m]) (use str(4) in simp)
  moreover have "ubytes s (up_pgdir p) (unat ?u) (length str) = str" using arg_cong [OF str(1), of butlast] by (simp add: ubytes_def)
  ultimately have ub: "user_bytes (up_pgdir p) ?u (length str) s = Inr str" by simp
  have "sys_exec_argv p uargv n' (k + 1) s = Inr (Some argv)"
  proof (rule Cons.IH)
    show "length argv < n'" by (rule n(2))
    show "unat uargv + 4 * (k + 1 + length argv) + 4 \<le> unat (up_sz p)" "uword s (up_pgdir p) (unat uargv + 4 * (k + 1 + length argv)) = 0"
      using Cons.prems(2,3) by simp_all
    show "ubytes s (up_pgdir p) (unat (uword s (up_pgdir p) (unat uargv + 4 * (k + 1 + i)))) (length (argv ! i) + 1) = argv ! i @ [0] \<and>
      0 \<notin> set (argv ! i) \<and> 0 < unat (uword s (up_pgdir p) (unat uargv + 4 * (k + 1 + i))) \<and>
      unat (uword s (up_pgdir p) (unat uargv + 4 * (k + 1 + i))) + length (argv ! i) + 1 \<le> unat (up_sz p)" if "i < length argv" for i
      using Cons.prems(4) [of "Suc i"] that by simp
  qed
  then show ?case using f nz fs ub by (simp add: n(1))
qed

section \<open>Properties\<close>

text \<open>
  C16. What \<open>exec\<close> puts on the stack \<open>sys_exec\<close> reads back: the program that \<open>exec_stack\<close> has given the
  arguments \<open>argv\<close> finds their number and a vector at its stack pointer, and if it passes this vector to
  \<open>exec\<close>, the arguments collected from its memory are \<open>argv\<close> again. The page below the stack is present but
  not accessible to the user, and the pages of the program are as before.
\<close>

theorem exec_arguments_roundtrip:
  assumes "space_ok UPAGES s d xs" "pid \<noteq> - 1" "sz \<le> KERNBASE" "npages sz + 2 < UPAGES"
    "\<And>m. m < npages sz \<Longrightarrow> present (ent s d m)" "\<not> present (ent s d (npages sz))" "\<not> present (ent s d (npages sz + 1))"
    "4 \<le> room pid s xs" "length argv < 32" "args_size argv + 4 * (length argv + 4) \<le> 4096"
    "\<And>a. a \<in> set argv \<Longrightarrow> 0 \<notin> set a"
  shows "\<exists>t newsz sp. exec_stack pid d sz argv s = Inr (Some (newsz, sp), t) \<and> uword t d (unat sp + 4) = of_nat (length argv) \<and>
    sys_exec_argv (p\<lparr>up_pgdir := d, up_sz := newsz\<rparr>) (uword t d (unat sp + 8)) MAXARG 0 t = Inr (Some argv) \<and>
    present (ent t d (npages sz)) \<and> \<not> user (ent t d (npages sz)) \<and> user (ent t d (npages sz + 1)) \<and>
    (\<forall>m < 1048576. m \<noteq> npages sz \<longrightarrow> m \<noteq> npages sz + 1 \<longrightarrow> ent t d m = ent s d m)"
proof -
  have le: "length argv \<le> 32" using assms(9) by simp
  obtain t ys sp where t: "exec_stack pid d sz argv s = Inr (Some (va_of (npages sz + 2), sp), t)" "space_ok UPAGES t d ys"
    "passed t d (4096 * (npages sz + 2)) sp argv" "present (ent t d (npages sz))" "present (ent t d (npages sz + 1))"
    "\<forall>m < 1048576. m \<noteq> npages sz \<longrightarrow> m \<noteq> npages sz + 1 \<longrightarrow> ent t d m = ent s d m"
    "\<not> user (ent t d (npages sz))" "user (ent t d (npages sz + 1))"
    using exec_stack_ok [OF assms(1-4,6-8) le assms(10)] by blast
  let ?hi = "4096 * (npages sz + 2)" and ?p = "p\<lparr>up_pgdir := d, up_sz := va_of (npages sz + 2)\<rparr>"
  have hi: "unat (va_of (npages sz + 2)) = ?hi" by (rule unat_va_of) (use assms(4) in simp)
  have pr: "present (ent t d m)" if lt: "m < npages sz + 2" for m
  proof -
    consider "m = npages sz" | "m = npages sz + 1" | "m < npages sz" using lt by linarith
    then show ?thesis using t(4-6) assms(4,5) by cases auto
  qed
  have np: "npages (va_of (npages sz + 2)) = npages sz + 2" by (rule npages_va) (use assms(4) in simp)
  have "va_of (npages sz + 2) \<le> KERNBASE" unfolding word_le_nat_alt hi using assms(4) by (simp add: KERNBASE_def)
  then have m: "mapped_to ?p ys t" using t(2) pr np unfolding mapped_to_def by simp
  have w: "uword t d (unat sp + 8) = sp + 12" using t(3) by (simp add: passed_def)
  have sp12: "unat (sp + 12) = unat sp + 12" using t(3) assms(4) unfolding passed_def by (simp add: unat_word_ariths)
  have "sys_exec_argv ?p (sp + 12) MAXARG 0 t = Inr (Some argv)"
    by (rule sys_exec_argv_ok [OF m]) (use t(3) assms(9,11) sp12 hi in \<open>auto simp: passed_def MAXARG_def add.assoc\<close>)
  then have "sys_exec_argv ?p (uword t d (unat sp + 8)) MAXARG 0 t = Inr (Some argv)" by (simp only: w)
  moreover have "uword t d (unat sp + 4) = of_nat (length argv)" using t(3) by (simp add: passed_def)
  ultimately show ?thesis using t(1,4,6-8) by blast
qed

theorem exec_arguments_roundtrip_witness:
  "\<exists>s t newsz sp. exec_stack 3 (page_at 57343) 0 ex_args s = Inr (Some (newsz, sp), t) \<and>
     sys_exec_argv ((ex_caller 0)\<lparr>up_pgdir := page_at 57343, up_sz := newsz\<rparr>) (uword t (page_at 57343) (unat sp + 8)) MAXARG 0 t = Inr (Some ex_args)"
proof -
  obtain s xs where s: "space_ok UPAGES s (page_at 57343) xs" "7000 \<le> room (- 2) s xs"
    "\<forall>m < UPAGES. \<not> present (ent s (page_at 57343) m)" using ex_process by blast
  have np: "npages 0 = 0" by (simp add: npages_def)
  have ar: "(3 :: int) \<noteq> - 1" "(0 :: u32) \<le> KERNBASE" "npages 0 + 2 < UPAGES" "length ex_args < 32"
    "args_size ex_args + 4 * (length ex_args + 4) \<le> 4096" by (simp_all add: KERNBASE_def np ex_args_def args_size_def)
  have low: "\<And>m. m < npages 0 \<Longrightarrow> present (ent s (page_at 57343) m)" by (simp add: np)
  have fr: "\<not> present (ent s (page_at 57343) (npages 0))" "\<not> present (ent s (page_at 57343) (npages 0 + 1))"
    unfolding np using s(3) by simp_all
  have rm: "4 \<le> room 3 s xs" using s(2) room_kernel [of s xs 3] by linarith
  have nz: "\<And>a. a \<in> set ex_args \<Longrightarrow> 0 \<notin> set a" by (auto simp: ex_args_def)
  from exec_arguments_roundtrip [OF s(1) ar(1-3) low fr rm ar(4,5) nz, of "ex_caller 0"] show ?thesis by blast
qed


definition ex_new :: "u32 \<Rightarrow> uproc" where
  "ex_new d = \<lparr>up_pid = 3, up_kstack = 0x8DFFE000, up_pgdir = d, up_sz = 0, up_eip = 0, up_esp = 0, up_name = []\<rparr>"

lemma ex_grows: "\<exists>s xs. sized (ex_new (page_at 57343)) xs s \<and> km_use_lock s \<and> KERNBASE < km_end s \<and> 7000 \<le> room 3 s xs"
proof -
  obtain s xs where s: "space_ok UPAGES s (page_at 57343) xs" "KERNBASE < km_end s" "7000 \<le> room (- 2) s xs"
    "\<forall>m < UPAGES. \<not> present (ent s (page_at 57343) m)" "km_use_lock s" using ex_process by blast
  have np: "npages 0 = 0" by (simp add: npages_def)
  have "sized (ex_new (page_at 57343)) xs s" using s(1,4) np by (simp add: sized_def ex_new_def)
  moreover have "7000 \<le> room 3 s xs" using s(3) room_kernel [of s xs 3] by linarith
  ultimately show ?thesis using s(2,5) by blast
qed


text \<open>
  C19. The exception: shrinking a process by exactly its size frees all its pages and then reports failure,
  because \<open>deallocuvm\<close> returns the new size 0 and \<open>growproc\<close> takes 0 for an error. The process keeps its old
  size and has no page left.
\<close>

theorem growproc_to_nothing:
  assumes "space_ok UPAGES s (up_pgdir p) xs" "up_sz p \<le> KERNBASE"
    "\<And>m. m < UPAGES \<Longrightarrow> present (ent s (up_pgdir p) m) \<longleftrightarrow> m < npages (up_sz p)"
    "km_use_lock s" "KERNBASE < km_end s" "up_sz p \<noteq> 0" "n = - uint (up_sz p)"
  shows "\<exists>t ys. growproc_vm n p s = Inr (- 1, p, t) \<and> space_ok UPAGES t (up_pgdir p) ys \<and>
    (\<forall>m < UPAGES. \<not> present (ent t (up_pgdir p) m))"
proof -
  have sp: "sized p xs s" using assms(1-3) by (simp add: sized_def)
  have np: "npages 0 = 0" by (simp add: npages_def)
  obtain t ys where t: "deallocuvm (up_pgdir p) (up_sz p) 0 s = Inr (0, t)" "space_ok UPAGES t (up_pgdir p) ys"
    "\<forall>m < UPAGES. present (ent t (up_pgdir p) m) \<longleftrightarrow> m < npages 0" using grow_less [OF sp assms(4,5), of 0] by auto
  have "0 < uint (up_sz p)" using assms(6) by (simp add: word_neq_0_conv [symmetric] uint_0_iff order_less_le)
  moreover have "up_sz p + word_of_int n = 0" by (simp add: assms(7))
  ultimately have "growproc_vm n p s = Inr (- 1, p, t)" using t(1) assms(7) by (simp add: growproc_vm_def)
  then show ?thesis using t(2,3) np by auto
qed

theorem growproc_to_nothing_witness:
  "\<exists>s t. growproc_vm (- 8192) ((ex_new (page_at 57343))\<lparr>up_sz := 8192\<rparr>) s = Inr (- 1, (ex_new (page_at 57343))\<lparr>up_sz := 8192\<rparr>, t) \<and>
     present (ent s (page_at 57343) 0) \<and> \<not> present (ent t (page_at 57343) 0)"
proof -
  let ?p = "ex_new (page_at 57343)" and ?q = "(ex_new (page_at 57343))\<lparr>up_sz := 8192\<rparr>"
  obtain s xs where s: "sized ?p xs s" "km_use_lock s" "KERNBASE < km_end s" "7000 \<le> room 3 s xs" using ex_grows by blast
  have f: "up_kstack ?p \<noteq> 0" "up_pid ?p \<noteq> - 1" "up_pid ?p = 3" "up_sz ?p = 0" "up_pgdir ?p = page_at 57343" by (simp_all add: ex_new_def)
  have np: "npages 8192 = 2" "npages 0 = 0" by (simp_all add: npages_def)
  have le: "up_sz ?p \<le> 8192" "(8192 :: u32) < KERNBASE" by (simp_all add: f KERNBASE_def)
  have "\<not> room (up_pid ?p) s xs < 2 * (npages 8192 - npages (up_sz ?p))" unfolding f np using s(4) by simp
  moreover have "km_end t = km_end s \<and> km_use_lock t = km_use_lock s" if "grown pid d a b perm c xs ys s t" for pid d a b perm c ys t
    using that by (simp add: grown_def evolves_def)
  moreover have free: "\<not> present (ent s (up_pgdir ?p) m)" if "npages (up_sz ?p) \<le> m" "m < npages 8192" for m
    using s(1) that np f by (simp add: sized_def)
  moreover have sp: "space_ok UPAGES s (up_pgdir ?p) xs" using s(1) by (simp add: sized_def)
  ultimately obtain t ys where t: "space_ok UPAGES t (up_pgdir ?p) ys" "km_end t = km_end s \<and> km_use_lock t = km_use_lock s"
    "grown (up_pid ?p) (up_pgdir ?p) (npages (up_sz ?p)) (npages 8192) (\<lambda>_. PTE_W OR PTE_U) (\<lambda>_ _. 0) xs ys s t"
    using allocuvm_ok [OF sp f(2) le free] by blast
  have pr: "present (ent t (page_at 57343) m) \<longleftrightarrow> m < npages 8192" if "m < UPAGES" for m
  proof (cases "m < 2")
    case True
    then show ?thesis using grown_user(1) [OF t(3) space_okD(1) [OF sp]] np f by (simp add: has_pages_def)
  next
    case False
    have "\<forall>m < 1048576. \<not> (npages (up_sz ?p) \<le> m \<and> m < npages 8192) \<longrightarrow> ent t (up_pgdir ?p) m = ent s (up_pgdir ?p) m"
      using t(3) unfolding grown_def by blast
    then have "ent t (page_at 57343) m = ent s (page_at 57343) m" using False that np f by auto
    then show ?thesis using s(1) False that np f by (simp add: sized_def)
  qed
  have q: "up_pgdir ?q = page_at 57343" "up_sz ?q = 8192" by (simp_all add: ex_new_def)
  have z: "space_ok UPAGES t (up_pgdir ?q) ys" "up_sz ?q \<le> KERNBASE" "\<And>m. m < UPAGES \<Longrightarrow> present (ent t (up_pgdir ?q) m) \<longleftrightarrow> m < npages (up_sz ?q)"
    unfolding q using t(1) le(2) pr f by simp_all
  have e: "km_use_lock t" "KERNBASE < km_end t" "up_sz ?q \<noteq> 0" "- 8192 = - uint (up_sz ?q)" using t(2) s(2,3) unfolding q by simp_all
  from growproc_to_nothing [OF z e] obtain u where u: "growproc_vm (- 8192) ?q t = Inr (- 1, ?q, u)" "\<not> present (ent u (page_at 57343) 0)"
    unfolding q by auto
  moreover have "present (ent t (page_at 57343) 0)" using pr [of 0] np by simp
  ultimately show ?thesis by blast
qed

end
