(* ===== verification/CString.thy ===== *)
theory CString
  imports Prelude
begin

text \<open>
  The functions of the C library that the user programs call on strings: comparison, conversion of
  numbers, and reading of lines.
\<close>

section \<open>C strings\<close>

text \<open>A C string is the list of its characters before the NUL; \<open>char\<close> is signed on x86.\<close>

definition schar :: "char \<Rightarrow> int" where
  "schar c = cchar (of_char c)"

text \<open>\<open>strcmp\<close> compares as \<open>unsigned char\<close>; only the sign of the result is specified.\<close>

fun strcmp :: "string \<Rightarrow> string \<Rightarrow> int" where
  "strcmp [] [] = 0"
| "strcmp [] (d # ds) = - 1"
| "strcmp (c # cs) [] = 1"
| "strcmp (c # cs) (d # ds) =
     (if c = d then strcmp cs ds else if (of_char c :: nat) < of_char d then - 1 else 1)"

lemma strcmp_eq_0 [simp]: "strcmp s t = 0 \<longleftrightarrow> s = t"
  by (induction s t rule: strcmp.induct) auto

lemma strcmp_trans: "strcmp s t \<le> 0 \<Longrightarrow> strcmp t u \<le> 0 \<Longrightarrow> strcmp s u \<le> 0"
proof (induction s t arbitrary: u rule: strcmp.induct)
  case (2 d ds)
  then show ?case by (cases u) auto
next
  case (4 c cs d ds)
  then show ?case by (cases u) (auto split: if_splits)
qed (auto split: if_splits elim: strcmp.elims)

lemma strcmp_antisym: "strcmp s t \<le> 0 \<Longrightarrow> strcmp t s \<le> 0 \<Longrightarrow> s = t"
  by (induction s t rule: strcmp.induct) (auto split: if_splits)

lemma strcmp_total: "strcmp s t \<le> 0 \<or> strcmp t s \<le> 0"
  by (induction s t rule: strcmp.induct) auto

section \<open>Numbers in strings\<close>

definition isspace :: "char \<Rightarrow> bool" where
  "isspace c \<longleftrightarrow> c = CHR '' '' \<or> (9 \<le> (of_char c :: nat) \<and> (of_char c :: nat) \<le> 13)"

definition digit_val :: "char \<Rightarrow> nat" where
  "digit_val c =
     (let n = of_char c :: nat in
      if 48 \<le> n \<and> n \<le> 57 then n - 48
      else if 97 \<le> n \<and> n \<le> 122 then n - 87
      else if 65 \<le> n \<and> n \<le> 90 then n - 55 else 99)"

definition digits :: "nat \<Rightarrow> string \<Rightarrow> nat list" where
  "digits base s = map digit_val (takeWhile (\<lambda>c. digit_val c < base) s)"

definition number :: "nat \<Rightarrow> nat list \<Rightarrow> nat" where
  "number base ds = fold (\<lambda>d n. n * base + d) ds 0"

definition sign_of :: "string \<Rightarrow> bool \<times> string" where
  "sign_of s = (case s of c # cs \<Rightarrow> if c = CHR ''-'' then (True, cs) else if c = CHR ''+'' then (False, cs) else (False, s)
     | [] \<Rightarrow> (False, s))"

text \<open>\<open>strtoul(s, NULL, 0)\<close> of the C library: the base from the prefix, saturation at the maximum.\<close>

definition strtoul0 :: "string \<Rightarrow> u64" where
  "strtoul0 s =
     (let (neg, t) = sign_of (dropWhile isspace s);
          n = (case t of c # x # d # ds \<Rightarrow>
                 if c = CHR ''0'' \<and> (x = CHR ''x'' \<or> x = CHR ''X'') \<and> digit_val d < 16 then number 16 (digits 16 (d # ds))
                 else if c = CHR ''0'' then number 8 (digits 8 t) else number 10 (digits 10 t)
               | c # cs \<Rightarrow> if c = CHR ''0'' then number 8 (digits 8 t) else number 10 (digits 10 t)
               | [] \<Rightarrow> 0)
      in if n \<ge> 2 ^ 64 then - 1 else if neg then - of_nat n else of_nat n)"

text \<open>\<open>atoi\<close>, for values an \<open>int\<close> can hold.\<close>

definition atoi :: "string \<Rightarrow> int" where
  "atoi s =
     (let (neg, t) = sign_of (dropWhile isspace s); n = int (number 10 (digits 10 t))
      in cint (if neg then - n else n))"

section \<open>Lines of files\<close>

text \<open>\<open>fgets(line, n, fp)\<close>: up to \<open>n - 1\<close> characters, up to and with a newline.\<close>

fun fgets_take :: "nat \<Rightarrow> string \<Rightarrow> string \<times> string" where
  "fgets_take 0 s = ([], s)"
| "fgets_take (Suc n) [] = ([], [])"
| "fgets_take (Suc n) (c # cs) =
     (if c = CHR 0x0A then ([c], cs) else let (l, r) = fgets_take n cs in (c # l, r))"

lemma fgets_take_length: "fgets_take n s = (l, r) \<Longrightarrow> length s = length l + length r"
  by (induction n s arbitrary: l r rule: fgets_take.induct) (auto split: if_splits prod.splits)

definition c_string :: "string \<Rightarrow> string" where
  "c_string s = takeWhile (\<lambda>c. c \<noteq> CHR 0x00) s"

end
