(* ===== verification/Hashmap.thy ===== *)
theory Hashmap
  imports CString
begin

text \<open>
  The hash map with string keys that \<open>06_Map-Reduce/mapreduce.c\<close> embeds: an array of buckets,
  each a linked list of nodes, doubled when there are as many nodes as buckets. A bucket is the
  list of its nodes in link order. Memory is a parameter of the operations that allocate: whether
  \<open>malloc\<close> and \<open>realloc\<close> succeed.
\<close>

section \<open>The map\<close>

record 'v map_node =
  mn_hash :: u32
  mn_key :: string
  mn_value :: 'v

record 'v map_base =
  mb_buckets :: "'v map_node list list"
  mb_nbuckets :: u32
  mb_nnodes :: u32

definition map_init :: "'v map_base" where
  "map_init = \<lparr>mb_buckets = [], mb_nbuckets = 0, mb_nnodes = 0\<rparr>"

definition map_hash :: "string \<Rightarrow> u32" where
  "map_hash str = fold (\<lambda>c h. xor (push_bit 5 h + h) (word_of_int (schar c))) str 5381"

definition map_newnode :: "bool \<Rightarrow> string \<Rightarrow> 'v \<Rightarrow> 'v map_node option" where
  "map_newnode mem key value =
     (if \<not> mem then None else Some \<lparr>mn_hash = map_hash key, mn_key = key, mn_value = value\<rparr>)"

definition map_bucketidx :: "'v map_base \<Rightarrow> u32 \<Rightarrow> nat" where
  "map_bucketidx m h = unat (and h (mb_nbuckets m - 1))"

definition map_addnode :: "'v map_node \<Rightarrow> 'v map_base \<Rightarrow> 'v map_base" where
  "map_addnode node m =
     (let n = map_bucketidx m (mn_hash node)
      in m\<lparr>mb_buckets := (mb_buckets m)[n := node # (mb_buckets m ! n)]\<rparr>)"

text \<open>
  \<open>map_resize\<close> first unlinks all nodes onto one list, the last bucket first, each node in front;
  it adds them to the new buckets from the front of that list.
\<close>

definition map_unlink_all :: "'v map_node list list \<Rightarrow> 'v map_node list" where
  "map_unlink_all bs = fold (\<lambda>b nodes. fold (\<lambda>node nodes. node # nodes) b nodes) (rev bs) []"

definition map_resize :: "bool \<Rightarrow> u32 \<Rightarrow> 'v map_base \<Rightarrow> int \<times> 'v map_base" where
  "map_resize mem nbuckets m =
     (let nodes = map_unlink_all (mb_buckets m);
          m1 = (if mem then m\<lparr>mb_buckets := replicate (unat nbuckets) [], mb_nbuckets := nbuckets\<rparr>
                else m\<lparr>mb_buckets := replicate (length (mb_buckets m)) []\<rparr>);
          m2 = (if mb_buckets m1 \<noteq> [] then fold map_addnode nodes m1 else m1)
      in (if mem then 0 else - 1, m2))"

text \<open>The position of the node with the key: bucket and index in it.\<close>

fun scan_bucket :: "'v map_node list \<Rightarrow> u32 \<Rightarrow> string \<Rightarrow> nat option" where
  "scan_bucket [] hash key = None"
| "scan_bucket (n # ns) hash key =
     (if mn_hash n = hash \<and> strcmp (mn_key n) key = 0 then Some 0
      else map_option Suc (scan_bucket ns hash key))"

definition map_getref :: "'v map_base \<Rightarrow> string \<Rightarrow> (nat \<times> nat) option" where
  "map_getref m key =
     (let hash = map_hash key in
      if mb_nbuckets m > 0 then
        let b = map_bucketidx m hash in map_option (\<lambda>i. (b, i)) (scan_bucket (mb_buckets m ! b) hash key)
      else None)"

definition map_get :: "'v map_base \<Rightarrow> string \<Rightarrow> 'v option" where
  "map_get m key = map_option (\<lambda>(b, i). mn_value (mb_buckets m ! b ! i)) (map_getref m key)"

definition map_set :: "bool \<Rightarrow> bool \<Rightarrow> string \<Rightarrow> 'v \<Rightarrow> 'v map_base \<Rightarrow> int \<times> 'v map_base" where
  "map_set mem1 mem2 key value m =
     (case map_getref m key of
        Some (b, i) \<Rightarrow>
          (0, m\<lparr>mb_buckets := (mb_buckets m)[b := (mb_buckets m ! b)[i := (mb_buckets m ! b ! i)\<lparr>mn_value := value\<rparr>]]\<rparr>)
      | None \<Rightarrow>
          (case map_newnode mem1 key value of None \<Rightarrow> (- 1, m)
           | Some node \<Rightarrow>
               let add = (\<lambda>m. let m = map_addnode node m in (0, m\<lparr>mb_nnodes := mb_nnodes m + 1\<rparr>)) in
               if mb_nnodes m \<ge> mb_nbuckets m then
                 let n = (if mb_nbuckets m > 0 then push_bit 1 (mb_nbuckets m) else 1);
                     (err, m) = map_resize mem2 n m
                 in if err \<noteq> 0 then (- 1, m) else add m
               else add m))"

definition map_remove :: "string \<Rightarrow> 'v map_base \<Rightarrow> 'v map_base" where
  "map_remove key m =
     (case map_getref m key of None \<Rightarrow> m
      | Some (b, i) \<Rightarrow>
          let bk = mb_buckets m ! b in
          m\<lparr>mb_buckets := (mb_buckets m)[b := take i bk @ drop (Suc i) bk], mb_nnodes := mb_nnodes m - 1\<rparr>)"

text \<open>
  The iterator: the bucket index (-1 before the first) and the rest of the current bucket, whose
  head is \<open>iter->node\<close>.
\<close>

record 'v map_iter =
  mi_bucketidx :: u32
  mi_node :: "'v map_node list"

definition map_iter_init :: "'v map_iter" where
  "map_iter_init = \<lparr>mi_bucketidx = - 1, mi_node = []\<rparr>"

partial_function (option) next_bucket :: "'v map_base \<Rightarrow> u32 \<Rightarrow> 'v map_iter option" where
  "next_bucket m i =
     (let i = i + 1 in
      if i \<ge> mb_nbuckets m then Some \<lparr>mi_bucketidx = i, mi_node = []\<rparr>
      else if mb_buckets m ! unat i = [] then next_bucket m i
      else Some \<lparr>mi_bucketidx = i, mi_node = mb_buckets m ! unat i\<rparr>)"

definition map_next :: "'v map_base \<Rightarrow> 'v map_iter \<Rightarrow> (string option \<times> 'v map_iter) option" where
  "map_next m it =
     map_option (\<lambda>it. (case mi_node it of [] \<Rightarrow> None | n # _ \<Rightarrow> Some (mn_key n), it))
       (if mi_node it \<noteq> [] \<and> tl (mi_node it) \<noteq> []
        then Some (it\<lparr>mi_node := tl (mi_node it)\<rparr>)
        else next_bucket m (mi_bucketidx it))"

end
