(* ===== verification/HashmapProps.thy ===== *)
theory HashmapProps
  imports Hashmap
begin

text \<open>
  The hash map behaves as a finite map: \<open>map_inv\<close> is its invariant, \<open>map_abs\<close> the map it stands
  for, and \<open>string_map\<close> the contract the MapReduce library relies on.
\<close>

section \<open>Nodes and buckets\<close>

definition nodes :: "'v map_base \<Rightarrow> 'v map_node list" where
  "nodes m = concat (mb_buckets m)"

definition placed :: "'v map_base \<Rightarrow> bool" where
  "placed m \<longleftrightarrow> length (mb_buckets m) = unat (mb_nbuckets m) \<and>
     (\<forall>b < length (mb_buckets m). \<forall>n \<in> set (mb_buckets m ! b).
        mn_hash n = map_hash (mn_key n) \<and> map_bucketidx m (map_hash (mn_key n)) = b)"

definition map_inv :: "'v map_base \<Rightarrow> bool" where
  "map_inv m \<longleftrightarrow> placed m \<and> distinct (map mn_key (nodes m)) \<and> unat (mb_nnodes m) = length (nodes m)"

definition map_abs :: "'v map_base \<Rightarrow> string \<Rightarrow> 'v option" where
  "map_abs m = map_of (map (\<lambda>n. (mn_key n, mn_value n)) (nodes m))"

lemma bucketidx_less: "0 < mb_nbuckets m \<Longrightarrow> map_bucketidx m h < unat (mb_nbuckets m)"
proof -
  assume nb: "0 < mb_nbuckets m"
  have "and h (mb_nbuckets m - 1) \<le> mb_nbuckets m - 1" by (rule word_and_le1)
  then have "unat (and h (mb_nbuckets m - 1)) \<le> unat (mb_nbuckets m - 1)" by (simp add: word_le_nat_alt)
  moreover have "unat (mb_nbuckets m - 1) = unat (mb_nbuckets m) - 1"
    using nb by (subst unat_sub) (simp_all add: word_le_nat_alt word_less_nat_alt)
  moreover have "0 < unat (mb_nbuckets m)" using nb by (simp add: word_less_nat_alt)
  ultimately show ?thesis by (simp add: map_bucketidx_def)
qed

lemma set_nodes: "set (nodes m) = (\<Union>b < length (mb_buckets m). set (mb_buckets m ! b))"
  by (auto simp: nodes_def set_conv_nth [of "mb_buckets m"])

lemma mset_concat_update:
  assumes "b < length bs"
  shows "mset (concat (bs[b := c])) + mset (bs ! b) = mset (concat bs) + mset c"
proof -
  have "concat bs = concat (take b bs) @ bs ! b @ concat (drop (Suc b) bs)"
    by (metis assms concat.simps(2) concat_append id_take_nth_drop)
  moreover have "concat (bs[b := c]) = concat (take b bs) @ c @ concat (drop (Suc b) bs)"
    using assms by (simp add: upd_conv_take_nth_drop)
  ultimately show ?thesis by simp
qed

text \<open>Adding a node.\<close>

lemma addnode_fields [simp]:
  "mb_nbuckets (map_addnode n m) = mb_nbuckets m" "mb_nnodes (map_addnode n m) = mb_nnodes m"
  "length (mb_buckets (map_addnode n m)) = length (mb_buckets m)"
  "map_bucketidx (map_addnode n m) = map_bucketidx m"
  by (simp_all add: map_addnode_def map_bucketidx_def fun_eq_iff)

lemma addnode_placed:
  assumes "placed m" "0 < mb_nbuckets m" "mn_hash n = map_hash (mn_key n)"
  shows "placed (map_addnode n m)" "mset (nodes (map_addnode n m)) = add_mset n (mset (nodes m))"
proof -
  let ?b = "map_bucketidx m (mn_hash n)"
  have b: "?b < length (mb_buckets m)" using bucketidx_less [OF assms(2)] assms(1) by (simp add: placed_def)
  show "mset (nodes (map_addnode n m)) = add_mset n (mset (nodes m))"
    using mset_concat_update [OF b, of "n # mb_buckets m ! ?b"] by (simp add: nodes_def map_addnode_def)
  show "placed (map_addnode n m)"
    using assms b unfolding placed_def addnode_fields
    by (auto simp: map_addnode_def nth_list_update split: if_splits)
qed

lemma addnodes_placed:
  assumes "placed m" "0 < mb_nbuckets m" "\<forall>n \<in> set ns. mn_hash n = map_hash (mn_key n)"
  shows "placed (fold map_addnode ns m) \<and> mset (nodes (fold map_addnode ns m)) = mset ns + mset (nodes m) \<and>
    mb_nbuckets (fold map_addnode ns m) = mb_nbuckets m \<and> mb_nnodes (fold map_addnode ns m) = mb_nnodes m"
  using assms
proof (induction ns arbitrary: m)
  case (Cons n ns)
  have "placed (map_addnode n m)" "mset (nodes (map_addnode n m)) = add_mset n (mset (nodes m))"
    using addnode_placed [of m n] Cons.prems by simp_all
  with Cons.IH [of "map_addnode n m"] Cons.prems show ?case by simp
qed simp

section \<open>Growing\<close>

lemma mset_unlink_all: "mset (map_unlink_all bs) = mset (concat bs)"
proof -
  have inner: "fold (\<lambda>node nodes. node # nodes) b xs = rev b @ xs" for b and xs :: "'a map_node list"
    by (induction b arbitrary: xs) auto
  have "mset (fold (\<lambda>b nodes. fold (\<lambda>node nodes. node # nodes) b nodes) cs xs) = mset (concat cs) + mset xs"
    for cs and xs :: "'a map_node list"
    by (induction cs arbitrary: xs) (simp_all add: inner)
  moreover have "mset (concat (rev bs)) = mset (concat bs)" by (induction bs) simp_all
  ultimately show ?thesis by (simp add: map_unlink_all_def)
qed

lemma placed_hashes: "placed m \<Longrightarrow> n \<in> set (nodes m) \<Longrightarrow> mn_hash n = map_hash (mn_key n)"
  by (auto simp: placed_def set_nodes)

lemma placed_empty: "placed (m\<lparr>mb_buckets := replicate (unat k) [], mb_nbuckets := k\<rparr>)"
  by (simp add: placed_def)

text \<open>Whether or not \<open>realloc\<close> succeeds, no node is lost and every node is in its bucket.\<close>

lemma resize_keeps:
  assumes "placed m" "0 < k" "map_resize mem k m = (err, t)"
  shows "placed t" "mset (nodes t) = mset (nodes m)" "mb_nnodes t = mb_nnodes m"
    "err = (if mem then 0 else - 1)" "mb_nbuckets t = (if mem then k else mb_nbuckets m)"
proof -
  let ?ns = "map_unlink_all (mb_buckets m)"
  let ?m1 = "if mem then m\<lparr>mb_buckets := replicate (unat k) [], mb_nbuckets := k\<rparr>
      else m\<lparr>mb_buckets := replicate (length (mb_buckets m)) []\<rparr>"
  have ms: "mset ?ns = mset (nodes m)" by (simp add: mset_unlink_all nodes_def)
  then have "set ?ns = set (nodes m)" by (metis set_mset_mset)
  then have h: "\<forall>n \<in> set ?ns. mn_hash n = map_hash (mn_key n)" using placed_hashes assms(1) by blast
  have p1: "placed ?m1" using assms(1) by (auto simp: placed_def)
  have n1: "nodes ?m1 = []" by (simp add: nodes_def)
  have t: "t = (if mb_buckets ?m1 \<noteq> [] then fold map_addnode ?ns ?m1 else ?m1)" "err = (if mem then 0 else - 1)"
    using assms(3) by (auto simp: map_resize_def)
  show "err = (if mem then 0 else - 1)" by (fact t)
  have "placed t \<and> mset (nodes t) = mset (nodes m) \<and> mb_nnodes t = mb_nnodes m \<and>
      mb_nbuckets t = (if mem then k else mb_nbuckets m)"
  proof (cases "mb_buckets ?m1 = []")
    case True
    then have "\<not> mem" using assms(2) by (auto simp: word_less_nat_alt)
    then show ?thesis using True t p1 n1 by (simp add: nodes_def)
  next
    case False
    then have "0 < length (mb_buckets ?m1)" by simp
    then have "0 < mb_nbuckets ?m1" using p1 by (simp only: placed_def word_less_nat_alt) simp
    from addnodes_placed [OF p1 this h] False t ms n1 show ?thesis by auto
  qed
  then show "placed t" "mset (nodes t) = mset (nodes m)" "mb_nnodes t = mb_nnodes m"
    "mb_nbuckets t = (if mem then k else mb_nbuckets m)" by simp_all
qed

section \<open>Lookup\<close>

lemma scan_Some: "scan_bucket ns h k = Some i \<Longrightarrow> i < length ns \<and> mn_key (ns ! i) = k"
  by (induction ns h k arbitrary: i rule: scan_bucket.induct) (auto split: if_splits)

lemma scan_None: "scan_bucket ns h k = None \<Longrightarrow> n \<in> set ns \<Longrightarrow> mn_hash n = h \<Longrightarrow> mn_key n \<noteq> k"
  by (induction ns h k rule: scan_bucket.induct) (auto split: if_splits)

lemma map_abs_Some:
  assumes "distinct (map mn_key (nodes m))" "n \<in> set (nodes m)"
  shows "map_abs m (mn_key n) = Some (mn_value n)"
  unfolding map_abs_def using assms by (intro map_of_is_SomeI) (auto simp: comp_def)

lemma map_abs_None: "map_abs m k = None \<longleftrightarrow> k \<notin> mn_key ` set (nodes m)"
  by (simp add: map_abs_def map_of_eq_None_iff image_image)

lemma getref_cases:
  assumes "placed m"
  obtains (found) b i n where "map_getref m k = Some (b, i)" "b < length (mb_buckets m)" "i < length (mb_buckets m ! b)"
      "n = mb_buckets m ! b ! i" "mn_key n = k" "n \<in> set (nodes m)"
  | (absent) "map_getref m k = None" "k \<notin> mn_key ` set (nodes m)"
proof (cases "map_getref m k")
  case None
  have "mn_key n \<noteq> k" if n: "n \<in> set (nodes m)" for n
  proof
    assume k: "mn_key n = k"
    from n obtain b where b: "b < length (mb_buckets m)" "n \<in> set (mb_buckets m ! b)" by (auto simp: set_nodes)
    then have bi: "mn_hash n = map_hash k" "map_bucketidx m (map_hash k) = b" using assms k by (auto simp: placed_def)
    have "0 < mb_nbuckets m" using b(1) assms by (auto simp: placed_def word_less_nat_alt)
    then have "scan_bucket (mb_buckets m ! b) (map_hash k) k = None" using None bi by (simp add: map_getref_def)
    with scan_None b(2) bi(1) k show False by blast
  qed
  with None absent show thesis by blast
next
  case (Some p)
  then obtain b i where bi: "map_getref m k = Some (b, i)" by (cases p) auto
  then have nb: "0 < mb_nbuckets m" and b: "b = map_bucketidx m (map_hash k)" and s: "scan_bucket (mb_buckets m ! b) (map_hash k) k = Some i"
    by (auto simp: map_getref_def split: if_splits)
  have "b < length (mb_buckets m)" using bucketidx_less [OF nb] b assms by (simp add: placed_def)
  moreover have "mb_buckets m ! b ! i \<in> set (mb_buckets m ! b)" using scan_Some [OF s] by simp
  ultimately have "mb_buckets m ! b ! i \<in> set (nodes m)" unfolding set_nodes by blast
  with found [OF bi \<open>b < length (mb_buckets m)\<close>] scan_Some [OF s] show thesis by simp
qed

lemma map_get_abs:
  assumes "map_inv m"
  shows "map_get m k = map_abs m k"
proof -
  have p: "placed m" "distinct (map mn_key (nodes m))" using assms by (simp_all add: map_inv_def)
  from p(1) show ?thesis
  proof (cases rule: getref_cases [where k = k])
    case (found b i n)
    then show ?thesis using map_abs_Some [OF p(2), of n] by (simp add: map_get_def)
  next
    case absent
    then show ?thesis using map_abs_None [of m k] by (simp add: map_get_def)
  qed
qed

text \<open>The abstract map depends on the nodes only up to order.\<close>

lemma map_abs_mset:
  assumes "distinct (map mn_key (nodes m))" "mset (nodes t) = mset (nodes m)"
  shows "distinct (map mn_key (nodes t))" "map_abs t = map_abs m"
proof -
  have "mset (map mn_key (nodes t)) = mset (map mn_key (nodes m))" using assms(2) by simp
  then show d: "distinct (map mn_key (nodes t))" using assms(1) mset_eq_imp_distinct_iff by blast
  have s: "set (nodes t) = set (nodes m)" using assms(2) by (metis set_mset_mset)
  show "map_abs t = map_abs m"
  proof
    fix k show "map_abs t k = map_abs m k"
    proof (cases "k \<in> mn_key ` set (nodes m)")
      case True
      then obtain n where "n \<in> set (nodes m)" "k = mn_key n" by blast
      then show ?thesis using map_abs_Some [OF d] map_abs_Some [OF assms(1)] s by simp
    next
      case False
      then show ?thesis using map_abs_None [of m k] map_abs_None [of t k] s by simp
    qed
  qed
qed

section \<open>Updating\<close>

lemma map_abs_add:
  assumes "distinct (map mn_key (nodes m))" "mn_key n \<notin> mn_key ` set (nodes m)"
    "mset (nodes t) = add_mset n (mset (nodes m))"
  shows "distinct (map mn_key (nodes t))" "map_abs t = (map_abs m)(mn_key n \<mapsto> mn_value n)"
proof -
  have d: "distinct (map mn_key (n # nodes m))" using assms(1,2) by simp
  have "mset (map mn_key (nodes t)) = mset (map mn_key (n # nodes m))" using assms(3) by simp
  then show dt: "distinct (map mn_key (nodes t))" using d mset_eq_imp_distinct_iff by blast
  have "set_mset (mset (nodes t)) = insert n (set (nodes m))" unfolding assms(3) by simp
  then have s: "set (nodes t) = insert n (set (nodes m))" by simp
  show "map_abs t = (map_abs m)(mn_key n \<mapsto> mn_value n)"
  proof
    fix k show "map_abs t k = ((map_abs m)(mn_key n \<mapsto> mn_value n)) k"
    proof (cases "k \<in> mn_key ` set (nodes m)")
      case True
      then obtain q where q: "q \<in> set (nodes m)" "k = mn_key q" by blast
      then have "k \<noteq> mn_key n" using assms(2) by (metis image_eqI)
      with q show ?thesis using map_abs_Some [OF dt, of q] map_abs_Some [OF assms(1), of q] s by simp
    next
      case False
      then show ?thesis using map_abs_None [of m k] map_abs_None [of t k] map_abs_Some [OF dt, of n] s by auto
    qed
  qed
qed

text \<open>Replacing the node at a position by one with the same key.\<close>

lemma replace_node:
  assumes p: "placed m" and d: "distinct (map mn_key (nodes m))" and b: "b < length (mb_buckets m)" "i < length (mb_buckets m ! b)"
    and n: "n = mb_buckets m ! b ! i"
    and t: "t = m\<lparr>mb_buckets := (mb_buckets m)[b := (mb_buckets m ! b)[i := n\<lparr>mn_value := v\<rparr>]]\<rparr>"
  shows "placed t" "distinct (map mn_key (nodes t))" "map_abs t = (map_abs m)(mn_key n \<mapsto> v)" "length (nodes t) = length (nodes m)"
proof -
  let ?n = "n\<lparr>mn_value := v\<rparr>"
  have n_in: "n \<in> set (mb_buckets m ! b)" using b(2) n by simp
  show "placed t" unfolding placed_def
  proof (intro conjI allI impI ballI)
    fix c q assume c: "c < length (mb_buckets t)" and q: "q \<in> set (mb_buckets t ! c)"
    have bi: "map_bucketidx t = map_bucketidx m" by (simp add: t map_bucketidx_def fun_eq_iff)
    have "q \<in> set (mb_buckets m ! c) \<or> c = b \<and> q = ?n"
      using q c t by (cases "c = b") (auto dest: set_update_subset_insert [THEN subsetD])
    then show "mn_hash q = map_hash (mn_key q)" "map_bucketidx t (map_hash (mn_key q)) = c"
      unfolding bi using p n_in b(1) c t by (auto simp: placed_def)
  qed (use p t in \<open>simp add: placed_def\<close>)
  have "mset ((mb_buckets m ! b)[i := ?n]) = add_mset ?n (mset (mb_buckets m ! b) - {#n#})"
    using b(2) n by (simp add: mset_update)
  moreover have "mset (nodes t) + mset (mb_buckets m ! b) = mset (nodes m) + mset ((mb_buckets m ! b)[i := ?n])"
    using mset_concat_update [OF b(1)] by (simp add: nodes_def t)
  ultimately have "mset (nodes t) + mset (mb_buckets m ! b) = add_mset ?n (mset (nodes m)) + (mset (mb_buckets m ! b) - {#n#})" by simp
  moreover have "mset (mb_buckets m ! b) = add_mset n (mset (mb_buckets m ! b) - {#n#})" using n_in by simp
  ultimately have ms: "add_mset n (mset (nodes t)) = add_mset ?n (mset (nodes m))"
    by (metis (no_types, lifting) add_right_cancel union_mset_add_mset_left union_mset_add_mset_right)
  have nm: "n \<in> set (nodes m)" using n_in b(1) by (auto simp: set_nodes)
  have "mset (map mn_key (nodes t)) = mset (map mn_key (nodes m))"
    using arg_cong [OF ms, of "image_mset mn_key"] by simp
  then show dt: "distinct (map mn_key (nodes t))" using d mset_eq_imp_distinct_iff by blast
  show len: "length (nodes t) = length (nodes m)" using arg_cong [OF ms, of size] by simp
  have mt: "mset (nodes t) = add_mset ?n (mset (nodes m) - {#n#})"
  proof -
    have "mset (nodes m) = add_mset n (mset (nodes m) - {#n#})" using nm by simp
    then have "add_mset n (mset (nodes t)) = add_mset n (add_mset ?n (mset (nodes m) - {#n#}))"
      using ms by (metis add_mset_commute)
    then show ?thesis by simp
  qed
  have dm: "distinct (nodes m)" using d by (simp add: distinct_map)
  have "set_mset (mset (nodes m) - {#n#}) = set (nodes m) - {n}"
    using dm by (metis mset_remove1 set_mset_mset set_remove1_eq)
  then have "set_mset (mset (nodes t)) = insert ?n (set (nodes m) - {n})" unfolding mt by simp
  then have s: "set (nodes t) = insert ?n (set (nodes m) - {n})" by simp
  have inj: "inj_on mn_key (set (nodes m))" using d by (simp add: distinct_map)
  show "map_abs t = (map_abs m)(mn_key n \<mapsto> v)"
  proof
    fix k show "map_abs t k = ((map_abs m)(mn_key n \<mapsto> v)) k"
    proof (cases "k = mn_key n")
      case True
      then show ?thesis using map_abs_Some [OF dt, of ?n] s by simp
    next
      case ne: False
      show ?thesis
      proof (cases "k \<in> mn_key ` set (nodes m)")
        case True
        then obtain q where "q \<in> set (nodes m)" "k = mn_key q" by blast
        then show ?thesis using map_abs_Some [OF dt, of q] map_abs_Some [OF d, of q] s ne by auto
      next
        case False
        then have "k \<notin> mn_key ` set (nodes t)" using s ne by auto
        then have "map_abs t k = None" "map_abs m k = None" using False by (simp_all add: map_abs_None)
        then show ?thesis using ne by simp
      qed
    qed
  qed
qed

lemma unat_inc: "unat (w :: u32) < 2 ^ 31 \<Longrightarrow> unat (w + 1) = Suc (unat w)"
  by (simp add: unat_word_ariths)

lemma map_set_ok:
  assumes inv: "map_inv m" and small: "length (nodes m) < 2 ^ 31" and run: "map_set mem1 mem2 k v m = (err, t)"
  shows "map_inv t \<and> map_abs t = (if err = 0 then (map_abs m)(k \<mapsto> v) else map_abs m) \<and>
    (mem1 \<and> mem2 \<longrightarrow> err = 0) \<and> length (nodes t) \<le> Suc (length (nodes m))"
proof -
  have p: "placed m" and d: "distinct (map mn_key (nodes m))" and nn: "unat (mb_nnodes m) = length (nodes m)"
    using inv by (simp_all add: map_inv_def)
  from p show ?thesis
  proof (cases rule: getref_cases [where k = k])
    case (found b i n)
    let ?t = "m\<lparr>mb_buckets := (mb_buckets m)[b := (mb_buckets m ! b)[i := n\<lparr>mn_value := v\<rparr>]]\<rparr>"
    have "err = 0" "t = ?t" using run found by (simp_all add: map_set_def)
    with replace_node [OF p d found(2,3,4)] found(5) nn show ?thesis by (simp add: map_inv_def)
  next
    case absent
    show ?thesis
    proof (cases mem1)
      case False
      with run absent have "err = - 1" "t = m" by (simp_all add: map_set_def map_newnode_def)
      with inv False show ?thesis by simp
    next
      case True
      let ?n = "\<lparr>mn_hash = map_hash k, mn_key = k, mn_value = v\<rparr>"
      let ?nb = "if mb_nbuckets m > 0 then push_bit 1 (mb_nbuckets m) else 1"
      obtain e r where er: "(if mb_nnodes m \<ge> mb_nbuckets m then map_resize mem2 ?nb m else (0, m)) = (e, r)" by fastforce
      have r: "placed r \<and> mset (nodes r) = mset (nodes m) \<and> mb_nnodes r = mb_nnodes m \<and> (mem2 \<longrightarrow> e = 0) \<and>
          (e = 0 \<longrightarrow> 0 < mb_nbuckets r)"
      proof (cases "mb_nnodes m \<ge> mb_nbuckets m")
        case True
        have "unat (mb_nbuckets m) < 2 ^ 31" using True small nn by (simp add: word_le_nat_alt)
        then have "unat (push_bit 1 (mb_nbuckets m)) = 2 * unat (mb_nbuckets m)"
          by (simp add: push_bit_eq_mult unat_word_ariths)
        then have "0 < ?nb" by (auto simp: word_less_nat_alt)
        from resize_keeps [OF p this, of mem2 e r] True er \<open>0 < ?nb\<close> show ?thesis by auto
      next
        case False
        then have "0 < mb_nbuckets m" by (auto simp: word_le_nat_alt word_less_nat_alt)
        with False er p show ?thesis by auto
      qed
      have dr: "distinct (map mn_key (nodes r))" "map_abs r = map_abs m" using map_abs_mset [OF d] r by blast+
      have lr: "length (nodes r) = length (nodes m)" using r by (metis size_mset)
      show ?thesis
      proof (cases "e = 0")
        case False
        have "err = - 1 \<and> t = r" using run absent True er False by (auto simp: map_set_def map_newnode_def split: if_splits)
        with r dr lr nn inv False show ?thesis by (auto simp: map_inv_def)
      next
        case e: True
        have t: "err = 0" "t = (map_addnode ?n r)\<lparr>mb_nnodes := mb_nnodes r + 1\<rparr>"
          using run absent True er e by (auto simp: map_set_def map_newnode_def split: if_splits)
        have a: "placed (map_addnode ?n r)" "mset (nodes (map_addnode ?n r)) = add_mset ?n (mset (nodes r))"
          using addnode_placed [of r ?n] r e by simp_all
        have "set (nodes r) = set (nodes m)" using r by (metis set_mset_mset)
        then have "k \<notin> mn_key ` set (nodes r)" using absent by simp
        moreover have "nodes t = nodes (map_addnode ?n r)" by (simp add: t nodes_def)
        ultimately have "distinct (map mn_key (nodes t))" "map_abs t = (map_abs r)(k \<mapsto> v)"
          using map_abs_add [OF dr(1), of ?n t] a by simp_all
        moreover have "length (nodes t) = Suc (length (nodes m))"
          using arg_cong [OF a(2), of size] lr \<open>nodes t = nodes (map_addnode ?n r)\<close> by simp
        moreover have "unat (mb_nnodes t) = length (nodes t)"
          using unat_inc [of "mb_nnodes r"] r nn small calculation(3) by (simp add: t)
        moreover have "placed t" using a(1) by (simp add: placed_def t map_bucketidx_def)
        ultimately show ?thesis using t(1) dr by (simp add: map_inv_def)
      qed
    qed
  qed
qed

lemma map_init_inv: "map_inv map_init" "map_abs map_init = Map.empty"
  by (simp_all add: map_inv_def placed_def nodes_def map_abs_def map_init_def)

section \<open>Removing\<close>

lemma map_remove_ok:
  assumes inv: "map_inv m"
  shows "map_inv (map_remove k m) \<and> map_abs (map_remove k m) = (map_abs m)(k := None)"
proof -
  have p: "placed m" and d: "distinct (map mn_key (nodes m))" and nn: "unat (mb_nnodes m) = length (nodes m)"
    using inv by (simp_all add: map_inv_def)
  from p show ?thesis
  proof (cases rule: getref_cases [where k = k])
    case (found b i n)
    let ?bk = "mb_buckets m ! b"
    let ?t = "m\<lparr>mb_buckets := (mb_buckets m)[b := take i ?bk @ drop (Suc i) ?bk], mb_nnodes := mb_nnodes m - 1\<rparr>"
    have t: "map_remove k m = ?t" using found(1) by (simp add: map_remove_def)
    have "?bk = take i ?bk @ n # drop (Suc i) ?bk" using found(3,4) by (simp add: id_take_nth_drop)
    then have mb: "mset ?bk = add_mset n (mset (take i ?bk @ drop (Suc i) ?bk))" by (metis mset.simps(2) mset_append union_mset_add_mset_right)
    have "mset (nodes ?t) + mset ?bk = mset (nodes m) + mset (take i ?bk @ drop (Suc i) ?bk)"
      using mset_concat_update [OF found(2)] by (simp add: nodes_def)
    then have ms: "mset (nodes m) = add_mset n (mset (nodes ?t))" unfolding mb by simp
    have pt: "placed ?t" unfolding placed_def
    proof (intro conjI allI impI ballI)
      fix c q assume c: "c < length (mb_buckets ?t)" and q: "q \<in> set (mb_buckets ?t ! c)"
      have "q \<in> set (mb_buckets m ! c)"
        using q c by (cases "c = b") (auto dest: in_set_takeD in_set_dropD)
      then show "mn_hash q = map_hash (mn_key q)" "map_bucketidx ?t (map_hash (mn_key q)) = c"
        using p c by (auto simp: placed_def map_bucketidx_def)
    qed (use p in \<open>simp add: placed_def\<close>)
    have "mset (map mn_key (nodes m)) = mset (map mn_key (n # nodes ?t))" using ms by simp
    then have "distinct (map mn_key (n # nodes ?t))" using d mset_eq_imp_distinct_iff by blast
    then have dt: "distinct (map mn_key (nodes ?t))" "mn_key n \<notin> mn_key ` set (nodes ?t)" by simp_all
    have "map_abs m = (map_abs ?t)(k \<mapsto> mn_value n)" using map_abs_add [OF dt ms] found(5) by simp
    moreover have "map_abs ?t k = None" using dt(2) found(5) by (simp add: map_abs_None)
    ultimately have "map_abs ?t = (map_abs m)(k := None)" by auto
    moreover have "unat (mb_nnodes ?t) = length (nodes ?t)"
    proof -
      have "length (nodes m) = Suc (length (nodes ?t))" using arg_cong [OF ms, of size] by simp
      then have "unat (mb_nnodes m) = Suc (length (nodes ?t))" using nn by simp
      then show ?thesis by (simp add: unat_sub word_le_nat_alt)
    qed
    ultimately show ?thesis using t pt dt(1) by (simp add: map_inv_def)
  next
    case absent
    then have "map_remove k m = m" "map_abs m k = None" by (simp_all add: map_remove_def map_abs_None)
    then show ?thesis using inv by auto
  qed
qed

section \<open>The contract of a map with string keys\<close>

locale string_map =
  fixes inv :: "'m \<Rightarrow> bool" and size_of :: "'m \<Rightarrow> nat" and get :: "'m \<Rightarrow> string \<Rightarrow> 'v option"
    and put :: "string \<Rightarrow> 'v \<Rightarrow> 'm \<Rightarrow> 'm" and empty :: 'm
  assumes empty_inv: "inv empty" and empty_get: "get empty k = None" and empty_size: "size_of empty = 0"
    and put_inv: "inv m \<Longrightarrow> size_of m < 2 ^ 31 \<Longrightarrow> inv (put k v m)"
    and put_size: "inv m \<Longrightarrow> size_of m < 2 ^ 31 \<Longrightarrow> size_of (put k v m) \<le> Suc (size_of m)"
    and put_get: "inv m \<Longrightarrow> size_of m < 2 ^ 31 \<Longrightarrow> get (put k v m) j = (if j = k then Some v else get m j)"
begin

text \<open>Filling an empty map with the pairs of a list: the last value of a key counts.\<close>

definition fill :: "(string \<times> 'v) list \<Rightarrow> 'm \<Rightarrow> 'm" where
  "fill kvs m = fold (\<lambda>(k, v). put k v) kvs m"

lemma fill_ok:
  assumes "inv m" "size_of m + length kvs < 2 ^ 31"
  shows "inv (fill kvs m) \<and> size_of (fill kvs m) \<le> size_of m + length kvs \<and>
    get (fill kvs m) k = (case map_of (rev kvs) k of Some v \<Rightarrow> Some v | None \<Rightarrow> get m k)"
  using assms
proof (induction kvs arbitrary: m)
  case (Cons kv kvs)
  obtain j v where kv: "kv = (j, v)" by (cases kv)
  have s: "size_of m < 2 ^ 31" using Cons.prems(2) by simp
  have "size_of (put j v m) + length kvs < 2 ^ 31" using put_size [OF Cons.prems(1) s, of j v] Cons.prems(2) by simp
  from Cons.IH [OF put_inv [OF Cons.prems(1) s] this] put_size [OF Cons.prems(1) s, of j v] put_get [OF Cons.prems(1) s]
  show ?case
    by (auto simp: fill_def kv map_of_append map_add_def split: option.splits)
qed (simp add: fill_def)

lemma fill_distinct:
  assumes "distinct (map fst kvs)" "length kvs < 2 ^ 31"
  shows "get (fill kvs empty) k = map_of kvs k"
proof -
  have "map_of (rev kvs) = map_of kvs"
    using assms(1) by (subst map_of_inject_set) (simp_all add: rev_map [symmetric])
  then show ?thesis using fill_ok [OF empty_inv, of kvs k] assms(2) empty_size empty_get by (simp split: option.splits)
qed

end

definition map_put :: "string \<Rightarrow> 'v \<Rightarrow> 'v map_base \<Rightarrow> 'v map_base" where
  "map_put k v m = snd (map_set True True k v m)"

lemma map_put_ok:
  assumes "map_inv m" "length (nodes m) < 2 ^ 31"
  shows "map_inv (map_put k v m)" "map_abs (map_put k v m) = (map_abs m)(k \<mapsto> v)"
    "length (nodes (map_put k v m)) \<le> Suc (length (nodes m))"
  using map_set_ok [OF assms, of True True k v "fst (map_set True True k v m)" "map_put k v m"]
  by (simp_all add: map_put_def)

interpretation hm: string_map map_inv "\<lambda>m. length (nodes m)" map_get map_put map_init
  by unfold_locales
    (simp_all add: map_init_inv map_get_abs map_put_ok fun_upd_apply, simp add: nodes_def map_init_def)

end
