(* ===== verification/MapReduce.thy ===== *)
theory MapReduce
  imports HashmapProps
begin

text \<open>
  The MapReduce library (\<open>06_Map-Reduce/mapreduce.c\<close>) and its two clients \<open>wordcount.c\<close> and
  \<open>sort.c\<close>: partitioning of keys, emission of pairs into growing arrays, grouping of a sorted
  partition by key, iteration over the values of a key, and the mapper and reducer threads.
  Memory does not run out here; \<open>qsort\<close> is a parameter.
\<close>

section \<open>Partitioning\<close>

definition MR_DefaultHashPartition :: "string \<Rightarrow> int \<Rightarrow> u64 res" where
  "MR_DefaultHashPartition key num_partitions =
     (let hash = fold (\<lambda>c h. h * 33 + word_of_int (schar c)) key (5381 :: u64);
          n = word_of_int num_partitions :: u64
      in if n = 0 then Inl (Undefined ''division by zero'') else Inr (hash mod n))"

definition MR_SortedPartition :: "string \<Rightarrow> int \<Rightarrow> u64 res" where
  "MR_SortedPartition key num_partitions =
     (let key_num = strtoul0 key in Inr (drop_bit 32 (key_num * word_of_int num_partitions)))"

section \<open>Partitions\<close>

type_synonym kv = "string \<times> string"

text \<open>
  Arrays hold \<open>None\<close> where they are not initialised. The \<open>ulong\<close> counters of a partition count
  array cells and are natural numbers; \<open>pd_sent\<close> is the value of the semaphore.
\<close>

record partition_data =
  pd_list :: "kv option list"
  pd_size :: nat
  pd_next :: nat
  pd_num_keys :: nat
  pd_start :: "nat option list"
  pd_end :: "nat option list"
  pd_cur :: "nat option list"
  pd_cur_key :: nat
  pd_m :: "int map_base"
  pd_sent :: nat

definition INIT_MAX_KV_PAIR_PARTITION :: nat where
  "INIT_MAX_KV_PAIR_PARTITION = 2"

definition init_partition :: partition_data where
  "init_partition = \<lparr>pd_list = replicate INIT_MAX_KV_PAIR_PARTITION None, pd_size = INIT_MAX_KV_PAIR_PARTITION,
     pd_next = 0, pd_num_keys = 0, pd_start = [], pd_end = [], pd_cur = [], pd_cur_key = 0,
     pd_m = map_init, pd_sent = 0\<rparr>"

definition init_partition_list :: "nat \<Rightarrow> partition_data list" where
  "init_partition_list n = map (\<lambda>i. init_partition) [0..<n]"

definition arr_set :: "'a option list \<Rightarrow> nat \<Rightarrow> 'a \<Rightarrow> 'a option list res" where
  "arr_set xs i v = (if i < length xs then Inr (xs[i := Some v]) else Inl (Undefined ''array index''))"

definition arr_get :: "'a option list \<Rightarrow> nat \<Rightarrow> 'a res" where
  "arr_get xs i = (if i < length xs then (case xs ! i of Some v \<Rightarrow> Inr v | None \<Rightarrow> Inl (Undefined ''uninitialised''))
     else Inl (Undefined ''array index''))"

text \<open>What \<open>MR_Emit\<close> does with the partition locked.\<close>

definition emit_pair :: "kv \<Rightarrow> partition_data \<Rightarrow> partition_data res" where
  "emit_pair pair p =
     (let p = (if pd_next p = pd_size p
               then let original_size = pd_size p in
                 p\<lparr>pd_size := original_size * 2,
                   pd_list := take original_size (pd_list p) @ replicate (original_size * 2 - original_size) None\<rparr>
               else p)
      in rbind (arr_set (pd_list p) (pd_next p) pair) (\<lambda>xs.
           Inr (p\<lparr>pd_list := xs, pd_next := pd_next p + 1\<rparr>)))"

definition MR_Emit :: "(string \<Rightarrow> int \<Rightarrow> u64 res) \<Rightarrow> string \<Rightarrow> string \<Rightarrow> partition_data list \<Rightarrow> partition_data list res" where
  "MR_Emit partitioner key value ps =
     rbind (partitioner key (int (length ps))) (\<lambda>n.
       if unat n < length ps
       then rbind (emit_pair (key, value) (ps ! unat n)) (\<lambda>p. Inr (ps[unat n := p]))
       else Inl (Undefined ''partition_list index''))"

section \<open>Sorting and grouping a partition\<close>

definition kv_pair_comparator :: "kv \<Rightarrow> kv \<Rightarrow> int" where
  "kv_pair_comparator p1 p2 = strcmp (fst p1) (fst p2)"

fun count_keys :: "kv list \<Rightarrow> string option \<Rightarrow> nat \<times> string option" where
  "count_keys [] key_tmp = (0, key_tmp)"
| "count_keys (kv # kvs) key_tmp =
     (let key_cmp = fst kv in
      if key_tmp = None \<or> strcmp key_cmp (the key_tmp) \<noteq> 0
      then let (n, t) = count_keys kvs (Some key_cmp) in (Suc n, t)
      else count_keys kvs key_tmp)"

text \<open>
  The second loop over the pairs, from index \<open>i\<close> on; it keeps \<open>key_tmp\<close> from the first loop. The
  result is the final \<open>cur_key_idx\<close>.
\<close>

fun index_keys :: "kv list \<Rightarrow> nat \<Rightarrow> int \<Rightarrow> string option \<Rightarrow> partition_data \<Rightarrow> (int \<times> partition_data) res" where
  "index_keys [] i cur key_tmp p = Inr (cur, p)"
| "index_keys (kv # kvs) i cur key_tmp p =
     (case key_tmp of None \<Rightarrow> Inl (Undefined ''strcmp of a null pointer'')
      | Some tmp \<Rightarrow>
          let key_cmp = fst kv in
          if strcmp key_cmp tmp \<noteq> 0 then
            rbind (if cur > - 1 then arr_set (pd_end p) (nat cur) i else Inr (pd_end p)) (\<lambda>en.
              let cur = cur + 1 in
            rbind (arr_set (pd_start p) (nat cur) i) (\<lambda>st.
              let m = snd (map_set True True key_cmp cur (pd_m p)) in
            rbind (arr_set (pd_cur p) (nat cur) i) (\<lambda>cu.
              index_keys kvs (Suc i) cur (Some key_cmp) (p\<lparr>pd_end := en, pd_start := st, pd_m := m, pd_cur := cu\<rparr>))))
          else index_keys kvs (Suc i) cur key_tmp p)"

definition sort_partition :: "(kv list \<Rightarrow> kv list) \<Rightarrow> partition_data \<Rightarrow> partition_data res" where
  "sort_partition qsort p =
     (let kvs = qsort (map the (take (pd_next p) (pd_list p)));
          p = p\<lparr>pd_list := map Some kvs @ drop (pd_next p) (pd_list p)\<rparr>;
          (num_keys, key_tmp) = count_keys kvs None;
          p = p\<lparr>pd_num_keys := num_keys, pd_start := replicate num_keys None, pd_end := replicate num_keys None,
                pd_cur := replicate num_keys None, pd_m := map_init\<rparr>
      in rbind (index_keys kvs 0 (- 1) key_tmp p) (\<lambda>(cur, p).
         rbind (if cur \<noteq> - 1 then arr_set (pd_end p) (nat cur) (pd_next p) else Inr (pd_end p)) (\<lambda>en.
           Inr (p\<lparr>pd_end := en, pd_cur_key := 0\<rparr>))))"

section \<open>Reducing a partition\<close>

definition Get :: "string \<Rightarrow> partition_data \<Rightarrow> (string option \<times> partition_data) res" where
  "Get key p =
     (case map_get (pd_m p) key of None \<Rightarrow> Inl (Undefined ''null dereference in Get'')
      | Some k \<Rightarrow>
          rbind (arr_get (pd_cur p) (nat k)) (\<lambda>cur.
          rbind (arr_get (pd_end p) (nat k)) (\<lambda>en.
            if cur \<ge> en then Inr (None, p)
            else rbind (arr_set (pd_cur p) (nat k) (cur + 1)) (\<lambda>cu.
                 rbind (arr_get (pd_list p) cur) (\<lambda>pair. Inr (Some (snd pair), p\<lparr>pd_cur := cu\<rparr>))))))"

text \<open>The loop \<open>while ((value = get_next(key, partition_number)) != NULL)\<close> of the reducers.\<close>

partial_function (option) get_all :: "string \<Rightarrow> partition_data \<Rightarrow> (string list \<times> partition_data) res option" where
  "get_all key p =
     (case Get key p of Inl e \<Rightarrow> Some (Inl e)
      | Inr (v, p1) \<Rightarrow>
          (case v of None \<Rightarrow> Some (Inr ([], p1))
           | Some x \<Rightarrow> Option.bind (get_all key p1) (\<lambda>r. Some (rbind r (\<lambda>(xs, p2). Inr (x # xs, p2))))))"

text \<open>
  The loop over the keys in \<open>reduce_controller\<close>: the reducer, here one that reads all values of its
  key, and a post of the semaphore per key. The result is the list of calls.
\<close>

fun reduce_keys :: "nat list \<Rightarrow> partition_data \<Rightarrow> ((string \<times> string list) list \<times> partition_data) res" where
  "reduce_keys [] p = Inr ([], p)"
| "reduce_keys (i # is) p =
     rbind (arr_get (pd_start p) i) (\<lambda>idx.
     rbind (arr_get (pd_list p) idx) (\<lambda>pair.
       let key = fst pair in
       (case get_all key p of None \<Rightarrow> Inl Hang
        | Some r \<Rightarrow> rbind r (\<lambda>(vs, p).
            rbind (reduce_keys is (p\<lparr>pd_sent := pd_sent p + 1\<rparr>)) (\<lambda>(out, p). Inr ((key, vs) # out, p))))))"

definition reduce_partition :: "(kv list \<Rightarrow> kv list) \<Rightarrow> partition_data \<Rightarrow> ((string \<times> string list) list \<times> partition_data) res" where
  "reduce_partition qsort p =
     rbind (sort_partition qsort p) (\<lambda>p.
     rbind (reduce_keys [0..<pd_num_keys p] p) (\<lambda>(out, p).
       Inr (out, if pd_num_keys p = 0 then p\<lparr>pd_sent := pd_sent p + 1\<rparr> else p)))"

section \<open>The clients\<close>

text \<open>The loop of \<open>Map\<close>: every line without its last character, with the given value.\<close>

function map_lines :: "string \<Rightarrow> string \<Rightarrow> kv list res" where
  "map_lines value content =
     (case fgets_take 99 content of (chunk, rest) \<Rightarrow>
        if chunk = [] then Inr []
        else let line = c_string chunk in
          if line = [] then Inl (Undefined ''line[-1]'')
          else rbind (map_lines value rest) (\<lambda>kvs. Inr ((butlast line, value) # kvs)))"
  by pat_completeness auto
termination
proof (relation "measure (\<lambda>(v, s). length s)", goal_cases)
  case (2 v content chunk rest)
  then show ?case using fgets_take_length [of 99 content chunk rest] by auto
qed simp

definition Map_wordcount :: "string \<Rightarrow> kv list res" where
  "Map_wordcount content = map_lines ''1'' content"

definition Map_sort :: "string \<Rightarrow> kv list res" where
  "Map_sort content = map_lines ''dummy'' content"

definition Reduce_wordcount :: "string \<Rightarrow> string list \<Rightarrow> string \<times> int" where
  "Reduce_wordcount key values = (key, fold (\<lambda>v count. cint (count + atoi v)) values 0)"

definition Reduce_sort :: "string \<Rightarrow> string list \<Rightarrow> string" where
  "Reduce_sort key values = key"

end
