(* ===== verification/MapReduceProps.thy ===== *)
theory MapReduceProps
  imports MapReduce
begin

text \<open>
  Emission, grouping and reduction of a partition: a partition with pairs is a list of pairs, the
  sorted partition is a list of groups, and reducing it calls the reducer once per key with
  exactly the values emitted for the key. The two clients are instances.
\<close>

section \<open>Emission\<close>

definition part_inv :: "partition_data \<Rightarrow> bool" where
  "part_inv p \<longleftrightarrow> length (pd_list p) = pd_size p \<and> 0 < pd_size p \<and> pd_next p \<le> pd_size p \<and>
     (\<forall>i < pd_next p. pd_list p ! i \<noteq> None)"

definition pairs :: "partition_data \<Rightarrow> kv list" where
  "pairs p = map the (take (pd_next p) (pd_list p))"

lemma init_partition_ok: "part_inv init_partition" "pairs init_partition = []"
  by (simp_all add: part_inv_def pairs_def init_partition_def INIT_MAX_KV_PAIR_PARTITION_def)

lemma take_Some: "n \<le> length xs \<Longrightarrow> \<forall>i < n. xs ! i \<noteq> None \<Longrightarrow> take n xs = map Some (map the (take n xs))"
  by (rule nth_equalityI) auto

lemma emit_pair_ok:
  assumes "part_inv p"
  shows "\<exists>q. emit_pair kv p = Inr q \<and> part_inv q \<and> pairs q = pairs p @ [kv] \<and>
    pd_size q = (if pd_next p = pd_size p then 2 * pd_size p else pd_size p)"
proof -
  define r where "r = (if pd_next p = pd_size p
    then p\<lparr>pd_size := pd_size p * 2, pd_list := take (pd_size p) (pd_list p) @ replicate (pd_size p * 2 - pd_size p) None\<rparr>
    else p)"
  have r: "pd_next r = pd_next p" "pd_next p < length (pd_list r)" "length (pd_list r) = pd_size r"
    "take (pd_next p) (pd_list r) = take (pd_next p) (pd_list p)"
    "pd_size r = (if pd_next p = pd_size p then 2 * pd_size p else pd_size p)"
    using assms by (auto simp: part_inv_def r_def)
  let ?q = "r\<lparr>pd_list := (pd_list r)[pd_next p := Some kv], pd_next := pd_next p + 1\<rparr>"
  have run: "emit_pair kv p = Inr ?q" 
    unfolding emit_pair_def Let_def r_def [symmetric] using r(1,2) by (simp add: arr_set_def)
  have tk: "take (Suc (pd_next p)) ((pd_list r)[pd_next p := Some kv]) = take (pd_next p) (pd_list p) @ [Some kv]"
    using r(2,4) by (simp add: take_Suc_conv_app_nth del: take_append)
  then have "pairs ?q = pairs p @ [kv]" by (simp add: pairs_def)
  moreover have "pd_list ?q ! i \<noteq> None" if "i < pd_next ?q" for i
  proof -
    have "pd_list ?q ! i = take (Suc (pd_next p)) (pd_list ?q) ! i" using that by simp
    also have "\<dots> = (take (pd_next p) (pd_list p) @ [Some kv]) ! i" using tk by simp
    finally show ?thesis using that assms r(2) by (auto simp: nth_append part_inv_def min_def split: if_splits)
  qed
  moreover have "part_inv ?q \<longleftrightarrow> (\<forall>i < pd_next ?q. pd_list ?q ! i \<noteq> None)"
    using r assms by (auto simp: part_inv_def)
  ultimately show ?thesis using run r(5) by auto
qed

section \<open>Groups\<close>

type_synonym groups = "(string \<times> string list) list"

definition flat :: "groups \<Rightarrow> kv list" where
  "flat gs = concat (map (\<lambda>(k, vs). map (Pair k) vs) gs)"

text \<open>Where group \<open>j\<close> starts.\<close>

definition off :: "groups \<Rightarrow> nat \<Rightarrow> nat" where
  "off gs j = length (flat (take j gs))"

definition groups_ok :: "groups \<Rightarrow> bool" where
  "groups_ok gs \<longleftrightarrow> distinct (map fst gs) \<and> (\<forall>g \<in> set gs. snd g \<noteq> [])"

lemma flat_simps [simp]: "flat [] = []" "flat ((k, vs) # gs) = map (Pair k) vs @ flat gs"
  by (simp_all add: flat_def)

lemma off_simps [simp]: "off gs 0 = 0" "off ((k, vs) # gs) (Suc j) = length vs + off gs j"
  by (simp_all add: off_def)

lemma groups_ok_Cons: "groups_ok ((k, vs) # gs) \<longleftrightarrow> k \<notin> fst ` set gs \<and> vs \<noteq> [] \<and> groups_ok gs"
  by (auto simp: groups_ok_def)

lemma off_all: "off gs (length gs) = length (flat gs)"
  by (simp add: off_def)

lemma off_Suc: "j < length gs \<Longrightarrow> off gs (Suc j) = off gs j + length (snd (gs ! j))"
  by (induction gs arbitrary: j) (auto simp: off_def less_Suc_eq_0_disj)

lemma flat_nth: "j < length gs \<Longrightarrow> d < length (snd (gs ! j)) \<Longrightarrow> flat gs ! (off gs j + d) = (fst (gs ! j), snd (gs ! j) ! d)"
proof (induction gs arbitrary: j)
  case (Cons g gs)
  then show ?case by (cases g; cases j) (simp_all add: nth_append add.assoc)
qed simp

lemma off_bound: "j < length gs \<Longrightarrow> d < length (snd (gs ! j)) \<Longrightarrow> off gs j + d < length (flat gs)"
proof (induction gs arbitrary: j)
  case (Cons g gs)
  then show ?case by (cases g; cases j) auto
qed simp

text \<open>A list sorted by key consists of groups in ascending order.\<close>

lemma sorted_groups:
  assumes "sorted_wrt (\<lambda>a b. kv_pair_comparator a b \<le> 0) kvs"
  shows "\<exists>gs. kvs = flat gs \<and> sorted_wrt (\<lambda>a b. strcmp a b < 0) (map fst gs) \<and> groups_ok gs"
  using assms
proof (induction kvs)
  case Nil
  show ?case by (rule exI [of _ "[]"]) (simp add: groups_ok_def)
next
  case (Cons kv kvs)
  obtain k v where kv: "kv = (k, v)" by (cases kv)
  from Cons obtain gs where gs: "kvs = flat gs" "sorted_wrt (\<lambda>a b. strcmp a b < 0) (map fst gs)" "groups_ok gs" by auto
  have le: "strcmp k (fst x) \<le> 0" if "x \<in> set kvs" for x using Cons.prems that by (simp add: kv kv_pair_comparator_def)
  show ?case
  proof (cases gs)
    case Nil
    with gs kv show ?thesis by (intro exI [of _ "[(k, [v])]"]) (simp add: groups_ok_def)
  next
    case (Cons g hs)
    obtain k' vs where g: "g = (k', vs)" by (cases g)
    have hd: "(k', hd vs) \<in> set kvs" using gs(1,3) Cons g by (cases vs) (simp_all add: groups_ok_def)
    show ?thesis
    proof (cases "k = k'")
      case True
      with gs Cons g kv show ?thesis by (intro exI [of _ "(k, v # vs) # hs"]) (auto simp: groups_ok_def)
    next
      case False
      have lt: "strcmp k k' < 0" using le [OF hd] False strcmp_eq_0 [of k k'] by (simp add: order_less_le)
      have all: "strcmp k x < 0" if "x \<in> fst ` set gs" for x
      proof -
        from that obtain y where "y \<in> set gs" "x = fst y" by blast
        then obtain ws where y: "(x, ws) \<in> set gs" by (metis prod.collapse)
        then have "ws \<noteq> []" using gs(3) by (auto simp: groups_ok_def)
        then have "(x, hd ws) \<in> set kvs" using y gs(1) by (force simp: flat_def)
        then have "strcmp k x \<le> 0" using le by fastforce
        moreover have "strcmp k x \<noteq> 0"
        proof
          assume "strcmp k x = 0"
          then have "k = x" by simp
          moreover have "x = k' \<or> strcmp k' x < 0" using gs(2) y Cons g by auto
          ultimately have "strcmp k' k < 0" using False by auto
          with lt show False using strcmp_antisym [of k k'] False by simp
        qed
        ultimately show ?thesis by (metis order_less_le)
      qed
      have "k \<notin> fst ` set gs" using all [of k] strcmp_eq_0 [of k k] by (metis order_less_irrefl)
      moreover have "\<forall>y \<in> set gs. strcmp k (fst y) < 0" using all by simp
      ultimately show ?thesis using gs kv by (intro exI [of _ "(k, [v]) # gs"]) (simp add: groups_ok_Cons)
    qed
  qed
qed

lemma groups_values:
  assumes "groups_ok gs" "(k, vs) \<in> set gs"
  shows "map snd (filter (\<lambda>kv. fst kv = k) (flat gs)) = vs"
  using assms
proof (induction gs)
  case (Cons g gs)
  obtain k' ws where g: "g = (k', ws)" by (cases g)
  have other: "filter (\<lambda>kv. fst kv = k') (flat hs) = []" if "k' \<notin> fst ` set hs" for hs
    using that by (induction hs) auto
  have self: "map snd (filter (\<lambda>kv. fst kv = k') (map (Pair k') ws)) = ws" by (simp add: comp_def filter_True)
  show ?case
  proof (cases "k = k'")
    case True
    have nk: "k' \<notin> fst ` set gs" using Cons.prems(1) by (simp add: g groups_ok_Cons)
    then have "vs = ws" using Cons.prems(2) True g by (auto simp: image_iff)
    then show ?thesis using True g self other [OF nk] by simp
  next
    case False
    then have "(k, vs) \<in> set gs" using Cons.prems(2) g by simp
    moreover have "filter (\<lambda>kv. fst kv = k) (map (Pair k') ws) = []" using False by (simp add: filter_empty_conv)
    ultimately show ?thesis using Cons g by (simp add: groups_ok_Cons)
  qed
qed simp

section \<open>Counting and indexing the keys\<close>

lemma count_same: "count_keys (map (Pair k) vs @ kvs) (Some k) = count_keys kvs (Some k)"
  by (induction vs) auto

lemma count_keys_groups:
  assumes "groups_ok gs" "gs = [] \<or> tmp \<noteq> Some (fst (hd gs))"
  shows "count_keys (flat gs) tmp = (length gs, if gs = [] then tmp else Some (fst (last gs)))"
  using assms
proof (induction gs arbitrary: tmp)
  case (Cons g gs)
  obtain k vs where g: "g = (k, vs)" by (cases g)
  then obtain v ws where vs: "vs = v # ws" using Cons.prems(1) by (cases vs) (auto simp: groups_ok_Cons)
  have "gs = [] \<or> Some k \<noteq> Some (fst (hd gs))" using Cons.prems(1) g by (cases gs) (auto simp: groups_ok_Cons)
  with Cons.IH [of "Some k"] Cons.prems g vs show ?case by (auto simp: groups_ok_Cons count_same)
qed simp

lemma index_same: "index_keys (map (Pair k) vs @ kvs) i cur (Some k) p = index_keys kvs (i + length vs) cur (Some k) p"
  by (induction vs arbitrary: i) auto

definition indexed :: "nat \<Rightarrow> nat \<Rightarrow> groups \<Rightarrow> partition_data \<Rightarrow> partition_data \<Rightarrow> bool" where
  "indexed C i gs p q \<longleftrightarrow>
     pd_list q = pd_list p \<and> pd_next q = pd_next p \<and> pd_num_keys q = pd_num_keys p \<and> pd_sent q = pd_sent p \<and>
     length (pd_start q) = length (pd_start p) \<and> length (pd_end q) = length (pd_end p) \<and>
     length (pd_cur q) = length (pd_cur p) \<and>
     (\<forall>j < C. pd_start q ! j = pd_start p ! j \<and> pd_cur q ! j = pd_cur p ! j) \<and>
     (\<forall>j. Suc j < C \<or> gs = [] \<longrightarrow> pd_end q ! j = pd_end p ! j) \<and>
     (\<forall>j < length gs. pd_start q ! (C + j) = Some (i + off gs j) \<and> pd_cur q ! (C + j) = Some (i + off gs j) \<and>
        (0 < C + j \<longrightarrow> pd_end q ! (C + j - 1) = Some (i + off gs j))) \<and>
     pd_m q = hm.fill (zip (map fst gs) (map int [C..<C + length gs])) (pd_m p)"

lemma fill_simps [simp]: "hm.fill [] m = m" "hm.fill ((k, v) # kvs) m = hm.fill kvs (map_put k v m)"
  by (simp_all add: hm.fill_def)

lemma indexed_step:
  assumes q: "indexed (Suc C) (i + length vs) gs p1 q"
    and len: "C < length (pd_start p)" "C < length (pd_end p)" "C < length (pd_cur p)"
    and p1: "p1 = p\<lparr>pd_end := (if 0 < C then (pd_end p)[C - 1 := Some i] else pd_end p), pd_start := (pd_start p)[C := Some i],
       pd_m := map_put k (int C) (pd_m p), pd_cur := (pd_cur p)[C := Some i]\<rparr>"
  shows "indexed C i ((k, vs) # gs) p q"
proof -
  have e: "pd_end q ! j = pd_end p1 ! j" if "j < C" for j using q that unfolding indexed_def by blast
  have old: "pd_start q ! j = pd_start p ! j" "pd_cur q ! j = pd_cur p ! j" if "j < C" for j
    using q that by (simp_all add: indexed_def p1)
  have here: "pd_start q ! C = Some i" "pd_cur q ! C = Some i"
    using q len by (simp_all add: indexed_def p1)
  have here_end: "pd_end q ! (C - 1) = Some i" if "0 < C" using e [of "C - 1"] that len by (simp add: p1)
  have "pd_start q ! (C + j) = Some (i + off ((k, vs) # gs) j) \<and> pd_cur q ! (C + j) = Some (i + off ((k, vs) # gs) j) \<and>
        (0 < C + j \<longrightarrow> pd_end q ! (C + j - 1) = Some (i + off ((k, vs) # gs) j))" if j: "j < Suc (length gs)" for j
  proof (cases j)
    case 0
    then show ?thesis using here here_end by simp
  next
    case (Suc n)
    with j have "pd_start q ! (Suc C + n) = Some (i + length vs + off gs n) \<and> pd_cur q ! (Suc C + n) = Some (i + length vs + off gs n) \<and>
      pd_end q ! (Suc C + n - 1) = Some (i + length vs + off gs n)" using q by (simp add: indexed_def)
    with Suc show ?thesis by (simp add: add.assoc)
  qed
  moreover have "pd_end q ! j = pd_end p ! j" if "Suc j < C" for j using e [of j] that by (simp add: p1)
  moreover have "pd_m q = hm.fill (zip (map fst ((k, vs) # gs)) (map int [C..<C + length ((k, vs) # gs)])) (pd_m p)"
    using q by (simp add: indexed_def p1 upt_conv_Cons del: upt_Suc)
  ultimately show ?thesis using q old by (auto simp: indexed_def p1)
qed

lemma index_groups:
  assumes "groups_ok gs" "gs = [] \<or> tmp \<noteq> fst (hd gs)"
    "length (pd_start p) = C + length gs" "length (pd_end p) = C + length gs" "length (pd_cur p) = C + length gs"
  shows "\<exists>q. index_keys (flat gs) i (int C - 1) (Some tmp) p = Inr (int (C + length gs) - 1, q) \<and> indexed C i gs p q"
  using assms
proof (induction gs arbitrary: i C tmp p)
  case Nil
  then show ?case by (simp add: indexed_def)
next
  case (Cons g gs)
  obtain k vs where g: "g = (k, vs)" by (cases g)
  then obtain v ws where vs: "vs = v # ws" using Cons.prems(1) by (cases vs) (auto simp: groups_ok_Cons)
  define p1 where "p1 = p\<lparr>pd_end := (if 0 < C then (pd_end p)[C - 1 := Some i] else pd_end p), pd_start := (pd_start p)[C := Some i],
       pd_m := map_put k (int C) (pd_m p), pd_cur := (pd_cur p)[C := Some i]\<rparr>"
  have len: "C < length (pd_start p)" "C < length (pd_end p)" "C < length (pd_cur p)" using Cons.prems by simp_all
  have nC: "nat (int C - 1) = C - 1" "C - Suc 0 < length (pd_end p)" using len(2) by linarith+
  have "strcmp k tmp \<noteq> 0" using Cons.prems(2) g by simp
  then have "index_keys (flat (g # gs)) i (int C - 1) (Some tmp) p = index_keys (map (Pair k) ws @ flat gs) (Suc i) (int C) (Some k) p1"
    using len unfolding g vs by (cases "0 < C") (simp_all add: nC arr_set_def p1_def map_put_def)
  then have run: "index_keys (flat (g # gs)) i (int C - 1) (Some tmp) p = index_keys (flat gs) (i + length vs) (int (Suc C) - 1) (Some k) p1"
    by (simp add: index_same vs)
  have "gs = [] \<or> k \<noteq> fst (hd gs)" using Cons.prems(1) g by (cases gs) (auto simp: groups_ok_Cons)
  moreover have "length (pd_start p1) = Suc C + length gs" "length (pd_end p1) = Suc C + length gs" "length (pd_cur p1) = Suc C + length gs"
    using Cons.prems by (simp_all add: p1_def)
  ultimately obtain q where q: "index_keys (flat gs) (i + length vs) (int (Suc C) - 1) (Some k) p1 = Inr (int (Suc C + length gs) - 1, q)"
    "indexed (Suc C) (i + length vs) gs p1 q"
    using Cons.IH [of k p1 "Suc C" "i + length vs"] Cons.prems(1) g by (auto simp: groups_ok_Cons)
  from indexed_step [OF q(2) len p1_def] q(1) run g show ?case by auto
qed

section \<open>A sorted and indexed partition\<close>

definition grouped :: "partition_data \<Rightarrow> groups \<Rightarrow> bool" where
  "grouped p gs \<longleftrightarrow> groups_ok gs \<and> (\<exists>rest. pd_list p = map Some (flat gs) @ rest) \<and> pd_num_keys p = length gs \<and>
     length (pd_start p) = length gs \<and> length (pd_end p) = length gs \<and> length (pd_cur p) = length gs \<and>
     (\<forall>j < length gs. pd_start p ! j = Some (off gs j) \<and> pd_end p ! j = Some (off gs (Suc j)) \<and>
        map_get (pd_m p) (fst (gs ! j)) = Some (int j))"

definition qsort_ok :: "(kv list \<Rightarrow> kv list) \<Rightarrow> bool" where
  "qsort_ok q \<longleftrightarrow> (\<forall>xs. mset (q xs) = mset xs \<and> sorted_wrt (\<lambda>a b. kv_pair_comparator a b \<le> 0) (q xs))"

lemma map_of_zip_nth: "distinct xs \<Longrightarrow> length xs = length ys \<Longrightarrow> j < length xs \<Longrightarrow> map_of (zip xs ys) (xs ! j) = Some (ys ! j)"
  by (rule map_of_is_SomeI) (auto simp: in_set_zip)

lemma sort_partition_ok:
  assumes inv: "part_inv p" and qs: "qsort_ok qs" and gs: "qs (pairs p) = flat gs" "groups_ok gs"
    and n: "length gs \<noteq> 1" "length (pairs p) < 2 ^ 31"
  shows "\<exists>q. sort_partition qs p = Inr q \<and> grouped q gs \<and> pd_cur q = map (\<lambda>j. Some (off gs j)) [0..<length gs] \<and> pd_sent q = pd_sent p"
proof -
  let ?kvs = "flat gs" and ?N = "length gs"
  have lp: "length (pairs p) = pd_next p" using inv by (auto simp: pairs_def part_inv_def)
  have len: "length ?kvs = pd_next p" using qs gs(1) lp by (metis qsort_ok_def size_mset)
  obtain nk tmp where ct: "count_keys ?kvs None = (nk, tmp)" by fastforce
  then have nk: "nk = ?N" "tmp = (if gs = [] then None else Some (fst (last gs)))"
    using count_keys_groups [OF gs(2), of None] by simp_all
  define p1 where "p1 = p\<lparr>pd_list := map Some ?kvs @ drop (pd_next p) (pd_list p), pd_num_keys := ?N, pd_start := replicate ?N None,
    pd_end := replicate ?N None, pd_cur := replicate ?N None, pd_m := map_init\<rparr>"
  have sp: "sort_partition qs p = rbind (index_keys ?kvs 0 (- 1) tmp p1) (\<lambda>(cur, p).
         rbind (if cur \<noteq> - 1 then arr_set (pd_end p) (nat cur) (pd_next p) else Inr (pd_end p)) (\<lambda>en.
           Inr (p\<lparr>pd_end := en, pd_cur_key := 0\<rparr>)))"
    using gs(1) ct nk(1) by (simp add: sort_partition_def pairs_def [symmetric] p1_def)
  show ?thesis
  proof (cases "gs = []")
    case True
    then show ?thesis using sp nk by (simp add: grouped_def groups_ok_def p1_def)
  next
    case False
    have hl: "fst (last gs) \<noteq> fst (hd gs)"
    proof -
      obtain a b hs where "gs = a # b # hs" using False n(1) by (cases gs rule: remdups_adj.cases) auto
      then have "last gs \<in> set (b # hs)" "hd gs = a" "fst a \<notin> fst ` set (b # hs)" using gs(2) by (simp_all add: groups_ok_def)
      then show ?thesis by (metis imageI)
    qed
    have "length (pd_start p1) = 0 + ?N" "length (pd_end p1) = 0 + ?N" "length (pd_cur p1) = 0 + ?N" by (simp_all add: p1_def)
    from index_groups [OF gs(2) _ this, of "fst (last gs)" 0] hl False obtain q
      where q: "index_keys ?kvs 0 (- 1) tmp p1 = Inr (int ?N - 1, q)" "indexed 0 0 gs p1 q" by (auto simp: nk)
    let ?q = "q\<lparr>pd_end := (pd_end q)[?N - 1 := Some (pd_next q)], pd_cur_key := 0\<rparr>"
    have le: "length (pd_end q) = ?N" "pd_next q = pd_next p" using q(2) by (simp_all add: indexed_def p1_def)
    have N: "0 < ?N" "nat (int ?N - 1) = ?N - 1" using False by auto
    then have run: "sort_partition qs p = Inr ?q" using sp q(1) le(1) by (simp add: arr_set_def)
    have en: "pd_end ?q ! j = Some (off gs (Suc j))" if j: "j < ?N" for j
    proof (cases "Suc j = ?N")
      case True
      then have "?N - 1 = j" by simp
      then show ?thesis using le len off_all [of gs] j True by simp
    next
      case False
      then have "Suc j < ?N" using j by simp
      then have "pd_end q ! j = Some (off gs (Suc j))" using q(2) unfolding indexed_def
        by (metis add_0 diff_Suc_1 zero_less_Suc)
      then show ?thesis using False j by simp
    qed
    have fs: "pd_m q = hm.fill (zip (map fst gs) (map int [0..<?N])) map_init" using q(2) by (simp add: indexed_def p1_def)
    have "map fst (zip (map fst gs) (map int [0..<?N])) = map fst gs" by simp
    moreover have "length (zip (map fst gs) (map int [0..<?N])) < 2 ^ 31"
    proof -
      have "length gs \<le> length (flat gs)" using gs(2) 
      proof (induction gs)
        case (Cons g gs)
        then show ?case by (cases g; cases "snd g") (auto simp: groups_ok_Cons)
      qed simp
      then show ?thesis using len lp n(2) by simp
    qed
    ultimately have "map_get (pd_m q) k = map_of (zip (map fst gs) (map int [0..<?N])) k" for k
      using hm.fill_distinct [of "zip (map fst gs) (map int [0..<?N])" k] gs(2) fs by (simp add: groups_ok_def)
    then have gt: "map_get (pd_m q) (fst (gs ! j)) = Some (int j)" if "j < ?N" for j
      using map_of_zip_nth [of "map fst gs" "map int [0..<?N]" j] that gs(2) by (simp add: groups_ok_def)
    have st: "pd_start q ! j = Some (off gs j)" "pd_cur q ! j = Some (off gs j)" if "j < ?N" for j
      using q(2) that unfolding indexed_def by (metis add_0)+
    have "pd_cur ?q = map (\<lambda>j. Some (off gs j)) [0..<?N]"
      by (rule nth_equalityI) (use q(2) st in \<open>simp_all add: indexed_def p1_def\<close>)
    moreover have "grouped ?q gs"
      using gs(2) q(2) en st gt by (simp add: grouped_def indexed_def p1_def)
    ultimately show ?thesis using run q(2) by (auto simp: indexed_def p1_def)
  qed
qed

section \<open>Reading the values of a key\<close>

lemma grouped_cur:
  "grouped p gs \<Longrightarrow> length cu = length gs \<Longrightarrow> grouped (p\<lparr>pd_cur := cu\<rparr>) gs"
  "grouped p gs \<Longrightarrow> grouped (p\<lparr>pd_sent := n\<rparr>) gs"
  by (simp_all add: grouped_def)

text \<open>\<open>Get\<close> returns the values of the key one by one, then \<open>NULL\<close>.\<close>

lemma Get_next:
  assumes g: "grouped p gs" and j: "j < length gs" and c: "pd_cur p ! j = Some (off gs j + d)"
    and d: "d \<le> length (snd (gs ! j))"
  shows "Get (fst (gs ! j)) p =
    (if d < length (snd (gs ! j))
     then Inr (Some (snd (gs ! j) ! d), p\<lparr>pd_cur := (pd_cur p)[j := Some (off gs j + Suc d)]\<rparr>)
     else Inr (None, p))"
proof -
  obtain rest where pl: "pd_list p = map Some (flat gs) @ rest" using g by (auto simp: grouped_def)
  have k: "map_get (pd_m p) (fst (gs ! j)) = Some (int j)" "pd_end p ! j = Some (off gs (Suc j))"
    "j < length (pd_cur p)" "j < length (pd_end p)" using g j by (simp_all add: grouped_def)
  note e = off_Suc [OF j]
  show ?thesis
  proof (cases "d < length (snd (gs ! j))")
    case True
    have "pd_list p ! (off gs j + d) = Some (fst (gs ! j), snd (gs ! j) ! d)" "off gs j + d < length (pd_list p)"
      using off_bound [OF j True] flat_nth [OF j True] pl by (simp_all add: nth_append)
    then show ?thesis using True k c e by (simp add: Get_def arr_get_def arr_set_def)
  next
    case False
    then show ?thesis using k c e by (simp add: Get_def arr_get_def)
  qed
qed

lemma get_all_from:
  assumes "grouped p gs" "j < length gs" "pd_cur p ! j = Some (off gs j + d)" "d \<le> length (snd (gs ! j))"
  shows "get_all (fst (gs ! j)) p =
    Some (Inr (drop d (snd (gs ! j)), p\<lparr>pd_cur := (pd_cur p)[j := Some (off gs (Suc j))]\<rparr>))"
  using assms
proof (induction "length (snd (gs ! j)) - d" arbitrary: d p)
  case 0
  then have d: "d = length (snd (gs ! j))" by simp
  have "(pd_cur p)[j := Some (off gs (Suc j))] = pd_cur p"
    using 0(4) off_Suc [OF 0(3)] d by (metis list_update_id)
  then show ?case using Get_next [OF 0(2-5)] d by (subst get_all.simps) simp
next
  case (Suc n)
  then have lt: "d < length (snd (gs ! j))" by simp
  let ?p = "p\<lparr>pd_cur := (pd_cur p)[j := Some (off gs j + Suc d)]\<rparr>"
  have len: "length (pd_cur p) = length gs" using Suc.prems(1) by (simp add: grouped_def)
  have "grouped ?p gs" using grouped_cur(1) [OF Suc.prems(1)] len by simp
  moreover have "pd_cur ?p ! j = Some (off gs j + Suc d)" using Suc.prems(2) len by simp
  ultimately have "get_all (fst (gs ! j)) ?p =
      Some (Inr (drop (Suc d) (snd (gs ! j)), ?p\<lparr>pd_cur := (pd_cur ?p)[j := Some (off gs (Suc j))]\<rparr>))"
    using Suc.hyps(1) [of "Suc d" ?p] Suc.hyps(2) Suc.prems(2) lt by auto
  then show ?case using Get_next [OF Suc.prems] lt
    by (subst get_all.simps) (simp add: Cons_nth_drop_Suc)
qed

lemma reduce_keys_ok:
  assumes "grouped p gs" "\<forall>i \<in> set is. i < length gs \<and> pd_cur p ! i = Some (off gs i)" "distinct is"
  shows "\<exists>q. reduce_keys is p = Inr (map (\<lambda>i. gs ! i) is, q) \<and> pd_sent q = pd_sent p + length is \<and> pd_num_keys q = pd_num_keys p"
  using assms
proof (induction "is" arbitrary: p)
  case (Cons i "is")
  have i: "i < length gs" "pd_cur p ! i = Some (off gs i + 0)" using Cons.prems(2) by simp_all
  obtain rest where pl: "pd_list p = map Some (flat gs) @ rest" using Cons.prems(1) by (auto simp: grouped_def)
  have st: "pd_start p ! i = Some (off gs i)" "i < length (pd_start p)" "length (pd_cur p) = length gs"
    using Cons.prems(1) i(1) by (simp_all add: grouped_def)
  have "snd (gs ! i) \<noteq> []" using Cons.prems(1) i(1) by (simp add: grouped_def groups_ok_def)
  then have z: "0 < length (snd (gs ! i))" by simp
  have ls: "arr_get (pd_list p) (off gs i) = Inr (fst (gs ! i), snd (gs ! i) ! 0)"
    using off_bound [OF i(1) z] flat_nth [OF i(1) z] pl by (simp add: arr_get_def nth_append)
  let ?q = "p\<lparr>pd_cur := (pd_cur p)[i := Some (off gs (Suc i))]\<rparr>"
  let ?r = "?q\<lparr>pd_sent := pd_sent p + 1\<rparr>"
  have ga: "get_all (fst (gs ! i)) p = Some (Inr (snd (gs ! i), ?q))"
    using get_all_from [OF Cons.prems(1) i] by simp
  have "grouped ?r gs" using grouped_cur [OF Cons.prems(1)] grouped_cur(2) st(3) by simp
  moreover have "\<forall>k \<in> set is. k < length gs \<and> pd_cur ?r ! k = Some (off gs k)"
  proof
    fix k assume "k \<in> set is"
    moreover from this have "k \<noteq> i" using Cons.prems(3) by auto
    ultimately show "k < length gs \<and> pd_cur ?r ! k = Some (off gs k)" using Cons.prems(2) by simp
  qed
  ultimately obtain t where t: "reduce_keys is ?r = Inr (map (\<lambda>i. gs ! i) is, t)" "pd_sent t = pd_sent ?r + length is"
    "pd_num_keys t = pd_num_keys ?r" using Cons.IH [of ?r] Cons.prems(3) by auto
  have "reduce_keys (i # is) p = Inr (gs ! i # map (\<lambda>i. gs ! i) is, t)"
    using st ls ga t(1) by (simp add: arr_get_def)
  then show ?case using t by simp
qed simp

lemma reduce_partition_ok:
  assumes inv: "part_inv p" and qs: "qsort_ok qs" and n: "card (fst ` set (pairs p)) \<noteq> 1" "length (pairs p) < 2 ^ 31"
  shows "\<exists>gs q. reduce_partition qs p = Inr (gs, q) \<and> sorted_wrt (\<lambda>a b. strcmp a b < 0) (map fst gs) \<and>
     fst ` set gs = fst ` set (pairs p) \<and>
     (\<forall>(k, vs) \<in> set gs. mset vs = mset (map snd (filter (\<lambda>kv. fst kv = k) (pairs p)))) \<and> pd_sent p < pd_sent q"
proof -
  let ?s = "qs (pairs p)"
  have ms: "mset ?s = mset (pairs p)" "sorted_wrt (\<lambda>a b. kv_pair_comparator a b \<le> 0) ?s" using qs by (simp_all add: qsort_ok_def)
  from sorted_groups [OF ms(2)] obtain gs where gs: "?s = flat gs" "sorted_wrt (\<lambda>a b. strcmp a b < 0) (map fst gs)" "groups_ok gs" by blast
  have st: "set ?s = set (pairs p)" using ms(1) by (metis set_mset_mset)
  have "fst ` set (flat hs) = fst ` set hs" if "groups_ok hs" for hs
    using that
  proof (induction hs)
    case (Cons h hs)
    then show ?case by (cases h) (simp add: groups_ok_Cons image_Un image_image image_constant_conv)
  qed simp
  from this [OF gs(3)] have "fst ` set (flat gs) = fst ` set gs" .
  then have keys: "fst ` set gs = fst ` set (pairs p)" using st gs(1) by metis
  have "card (fst ` set gs) = length gs" using gs(3) distinct_card [of "map fst gs"] by (simp add: groups_ok_def)
  then have "length gs \<noteq> 1" using keys n(1) by simp
  from sort_partition_ok [OF inv qs gs(1,3) this n(2)] obtain q where
    q: "sort_partition qs p = Inr q" "grouped q gs" "pd_cur q = map (\<lambda>j. Some (off gs j)) [0..<length gs]" "pd_sent q = pd_sent p" by blast
  have nk: "pd_num_keys q = length gs" using q(2) by (simp add: grouped_def)
  have "\<forall>i \<in> set [0..<length gs]. i < length gs \<and> pd_cur q ! i = Some (off gs i)" using q(3) by simp
  from reduce_keys_ok [OF q(2) this] obtain t where
    t: "reduce_keys [0..<length gs] q = Inr (map (\<lambda>i. gs ! i) [0..<length gs], t)" "pd_sent t = pd_sent q + length gs" "pd_num_keys t = length gs"
    using nk by auto
  have "reduce_partition qs p = Inr (gs, if pd_num_keys t = 0 then t\<lparr>pd_sent := pd_sent t + 1\<rparr> else t)"
    using q(1) t(1) nk by (simp add: reduce_partition_def map_nth)
  moreover have "\<forall>(k, vs) \<in> set gs. mset vs = mset (map snd (filter (\<lambda>kv. fst kv = k) (pairs p)))"
  proof safe
    fix k vs assume "(k, vs) \<in> set gs"
    from groups_values [OF gs(3) this] have "vs = map snd (filter (\<lambda>kv. fst kv = k) ?s)" using gs(1) by simp
    then show "mset vs = mset (map snd (filter (\<lambda>kv. fst kv = k) (pairs p)))" using ms(1) by (simp add: mset_filter)
  qed
  moreover have "pd_sent p < pd_sent (if pd_num_keys t = 0 then t\<lparr>pd_sent := pd_sent t + 1\<rparr> else t)"
    using t(2,3) q(4) by simp
  ultimately show ?thesis using gs(2) keys by blast
qed

text \<open>The second loop of \<open>sort_partition\<close> finds no key when there is exactly one.\<close>

lemma index_all_same: "\<forall>kv \<in> set kvs. fst kv = k \<Longrightarrow> index_keys kvs i c (Some k) p = Inr (c, p)"
  by (induction kvs arbitrary: i) auto

lemma count_all_same: "\<forall>kv \<in> set kvs. fst kv = k \<Longrightarrow> count_keys kvs (Some k) = (0, Some k)"
  by (induction kvs) auto

lemma reduce_partition_single:
  assumes qs: "qsort_ok qs" and n: "fst ` set (pairs p) = {k}"
  shows "reduce_partition qs p = Inl (Undefined ''uninitialised'')"
proof -
  let ?s = "qs (pairs p)"
  have "mset ?s = mset (pairs p)" using qs by (simp add: qsort_ok_def)
  then have "set ?s = set (pairs p)" by (metis set_mset_mset)
  then have all: "fst ` set ?s = {k}" using n by simp
  then obtain kv kvs where s: "?s = kv # kvs" by (cases ?s) auto
  have k: "fst kv = k" "\<forall>kv \<in> set kvs. fst kv = k" using all s by auto
  then have ct: "count_keys ?s None = (1, Some k)" unfolding s by (simp add: count_all_same)
  define p1 where "p1 = p\<lparr>pd_list := map Some ?s @ drop (pd_next p) (pd_list p), pd_num_keys := 1, pd_start := replicate 1 None,
    pd_end := replicate 1 None, pd_cur := replicate 1 None, pd_m := map_init\<rparr>"
  have "index_keys ?s 0 (- 1) (Some k) p1 = Inr (- 1, p1)" using index_all_same [of ?s k] k s by simp
  then have "sort_partition qs p = Inr (p1\<lparr>pd_cur_key := 0\<rparr>)"
    using ct unfolding sort_partition_def pairs_def [symmetric] by (simp add: p1_def)
  then show ?thesis by (simp add: reduce_partition_def arr_get_def p1_def)
qed

end
