(* ===== verification/MapReduceThreads.thy ===== *)
theory MapReduceThreads
  imports MapReduceProps
begin

text \<open>
  The threads of \<open>MR_Run\<close> (\<open>map_control\<close>, \<open>reduce_controller\<close>) as step relations. A step is what a
  thread does under one lock, or between two of its synchronisation points.
\<close>

section \<open>Mappers\<close>

text \<open>
  A mapper takes the next input (\<open>my_arg_next\<close>, under its lock), then emits the pairs of that input
  one by one (each emission under the lock of its partition). \<open>files\<close> is what the mapper function
  emits for each input.
\<close>

datatype mpc = MLoop | MRun "kv list" | MDone

record mr_state =
  mr_idx :: nat
  mr_mappers :: "mpc list"
  mr_parts :: "partition_data list"

inductive map_step :: "(string \<Rightarrow> int \<Rightarrow> u64 res) \<Rightarrow> kv list list \<Rightarrow> mr_state \<Rightarrow> mr_state \<Rightarrow> bool"
  for partitioner :: "string \<Rightarrow> int \<Rightarrow> u64 res" and files :: "kv list list" where
  take_input: "i < length (mr_mappers s) \<Longrightarrow> mr_mappers s ! i = MLoop \<Longrightarrow> mr_idx s < length files \<Longrightarrow>
    map_step partitioner files s
      (s\<lparr>mr_idx := mr_idx s + 1, mr_mappers := (mr_mappers s)[i := MRun (files ! mr_idx s)]\<rparr>)"
| no_input: "i < length (mr_mappers s) \<Longrightarrow> mr_mappers s ! i = MLoop \<Longrightarrow> length files \<le> mr_idx s \<Longrightarrow>
    map_step partitioner files s (s\<lparr>mr_idx := mr_idx s + 1, mr_mappers := (mr_mappers s)[i := MDone]\<rparr>)"
| emit: "i < length (mr_mappers s) \<Longrightarrow> mr_mappers s ! i = MRun ((k, v) # rest) \<Longrightarrow>
    MR_Emit partitioner k v (mr_parts s) = Inr ps \<Longrightarrow>
    map_step partitioner files s (s\<lparr>mr_mappers := (mr_mappers s)[i := MRun rest], mr_parts := ps\<rparr>)"
| input_done: "i < length (mr_mappers s) \<Longrightarrow> mr_mappers s ! i = MRun [] \<Longrightarrow>
    map_step partitioner files s (s\<lparr>mr_mappers := (mr_mappers s)[i := MLoop]\<rparr>)"

text \<open>\<open>MR_Run\<close> up to the creation of the mappers.\<close>

definition mr_start :: "nat \<Rightarrow> nat \<Rightarrow> mr_state" where
  "mr_start num_mappers num_partitions =
     \<lparr>mr_idx = 0, mr_mappers = replicate num_mappers MLoop, mr_parts = init_partition_list num_partitions\<rparr>"

text \<open>All mappers joined.\<close>

definition mapped :: "(string \<Rightarrow> int \<Rightarrow> u64 res) \<Rightarrow> kv list list \<Rightarrow> nat \<Rightarrow> nat \<Rightarrow> mr_state \<Rightarrow> bool" where
  "mapped partitioner files num_mappers num_partitions s \<longleftrightarrow>
     (map_step partitioner files)\<^sup>*\<^sup>* (mr_start num_mappers num_partitions) s \<and> (\<forall>m \<in> set (mr_mappers s). m = MDone)"

section \<open>Reducers\<close>

text \<open>
  The control of \<open>reduce_controller\<close>: take the next partition, sort it, wait until the partition
  before it was sent, then call the reducer for each of its \<open>nk p\<close> keys and post after each call,
  or once when there is no key. \<open>rs_log\<close> records the partitions in the order in which their
  reduction begins.
\<close>

datatype rpc = RLoop | RSort nat | RWait nat | RKeys nat nat | RDone

record red_state =
  rs_cur :: nat
  rs_pc :: "nat \<Rightarrow> rpc"
  rs_sem :: "nat \<Rightarrow> nat"
  rs_log :: "nat list"

inductive red_step :: "nat \<Rightarrow> nat \<Rightarrow> (nat \<Rightarrow> nat) \<Rightarrow> red_state \<Rightarrow> red_state \<Rightarrow> bool"
  for T :: nat and n :: nat and nk :: "nat \<Rightarrow> nat" where
  take_part: "i < T \<Longrightarrow> rs_pc s i = RLoop \<Longrightarrow> rs_cur s < n \<Longrightarrow>
    red_step T n nk s (s\<lparr>rs_cur := rs_cur s + 1, rs_pc := (rs_pc s)(i := RSort (rs_cur s))\<rparr>)"
| no_part: "i < T \<Longrightarrow> rs_pc s i = RLoop \<Longrightarrow> n \<le> rs_cur s \<Longrightarrow>
    red_step T n nk s (s\<lparr>rs_pc := (rs_pc s)(i := RDone)\<rparr>)"
| sorted_first: "i < T \<Longrightarrow> rs_pc s i = RSort 0 \<Longrightarrow>
    red_step T n nk s (s\<lparr>rs_pc := (rs_pc s)(i := RKeys 0 0), rs_log := rs_log s @ [0]\<rparr>)"
| sorted_next: "i < T \<Longrightarrow> rs_pc s i = RSort (Suc p) \<Longrightarrow>
    red_step T n nk s (s\<lparr>rs_pc := (rs_pc s)(i := RWait (Suc p))\<rparr>)"
| waited: "i < T \<Longrightarrow> rs_pc s i = RWait (Suc p) \<Longrightarrow> 0 < rs_sem s p \<Longrightarrow>
    red_step T n nk s (s\<lparr>rs_sem := (rs_sem s)(p := rs_sem s p - 1), rs_pc := (rs_pc s)(i := RKeys (Suc p) 0),
      rs_log := rs_log s @ [Suc p]\<rparr>)"
| next_key: "i < T \<Longrightarrow> rs_pc s i = RKeys p k \<Longrightarrow> k < nk p \<Longrightarrow>
    red_step T n nk s (s\<lparr>rs_sem := (rs_sem s)(p := rs_sem s p + 1), rs_pc := (rs_pc s)(i := RKeys p (Suc k))\<rparr>)"
| keys_done: "i < T \<Longrightarrow> rs_pc s i = RKeys p k \<Longrightarrow> nk p \<le> k \<Longrightarrow>
    red_step T n nk s (s\<lparr>rs_sem := (if nk p = 0 then (rs_sem s)(p := rs_sem s p + 1) else rs_sem s),
      rs_pc := (rs_pc s)(i := RLoop)\<rparr>)"

definition red_start :: red_state where
  "red_start = \<lparr>rs_cur = 0, rs_pc = (\<lambda>_. RLoop), rs_sem = (\<lambda>_. 0), rs_log = []\<rparr>"

section \<open>Every pair arrives in its partition\<close>

fun left_to_emit :: "mpc \<Rightarrow> kv list" where
  "left_to_emit (MRun kvs) = kvs"
| "left_to_emit _ = []"

definition in_flight :: "kv list list \<Rightarrow> mr_state \<Rightarrow> kv multiset" where
  "in_flight files s = mset (concat (map pairs (mr_parts s))) + mset (concat (map left_to_emit (mr_mappers s))) +
     mset (concat (drop (mr_idx s) files))"

definition map_state_inv :: "(string \<Rightarrow> int \<Rightarrow> u64 res) \<Rightarrow> kv list list \<Rightarrow> nat \<Rightarrow> nat \<Rightarrow> mr_state \<Rightarrow> bool" where
  "map_state_inv part files nm n s \<longleftrightarrow> length (mr_parts s) = n \<and> length (mr_mappers s) = nm \<and>
     (\<forall>p < n. part_inv (mr_parts s ! p) \<and> (\<forall>kv \<in> set (pairs (mr_parts s ! p)). \<exists>w. part (fst kv) (int n) = Inr w \<and> unat w = p)) \<and>
     in_flight files s = mset (concat files) \<and> (MDone \<in> set (mr_mappers s) \<longrightarrow> length files \<le> mr_idx s)"

lemma mapper_update:
  assumes "i < length ms"
  shows "mset (concat (map left_to_emit (ms[i := m]))) + mset (left_to_emit (ms ! i)) =
    mset (concat (map left_to_emit ms)) + mset (left_to_emit m)"
  using mset_concat_update [of i "map left_to_emit ms" "left_to_emit m"] assms by (simp add: map_update)

lemma emit_ok:
  assumes "MR_Emit part k v ps = Inr qs" "\<forall>p < length ps. part_inv (ps ! p)"
  obtains w q where "part k (int (length ps)) = Inr w" "unat w < length ps" "qs = ps[unat w := q]" "part_inv q"
    "pairs q = pairs (ps ! unat w) @ [(k, v)]"
proof -
  from assms(1) obtain w where w: "part k (int (length ps)) = Inr w" "unat w < length ps"
    "rbind (emit_pair (k, v) (ps ! unat w)) (\<lambda>p. Inr (ps[unat w := p])) = Inr qs"
    by (auto simp: MR_Emit_def rbind_eq_Inr split: if_splits)
  from emit_pair_ok [of "ps ! unat w" "(k, v)"] assms(2) w(2) obtain q where
    q: "emit_pair (k, v) (ps ! unat w) = Inr q" "part_inv q" "pairs q = pairs (ps ! unat w) @ [(k, v)]" by blast
  have "qs = ps[unat w := q]" using w(3) q(1) by simp
  from that [OF w(1,2) this q(2,3)] show thesis .
qed

lemma map_step_inv:
  assumes "map_step part files s t" "map_state_inv part files nm n s"
  shows "map_state_inv part files nm n t"
  using assms
proof (cases rule: map_step.cases)
  case (take_input i)
  have "drop (mr_idx s) files = files ! mr_idx s # drop (Suc (mr_idx s)) files" using take_input(4) by (simp add: Cons_nth_drop_Suc)
  then have "mset (concat (drop (mr_idx s) files)) = mset (files ! mr_idx s) + mset (concat (drop (Suc (mr_idx s)) files))" by simp
  then have "in_flight files t = in_flight files s"
    using take_input mapper_update [of i "mr_mappers s" "MRun (files ! mr_idx s)"] by (simp add: in_flight_def)
  moreover have "MDone \<in> set (mr_mappers t) \<longrightarrow> MDone \<in> set (mr_mappers s)"
    using take_input set_update_subset_insert [of "mr_mappers s" i "MRun (files ! mr_idx s)"] by auto
  ultimately show ?thesis using assms(2) take_input by (auto simp: map_state_inv_def)
next
  case (no_input i)
  have "in_flight files t = in_flight files s"
    using no_input mapper_update [of i "mr_mappers s" MDone] by (simp add: in_flight_def)
  then show ?thesis using assms(2) no_input by (auto simp: map_state_inv_def)
next
  case (input_done i)
  have "in_flight files t = in_flight files s"
    using input_done mapper_update [of i "mr_mappers s" MLoop] by (simp add: in_flight_def)
  moreover have "MDone \<in> set (mr_mappers t) \<longrightarrow> MDone \<in> set (mr_mappers s)"
    using input_done set_update_subset_insert [of "mr_mappers s" i MLoop] by auto
  ultimately show ?thesis using assms(2) input_done by (auto simp: map_state_inv_def)
next
  case (emit i k v rest ps)
  have n: "length (mr_parts s) = n" and pi: "\<forall>p < length (mr_parts s). part_inv (mr_parts s ! p)"
    using assms(2) by (simp_all add: map_state_inv_def)
  from emit_ok [OF emit(4) pi] obtain w q where w: "part k (int (length (mr_parts s))) = Inr w" "unat w < length (mr_parts s)"
    "ps = (mr_parts s)[unat w := q]" "part_inv q" "pairs q = pairs (mr_parts s ! unat w) @ [(k, v)]" by blast
  have "mset (concat (map pairs ps)) = add_mset (k, v) (mset (concat (map pairs (mr_parts s))))"
    using mset_concat_update [of "unat w" "map pairs (mr_parts s)" "pairs q"] w by (simp add: map_update)
  moreover have "add_mset (k, v) (mset (concat (map left_to_emit ((mr_mappers s)[i := MRun rest])))) =
      mset (concat (map left_to_emit (mr_mappers s)))"
    using mapper_update [OF emit(2), of "MRun rest"] emit(3) by simp
  ultimately have "in_flight files t = in_flight files s" using emit(1) by (simp add: in_flight_def)
  moreover have "MDone \<in> set (mr_mappers t) \<longrightarrow> MDone \<in> set (mr_mappers s)"
    using emit(1) set_update_subset_insert [of "mr_mappers s" i "MRun rest"] by auto
  moreover have "part_inv (ps ! p) \<and> (\<forall>kv \<in> set (pairs (ps ! p)). \<exists>w. part (fst kv) (int n) = Inr w \<and> unat w = p)" if "p < n" for p
  proof (cases "p = unat w")
    case True
    then show ?thesis using assms(2) w n that by (simp add: map_state_inv_def)
  next
    case False
    then show ?thesis using assms(2) w(3) that by (simp add: map_state_inv_def)
  qed
  ultimately show ?thesis using assms(2) emit(1) w(3) by (simp add: map_state_inv_def)
qed

lemma map_start_inv: "map_state_inv part files nm n (mr_start nm n)"
proof -
  have "concat (map pairs (init_partition_list n)) = []"
    by (simp add: init_partition_list_def init_partition_ok)
  moreover have "concat (map left_to_emit (replicate nm MLoop)) = []" by simp
  ultimately show ?thesis
    by (simp add: map_state_inv_def mr_start_def in_flight_def init_partition_list_def init_partition_ok)
qed

lemma map_run_inv: "(map_step part files)\<^sup>*\<^sup>* (mr_start nm n) s \<Longrightarrow> map_state_inv part files nm n s"
  by (induction rule: rtranclp_induct) (use map_start_inv map_step_inv in blast)+

text \<open>The pairs with a given destination in the concatenation of all partitions.\<close>

lemma filter_parts:
  assumes "\<forall>p < length xs. \<forall>x \<in> set (xs ! p). d x = p" "p < length xs"
  shows "filter (\<lambda>x. d x = p) (concat xs) = xs ! p"
  using assms
proof (induction xs arbitrary: p d)
  case (Cons x xs)
  have h: "\<forall>q < length xs. \<forall>y \<in> set (xs ! q). d y = Suc q" "\<forall>y \<in> set x. d y = 0"
    using Cons.prems(1) by force+
  have rest: "filter (\<lambda>y. d y = 0) (concat xs) = []"
    using h(1) by (auto simp: filter_empty_conv in_set_conv_nth [of _ xs])
  show ?case
  proof (cases p)
    case 0
    then show ?thesis using h(2) rest by (simp add: filter_True)
  next
    case (Suc q)
    have "filter (\<lambda>y. d y - 1 = q) (concat xs) = xs ! q"
      using Cons.IH [of "\<lambda>y. d y - 1" q] h(1) Cons.prems(2) Suc by simp
    moreover have "filter (\<lambda>y. d y = Suc q) (concat xs) = filter (\<lambda>y. d y - 1 = q) (concat xs)"
      by (rule filter_cong) (use h(1) in \<open>auto simp: in_set_conv_nth [of _ xs]\<close>)
    moreover have "filter (\<lambda>y. d y = Suc q) x = []" using h(2) by (simp add: filter_empty_conv)
    ultimately show ?thesis using Suc by simp
  qed
qed simp

definition dest :: "(string \<Rightarrow> int \<Rightarrow> u64 res) \<Rightarrow> nat \<Rightarrow> kv \<Rightarrow> nat" where
  "dest part n kv = (case part (fst kv) (int n) of Inr w \<Rightarrow> unat w | Inl _ \<Rightarrow> n)"

lemma mapped_pairs:
  assumes "mapped part files nm n s" "0 < nm" "p < n"
  shows "part_inv (mr_parts s ! p)" "mset (pairs (mr_parts s ! p)) = mset (filter (\<lambda>kv. dest part n kv = p) (concat files))"
proof -
  have inv: "map_state_inv part files nm n s" and dn: "\<forall>m \<in> set (mr_mappers s). m = MDone"
    using assms(1) map_run_inv by (auto simp: mapped_def)
  show "part_inv (mr_parts s ! p)" using inv assms(3) by (simp add: map_state_inv_def)
  have "mr_mappers s \<noteq> []" using inv assms(2) by (auto simp: map_state_inv_def)
  then have "MDone \<in> set (mr_mappers s)" using dn by (cases "mr_mappers s") auto
  then have "length files \<le> mr_idx s" using inv by (simp add: map_state_inv_def)
  then have dz: "drop (mr_idx s) files = []" by simp
  have "left_to_emit m = []" if "m \<in> set (mr_mappers s)" for m using bspec [OF dn that] by simp
  then have lz: "concat (map left_to_emit (mr_mappers s)) = []" by simp
  have tot: "mset (concat (map pairs (mr_parts s))) = mset (concat files)"
    using inv unfolding map_state_inv_def in_flight_def lz dz by simp
  have "filter (\<lambda>kv. dest part n kv = p) (concat (map pairs (mr_parts s))) = map pairs (mr_parts s) ! p"
    by (rule filter_parts) (use inv assms(3) in \<open>force simp: map_state_inv_def dest_def\<close>)+
  then have "mset (pairs (mr_parts s ! p)) = filter_mset (\<lambda>kv. dest part n kv = p) (mset (concat (map pairs (mr_parts s))))"
    using inv assms(3) by (metis map_state_inv_def mset_filter nth_map)
  then show "mset (pairs (mr_parts s ! p)) = mset (filter (\<lambda>kv. dest part n kv = p) (concat files))"
    unfolding tot by simp
qed

section \<open>Partitions are sent in order, and no reducer waits forever\<close>

fun holds_part :: "rpc \<Rightarrow> nat option" where
  "holds_part (RSort p) = Some p"
| "holds_part (RWait p) = Some p"
| "holds_part (RKeys p k) = Some p"
| "holds_part _ = None"

fun begun :: "rpc \<Rightarrow> bool" where
  "begun (RKeys p k) = True"
| "begun _ = False"

text \<open>
  The partition of a thread was handed out and no other thread has it; it is in the log exactly
  when its keys are being reduced. The log is an initial segment. A partition whose successor has
  not begun has a post on its semaphore as soon as one was made.
\<close>

definition owners_inv :: "nat \<Rightarrow> red_state \<Rightarrow> bool" where
  "owners_inv T s \<longleftrightarrow>
     (\<forall>i < T. \<forall>p. holds_part (rs_pc s i) = Some p \<longrightarrow> p < rs_cur s \<and> (p < length (rs_log s) \<longleftrightarrow> begun (rs_pc s i))) \<and>
     (\<forall>i < T. \<forall>j < T. \<forall>p. holds_part (rs_pc s i) = Some p \<longrightarrow> holds_part (rs_pc s j) = Some p \<longrightarrow> i = j) \<and>
     (\<forall>p < rs_cur s. (\<exists>i < T. holds_part (rs_pc s i) = Some p) \<or> p < length (rs_log s)) \<and>
     length (rs_log s) \<le> rs_cur s \<and> (\<forall>i < T. rs_pc s i \<noteq> RWait 0)"

definition posts_inv :: "nat \<Rightarrow> red_state \<Rightarrow> bool" where
  "posts_inv T s \<longleftrightarrow> (\<forall>p. 0 < rs_sem s p \<longrightarrow> p < length (rs_log s)) \<and>
     (\<forall>p. Suc p = length (rs_log s) \<longrightarrow> 0 < rs_sem s p \<or> (\<exists>i < T. rs_pc s i = RKeys p 0))"

definition red_inv :: "nat \<Rightarrow> red_state \<Rightarrow> bool" where
  "red_inv T s \<longleftrightarrow> owners_inv T s \<and> posts_inv T s \<and> rs_log s = [0..<length (rs_log s)]"

lemma red_start_inv: "red_inv T red_start"
  by (simp add: red_inv_def red_start_def owners_inv_def posts_inv_def)

text \<open>A thread moves on with the same partition.\<close>

lemma owners_same:
  assumes "owners_inv T s" "i < T" "holds_part pc = holds_part (rs_pc s i)" "begun pc = begun (rs_pc s i)" "pc \<noteq> RWait 0"
    "rs_cur t = rs_cur s" "rs_log t = rs_log s" "rs_pc t = (rs_pc s)(i := pc)"
  shows "owners_inv T t"
proof -
  have h: "holds_part (rs_pc t j) = holds_part (rs_pc s j)" "begun (rs_pc t j) = begun (rs_pc s j)" for j
    using assms(3,4,8) by simp_all
  have "rs_pc t j \<noteq> RWait 0" if "j < T" for j using assms(1,5,8) that by (simp add: owners_inv_def)
  then show ?thesis using assms(1) unfolding owners_inv_def h assms(6,7) by blast
qed

text \<open>A thread begins the reduction of the next partition in order.\<close>

lemma owners_begin:
  assumes inv: "owners_inv T s" and i: "i < T" and h: "holds_part (rs_pc s i) = Some p" and p: "p = length (rs_log s)"
    and t: "rs_cur t = rs_cur s" "rs_log t = rs_log s @ [p]" "rs_pc t = (rs_pc s)(i := RKeys p 0)"
  shows "owners_inv T t"
proof -
  have hp: "holds_part (rs_pc t j) = holds_part (rs_pc s j)" for j using h t(3) by simp
  have L: "length (rs_log t) = Suc p" using t(2) p by simp
  have pc: "p < rs_cur s" using inv i h by (simp add: owners_inv_def)
  have uniq: "j = i" if "j < T" "holds_part (rs_pc s j) = Some p" for j
    using inv i h that unfolding owners_inv_def by blast
  have "q < rs_cur t \<and> (q < length (rs_log t) \<longleftrightarrow> begun (rs_pc t j))" if j: "j < T" "holds_part (rs_pc t j) = Some q" for j q
  proof (cases "j = i")
    case True
    then have "q = p" using j hp h by simp
    then show ?thesis using pc L True t by simp
  next
    case False
    then have "q \<noteq> p" using uniq [of j] j hp by auto
    moreover have "q < rs_cur s \<and> (q < length (rs_log s) \<longleftrightarrow> begun (rs_pc s j))"
      using inv j hp unfolding owners_inv_def by auto
    ultimately show ?thesis using L p t False by auto
  qed
  moreover have "(\<exists>j < T. holds_part (rs_pc t j) = Some q) \<or> q < length (rs_log t)" if "q < rs_cur t" for q
    using inv that t(1) p L unfolding owners_inv_def hp by (metis less_SucI)
  moreover have "\<forall>j < T. rs_pc t j \<noteq> RWait 0" using inv t(3) by (simp add: owners_inv_def)
  moreover have "\<forall>i < T. \<forall>j < T. \<forall>q. holds_part (rs_pc t i) = Some q \<longrightarrow> holds_part (rs_pc t j) = Some q \<longrightarrow> i = j"
    using inv unfolding hp owners_inv_def by blast
  ultimately show ?thesis using pc L t(1) unfolding owners_inv_def by simp
qed

text \<open>A thread gives its partition up, after its keys.\<close>

lemma owners_release:
  assumes inv: "owners_inv T s" and i: "i < T" and pc: "rs_pc s i = RKeys p k"
    and t: "rs_cur t = rs_cur s" "rs_log t = rs_log s" "rs_pc t = (rs_pc s)(i := RLoop)"
  shows "owners_inv T t"
proof -
  have hp: "holds_part (rs_pc t j) = (if j = i then None else holds_part (rs_pc s j))" for j using t(3) by simp
  have pl: "p < length (rs_log s)" using inv i pc unfolding owners_inv_def by fastforce
  have "(\<exists>j < T. holds_part (rs_pc t j) = Some q) \<or> q < length (rs_log t)" if "q < rs_cur t" for q
  proof (cases "q = p")
    case True
    then show ?thesis using pl t(2) by simp
  next
    case False
    have "(\<exists>j < T. holds_part (rs_pc s j) = Some q) \<or> q < length (rs_log s)"
      using inv that t(1) unfolding owners_inv_def by simp
    then show ?thesis
    proof
      assume "\<exists>j < T. holds_part (rs_pc s j) = Some q"
      then obtain j where "j < T" "holds_part (rs_pc s j) = Some q" by blast
      then show ?thesis using hp [of j] pc False by (cases "j = i") auto
    qed (use t(2) in simp)
  qed
  moreover have "q < rs_cur t \<and> (q < length (rs_log t) \<longleftrightarrow> begun (rs_pc t j))"
    if "j < T" "holds_part (rs_pc t j) = Some q" for j q
    using inv that t hp [of j] unfolding owners_inv_def by (auto split: if_splits)
  moreover have "\<forall>a < T. \<forall>b < T. \<forall>q. holds_part (rs_pc t a) = Some q \<longrightarrow> holds_part (rs_pc t b) = Some q \<longrightarrow> a = b"
    using inv unfolding hp owners_inv_def by (metis option.distinct(1))
  moreover have "\<forall>j < T. rs_pc t j \<noteq> RWait 0" "length (rs_log t) \<le> rs_cur t"
    using inv t by (simp_all add: owners_inv_def)
  ultimately show ?thesis unfolding owners_inv_def by blast
qed

text \<open>A thread takes the next partition.\<close>

lemma owners_take:
  assumes inv: "owners_inv T s" and i: "i < T" and pc: "rs_pc s i = RLoop"
    and t: "rs_cur t = Suc (rs_cur s)" "rs_log t = rs_log s" "rs_pc t = (rs_pc s)(i := RSort (rs_cur s))"
  shows "owners_inv T t"
proof -
  have hp: "holds_part (rs_pc t j) = (if j = i then Some (rs_cur s) else holds_part (rs_pc s j))" for j using t(3) by simp
  have old: "q < rs_cur s \<and> (q < length (rs_log s) \<longleftrightarrow> begun (rs_pc s j))" if "j < T" "holds_part (rs_pc s j) = Some q" for j q
    using inv that unfolding owners_inv_def by blast
  have L: "length (rs_log s) \<le> rs_cur s" using inv by (simp add: owners_inv_def)
  have "q < rs_cur t \<and> (q < length (rs_log t) \<longleftrightarrow> begun (rs_pc t j))"
    if j: "j < T" "holds_part (rs_pc t j) = Some q" for j q
    using old [of j q] hp [of j] j t L by (cases "j = i") auto
  moreover have "a = b" if "a < T" "b < T" "holds_part (rs_pc t a) = Some q" "holds_part (rs_pc t b) = Some q" for a b q
    using old [of a q] old [of b q] that hp [of a] hp [of b] inv unfolding owners_inv_def
    by (cases "a = i"; cases "b = i") auto
  moreover have "(\<exists>j < T. holds_part (rs_pc t j) = Some q) \<or> q < length (rs_log t)" if q: "q < rs_cur t" for q
  proof (cases "q = rs_cur s")
    case True
    then show ?thesis using hp [of i] i by auto
  next
    case False
    then have "(\<exists>j < T. holds_part (rs_pc s j) = Some q) \<or> q < length (rs_log s)"
      using inv q t(1) unfolding owners_inv_def by simp
    then show ?thesis
    proof
      assume "\<exists>j < T. holds_part (rs_pc s j) = Some q"
      then obtain j where "j < T" "holds_part (rs_pc s j) = Some q" by blast
      then show ?thesis using hp [of j] pc by (cases "j = i") auto
    qed (use t(2) in simp)
  qed
  moreover have "\<forall>j < T. rs_pc t j \<noteq> RWait 0" "length (rs_log t) \<le> rs_cur t"
    using inv t L by (simp_all add: owners_inv_def)
  ultimately show ?thesis unfolding owners_inv_def by blast
qed

lemma posts_same:
  assumes "posts_inv T s" "\<forall>q. rs_pc s i \<noteq> RKeys q 0" "rs_sem t = rs_sem s" "rs_log t = rs_log s" "rs_pc t = (rs_pc s)(i := pc)"
  shows "posts_inv T t"
  unfolding posts_inv_def
proof (intro conjI allI impI)
  fix q show "0 < rs_sem t q \<Longrightarrow> q < length (rs_log t)" using assms(1,3,4) by (simp add: posts_inv_def)
  assume "Suc q = length (rs_log t)"
  then have "0 < rs_sem s q \<or> (\<exists>j < T. rs_pc s j = RKeys q 0)" using assms(1,4) by (simp add: posts_inv_def)
  then show "0 < rs_sem t q \<or> (\<exists>i < T. rs_pc t i = RKeys q 0)"
  proof
    assume "\<exists>j < T. rs_pc s j = RKeys q 0"
    then obtain j where j: "j < T" "rs_pc s j = RKeys q 0" by blast
    then have "j \<noteq> i" using assms(2) by auto
    with j assms(5) show ?thesis by auto
  qed (use assms(3) in simp)
qed

lemma red_step_inv:
  assumes "red_step T n nk s t" "red_inv T s"
  shows "red_inv T t"
  using assms(1)
proof (cases rule: red_step.cases)
  case (take_part i)
  have "owners_inv T t" by (rule owners_take [where i = i and s = s]) (use take_part assms(2) in \<open>simp_all add: red_inv_def\<close>)
  moreover have "posts_inv T t" 
    by (rule posts_same [where i = i and s = s and pc = "RSort (rs_cur s)"]) (use take_part assms(2) in \<open>simp_all add: red_inv_def\<close>)
  ultimately show ?thesis using assms(2) take_part by (simp add: red_inv_def)
next
  case (no_part i)
  have "owners_inv T t" by (rule owners_same [where i = i and s = s and pc = RDone]) (use no_part assms(2) in \<open>simp_all add: red_inv_def\<close>)
  moreover have "posts_inv T t" 
    by (rule posts_same [where i = i and s = s and pc = "RDone"]) (use no_part assms(2) in \<open>simp_all add: red_inv_def\<close>)
  ultimately show ?thesis using assms(2) no_part by (simp add: red_inv_def)
next
  case (sorted_next i p)
  have "owners_inv T t" by (rule owners_same [where i = i and s = s and pc = "RWait (Suc p)"]) (use sorted_next assms(2) in \<open>simp_all add: red_inv_def\<close>)
  moreover have "posts_inv T t" 
    by (rule posts_same [where i = i and s = s and pc = "RWait (Suc p)"]) (use sorted_next assms(2) in \<open>simp_all add: red_inv_def\<close>)
  ultimately show ?thesis using assms(2) sorted_next by (simp add: red_inv_def)
next
  case (sorted_first i)
  have ow: "owners_inv T s" using assms(2) by (simp add: red_inv_def)
  have "\<not> 0 < length (rs_log s)" using ow sorted_first(2,3) unfolding owners_inv_def by fastforce
  then have L: "0 = length (rs_log s)" by simp
  have "owners_inv T t" by (rule owners_begin [OF ow, where i = i and p = 0]) (use sorted_first L in simp_all)
  moreover have "posts_inv T t" using assms(2) sorted_first L by (auto simp: red_inv_def posts_inv_def)
  moreover have "rs_log t = [0..<length (rs_log t)]" using sorted_first(1) L by simp
  ultimately show ?thesis by (simp add: red_inv_def)
next
  case (waited i p)
  have ow: "owners_inv T s" and po: "posts_inv T s" and lg: "rs_log s = [0..<length (rs_log s)]" using assms(2) by (simp_all add: red_inv_def)
  have "\<not> Suc p < length (rs_log s)" using ow waited(2,3) unfolding owners_inv_def by fastforce
  moreover have "p < length (rs_log s)" using po waited(4) by (simp add: posts_inv_def)
  ultimately have L: "Suc p = length (rs_log s)" by simp
  have "owners_inv T t" by (rule owners_begin [OF ow, where i = i and p = "Suc p"]) (use waited L in simp_all)
  moreover have "posts_inv T t" using po waited L by (auto simp: posts_inv_def less_Suc_eq)
  moreover have "rs_log t = [0..<length (rs_log t)]" using waited(1) L lg by (metis length_append_singleton red_state.simps(8) red_state.simps(4) upt_Suc_append zero_le red_state.select_convs(4) red_state.surjective red_state.update_convs(4))
  ultimately show ?thesis by (simp add: red_inv_def)
next
  case (next_key i p k)
  have ow: "owners_inv T s" and po: "posts_inv T s" using assms(2) by (simp_all add: red_inv_def)
  have pl: "p < length (rs_log s)" using ow next_key(2,3) unfolding owners_inv_def by fastforce
  have "owners_inv T t" by (rule owners_same [OF ow, where i = i and pc = "RKeys p (Suc k)"]) (use next_key in simp_all)
  moreover have "posts_inv T t" unfolding posts_inv_def
  proof (intro conjI allI impI)
    fix q show "0 < rs_sem t q \<Longrightarrow> q < length (rs_log t)"
      using po next_key(1) pl by (cases "q = p") (auto simp: posts_inv_def)
    assume q: "Suc q = length (rs_log t)"
    show "0 < rs_sem t q \<or> (\<exists>i < T. rs_pc t i = RKeys q 0)"
    proof (cases "q = p")
      case True
      then show ?thesis using next_key(1) by simp
    next
      case False
      have "0 < rs_sem s q \<or> (\<exists>j < T. rs_pc s j = RKeys q 0)" using po q next_key(1) by (simp add: posts_inv_def)
      then show ?thesis
      proof
        assume "\<exists>j < T. rs_pc s j = RKeys q 0"
        then obtain j where j: "j < T" "rs_pc s j = RKeys q 0" by blast
        then have "j \<noteq> i" using next_key(3) False by auto
        with j next_key(1) show ?thesis by auto
      qed (use next_key(1) False in simp)
    qed
  qed
  ultimately show ?thesis using assms(2) next_key by (simp add: red_inv_def)
next
  case (keys_done i p k)
  have ow: "owners_inv T s" and po: "posts_inv T s" using assms(2) by (simp_all add: red_inv_def)
  have pl: "p < length (rs_log s)" using ow keys_done(2,3) unfolding owners_inv_def by fastforce
  have "owners_inv T t" by (rule owners_release [OF ow, where i = i and p = p and k = k]) (use keys_done in simp_all)
  moreover have "posts_inv T t" unfolding posts_inv_def
  proof (intro conjI allI impI)
    fix q show "0 < rs_sem t q \<Longrightarrow> q < length (rs_log t)"
      using po keys_done(1) pl by (cases "q = p") (auto simp: posts_inv_def split: if_splits)
    assume q: "Suc q = length (rs_log t)"
    have "0 < rs_sem s q \<or> (\<exists>j < T. rs_pc s j = RKeys q 0)" using po q keys_done(1) by (simp add: posts_inv_def)
    then show "0 < rs_sem t q \<or> (\<exists>i < T. rs_pc t i = RKeys q 0)"
    proof
      assume "\<exists>j < T. rs_pc s j = RKeys q 0"
      then obtain j where j: "j < T" "rs_pc s j = RKeys q 0" by blast
      then show ?thesis using keys_done(1,3,4) by (cases "j = i") auto
    qed (use keys_done(1) in auto)
  qed
  ultimately show ?thesis using assms(2) keys_done by (simp add: red_inv_def)
qed

lemma red_run_inv: "(red_step T n nk)\<^sup>*\<^sup>* red_start s \<Longrightarrow> red_inv T s"
  by (induction rule: rtranclp_induct) (use red_start_inv red_step_inv in blast)+

text \<open>A thread that is not waiting can always go on.\<close>

lemma red_ready:
  assumes "i < T" "rs_pc s i \<noteq> RDone" "\<forall>p. rs_pc s i \<noteq> RWait p"
  shows "\<exists>t. red_step T n nk s t"
proof (cases "rs_pc s i")
  case RLoop
  then show ?thesis using assms(1) red_step.take_part red_step.no_part by (metis not_le)
next
  case (RSort p)
  then show ?thesis using assms(1) red_step.sorted_first red_step.sorted_next by (cases p) metis+
next
  case (RKeys p k)
  then show ?thesis using assms(1) red_step.next_key red_step.keys_done by (metis not_le)
qed (use assms in auto)

lemma red_progress:
  assumes inv: "red_inv T s" and i: "i < T" "rs_pc s i \<noteq> RDone"
  shows "\<exists>t. red_step T n nk s t"
proof (cases "\<exists>p. rs_pc s i = RWait p")
  case True
  then obtain p where p: "rs_pc s i = RWait p" by blast
  have ow: "owners_inv T s" and po: "posts_inv T s" using inv by (simp_all add: red_inv_def)
  let ?L = "length (rs_log s)"
  have "p < rs_cur s \<and> \<not> p < ?L" using ow i(1) p unfolding owners_inv_def by fastforce
  then have "?L < rs_cur s" by simp
  then obtain j where j: "j < T" "holds_part (rs_pc s j) = Some ?L" using ow unfolding owners_inv_def by blast
  show ?thesis
  proof (cases "\<exists>q. rs_pc s j = RWait q")
    case True
    then have w: "rs_pc s j = RWait ?L" using j(2) by auto
    then have "?L \<noteq> 0" using ow j(1) unfolding owners_inv_def by metis
    then obtain q where q: "Suc q = ?L" by (metis not0_implies_Suc)
    then have "0 < rs_sem s q \<or> (\<exists>k < T. rs_pc s k = RKeys q 0)" using po by (simp add: posts_inv_def)
    then show ?thesis
    proof
      assume "0 < rs_sem s q"
      then show ?thesis using red_step.waited [of j T s q] j(1) w q by metis
    next
      assume "\<exists>k < T. rs_pc s k = RKeys q 0"
      then obtain k where "k < T" "rs_pc s k = RKeys q 0" by blast
      then show ?thesis using red_ready [of k T s] by simp
    qed
  next
    case False
    moreover have "rs_pc s j \<noteq> RDone" using j(2) by auto
    ultimately show ?thesis using red_ready j(1) by blast
  qed
qed (use red_ready i in blast)

section \<open>Sorted partitioning\<close>

lemma sorted_partition_value:
  assumes "unat (strtoul0 key) < 2 ^ 32" "0 < n" "n < 2 ^ 31"
  shows "\<exists>w. MR_SortedPartition key n = Inr w \<and> unat w = unat (strtoul0 key) * nat n div 2 ^ 32"
proof -
  have n: "unat (word_of_int n :: u64) = nat n"
    using assms(2,3) by (simp add: unsigned_of_int take_bit_int_eq_self)
  have lt: "unat (strtoul0 key) * nat n < 2 ^ 32 * 2 ^ 31"
    by (rule mult_strict_mono) (use assms in auto)
  have "unat (strtoul0 key * word_of_int n) = unat (strtoul0 key) * nat n"
    using lt by (subst unat_word_ariths) (simp add: n)
  then have "unat (drop_bit 32 (strtoul0 key * word_of_int n)) = unat (strtoul0 key) * nat n div 2 ^ 32"
    unfolding unat_drop_bit_eq by (simp add: drop_bit_eq_div)
  then show ?thesis by (simp add: MR_SortedPartition_def)
qed

section \<open>Word counts\<close>

lemma atoi_1: "atoi ''1'' = 1"
  by (simp add: atoi_def sign_of_def isspace_def digits_def digit_val_def number_def)

lemma count_ones:
  assumes "set vs \<subseteq> {''1''}" "0 \<le> c" "c + int (length vs) < 2 ^ 31"
  shows "fold (\<lambda>v count. cint (count + atoi v)) vs c = c + int (length vs)"
  using assms by (induction vs arbitrary: c) (auto simp: atoi_1)

lemma map_lines_value: "map_lines v s = Inr kvs \<Longrightarrow> snd ` set kvs \<subseteq> {v}"
proof (induction v s arbitrary: kvs rule: map_lines.induct)
  case (1 v content)
  obtain chunk rest where cr: "fgets_take 99 content = (chunk, rest)" by fastforce
  show ?case
  proof (cases "chunk = [] \<or> c_string chunk = []")
    case True
    then show ?thesis using "1.prems" cr by (subst (asm) map_lines.simps) (auto split: if_splits)
  next
    case False
    then obtain ks where "map_lines v rest = Inr ks" "kvs = (butlast (c_string chunk), v) # ks"
      using "1.prems" cr by (subst (asm) map_lines.simps) (auto simp: rbind_eq_Inr)
    with "1.IH" [OF cr [symmetric] _ refl _ this(1)] False show ?thesis by auto
  qed
qed

end
