(* ===== verification/MapReduceResults.thy ===== *)
theory MapReduceResults
  imports MapReduceThreads
begin

text \<open>
  The properties of the MapReduce library, from the hash map up to whole runs, each with a
  concrete instance.
\<close>

section \<open>A sorting routine for the examples\<close>

fun ins_kv :: "kv \<Rightarrow> kv list \<Rightarrow> kv list" where
  "ins_kv x [] = [x]"
| "ins_kv x (y # ys) = (if kv_pair_comparator x y \<le> 0 then x # y # ys else y # ins_kv x ys)"

definition sort_kv :: "kv list \<Rightarrow> kv list" where
  "sort_kv xs = foldr ins_kv xs []"

lemma ins_kv_mset [simp]: "mset (ins_kv x ys) = add_mset x (mset ys)"
  by (induction ys) auto

lemma ins_kv_set [simp]: "set (ins_kv x ys) = insert x (set ys)"
  by (induction ys) auto

lemma ins_kv_sorted:
  assumes "sorted_wrt (\<lambda>a b. kv_pair_comparator a b \<le> 0) ys"
  shows "sorted_wrt (\<lambda>a b. kv_pair_comparator a b \<le> 0) (ins_kv x ys)"
  using assms
proof (induction ys)
  case (Cons y ys)
  show ?case
  proof (cases "kv_pair_comparator x y \<le> 0")
    case True
    have "kv_pair_comparator x z \<le> 0" if "z \<in> set ys" for z
      using True Cons.prems that strcmp_trans [of "fst x" "fst y" "fst z"] by (simp add: kv_pair_comparator_def)
    then show ?thesis using True Cons.prems by simp
  next
    case False
    then have "kv_pair_comparator y x \<le> 0" using strcmp_total [of "fst x" "fst y"] by (simp add: kv_pair_comparator_def)
    then show ?thesis using False Cons by simp
  qed
qed simp

lemma sort_kv_ok: "qsort_ok sort_kv"
proof -
  have "mset (sort_kv xs) = mset xs \<and> sorted_wrt (\<lambda>a b. kv_pair_comparator a b \<le> 0) (sort_kv xs)" for xs
    by (induction xs) (simp_all add: sort_kv_def ins_kv_sorted)
  then show ?thesis by (simp add: qsort_ok_def)
qed

text \<open>A partition to which the given pairs were emitted.\<close>

lemma emitted: "\<exists>q. part_inv q \<and> pairs q = kvs"
proof (induction kvs rule: rev_induct)
  case Nil
  show ?case using init_partition_ok by blast
next
  case (snoc kv kvs)
  then obtain q where "part_inv q" "pairs q = kvs" by blast
  then show ?case using emit_pair_ok [of q kv] by auto
qed

section \<open>Properties\<close>

text \<open>
  C20. The hash map is a finite map: \<open>map_get\<close> reads the map that the nodes stand for, and
  \<open>map_set\<close> updates it at the key when memory suffices and leaves it unchanged otherwise, through
  every growth of the bucket array.
\<close>

theorem map_set_updates:
  assumes "map_inv m" "length (nodes m) < 2 ^ 31" "map_set mem1 mem2 k v m = (err, t)"
  shows "map_inv t \<and> (mem1 \<and> mem2 \<longrightarrow> err = 0) \<and>
    (\<forall>j. map_get t j = (if err = 0 \<and> j = k then Some v else map_get m j))"
proof -
  from map_set_ok [OF assms] have "map_inv t" "mem1 \<and> mem2 \<longrightarrow> err = 0"
    "map_abs t = (if err = 0 then (map_abs m)(k \<mapsto> v) else map_abs m)" by simp_all
  then show ?thesis using map_get_abs [of t] map_get_abs [OF assms(1)] by simp
qed

theorem map_set_updates_witness:
  "map_get (snd (map_set True True ''a'' (7 :: int) map_init)) ''a'' = Some 7"
proof -
  have "length (nodes (map_init :: int map_base)) < 2 ^ 31" by (simp add: nodes_def map_init_def)
  from map_set_updates [OF map_init_inv(1) this prod.collapse [symmetric], of True True "''a''" 7]
  show ?thesis by simp
qed

text \<open>
  Emission appends the pair to its partition, whatever the fill of the array, which doubles
  when it is full; it never writes outside the array.
\<close>

theorem emit_appends:
  assumes "part_inv p"
  shows "\<exists>q. emit_pair kv p = Inr q \<and> part_inv q \<and> pairs q = pairs p @ [kv] \<and>
    pd_size q = (if pd_next p = pd_size p then 2 * pd_size p else pd_size p)"
  using assms by (rule emit_pair_ok)

theorem emit_appends_witness: "\<exists>q. emit_pair (''a'', ''1'') init_partition = Inr q \<and> pairs q = [(''a'', ''1'')]"
  using emit_appends [OF init_partition_ok(1), of "(''a'', ''1'')"] init_partition_ok(2) by auto

text \<open>
  C21. Reducing a partition that has no key or at least two: the reducer is called once for every
  key, in ascending order, and reads through \<open>Get\<close> exactly the values emitted for the key; the
  partition's semaphore is posted.
\<close>

theorem reduce_groups_by_key:
  assumes "part_inv p" "qsort_ok qs" "card (fst ` set (pairs p)) \<noteq> 1" "length (pairs p) < 2 ^ 31"
  shows "\<exists>gs q. reduce_partition qs p = Inr (gs, q) \<and> sorted_wrt (\<lambda>a b. strcmp a b < 0) (map fst gs) \<and>
     fst ` set gs = fst ` set (pairs p) \<and>
     (\<forall>(k, vs) \<in> set gs. mset vs = mset (map snd (filter (\<lambda>kv. fst kv = k) (pairs p)))) \<and> pd_sent p < pd_sent q"
  using assms by (rule reduce_partition_ok)

theorem reduce_groups_by_key_witness:
  "\<exists>p gs q. pairs p = [(''b'', ''1''), (''a'', ''2''), (''b'', ''3'')] \<and> reduce_partition sort_kv p = Inr (gs, q) \<and>
     fst ` set gs = {''a'', ''b''}"
proof -
  obtain p where p: "part_inv p" "pairs p = [(''b'', ''1''), (''a'', ''2''), (''b'', ''3'')]" using emitted by blast
  have "fst ` set (pairs p) = {''a'', ''b''}" using p(2) by auto
  then have keys: "card (fst ` set (pairs p)) \<noteq> 1" "fst ` set (pairs p) = {''a'', ''b''}" by simp_all
  have "length (pairs p) < 2 ^ 31" using p(2) by simp
  from reduce_groups_by_key [OF p(1) sort_kv_ok keys(1) this] obtain gs q where
    "reduce_partition sort_kv p = Inr (gs, q)" "fst ` set gs = fst ` set (pairs p)" by metis
  then show ?thesis using p(2) keys(2) by metis
qed

text \<open>
  C22. A partition with exactly one distinct key is not indexed: \<open>key_tmp\<close> still holds that key
  after the counting loop, so the second loop never records it, and the reducer's controller
  reads an uninitialised index.
\<close>

theorem single_key_partition_faults:
  assumes "qsort_ok qs" "fst ` set (pairs p) = {k}"
  shows "reduce_partition qs p = Inl (Undefined ''uninitialised'')"
  using assms by (rule reduce_partition_single)

theorem single_key_partition_faults_witness:
  "\<exists>p. pairs p = [(''a'', ''1''), (''a'', ''1'')] \<and> reduce_partition sort_kv p = Inl (Undefined ''uninitialised'')"
proof -
  obtain p where p: "part_inv p" "pairs p = [(''a'', ''1''), (''a'', ''1'')]" using emitted by blast
  then show ?thesis using single_key_partition_faults [OF sort_kv_ok, of p "''a''"] by auto
qed

text \<open>
  C23. Whatever the interleaving of the mappers, when all have finished each partition holds
  exactly the pairs of all inputs whose key the partitioner sends there.
\<close>

theorem mappers_deliver_all:
  assumes "mapped part files nm n s" "0 < nm" "p < n"
  shows "part_inv (mr_parts s ! p) \<and>
    mset (pairs (mr_parts s ! p)) = mset (filter (\<lambda>kv. dest part n kv = p) (concat files))"
  using mapped_pairs [OF assms] by blast

lemma ex_emits:
  assumes "part_inv q"
  shows "\<exists>q'. (map_step MR_DefaultHashPartition files)\<^sup>*\<^sup>* \<lparr>mr_idx = i, mr_mappers = [MRun kvs], mr_parts = [q]\<rparr>
     \<lparr>mr_idx = i, mr_mappers = [MRun []], mr_parts = [q']\<rparr>"
  using assms
proof (induction kvs arbitrary: q)
  case (Cons kv kvs)
  obtain k v where kv: "kv = (k, v)" by (cases kv)
  obtain r where r: "emit_pair kv q = Inr r" "part_inv r" using emit_pair_ok [OF Cons.prems] by blast
  then have "MR_Emit MR_DefaultHashPartition k v [q] = Inr [r]"
    by (simp add: MR_Emit_def MR_DefaultHashPartition_def kv)
  then have "map_step MR_DefaultHashPartition files \<lparr>mr_idx = i, mr_mappers = [MRun (kv # kvs)], mr_parts = [q]\<rparr>
      \<lparr>mr_idx = i, mr_mappers = [MRun kvs], mr_parts = [r]\<rparr>"
    using map_step.emit [of 0 "\<lparr>mr_idx = i, mr_mappers = [MRun (kv # kvs)], mr_parts = [q]\<rparr>" k v kvs MR_DefaultHashPartition "[r]" files]
    by (simp add: kv)
  with Cons.IH [OF r(2)] show ?case by (meson converse_rtranclp_into_rtranclp)
qed blast

lemma ex_mapped: "\<exists>s. mapped MR_DefaultHashPartition [kvs] 1 1 s"
proof -
  let ?step = "map_step MR_DefaultHashPartition [kvs]"
  let ?s0 = "\<lparr>mr_idx = 0, mr_mappers = [MLoop], mr_parts = [init_partition]\<rparr>"
  let ?s1 = "\<lparr>mr_idx = 1, mr_mappers = [MRun kvs], mr_parts = [init_partition]\<rparr>"
  have s0: "mr_start 1 1 = ?s0" by (simp add: mr_start_def init_partition_list_def)
  have "?step ?s0 ?s1" using map_step.take_input [of 0 ?s0 "[kvs]" MR_DefaultHashPartition] by simp
  moreover obtain q where q: "?step\<^sup>*\<^sup>* ?s1 \<lparr>mr_idx = 1, mr_mappers = [MRun []], mr_parts = [q]\<rparr>"
    using ex_emits [OF init_partition_ok(1)] by blast
  moreover have "?step \<lparr>mr_idx = 1, mr_mappers = [MRun []], mr_parts = [q]\<rparr> \<lparr>mr_idx = 1, mr_mappers = [MLoop], mr_parts = [q]\<rparr>"
    using map_step.input_done [of 0 "\<lparr>mr_idx = 1, mr_mappers = [MRun []], mr_parts = [q]\<rparr>"] by simp
  moreover have "?step \<lparr>mr_idx = 1, mr_mappers = [MLoop], mr_parts = [q]\<rparr> \<lparr>mr_idx = Suc (Suc 0), mr_mappers = [MDone], mr_parts = [q]\<rparr>"
    using map_step.no_input [of 0 "\<lparr>mr_idx = 1, mr_mappers = [MLoop], mr_parts = [q]\<rparr>" "[kvs]"] by simp
  ultimately have "?step\<^sup>*\<^sup>* ?s0 \<lparr>mr_idx = Suc (Suc 0), mr_mappers = [MDone], mr_parts = [q]\<rparr>"
    by (meson converse_rtranclp_into_rtranclp rtranclp.rtrancl_into_rtrancl)
  then have "mapped MR_DefaultHashPartition [kvs] 1 1 \<lparr>mr_idx = Suc (Suc 0), mr_mappers = [MDone], mr_parts = [q]\<rparr>"
    unfolding mapped_def s0 by simp
  then show ?thesis by blast
qed

lemma dest_one: "dest MR_DefaultHashPartition 1 kv = 0"
  by (simp add: dest_def MR_DefaultHashPartition_def)

theorem mappers_deliver_all_witness:
  "\<exists>s. mapped MR_DefaultHashPartition [[(''a'', ''1'')]] 1 1 s \<and> pairs (mr_parts s ! 0) = [(''a'', ''1'')]"
proof -
  obtain s where s: "mapped MR_DefaultHashPartition [[(''a'', ''1'')]] 1 1 s" using ex_mapped by blast
  have "mset (pairs (mr_parts s ! 0)) = {#(''a'', ''1'')#}"
    using mappers_deliver_all [OF s, of 0] dest_one by simp
  then have "pairs (mr_parts s ! 0) = [(''a'', ''1'')]" by simp
  then show ?thesis using s by blast
qed

text \<open>
  Partitions are sent to reducers in order: in every state the reducers reach, the partitions
  whose reduction has begun are 0, 1, ... without a gap, each begun once and by one thread.
\<close>

theorem partitions_sent_in_order:
  assumes "(red_step T n nk)\<^sup>*\<^sup>* red_start s"
  shows "rs_log s = [0..<length (rs_log s)] \<and>
    (\<forall>i < T. \<forall>j < T. \<forall>p. holds_part (rs_pc s i) = Some p \<longrightarrow> holds_part (rs_pc s j) = Some p \<longrightarrow> i = j) \<and>
    (\<forall>i < T. \<forall>p k. rs_pc s i = RKeys p k \<longrightarrow> p < length (rs_log s))"
proof -
  have inv: "red_inv T s" using red_run_inv [OF assms] .
  have "p < length (rs_log s)" if "i < T" "rs_pc s i = RKeys p k" for i p k
    using inv that unfolding red_inv_def owners_inv_def by fastforce
  then show ?thesis using inv unfolding red_inv_def owners_inv_def by blast
qed

theorem partitions_sent_in_order_witness:
  "\<exists>s. (red_step 1 1 (\<lambda>_. 1))\<^sup>*\<^sup>* red_start s \<and> rs_log s = [0] \<and> rs_log s = [0..<length (rs_log s)]"
proof -
  let ?s = "red_start\<lparr>rs_cur := 1, rs_pc := (\<lambda>_. RLoop)(0 := RSort 0)\<rparr>"
  let ?t = "?s\<lparr>rs_pc := (rs_pc ?s)(0 := RKeys 0 0), rs_log := [0]\<rparr>"
  have "red_step 1 1 (\<lambda>_. 1) red_start ?s"
    using red_step.take_part [of 0 1 red_start 1] by (simp add: red_start_def)
  moreover have "red_step 1 1 (\<lambda>_. 1) ?s ?t"
    using red_step.sorted_first [of 0 1 ?s] by (simp add: red_start_def)
  ultimately have r: "(red_step 1 1 (\<lambda>_. 1))\<^sup>*\<^sup>* red_start ?t" by (meson r_into_rtranclp rtranclp.rtrancl_into_rtrancl)
  from partitions_sent_in_order [OF r] r show ?thesis by (intro exI [of _ ?t]) simp
qed

text \<open>
  C24. The reducers do not deadlock: in every reachable state in which some reducer has not
  finished, some thread can take a step.
\<close>

theorem reducers_never_deadlock:
  assumes "(red_step T n nk)\<^sup>*\<^sup>* red_start s" "i < T" "rs_pc s i \<noteq> RDone"
  shows "\<exists>t. red_step T n nk s t"
  using red_progress [OF red_run_inv [OF assms(1)] assms(2,3)] .

theorem reducers_never_deadlock_witness: "\<exists>t. red_step 2 3 (\<lambda>_. 0) red_start t"
  using reducers_never_deadlock [OF rtranclp.rtrancl_refl, of 0 2 3 "\<lambda>_. 0"] by (simp add: red_start_def)

text \<open>
  \<open>MR_SortedPartition\<close> keeps the order of 32-bit keys and stays within the partitions.
\<close>

theorem sorted_partition_monotone:
  assumes "unat (strtoul0 a) \<le> unat (strtoul0 b)" "unat (strtoul0 b) < 2 ^ 32" "0 < n" "n < 2 ^ 31"
  shows "\<exists>v w. MR_SortedPartition a n = Inr v \<and> MR_SortedPartition b n = Inr w \<and> unat v \<le> unat w \<and> unat w < nat n"
proof -
  obtain v w where vw: "MR_SortedPartition a n = Inr v" "unat v = unat (strtoul0 a) * nat n div 2 ^ 32"
    "MR_SortedPartition b n = Inr w" "unat w = unat (strtoul0 b) * nat n div 2 ^ 32"
    using sorted_partition_value [of a n] sorted_partition_value [of b n] assms by auto
  have "unat v \<le> unat w" unfolding vw(2,4) using assms(1) by (intro div_le_mono mult_le_mono1)
  moreover have "unat (strtoul0 b) * nat n < nat n * 2 ^ 32" using assms(2,3) by (simp add: mult.commute)
  then have "unat w < nat n" unfolding vw(4) by (rule less_mult_imp_div_less)
  ultimately show ?thesis using vw by blast
qed

theorem sorted_partition_monotone_witness:
  "\<exists>v w. MR_SortedPartition ''5'' 4 = Inr v \<and> MR_SortedPartition ''0x9'' 4 = Inr w \<and> unat v \<le> unat w \<and> unat w < 4"
proof -
  have "strtoul0 ''5'' = 5" "strtoul0 ''0x9'' = 9"
    by (simp_all add: strtoul0_def sign_of_def isspace_def digits_def digit_val_def number_def)
  then show ?thesis using sorted_partition_monotone [of "''5''" "''0x9''" 4] by simp
qed



end
