(* ===== verification/Bio.thy ===== *)
theory Bio
  imports Prelude
begin

text \<open>
  The buffer cache of the file system kernel (\<open>07_xv6_File_System/PartA/bio.c\<close>) over a disk, with
  the sleep locks (\<open>sleeplock.c\<close>) that guard its buffers and the effect of \<open>iderw\<close> (\<open>ide.c\<close>). One
  process runs at a time: acquiring a sleep lock that is already held never returns (\<open>Hang\<close>).
  The spin locks protect short sections in which nothing else runs and are left out here.
\<close>

section \<open>Sleep locks\<close>

record sleeplock =
  slk_locked :: bool
  slk_pid :: int

definition initsleeplock :: sleeplock where
  "initsleeplock = \<lparr>slk_locked = False, slk_pid = 0\<rparr>"

definition acquiresleep :: "int \<Rightarrow> sleeplock \<Rightarrow> sleeplock res" where
  "acquiresleep me lk = (if slk_locked lk then Inl Hang else Inr \<lparr>slk_locked = True, slk_pid = me\<rparr>)"

definition releasesleep :: "sleeplock \<Rightarrow> sleeplock" where
  "releasesleep lk = \<lparr>slk_locked = False, slk_pid = 0\<rparr>"

definition holdingsleep :: "int \<Rightarrow> sleeplock \<Rightarrow> bool" where
  "holdingsleep me lk \<longleftrightarrow> slk_locked lk \<and> slk_pid lk = me"

section \<open>Buffers and the disk\<close>

definition BSIZE :: nat where
  "BSIZE = 512"

definition MAXOPBLOCKS :: nat where
  "MAXOPBLOCKS = 10"

definition NBUF :: nat where
  "NBUF = MAXOPBLOCKS * 3"

definition FSSIZE :: u32 where
  "FSSIZE = 1000"

type_synonym block = "u8 list"

record buf =
  b_valid :: bool
  b_dirty :: bool
  b_dev :: u32
  b_blockno :: u32
  b_lock :: sleeplock
  b_refcnt :: u32
  b_data :: block

text \<open>
  \<open>bc_order\<close> is the doubly linked list of all buffers, from \<open>head.next\<close> (the most recently used) to
  \<open>head.prev\<close>. \<open>bc_disk\<close> is indexed by the drive and the block; \<open>bc_trace\<close> records every block that
  was written to the drive 1, in order. \<open>bc_pid\<close> is the running process.
\<close>

record bcache =
  bc_buf :: "buf list"
  bc_order :: "nat list"
  bc_disk :: "u32 \<Rightarrow> u32 \<Rightarrow> block"
  bc_havedisk1 :: bool
  bc_trace :: "(u32 \<times> block) list"
  bc_pid :: int

definition upd_buf :: "nat \<Rightarrow> (buf \<Rightarrow> buf) \<Rightarrow> 'a bcache_scheme \<Rightarrow> 'a bcache_scheme" where
  "upd_buf i f s = s\<lparr>bc_buf := (bc_buf s)[i := f (bc_buf s ! i)]\<rparr>"

text \<open>\<open>memmove(b->data, ...)\<close> and other changes of the contents of a buffer.\<close>

definition bset :: "nat \<Rightarrow> block \<Rightarrow> 'a bcache_scheme \<Rightarrow> 'a bcache_scheme" where
  "bset i d s = upd_buf i (\<lambda>b. b\<lparr>b_data := d\<rparr>) s"

abbreviation bdata :: "'a bcache_scheme \<Rightarrow> nat \<Rightarrow> block" where
  "bdata s i \<equiv> b_data (bc_buf s ! i)"

text \<open>
  \<open>idestart\<close> sends the request to the drive, \<open>ideintr\<close> completes it; the request is the only one
  in the queue.
\<close>

definition idestart :: "buf \<Rightarrow> unit res" where
  "idestart b = (if b_blockno b \<ge> FSSIZE then Inl (Panic ''incorrect blockno'') else Inr ())"

definition ideintr :: "nat \<Rightarrow> 'a bcache_scheme \<Rightarrow> 'a bcache_scheme" where
  "ideintr i s =
     (let b = bc_buf s ! i; drive = and (b_dev b) 1 in
      if b_dirty b
      then upd_buf i (\<lambda>b. b\<lparr>b_valid := True, b_dirty := False\<rparr>)
             (s\<lparr>bc_disk := (bc_disk s)(drive := (bc_disk s drive)(b_blockno b := b_data b)),
                bc_trace := (if drive = 1 then bc_trace s @ [(b_blockno b, b_data b)] else bc_trace s)\<rparr>)
      else upd_buf i (\<lambda>b. b\<lparr>b_valid := True, b_dirty := False, b_data := bc_disk s drive (b_blockno b)\<rparr>) s)"

definition iderw :: "nat \<Rightarrow> 'a bcache_scheme \<Rightarrow> 'a bcache_scheme res" where
  "iderw i s =
     (let b = bc_buf s ! i in
      if \<not> holdingsleep (bc_pid s) (b_lock b) then Inl (Panic ''iderw: buf not locked'')
      else if b_valid b \<and> \<not> b_dirty b then Inl (Panic ''iderw: nothing to do'')
      else if b_dev b \<noteq> 0 \<and> \<not> bc_havedisk1 s then Inl (Panic ''iderw: ide disk 1 not present'')
      else rbind (idestart b) (\<lambda>_. Inr (ideintr i s)))"

section \<open>The cache\<close>

text \<open>\<open>binit\<close> pushes the buffers one by one to the front of the list.\<close>

definition binit :: "'a bcache_scheme \<Rightarrow> 'a bcache_scheme" where
  "binit s = s\<lparr>bc_order := fold (\<lambda>i order. i # order) [0..<NBUF] [],
     bc_buf := map (\<lambda>b. b\<lparr>b_lock := initsleeplock\<rparr>) (bc_buf s)\<rparr>"

definition lock_buf :: "nat \<Rightarrow> 'a bcache_scheme \<Rightarrow> 'a bcache_scheme res" where
  "lock_buf i s = rbind (acquiresleep (bc_pid s) (b_lock (bc_buf s ! i))) (\<lambda>lk.
     Inr (upd_buf i (\<lambda>b. b\<lparr>b_lock := lk\<rparr>) s))"

definition bget :: "u32 \<Rightarrow> u32 \<Rightarrow> 'a bcache_scheme \<Rightarrow> (nat \<times> 'a bcache_scheme) res" where
  "bget dev blockno s =
     (case find (\<lambda>i. b_dev (bc_buf s ! i) = dev \<and> b_blockno (bc_buf s ! i) = blockno) (bc_order s) of
        Some i \<Rightarrow>
          rbind (lock_buf i (upd_buf i (\<lambda>b. b\<lparr>b_refcnt := b_refcnt b + 1\<rparr>) s)) (\<lambda>s. Inr (i, s))
      | None \<Rightarrow>
          (case find (\<lambda>i. b_refcnt (bc_buf s ! i) = 0 \<and> \<not> b_dirty (bc_buf s ! i)) (rev (bc_order s)) of
             Some i \<Rightarrow>
               rbind (lock_buf i (upd_buf i (\<lambda>b. b\<lparr>b_dev := dev, b_blockno := blockno, b_valid := False,
                        b_dirty := False, b_refcnt := 1\<rparr>) s)) (\<lambda>s. Inr (i, s))
           | None \<Rightarrow> Inl (Panic ''bget: no buffers'')))"

definition bread :: "u32 \<Rightarrow> u32 \<Rightarrow> 'a bcache_scheme \<Rightarrow> (nat \<times> 'a bcache_scheme) res" where
  "bread dev blockno s =
     rbind (bget dev blockno s) (\<lambda>(i, s).
       if \<not> b_valid (bc_buf s ! i) then rbind (iderw i s) (\<lambda>s. Inr (i, s)) else Inr (i, s))"

definition bwrite :: "nat \<Rightarrow> 'a bcache_scheme \<Rightarrow> 'a bcache_scheme res" where
  "bwrite i s =
     (if \<not> holdingsleep (bc_pid s) (b_lock (bc_buf s ! i)) then Inl (Panic ''bwrite'')
      else iderw i (upd_buf i (\<lambda>b. b\<lparr>b_dirty := True\<rparr>) s))"

definition brelse :: "nat \<Rightarrow> 'a bcache_scheme \<Rightarrow> 'a bcache_scheme res" where
  "brelse i s =
     (if \<not> holdingsleep (bc_pid s) (b_lock (bc_buf s ! i)) then Inl (Panic ''brelse'')
      else
        let s = upd_buf i (\<lambda>b. b\<lparr>b_lock := releasesleep (b_lock b)\<rparr>) s;
            s = upd_buf i (\<lambda>b. b\<lparr>b_refcnt := b_refcnt b - 1\<rparr>) s
        in Inr (if b_refcnt (bc_buf s ! i) = 0 then s\<lparr>bc_order := i # remove1 i (bc_order s)\<rparr> else s))"

end
