(* ===== verification/BioProps.thy ===== *)
theory BioProps
  imports Bio
begin

text \<open>
  What the buffer cache promises. The contents of the drive 1 as the kernel sees them (\<open>view\<close>), the
  blocks whose buffer is locked (\<open>held\<close>), the blocks pinned in the cache (\<open>pinned\<close>) and the disk
  itself describe the cache; its linked list and the choice of buffers do not matter to clients.
\<close>

section \<open>The abstract state\<close>

definition caches :: "'a bcache_scheme \<Rightarrow> nat \<Rightarrow> u32 \<Rightarrow> bool" where
  "caches s i n \<longleftrightarrow> i < NBUF \<and> b_dev (bc_buf s ! i) = 1 \<and> b_blockno (bc_buf s ! i) = n"

definition slot :: "'a bcache_scheme \<Rightarrow> u32 \<Rightarrow> nat option" where
  "slot s n = find (\<lambda>i. caches s i n) [0..<NBUF]"

definition view :: "'a bcache_scheme \<Rightarrow> u32 \<Rightarrow> block" where
  "view s n = (case slot s n of Some i \<Rightarrow> bdata s i | None \<Rightarrow> bc_disk s 1 n)"

definition buf_at :: "'a bcache_scheme \<Rightarrow> nat \<Rightarrow> u32 \<Rightarrow> bool" where
  "buf_at s i n \<longleftrightarrow> caches s i n \<and> slk_locked (b_lock (bc_buf s ! i))"

definition held :: "'a bcache_scheme \<Rightarrow> u32 set" where
  "held s = {n. \<exists>i. buf_at s i n}"

definition pinned :: "'a bcache_scheme \<Rightarrow> u32 set" where
  "pinned s = {n. \<exists>i. caches s i n \<and> b_dirty (bc_buf s ! i)}"

definition buf_ok :: "'a bcache_scheme \<Rightarrow> buf \<Rightarrow> bool" where
  "buf_ok s b \<longleftrightarrow> (b_dev b = 0 \<and> \<not> b_valid b \<and> \<not> b_dirty b \<and> \<not> slk_locked (b_lock b) \<or> b_dev b = 1 \<and> b_valid b) \<and>
     length (b_data b) = BSIZE \<and> b_refcnt b = (if slk_locked (b_lock b) then 1 else 0) \<and>
     (slk_locked (b_lock b) \<longrightarrow> slk_pid (b_lock b) = bc_pid s) \<and> (b_valid b \<longrightarrow> b_blockno b < FSSIZE) \<and>
     (b_valid b \<and> \<not> b_dirty b \<and> \<not> slk_locked (b_lock b) \<longrightarrow> b_data b = bc_disk s 1 (b_blockno b))"

definition bio_inv :: "'a bcache_scheme \<Rightarrow> bool" where
  "bio_inv s \<longleftrightarrow> length (bc_buf s) = NBUF \<and> distinct (bc_order s) \<and> set (bc_order s) = {..<NBUF} \<and> bc_havedisk1 s \<and>
     (\<forall>n. length (bc_disk s 1 n) = BSIZE) \<and> (\<forall>i < NBUF. buf_ok s (bc_buf s ! i)) \<and>
     (\<forall>i j n. caches s i n \<longrightarrow> caches s j n \<longrightarrow> i = j)"

named_theorems bio_defs \<open>the abstraction of the buffer cache\<close>

declare caches_def [bio_defs] buf_at_def [bio_defs] held_def [bio_defs] pinned_def [bio_defs]

lemma upd_buf_simps [simp]:
  "bc_buf (upd_buf i f s) = (bc_buf s)[i := f (bc_buf s ! i)]"
  "bc_order (upd_buf i f s) = bc_order s" "bc_disk (upd_buf i f s) = bc_disk s"
  "bc_havedisk1 (upd_buf i f s) = bc_havedisk1 s" "bc_trace (upd_buf i f s) = bc_trace s"
  "bc_pid (upd_buf i f s) = bc_pid s" "bcache.more (upd_buf i f s) = bcache.more s"
  by (simp_all add: upd_buf_def)

lemma bio_inv_buf:
  assumes "bio_inv s" "caches s i n"
  shows "i < length (bc_buf s)" "buf_ok s (bc_buf s ! i)" "b_valid (bc_buf s ! i)" "n < FSSIZE"
proof -
  show "i < length (bc_buf s)" "buf_ok s (bc_buf s ! i)"
    using assms by (auto simp: bio_inv_def caches_def)
  then show "b_valid (bc_buf s ! i)" using assms by (auto simp: buf_ok_def caches_def)
  with \<open>buf_ok s (bc_buf s ! i)\<close> show "n < FSSIZE" using assms(2) by (auto simp: buf_ok_def caches_def)
qed

lemma slot_Some:
  assumes "bio_inv s"
  shows "slot s n = Some i \<longleftrightarrow> caches s i n"
proof
  assume "slot s n = Some i"
  then show "caches s i n" by (auto simp: slot_def find_Some_iff)
next
  assume c: "caches s i n"
  then have "slot s n \<noteq> None" unfolding slot_def find_None_iff by (auto simp: caches_def)
  then obtain j where j: "slot s n = Some j" by blast
  then have "caches s j n" by (auto simp: slot_def find_Some_iff)
  with c assms have "i = j" unfolding bio_inv_def by blast
  with j show "slot s n = Some i" by simp
qed

lemma view_cached: "bio_inv s \<Longrightarrow> caches s i n \<Longrightarrow> view s n = bdata s i"
  using slot_Some [of s n i] by (simp add: view_def)

lemma slot_None: "slot s n = None \<longleftrightarrow> (\<forall>i. \<not> caches s i n)"
  by (auto simp: slot_def find_None_iff caches_def)

lemma view_uncached: "\<forall>i. \<not> caches s i n \<Longrightarrow> view s n = bc_disk s 1 n"
  by (simp add: view_def slot_None [THEN iffD2])

lemma view_length: "bio_inv s \<Longrightarrow> length (view s n) = BSIZE"
proof (cases "slot s n")
  case None
  assume "bio_inv s"
  with None show ?thesis by (simp add: view_def bio_inv_def)
next
  case (Some i)
  assume inv: "bio_inv s"
  with Some have "buf_ok s (bc_buf s ! i)" using slot_Some bio_inv_buf by blast
  with Some show ?thesis by (simp add: view_def buf_ok_def)
qed

text \<open>An unlocked block that is not pinned is on the disk as the kernel sees it.\<close>

lemma view_home:
  assumes "bio_inv s" "n \<notin> held s" "n \<notin> pinned s"
  shows "view s n = bc_disk s 1 n"
proof (cases "\<exists>i. caches s i n")
  case True
  then obtain i where i: "caches s i n" by blast
  with assms have "buf_ok s (bc_buf s ! i)" "\<not> slk_locked (b_lock (bc_buf s ! i))" "\<not> b_dirty (bc_buf s ! i)"
    "b_valid (bc_buf s ! i)"
    using bio_inv_buf [OF assms(1) i] by (auto simp: held_def buf_at_def pinned_def)
  with i show ?thesis using view_cached [OF assms(1) i] by (auto simp: buf_ok_def caches_def)
next
  case False
  then show ?thesis by (simp add: view_uncached)
qed

section \<open>Changing one buffer\<close>

lemma caches_upd:
  assumes "bio_inv s" "i < NBUF" "bc_buf t = (bc_buf s)[i := b]"
  shows "caches t j n \<longleftrightarrow> (if j = i then b_dev b = 1 \<and> b_blockno b = n else caches s j n)"
  using assms by (auto simp: caches_def bio_inv_def nth_list_update)

lemma bio_inv_upd:
  assumes s: "bio_inv s" "i < NBUF" and t: "bc_buf t = (bc_buf s)[i := b]" "bc_pid t = bc_pid s"
    "bc_havedisk1 t = bc_havedisk1 s" "distinct (bc_order t)" "set (bc_order t) = {..<NBUF}"
    and d: "\<And>n. n \<noteq> b_blockno b \<Longrightarrow> bc_disk t 1 n = bc_disk s 1 n" "length (bc_disk t 1 (b_blockno b)) = BSIZE"
    and b: "buf_ok t b" "\<And>j. j \<noteq> i \<Longrightarrow> \<not> caches s j (b_blockno b)"
  shows "bio_inv t"
  unfolding bio_inv_def
proof (intro conjI allI impI)
  note c = caches_upd [OF s t(1)]
  show "length (bc_buf t) = NBUF" "bc_havedisk1 t" using s t by (simp_all add: bio_inv_def)
  show "length (bc_disk t 1 n) = BSIZE" for n
    using d s by (cases "n = b_blockno b") (simp_all add: bio_inv_def)
  show "buf_ok t (bc_buf t ! j)" if j: "j < NBUF" for j
  proof (cases "j = i")
    case True
    then show ?thesis using b s t by (simp add: bio_inv_def)
  next
    case False
    then have "buf_ok s (bc_buf s ! j)" and nth: "bc_buf t ! j = bc_buf s ! j" using j s t by (simp_all add: bio_inv_def)
    moreover have "b_valid (bc_buf s ! j) \<Longrightarrow> b_blockno (bc_buf s ! j) \<noteq> b_blockno b"
      using b(2) [OF False] j \<open>buf_ok s (bc_buf s ! j)\<close> by (auto simp: caches_def buf_ok_def)
    ultimately show ?thesis using d(1) t(2) by (auto simp: buf_ok_def)
  qed
  show "j = k" if "caches t j n" "caches t k n" for j k n
    using that b(2) s(1) by (auto simp: c bio_inv_def split: if_splits)
qed (use t in auto)

lemma view_upd:
  assumes "bio_inv s" "bio_inv t" "i < NBUF" "bc_buf t = (bc_buf s)[i := b]"
    and "\<And>m. m \<noteq> b_blockno b \<Longrightarrow> bc_disk t 1 m = bc_disk s 1 m" "b_dev b = 1"
    and "\<not> slk_locked (b_lock (bc_buf s ! i)) \<and> \<not> b_dirty (bc_buf s ! i) \<or> caches s i (b_blockno b)"
  shows "view t = (view s)(b_blockno b := b_data b)"
proof (rule ext)
  fix m
  note c = caches_upd [OF assms(1,3,4)]
  show "view t m = ((view s)(b_blockno b := b_data b)) m"
  proof (cases "m = b_blockno b")
    case True
    then have "caches t i m" using c assms by auto
    then have "view t m = bdata t i" by (rule view_cached [OF assms(2)])
    then show ?thesis using True assms by (simp add: bio_inv_def)
  next
    case False
    show ?thesis
    proof (cases "\<exists>j. j \<noteq> i \<and> caches s j m")
      case True
      then obtain j where j: "j \<noteq> i" "caches s j m" by blast
      then have "caches t j m" using c by simp
      then have "view t m = bdata t j" by (rule view_cached [OF assms(2)])
      moreover have "view s m = bdata s j" using j view_cached [OF assms(1)] by simp
      ultimately show ?thesis using j assms False by simp
    next
      case no: False
      then have "\<forall>j. \<not> caches t j m" using c False by auto
      then have t: "view t m = bc_disk s 1 m" using view_uncached assms(5) [OF False] by metis
      show ?thesis
      proof (cases "caches s i m")
        case True
        then have *: "\<not> slk_locked (b_lock (bc_buf s ! i))" "\<not> b_dirty (bc_buf s ! i)"
          using assms(7) False by (auto simp: caches_def)
        have "m \<notin> held s \<and> m \<notin> pinned s"
          using * no by (auto simp: held_def buf_at_def pinned_def)
        then show ?thesis using t view_home [OF assms(1)] False by simp
      next
        case nc: False
        have "\<forall>j. \<not> caches s j m" using no nc by metis
        then show ?thesis using t view_uncached [of s m] False by simp
      qed
    qed
  qed
qed

section \<open>The operations\<close>

definition bio_frame :: "'a bcache_scheme \<Rightarrow> 'a bcache_scheme \<Rightarrow> bool" where
  "bio_frame s t \<longleftrightarrow> bcache.more t = bcache.more s \<and> bc_pid t = bc_pid s"

lemma busy_subset: "held s \<union> pinned s \<subseteq> (\<lambda>i. b_blockno (bc_buf s ! i)) ` {..<NBUF}"
  by (auto simp: bio_defs)

lemma finite_busy: "finite (held s \<union> pinned s)"
  using busy_subset finite_surj by (metis finite_lessThan)

lemma free_buffer:
  assumes "bio_inv s" "card (held s \<union> pinned s) < NBUF"
  shows "\<exists>i < NBUF. b_refcnt (bc_buf s ! i) = 0 \<and> \<not> b_dirty (bc_buf s ! i)"
proof (rule ccontr)
  let ?f = "\<lambda>i. b_blockno (bc_buf s ! i)"
  assume "\<not> ?thesis"
  then have busy: "b_refcnt (bc_buf s ! i) \<noteq> 0 \<or> b_dirty (bc_buf s ! i)" if "i < NBUF" for i using that by blast
  have c: "caches s i (?f i) \<and> ?f i \<in> held s \<union> pinned s" if "i < NBUF" for i
    using busy [OF that] that assms(1) by (auto simp: bio_inv_def buf_ok_def bio_defs split: if_splits)
  then have "?f ` {..<NBUF} \<subseteq> held s \<union> pinned s" by blast
  moreover have "inj_on ?f {..<NBUF}"
    using c assms(1) by (auto simp: inj_on_def bio_inv_def) (metis lessThan_iff)
  ultimately have "NBUF \<le> card (held s \<union> pinned s)"
    using card_mono [OF finite_busy] card_image by (metis card_lessThan)
  with assms(2) show False by simp
qed

lemma find_order:
  assumes "bio_inv s" "i < NBUF" "P i" "\<And>j. P j \<Longrightarrow> j < NBUF \<Longrightarrow> j = i"
  shows "find P (bc_order s) = Some i"
proof -
  have o: "set (bc_order s) = {..<NBUF}" using assms(1) by (simp add: bio_inv_def)
  then have "find P (bc_order s) \<noteq> None" using assms by (auto simp: find_None_iff)
  then obtain j where "find P (bc_order s) = Some j" by blast
  moreover from this have "j \<in> set (bc_order s)" "P j" by (auto simp: find_Some_iff)
  ultimately show ?thesis using assms(4) o by auto
qed

text \<open>Reading a block that is in the cache, and one that is not.\<close>

lemma bread_hit:
  assumes "bio_inv s" "caches s i n" "\<not> slk_locked (b_lock (bc_buf s ! i))"
  shows "\<exists>t. bread 1 n s = Inr (i, t) \<and> bc_order t = bc_order s \<and> bc_disk t = bc_disk s \<and>
    bc_trace t = bc_trace s \<and> bio_frame s t \<and> bc_havedisk1 t = bc_havedisk1 s \<and>
    bc_buf t = (bc_buf s)[i := (bc_buf s ! i)\<lparr>b_refcnt := 1, b_lock := \<lparr>slk_locked = True, slk_pid = bc_pid s\<rparr>\<rparr>]"
proof -
  note b = bio_inv_buf [OF assms(1,2)]
  have i: "i < NBUF" using assms(2) by (simp add: caches_def)
  have "find (\<lambda>i. b_dev (bc_buf s ! i) = 1 \<and> b_blockno (bc_buf s ! i) = n) (bc_order s) = Some i"
    by (rule find_order [OF assms(1) i]) (use assms in \<open>auto simp: caches_def bio_inv_def\<close>)
  moreover have "b_refcnt (bc_buf s ! i) = 0" using b assms(3) by (simp add: buf_ok_def)
  ultimately show ?thesis
    using b assms(3) by (simp add: bread_def bget_def lock_buf_def acquiresleep_def bio_frame_def)
qed

lemma bread_miss:
  assumes "bio_inv s" "n < FSSIZE" "\<forall>i. \<not> caches s i n" "card (held s \<union> pinned s) < NBUF"
  shows "\<exists>i t. bread 1 n s = Inr (i, t) \<and> i < NBUF \<and> b_refcnt (bc_buf s ! i) = 0 \<and> \<not> b_dirty (bc_buf s ! i) \<and>
    bc_order t = bc_order s \<and> bc_disk t = bc_disk s \<and> bc_trace t = bc_trace s \<and> bio_frame s t \<and>
    bc_havedisk1 t = bc_havedisk1 s \<and>
    bc_buf t = (bc_buf s)[i := (bc_buf s ! i)\<lparr>b_dev := 1, b_blockno := n, b_refcnt := 1,
      b_lock := \<lparr>slk_locked = True, slk_pid = bc_pid s\<rparr>, b_valid := True, b_dirty := False, b_data := bc_disk s 1 n\<rparr>]"
proof -
  have o: "set (bc_order s) = {..<NBUF}" "length (bc_buf s) = NBUF" "bc_havedisk1 s" using assms(1) by (simp_all add: bio_inv_def)
  let ?P = "\<lambda>i. b_refcnt (bc_buf s ! i) = 0 \<and> \<not> b_dirty (bc_buf s ! i)"
  have none: "find (\<lambda>i. b_dev (bc_buf s ! i) = 1 \<and> b_blockno (bc_buf s ! i) = n) (bc_order s) = None"
    using assms(3) o by (auto simp: find_None_iff caches_def)
  obtain j where j: "j < NBUF" "?P j" using free_buffer [OF assms(1,4)] by blast
  then have "find ?P (rev (bc_order s)) \<noteq> None" using o by (auto simp: find_None_iff)
  then obtain i where i: "find ?P (rev (bc_order s)) = Some i" by blast
  then have "i \<in> set (rev (bc_order s))" "?P i" using find_SomeD by fast+
  then have iN: "i < NBUF" "?P i" using o by auto
  then have "buf_ok s (bc_buf s ! i)" using assms(1) by (simp add: bio_inv_def)
  then have "\<not> slk_locked (b_lock (bc_buf s ! i))" using iN by (auto simp: buf_ok_def split: if_splits)
  then show ?thesis
    using none i iN o assms(2) [unfolded not_le [symmetric]]
    by (intro exI [of _ i])
      (simp add: bread_def bget_def lock_buf_def acquiresleep_def bio_frame_def iderw_def holdingsleep_def
        idestart_def ideintr_def)
qed

text \<open>
  \<open>bio_eff s t v H P d tr\<close>: an operation led from \<open>s\<close> to the sound state \<open>t\<close> with view \<open>v\<close>, held
  blocks \<open>H\<close>, pinned blocks \<open>P\<close>, disk \<open>d\<close> and the additional disk writes \<open>tr\<close>; buffers of blocks
  that are still held stay where they are.
\<close>

definition bio_eff :: "'a bcache_scheme \<Rightarrow> 'a bcache_scheme \<Rightarrow> (u32 \<Rightarrow> block) \<Rightarrow> u32 set \<Rightarrow> u32 set \<Rightarrow> (u32 \<Rightarrow> block) \<Rightarrow>
    (u32 \<times> block) list \<Rightarrow> bool" where
  "bio_eff s t v H P d tr \<longleftrightarrow> bio_inv t \<and> view t = v \<and> held t = H \<and> pinned t = P \<and> bc_disk t 1 = d \<and>
     bc_trace t = bc_trace s @ tr \<and> bio_frame s t \<and> (\<forall>j m. buf_at s j m \<longrightarrow> m \<in> H \<longrightarrow> buf_at t j m)"

lemma bread_ok:
  assumes "bio_inv s" "n < FSSIZE" "n \<notin> held s" "card (held s \<union> pinned s) < NBUF \<or> n \<in> pinned s"
  shows "\<exists>i t. bread 1 n s = Inr (i, t) \<and> buf_at t i n \<and>
    bio_eff s t (view s) (insert n (held s)) (pinned s) (bc_disk s 1) []"
proof (cases "\<exists>i. caches s i n")
  case True
  then obtain i where i: "caches s i n" by blast
  then have unlocked: "\<not> slk_locked (b_lock (bc_buf s ! i))" using assms(3) by (auto simp: held_def buf_at_def)
  note b = bio_inv_buf [OF assms(1) i]
  obtain t where t: "bread 1 n s = Inr (i, t)" "bc_order t = bc_order s" "bc_disk t = bc_disk s"
    "bc_trace t = bc_trace s" "bio_frame s t" "bc_havedisk1 t = bc_havedisk1 s"
    "bc_buf t = (bc_buf s)[i := (bc_buf s ! i)\<lparr>b_refcnt := 1, b_lock := \<lparr>slk_locked = True, slk_pid = bc_pid s\<rparr>\<rparr>]"
    using bread_hit [OF assms(1) i unlocked] by blast
  have iN: "i < NBUF" using i by (simp add: caches_def)
  have other: "\<not> caches s j n" if "j \<noteq> i" for j using that i assms(1) by (auto simp: bio_inv_def)
  have inv: "bio_inv t"
    by (rule bio_inv_upd [OF assms(1) iN t(7)])
      (use t b i iN other assms(1) in \<open>auto simp: bio_frame_def bio_inv_def buf_ok_def caches_def\<close>)
  have v: "view t = (view s)(n := bdata s i)"
    using view_upd [OF assms(1) inv iN t(7)] t i by (simp add: caches_def)
  note c = caches_upd [OF assms(1) iN t(7)]
  have nth: "bc_buf t ! j = (if j = i then (bc_buf s ! i)\<lparr>b_refcnt := 1,
      b_lock := \<lparr>slk_locked = True, slk_pid = bc_pid s\<rparr>\<rparr> else bc_buf s ! j)" for j
    using t(7) b(1) by (auto simp: nth_list_update)
  have at: "buf_at t j m \<longleftrightarrow> buf_at s j m \<or> j = i \<and> m = n" for j m
    using i by (auto simp: buf_at_def c nth caches_def)
  have "held t = insert n (held s)" using at by (auto simp: held_def)
  moreover have "pinned t = pinned s" using i by (auto simp: pinned_def c nth caches_def)
  moreover have "view t = view s" using v view_cached [OF assms(1) i] by auto
  ultimately have "bio_eff s t (view s) (insert n (held s)) (pinned s) (bc_disk s 1) []"
    using inv t at by (simp add: bio_eff_def)
  then show ?thesis using t(1) at by blast
next
  case False
  then have "card (held s \<union> pinned s) < NBUF" using assms(4) by (auto simp: pinned_def)
  then obtain i t where t: "bread 1 n s = Inr (i, t)" "i < NBUF" "b_refcnt (bc_buf s ! i) = 0" "\<not> b_dirty (bc_buf s ! i)"
    "bc_order t = bc_order s" "bc_disk t = bc_disk s" "bc_trace t = bc_trace s" "bio_frame s t"
    "bc_havedisk1 t = bc_havedisk1 s"
    "bc_buf t = (bc_buf s)[i := (bc_buf s ! i)\<lparr>b_dev := 1, b_blockno := n, b_refcnt := 1,
      b_lock := \<lparr>slk_locked = True, slk_pid = bc_pid s\<rparr>, b_valid := True, b_dirty := False, b_data := bc_disk s 1 n\<rparr>]"
    using bread_miss [OF assms(1,2)] False by blast
  have len: "length (bc_buf s) = NBUF" using assms(1) by (simp add: bio_inv_def)
  have unlocked: "\<not> slk_locked (b_lock (bc_buf s ! i))"
    using t(2,3) assms(1) by (auto simp: bio_inv_def buf_ok_def split: if_splits)
  have inv: "bio_inv t"
    by (rule bio_inv_upd [OF assms(1) t(2,10)])
      (use t assms False in \<open>auto simp: bio_frame_def bio_inv_def buf_ok_def\<close>)
  have v: "view t = (view s)(n := bc_disk s 1 n)"
    using view_upd [OF assms(1) inv t(2,10)] t unlocked by simp
  note c = caches_upd [OF assms(1) t(2,10)]
  have nth: "bc_buf t ! j = (if j = i then (bc_buf s ! i)\<lparr>b_dev := 1, b_blockno := n, b_refcnt := 1,
      b_lock := \<lparr>slk_locked = True, slk_pid = bc_pid s\<rparr>, b_valid := True, b_dirty := False, b_data := bc_disk s 1 n\<rparr> else bc_buf s ! j)" for j
    using t(2,10) len by (auto simp: nth_list_update)
  have at: "buf_at t j m \<longleftrightarrow> buf_at s j m \<or> j = i \<and> m = n" for j m
    using unlocked by (auto simp: buf_at_def c nth)
  have "held t = insert n (held s)" using at by (auto simp: held_def)
  moreover have "pinned t = pinned s" using t(4) by (auto simp: pinned_def c nth)
  moreover have "view t = view s" using v view_uncached [of s n] False by auto
  ultimately have "bio_eff s t (view s) (insert n (held s)) (pinned s) (bc_disk s 1) []"
    using inv t at by (simp add: bio_eff_def)
  then show ?thesis using t(1) at by blast
qed

text \<open>Every other operation changes the one buffer that its caller holds.\<close>

lemma held_buf_upd:
  assumes s: "bio_inv s" "buf_at s i n" and t: "bc_buf t = (bc_buf s)[i := b]" "bio_frame s t"
    "bc_havedisk1 t = bc_havedisk1 s" "distinct (bc_order t)" "set (bc_order t) = {..<NBUF}"
    and d: "\<And>m. m \<noteq> n \<Longrightarrow> bc_disk t 1 m = bc_disk s 1 m" "length (bc_disk t 1 n) = BSIZE"
    and b: "buf_ok t b" "b_dev b = 1" "b_blockno b = n"
  shows "bio_inv t" "view t = (view s)(n := b_data b)"
    "held t = (if slk_locked (b_lock b) then held s else held s - {n})"
    "pinned t = (if b_dirty b then insert n (pinned s) else pinned s - {n})"
    "\<And>j m. m \<in> held t \<Longrightarrow> buf_at s j m \<Longrightarrow> buf_at t j m"
proof -
  have c: "caches s i n" and iN: "i < NBUF" and len: "i < length (bc_buf s)"
    using s by (auto simp: buf_at_def caches_def bio_inv_def)
  have other: "\<not> caches s j n" if "j \<noteq> i" for j using that c s(1) by (auto simp: bio_inv_def)
  have cu: "caches t j m \<longleftrightarrow> caches s j m" for j m
    using caches_upd [OF s(1) iN t(1)] c b by (auto simp: caches_def)
  have nth: "bc_buf t ! j = (if j = i then b else bc_buf s ! j)" for j
    using t(1) len by (auto simp: nth_list_update)
  show inv: "bio_inv t"
    by (rule bio_inv_upd [OF s(1) iN t(1)]) (use t d b other in \<open>auto simp: bio_frame_def\<close>)
  show "view t = (view s)(n := b_data b)"
    using view_upd [OF s(1) inv iN t(1)] d b c by auto
  have at: "buf_at t j m \<longleftrightarrow> buf_at s j m \<and> (j \<noteq> i \<or> slk_locked (b_lock b))" for j m
    using s(2) by (auto simp: buf_at_def cu nth)
  have only: "j = i" if "buf_at s j n" for j using that other by (auto simp: buf_at_def)
  have keep: "m = n" if "buf_at s i m" for m using that c by (auto simp: buf_at_def caches_def)
  show h: "held t = (if slk_locked (b_lock b) then held s else held s - {n})"
    using only keep by (auto simp: held_def at)
  show "pinned t = (if b_dirty b then insert n (pinned s) else pinned s - {n})"
  proof (rule set_eqI)
    fix m
    have "m \<in> pinned t \<longleftrightarrow> (\<exists>j. caches s j m \<and> b_dirty (if j = i then b else bc_buf s ! j))"
      by (simp add: pinned_def cu nth)
    also have "\<dots> \<longleftrightarrow> (if m = n then b_dirty b else m \<in> pinned s)"
    proof (cases "m = n")
      case True
      have "caches s j n \<longleftrightarrow> j = i" for j using c other by blast
      with True show ?thesis by auto
    next
      case False
      have "\<not> caches s i m" using c False by (auto simp: caches_def)
      with False show ?thesis by (auto simp: pinned_def)
    qed
    finally show "m \<in> pinned t \<longleftrightarrow> m \<in> (if b_dirty b then insert n (pinned s) else pinned s - {n})" by auto
  qed
  show "buf_at t j m" if "m \<in> held t" "buf_at s j m" for j m
    using that at keep h by (auto split: if_splits)
qed

lemma buf_at_buf:
  assumes "bio_inv s" "buf_at s i n"
  shows "i < NBUF" "i < length (bc_buf s)" "b_dev (bc_buf s ! i) = 1" "b_blockno (bc_buf s ! i) = n"
    "b_valid (bc_buf s ! i)" "slk_locked (b_lock (bc_buf s ! i))" "slk_pid (b_lock (bc_buf s ! i)) = bc_pid s"
    "b_refcnt (bc_buf s ! i) = 1" "length (bdata s i) = BSIZE" "n < FSSIZE" "bdata s i = view s n"
    "buf_ok s (bc_buf s ! i)" "holdingsleep (bc_pid s) (b_lock (bc_buf s ! i))"
  using assms bio_inv_buf [OF assms(1), of i n] view_cached [OF assms(1), of i n]
  by (auto simp: buf_at_def caches_def buf_ok_def holdingsleep_def)

lemma bio_inv_parts:
  assumes "bio_inv s"
  shows "distinct (bc_order s)" "set (bc_order s) = {..<NBUF}" "bc_havedisk1 s" "length (bc_disk s 1 n) = BSIZE"
    "length (bc_buf s) = NBUF"
  using assms by (simp_all add: bio_inv_def)

lemma pinned_buf: "bio_inv s \<Longrightarrow> buf_at s i n \<Longrightarrow> n \<in> pinned s \<longleftrightarrow> b_dirty (bc_buf s ! i)"
proof -
  assume "bio_inv s" "buf_at s i n"
  then have "caches s j n \<longleftrightarrow> j = i" for j unfolding bio_inv_def buf_at_def by blast
  then show ?thesis by (simp add: pinned_def)
qed

lemma bset_ok:
  assumes "bio_inv s" "buf_at s i n" "length d = BSIZE"
  shows "bio_eff s (bset i d s) ((view s)(n := d)) (held s) (pinned s) (bc_disk s 1) []"
proof -
  note b = buf_at_buf [OF assms(1,2)] and p = bio_inv_parts [OF assms(1)]
  have t: "bc_buf (bset i d s) = (bc_buf s)[i := (bc_buf s ! i)\<lparr>b_data := d\<rparr>]" by (simp add: bset_def)
  have ok: "buf_ok (bset i d s) ((bc_buf s ! i)\<lparr>b_data := d\<rparr>)"
    using b assms(3) by (simp add: buf_ok_def bset_def)
  have mem: "pinned s = (if b_dirty (bc_buf s ! i) then insert n (pinned s) else pinned s - {n})"
    using pinned_buf [OF assms(1,2)] by auto
  show ?thesis
    using held_buf_upd [OF assms(1,2) t _ _ _ _ _ _ ok] b p mem
    by (simp add: bio_eff_def bset_def bio_frame_def)
qed

lemma bpin_ok:
  assumes "bio_inv s" "buf_at s i n"
  shows "bio_eff s (upd_buf i (\<lambda>b. b\<lparr>b_dirty := True\<rparr>) s) (view s) (held s) (insert n (pinned s)) (bc_disk s 1) []"
proof -
  note b = buf_at_buf [OF assms] and p = bio_inv_parts [OF assms(1)]
  let ?t = "upd_buf i (\<lambda>b. b\<lparr>b_dirty := True\<rparr>) s"
  have t: "bc_buf ?t = (bc_buf s)[i := (bc_buf s ! i)\<lparr>b_dirty := True\<rparr>]" by simp
  have ok: "buf_ok ?t ((bc_buf s ! i)\<lparr>b_dirty := True\<rparr>)" using b by (simp add: buf_ok_def)
  show ?thesis
    using held_buf_upd [OF assms t _ _ _ _ _ _ ok] b p
    by (simp add: bio_eff_def bio_frame_def)
qed

lemma bwrite_ok:
  assumes "bio_inv s" "buf_at s i n"
  shows "\<exists>t. bwrite i s = Inr t \<and>
    bio_eff s t (view s) (held s) (pinned s - {n}) ((bc_disk s 1)(n := view s n)) [(n, view s n)]"
proof -
  note b = buf_at_buf [OF assms] and p = bio_inv_parts [OF assms(1)]
  let ?b = "(bc_buf s ! i)\<lparr>b_valid := True, b_dirty := False\<rparr>"
  note w = bwrite_def iderw_def idestart_def ideintr_def upd_buf_def bio_frame_def not_le [symmetric]
  obtain t where t0: "bwrite i s = Inr t" using b p by (simp add: w)
  then have t: "bwrite i s = Inr t" "bc_buf t = (bc_buf s)[i := ?b]"
    "bc_disk t = (bc_disk s)(1 := (bc_disk s 1)(n := view s n))" "bio_frame s t" "bc_order t = bc_order s"
    "bc_havedisk1 t = bc_havedisk1 s" "bc_trace t = bc_trace s @ [(n, view s n)]"
    using b p by (auto simp: w)
  have ok: "buf_ok t ?b" using b t by (simp add: buf_ok_def bio_frame_def)
  have len: "length (view s n) = BSIZE" by (rule view_length [OF assms(1)])
  show ?thesis
    using held_buf_upd [OF assms t(2,4) _ _ _ _ _ ok] b p t len
    by (auto simp: bio_eff_def)
qed

lemma brelse_ok:
  assumes "bio_inv s" "buf_at s i n" "n \<in> pinned s \<or> view s n = bc_disk s 1 n"
  shows "\<exists>t. brelse i s = Inr t \<and> bio_eff s t (view s) (held s - {n}) (pinned s) (bc_disk s 1) []"
proof -
  note b = buf_at_buf [OF assms(1,2)] and p = bio_inv_parts [OF assms(1)]
  let ?b = "(bc_buf s ! i)\<lparr>b_lock := \<lparr>slk_locked = False, slk_pid = 0\<rparr>, b_refcnt := 0\<rparr>"
  note w = brelse_def releasesleep_def upd_buf_def bio_frame_def
  obtain t where t0: "brelse i s = Inr t" using b p by (simp add: w)
  then have t: "brelse i s = Inr t" "bc_buf t = (bc_buf s)[i := ?b]"
    "bc_disk t = bc_disk s" "bio_frame s t" "bc_order t = i # remove1 i (bc_order s)"
    "bc_havedisk1 t = bc_havedisk1 s" "bc_trace t = bc_trace s"
    using b p by (auto simp: w)
  have pin: "n \<in> pinned s \<longleftrightarrow> b_dirty (bc_buf s ! i)"
    using pinned_buf [OF assms(1,2)] .
  have ok: "buf_ok t ?b" using b t assms(3) pin by (auto simp: buf_ok_def bio_frame_def)
  have o: "distinct (bc_order t)" "set (bc_order t) = {..<NBUF}" using p b t by auto
  have "pinned s = (if b_dirty (bc_buf s ! i) then insert n (pinned s) else pinned s - {n})" using pin by auto
  then show ?thesis
    using held_buf_upd [OF assms(1,2) t(2,4) _ o _ _ ok] b p t
    by (auto simp: bio_eff_def)
qed

text \<open>The state at boot: all buffers zero, the list built by \<open>binit\<close>.\<close>

definition zero_buf :: buf where
  "zero_buf = \<lparr>b_valid = False, b_dirty = False, b_dev = 0, b_blockno = 0, b_lock = initsleeplock, b_refcnt = 0,
     b_data = replicate BSIZE 0\<rparr>"

lemma fold_Cons: "fold (\<lambda>i o'. i # o') xs ys = rev xs @ ys"
  by (induction xs arbitrary: ys) simp_all

lemma binit_ok:
  assumes "bc_buf s = replicate NBUF zero_buf" "bc_havedisk1 s" "\<And>n. length (bc_disk s 1 n) = BSIZE"
  shows "bio_inv (binit s)" "held (binit s) = {}" "pinned (binit s) = {}" "view (binit s) = bc_disk s 1"
proof -
  have b: "bc_buf (binit s) ! i = zero_buf" if "i < NBUF" for i
    using that assms(1) by (simp add: binit_def zero_buf_def initsleeplock_def)
  have c: "\<not> caches (binit s) i n" for i n
    using b [of i] by (auto simp: caches_def zero_buf_def)
  have "bc_order (binit s) = rev [0..<NBUF]" by (simp add: binit_def fold_Cons)
  then show "bio_inv (binit s)"
    using b c assms by (auto simp: bio_inv_def zero_buf_def buf_ok_def initsleeplock_def) (auto simp: binit_def zero_buf_def)
  show "held (binit s) = {}" "pinned (binit s) = {}" using c by (auto simp: held_def buf_at_def pinned_def)
  show "view (binit s) = bc_disk s 1" using c by (auto simp: view_uncached binit_def)
qed

end
