(* ===== verification/BufferCache.thy ===== *)
theory BufferCache
  imports BioProps
begin

text \<open>
  The interface between the buffer cache and its clients, the log and the file system: locked
  buffers, a view of the disk, and blocks pinned in the cache. Inside the locale, the patterns in
  which the clients use buffers; at the end, the interpretation on the model of \<open>bio.c\<close>.
\<close>

locale buffer_cache =
  fixes inv :: "'s \<Rightarrow> bool"
    and view :: "'s \<Rightarrow> 'n \<Rightarrow> 'b"
    and held :: "'s \<Rightarrow> 'n set"
    and pinned :: "'s \<Rightarrow> 'n set"
    and disk :: "'s \<Rightarrow> 'n \<Rightarrow> 'b"
    and at :: "'s \<Rightarrow> nat \<Rightarrow> 'n \<Rightarrow> bool"
    and data :: "'s \<Rightarrow> nat \<Rightarrow> 'b"
    and eff :: "'s \<Rightarrow> 's \<Rightarrow> ('n \<Rightarrow> 'b) \<Rightarrow> 'n set \<Rightarrow> 'n set \<Rightarrow> ('n \<Rightarrow> 'b) \<Rightarrow> ('n \<times> 'b) list \<Rightarrow> bool"
    and rd :: "'n \<Rightarrow> 's \<Rightarrow> (nat \<times> 's) res"
    and put :: "nat \<Rightarrow> 'b \<Rightarrow> 's \<Rightarrow> 's"
    and pin :: "nat \<Rightarrow> 's \<Rightarrow> 's"
    and wr :: "nat \<Rightarrow> 's \<Rightarrow> 's res"
    and rel :: "nat \<Rightarrow> 's \<Rightarrow> 's res"
    and okn :: "'n \<Rightarrow> bool"
    and okb :: "'b \<Rightarrow> bool"
    and cap :: nat
  assumes eff_refl: "inv s \<Longrightarrow> eff s s (view s) (held s) (pinned s) (disk s) []"
    and eff_post: "eff s t v H P d tr \<Longrightarrow> inv t \<and> view t = v \<and> held t = H \<and> pinned t = P \<and> disk t = d"
    and eff_trans: "eff s t v H P d tr \<Longrightarrow> eff t u v' H' P' d' tr' \<Longrightarrow> held s \<inter> H' \<subseteq> H \<Longrightarrow>
        eff s u v' H' P' d' (tr @ tr')"
    and eff_at: "eff s t v H P d tr \<Longrightarrow> at s j m \<Longrightarrow> m \<in> H \<Longrightarrow> at t j m"
    and at_data: "inv s \<Longrightarrow> at s i n \<Longrightarrow> data s i = view s n"
    and at_held: "at s i n \<Longrightarrow> n \<in> held s"
    and view_ok: "inv s \<Longrightarrow> okb (view s n)"
    and view_disk: "inv s \<Longrightarrow> n \<notin> held s \<Longrightarrow> n \<notin> pinned s \<Longrightarrow> view s n = disk s n"
    and busy_finite: "inv s \<Longrightarrow> finite (held s \<union> pinned s)"
    and rd_ok: "inv s \<Longrightarrow> okn n \<Longrightarrow> n \<notin> held s \<Longrightarrow> card (held s \<union> pinned s) < cap \<or> n \<in> pinned s \<Longrightarrow>
        \<exists>i t. rd n s = Inr (i, t) \<and> at t i n \<and> eff s t (view s) (insert n (held s)) (pinned s) (disk s) []"
    and put_ok: "inv s \<Longrightarrow> at s i n \<Longrightarrow> okb x \<Longrightarrow> eff s (put i x s) ((view s)(n := x)) (held s) (pinned s) (disk s) []"
    and pin_ok: "inv s \<Longrightarrow> at s i n \<Longrightarrow> eff s (pin i s) (view s) (held s) (insert n (pinned s)) (disk s) []"
    and wr_ok: "inv s \<Longrightarrow> at s i n \<Longrightarrow>
        \<exists>t. wr i s = Inr t \<and> eff s t (view s) (held s) (pinned s - {n}) ((disk s)(n := view s n)) [(n, view s n)]"
    and rel_ok: "inv s \<Longrightarrow> at s i n \<Longrightarrow> n \<in> pinned s \<or> view s n = disk s n \<Longrightarrow>
        \<exists>t. rel i s = Inr t \<and> eff s t (view s) (held s - {n}) (pinned s) (disk s) []"
begin

text \<open>Reading a block and letting it go.\<close>

lemma read_release:
  assumes "inv s" "okn n" "n \<notin> held s" "card (held s \<union> pinned s) < cap \<or> n \<in> pinned s"
  shows "\<exists>i t u. rd n s = Inr (i, t) \<and> at t i n \<and> data t i = view s n \<and> rel i t = Inr u \<and>
    eff s t (view s) (insert n (held s)) (pinned s) (disk s) [] \<and>
    eff s u (view s) (held s) (pinned s) (disk s) []"
proof -
  obtain i t where t: "rd n s = Inr (i, t)" "at t i n" "eff s t (view s) (insert n (held s)) (pinned s) (disk s) []"
    using rd_ok [OF assms] by blast
  note p = eff_post [OF t(3)]
  have "n \<in> pinned t \<or> view t n = disk t n" using view_disk [OF assms(1,3)] p by metis
  then obtain u where u: "rel i t = Inr u" "eff t u (view s) (insert n (held s) - {n}) (pinned s) (disk s) []"
    using rel_ok [of t i n] t(2) p by auto
  have "eff s u (view s) (held s) (pinned s) (disk s) ([] @ [])"
    by (rule eff_trans [OF t(3)]) (use u assms(3) in auto)
  moreover have "data t i = view s n" using at_data t(2) p by metis
  ultimately show ?thesis using t u by auto
qed

text \<open>
  Overwriting a block of the disk through the cache with the contents of another one, as the log
  does it: both buffers are locked, the destination is written, both are released.
\<close>

lemma copy_locked:
  assumes s: "inv s" and at: "at s i a" "at s j b" "a \<noteq> b" and src: "a \<in> pinned s \<or> view s a = disk s a"
  shows "\<exists>t u w. wr j (put j (data s i) s) = Inr t \<and> rel i t = Inr u \<and> rel j u = Inr w \<and>
    eff s w ((view s)(b := view s a)) (held s - {a, b}) (pinned s - {b}) ((disk s)(b := view s a)) [(b, view s a)]"
proof -
  let ?p = "put j (data s i) s"
  have d: "data s i = view s a" using at_data [OF s at(1)] .
  have e1: "eff s ?p ((view s)(b := view s a)) (held s) (pinned s) (disk s) []"
    using put_ok [OF s at(2), of "view s a"] view_ok [OF s] d by simp
  note p1 = eff_post [OF e1]
  have at1: "at ?p i a" "at ?p j b" using eff_at [OF e1] at at_held by auto
  obtain t where t: "wr j ?p = Inr t"
    and e2: "eff ?p t ((view s)(b := view s a)) (held s) (pinned s - {b}) ((disk s)(b := view s a)) [(b, view s a)]"
    using wr_ok [of ?p j b] at1 p1 by auto
  note p2 = eff_post [OF e2]
  have at2: "at t i a" "at t j b" using eff_at [OF e2] at1 at at_held by auto
  obtain u where u: "rel i t = Inr u"
    and e3: "eff t u ((view s)(b := view s a)) (held s - {a}) (pinned s - {b}) ((disk s)(b := view s a)) []"
    using rel_ok [of t i a] at2 p2 src at(3) by auto
  note p3 = eff_post [OF e3]
  have at3: "at u j b" using eff_at [OF e3 at2(2)] at at_held [OF at(2)] by auto
  obtain w where w: "rel j u = Inr w"
    and e4: "eff u w ((view s)(b := view s a)) (held s - {a} - {b}) (pinned s - {b}) ((disk s)(b := view s a)) []"
    using rel_ok [of u j b] at3 p3 by auto
  have "eff s t ((view s)(b := view s a)) (held s) (pinned s - {b}) ((disk s)(b := view s a)) ([] @ [(b, view s a)])"
    by (rule eff_trans [OF e1 e2]) auto
  then have "eff s u ((view s)(b := view s a)) (held s - {a}) (pinned s - {b}) ((disk s)(b := view s a))
      (([] @ [(b, view s a)]) @ [])"
    by (rule eff_trans [OF _ e3]) auto
  then have "eff s w ((view s)(b := view s a)) (held s - {a} - {b}) (pinned s - {b}) ((disk s)(b := view s a))
      ((([] @ [(b, view s a)]) @ []) @ [])"
    by (rule eff_trans [OF _ e4]) auto
  moreover have "held s - {a} - {b} = held s - {a, b}" by auto
  ultimately show ?thesis using t u w by auto
qed

text \<open>Locking two blocks, and the copy of one block to another.\<close>

lemma lock_two:
  assumes "inv s" "okn a" "okn b" "a \<noteq> b" "a \<notin> held s" "b \<notin> held s"
    "card (held s \<union> pinned s) < cap" "card (held s \<union> pinned s) + 1 < cap \<or> b \<in> pinned s"
  shows "\<exists>i t j u. rd a s = Inr (i, t) \<and> rd b t = Inr (j, u) \<and> at u i a \<and> at u j b \<and>
    eff s t (view s) (insert a (held s)) (pinned s) (disk s) [] \<and>
    eff s u (view s) (insert b (insert a (held s))) (pinned s) (disk s) []"
proof -
  obtain i t where t: "rd a s = Inr (i, t)" "at t i a"
    and e1: "eff s t (view s) (insert a (held s)) (pinned s) (disk s) []"
    using rd_ok [OF assms(1,2,5)] assms(7) by blast
  note p1 = eff_post [OF e1]
  have "card (insert a (held s) \<union> pinned s) < cap \<or> b \<in> pinned s"
    using busy_finite [OF assms(1)] assms(8) by (auto simp: card_insert_if)
  then obtain j u where u: "rd b t = Inr (j, u)" "at u j b"
    and e2: "eff t u (view s) (insert b (insert a (held s))) (pinned s) (disk s) []"
    using rd_ok [of t b] assms p1 by auto
  have "at u i a" using eff_at [OF e2 t(2)] by simp
  moreover have "eff s u (view s) (insert b (insert a (held s))) (pinned s) (disk s) ([] @ [])"
    by (rule eff_trans [OF e1 e2]) auto
  ultimately show ?thesis using t u e1 by auto
qed

lemma copy_after_lock:
  assumes e: "eff s u (view s) (insert b (insert a {})) (pinned s) (disk s) []"
    and at: "at u i a" "at u j b" "a \<noteq> b" and src: "a \<in> pinned s \<or> view s a = disk s a" and h: "held s = {}"
  shows "\<exists>t v w. wr j (put j (data u i) u) = Inr t \<and> rel i t = Inr v \<and> rel j v = Inr w \<and>
    eff s w ((view s)(b := view s a)) {} (pinned s - {b}) ((disk s)(b := view s a)) [(b, view s a)]"
proof -
  note p = eff_post [OF e]
  obtain t v w where w: "wr j (put j (data u i) u) = Inr t" "rel i t = Inr v" "rel j v = Inr w"
    and e2: "eff u w ((view s)(b := view s a)) (insert b (insert a {}) - {a, b}) (pinned s - {b})
      ((disk s)(b := view s a)) [(b, view s a)]"
    using copy_locked [of u i a j b] at src p by auto
  have "eff s w ((view s)(b := view s a)) (insert b (insert a {}) - {a, b}) (pinned s - {b})
      ((disk s)(b := view s a)) ([] @ [(b, view s a)])"
    by (rule eff_trans [OF e e2]) (use h in auto)
  moreover have "insert b (insert a {}) - {a, b} = {}" by auto
  ultimately show ?thesis using w by auto
qed

text \<open>Reading a block, changing it and writing it to the disk at once.\<close>

lemma overwrite:
  assumes "inv s" "held s = {}" "okn n" "n \<notin> pinned s" "card (pinned s) < cap"
  shows "\<exists>i t. rd n s = Inr (i, t) \<and> data t i = view s n \<and>
    eff s t (view s) {n} (pinned s) (disk s) [] \<and>
    (okb x \<longrightarrow> (\<exists>u v. wr i (put i x t) = Inr u \<and> rel i u = Inr v \<and>
      eff s v ((view s)(n := x)) {} (pinned s) ((disk s)(n := x)) [(n, x)]))"
proof -
  obtain i t where t: "rd n s = Inr (i, t)" "at t i n" and e1: "eff s t (view s) {n} (pinned s) (disk s) []"
    using rd_ok [OF assms(1,3)] assms by auto
  note p1 = eff_post [OF e1]
  have d: "data t i = view s n" using at_data t(2) p1 by metis
  have "\<exists>u v. wr i (put i x t) = Inr u \<and> rel i u = Inr v \<and>
      eff s v ((view s)(n := x)) {} (pinned s) ((disk s)(n := x)) [(n, x)]" if x: "okb x"
  proof -
    have e2: "eff t (put i x t) ((view s)(n := x)) {n} (pinned s) (disk s) []"
      using put_ok [OF _ t(2) x] p1 by simp
    note p2 = eff_post [OF e2]
    have at2: "at (put i x t) i n" using eff_at [OF e2 t(2)] by simp
    obtain u where u: "wr i (put i x t) = Inr u"
      and e3: "eff (put i x t) u ((view s)(n := x)) {n} (pinned s) ((disk s)(n := x)) [(n, x)]"
      using wr_ok [OF _ at2] p2 assms(4) by auto
    note p3 = eff_post [OF e3]
    have at3: "at u i n" using eff_at [OF e3 at2] by simp
    obtain v where v: "rel i u = Inr v"
      and e4: "eff u v ((view s)(n := x)) {} (pinned s) ((disk s)(n := x)) []"
      using rel_ok [OF _ at3] p3 by auto
    have "eff s (put i x t) ((view s)(n := x)) {n} (pinned s) (disk s) ([] @ [])"
      by (rule eff_trans [OF e1 e2]) auto
    then have "eff s u ((view s)(n := x)) {n} (pinned s) ((disk s)(n := x)) (([] @ []) @ [(n, x)])"
      by (rule eff_trans [OF _ e3]) auto
    then have "eff s v ((view s)(n := x)) {} (pinned s) ((disk s)(n := x)) ((([] @ []) @ [(n, x)]) @ [])"
      by (rule eff_trans [OF _ e4]) auto
    with u v show ?thesis by auto
  qed
  with t d e1 show ?thesis by blast
qed

text \<open>Changing a block in the cache and pinning it.\<close>

lemma modify_pinned:
  assumes s: "inv s" and at: "at s i n" and d: "okb d"
  shows "\<exists>u. rel i (pin i (put i d s)) = Inr u \<and>
    eff s (put i d s) ((view s)(n := d)) (held s) (pinned s) (disk s) [] \<and>
    eff s u ((view s)(n := d)) (held s - {n}) (insert n (pinned s)) (disk s) []"
proof -
  note e1 = put_ok [OF s at d]
  note p1 = eff_post [OF e1]
  have at1: "at (put i d s) i n" using eff_at [OF e1 at at_held [OF at]] .
  have e2: "eff (put i d s) (pin i (put i d s)) ((view s)(n := d)) (held s) (insert n (pinned s)) (disk s) []"
    using pin_ok [OF _ at1] p1 by simp
  note p2 = eff_post [OF e2]
  have at2: "at (pin i (put i d s)) i n" using eff_at [OF e2 at1] at_held [OF at] by simp
  obtain u where u: "rel i (pin i (put i d s)) = Inr u"
    and e3: "eff (pin i (put i d s)) u ((view s)(n := d)) (held s - {n}) (insert n (pinned s)) (disk s) []"
    using rel_ok [OF _ at2] p2 by auto
  have "eff s (pin i (put i d s)) ((view s)(n := d)) (held s) (insert n (pinned s)) (disk s) ([] @ [])"
    by (rule eff_trans [OF e1 e2]) auto
  then have "eff s u ((view s)(n := d)) (held s - {n}) (insert n (pinned s)) (disk s) (([] @ []) @ [])"
    by (rule eff_trans [OF _ e3]) auto
  with u e1 show ?thesis by auto
qed

end

section \<open>The model of \<open>bio.c\<close> keeps the interface\<close>

text \<open>\<open>b->flags |= B_DIRTY\<close>\<close>

definition bpin :: "nat \<Rightarrow> 'a bcache_scheme \<Rightarrow> 'a bcache_scheme" where
  "bpin i s = upd_buf i (\<lambda>b. b\<lparr>b_dirty := True\<rparr>) s"

lemma buf_at_held: "buf_at s i n \<Longrightarrow> n \<in> held s"
  by (auto simp: held_def)

lemma bio_eff_refl: "bio_inv s \<Longrightarrow> bio_eff s s (view s) (held s) (pinned s) (bc_disk s 1) []"
  by (simp add: bio_eff_def bio_frame_def)

lemma bio_eff_post:
  "bio_eff s t v H P d tr \<Longrightarrow> bio_inv t \<and> view t = v \<and> held t = H \<and> pinned t = P \<and> bc_disk t 1 = d"
  by (simp add: bio_eff_def)

lemma bio_eff_at: "bio_eff s t v H P d tr \<Longrightarrow> buf_at s j m \<Longrightarrow> m \<in> H \<Longrightarrow> buf_at t j m"
  by (simp add: bio_eff_def)

lemma bio_eff_trans:
  assumes "bio_eff s t v H P d tr" "bio_eff t u v' H' P' d' tr'" "held s \<inter> H' \<subseteq> H"
  shows "bio_eff s u v' H' P' d' (tr @ tr')"
proof -
  have "buf_at u j m" if "buf_at s j m" "m \<in> H'" for j m
  proof -
    have "m \<in> H" using that buf_at_held assms(3) by blast
    then show ?thesis using that bio_eff_at [OF assms(1)] bio_eff_at [OF assms(2)] by blast
  qed
  with assms show ?thesis by (simp add: bio_eff_def bio_frame_def)
qed

interpretation bc: buffer_cache bio_inv view held pinned "\<lambda>s. bc_disk s 1" buf_at bdata bio_eff "bread 1" bset bpin
  bwrite brelse "\<lambda>n. n < FSSIZE" "\<lambda>b. length b = BSIZE" NBUF
  by unfold_locales
    (fact bio_eff_refl bio_eff_post bio_eff_trans bio_eff_at buf_at_buf(11) buf_at_held view_length view_home
      finite_busy bread_ok bset_ok bpin_ok [folded bpin_def] bwrite_ok brelse_ok | rule finite_busy)+

end
