(* ===== verification/Log.thy ===== *)
theory Log
  imports BufferCache
begin

text \<open>
  The write-ahead log of the file system kernel (\<open>07_xv6_File_System/PartA/log.c\<close>) on top of the
  buffer cache. \<open>log.lh.n\<close> is a C int, the block numbers are kept as the unsigned numbers that they
  are used as. A system call that would sleep in \<open>begin_op\<close> does not return (\<open>Hang\<close>) as long as
  nothing else runs.
\<close>

section \<open>Words in a block\<close>

definition get8 :: "block \<Rightarrow> nat \<Rightarrow> u8" where
  "get8 d i = (if i < length d then d ! i else 0)"

definition get16 :: "block \<Rightarrow> nat \<Rightarrow> 16 word" where
  "get16 d i = or (ucast (get8 d i)) (push_bit 8 (ucast (get8 d (i + 1))))"

definition get32 :: "block \<Rightarrow> nat \<Rightarrow> u32" where
  "get32 d i = or (or (or (ucast (get8 d i)) (push_bit 8 (ucast (get8 d (i + 1)))))
     (push_bit 16 (ucast (get8 d (i + 2))))) (push_bit 24 (ucast (get8 d (i + 3))))"

definition put16 :: "block \<Rightarrow> nat \<Rightarrow> 16 word \<Rightarrow> block" where
  "put16 d i w = (d[i := ucast w])[i + 1 := ucast (drop_bit 8 w)]"

definition put32 :: "block \<Rightarrow> nat \<Rightarrow> u32 \<Rightarrow> block" where
  "put32 d i w = (((d[i := ucast w])[i + 1 := ucast (drop_bit 8 w)])[i + 2 := ucast (drop_bit 16 w)])
     [i + 3 := ucast (drop_bit 24 w)]"

section \<open>State\<close>

definition LOGSIZE :: nat where
  "LOGSIZE = MAXOPBLOCKS * 3"

record superblock =
  sb_size :: u32
  sb_nblocks :: u32
  sb_ninodes :: u32
  sb_nlog :: u32
  sb_logstart :: u32
  sb_inodestart :: u32
  sb_bmapstart :: u32

record klog = bcache +
  lg_start :: u32
  lg_size :: int
  lg_outstanding :: int
  lg_committing :: bool
  lg_dev :: u32
  lg_n :: int
  lg_block :: "u32 list"

text \<open>\<open>log.lh.block[i] = v\<close>\<close>

definition set_block :: "nat \<Rightarrow> u32 \<Rightarrow> 'a klog_scheme \<Rightarrow> 'a klog_scheme res" where
  "set_block i v s =
     (if i < length (lg_block s) then Inr (s\<lparr>lg_block := (lg_block s)[i := v]\<rparr>)
      else Inl (Undefined ''log.lh.block index''))"

abbreviation logdata :: "nat \<Rightarrow> 'a klog_scheme \<Rightarrow> u32" where
  "logdata tail s \<equiv> lg_start s + of_nat tail + 1"

section \<open>Installing, reading and writing the log\<close>

text \<open>One round of the loop of \<open>install_trans\<close>: log block to its home.\<close>

definition install_one :: "nat \<Rightarrow> 'a klog_scheme \<Rightarrow> 'a klog_scheme res" where
  "install_one tail s =
     rbind (bread (lg_dev s) (logdata tail s) s) (\<lambda>(lbuf, s).
     rbind (bread (lg_dev s) (lg_block s ! tail) s) (\<lambda>(dbuf, s).
     rbind (bwrite dbuf (bset dbuf (bdata s lbuf) s)) (\<lambda>s.
     rbind (brelse lbuf s) (brelse dbuf))))"

definition install_trans :: "'a klog_scheme \<Rightarrow> 'a klog_scheme res" where
  "install_trans s = rfold install_one [0..<nat (lg_n s)] s"

definition read_head :: "'a klog_scheme \<Rightarrow> 'a klog_scheme res" where
  "read_head s =
     rbind (bread (lg_dev s) (lg_start s) s) (\<lambda>(buf, s).
       let lh = bdata s buf; s = s\<lparr>lg_n := sint (get32 lh 0)\<rparr> in
     rbind (rfold (\<lambda>i. set_block i (get32 lh (4 + 4 * i))) [0..<nat (lg_n s)] s) (brelse buf))"

text \<open>The header block as \<open>write_head\<close> fills it in; the rest of the block keeps its contents.\<close>

definition head_block :: "int \<Rightarrow> u32 list \<Rightarrow> block \<Rightarrow> block" where
  "head_block n blocks d = fold (\<lambda>i d. put32 d (4 + 4 * i) (blocks ! i)) [0..<nat n] (put32 d 0 (word_of_int n))"

definition write_head :: "'a klog_scheme \<Rightarrow> 'a klog_scheme res" where
  "write_head s =
     rbind (bread (lg_dev s) (lg_start s) s) (\<lambda>(buf, s).
     rbind (bwrite buf (bset buf (head_block (lg_n s) (lg_block s) (bdata s buf)) s)) (brelse buf))"

definition recover_from_log :: "'a klog_scheme \<Rightarrow> 'a klog_scheme res" where
  "recover_from_log s =
     rbind (read_head s) (\<lambda>s.
     rbind (install_trans s) (\<lambda>s.
     write_head (s\<lparr>lg_n := 0\<rparr>)))"

text \<open>The super block (\<open>readsb\<close> in \<open>fs.c\<close>).\<close>

definition superblock_of :: "block \<Rightarrow> superblock" where
  "superblock_of d = \<lparr>sb_size = get32 d 0, sb_nblocks = get32 d 4, sb_ninodes = get32 d 8, sb_nlog = get32 d 12,
     sb_logstart = get32 d 16, sb_inodestart = get32 d 20, sb_bmapstart = get32 d 24\<rparr>"

definition readsb :: "u32 \<Rightarrow> 'a bcache_scheme \<Rightarrow> (superblock \<times> 'a bcache_scheme) res" where
  "readsb dev s =
     rbind (bread dev 1 s) (\<lambda>(bp, s).
       let sb = superblock_of (bdata s bp) in rbind (brelse bp s) (\<lambda>s. Inr (sb, s)))"

definition initlog :: "u32 \<Rightarrow> 'a klog_scheme \<Rightarrow> 'a klog_scheme res" where
  "initlog dev s =
     (if 4 + 4 * LOGSIZE \<ge> BSIZE then Inl (Panic ''initlog: too big logheader'')
      else rbind (readsb dev s) (\<lambda>(sb, s).
        recover_from_log (s\<lparr>lg_start := sb_logstart sb, lg_size := sint (sb_nlog sb), lg_dev := dev\<rparr>)))"

section \<open>Transactions\<close>

definition begin_op :: "'a klog_scheme \<Rightarrow> 'a klog_scheme res" where
  "begin_op s =
     (if lg_committing s then Inl Hang
      else if lg_n s + (lg_outstanding s + 1) * int MAXOPBLOCKS > int LOGSIZE then Inl Hang
      else Inr (s\<lparr>lg_outstanding := lg_outstanding s + 1\<rparr>))"

text \<open>One round of the loop of \<open>write_log\<close>: cached block to its place in the log.\<close>

definition log_one :: "nat \<Rightarrow> 'a klog_scheme \<Rightarrow> 'a klog_scheme res" where
  "log_one tail s =
     rbind (bread (lg_dev s) (logdata tail s) s) (\<lambda>(to, s).
     rbind (bread (lg_dev s) (lg_block s ! tail) s) (\<lambda>(from, s).
     rbind (bwrite to (bset to (bdata s from) s)) (\<lambda>s.
     rbind (brelse from s) (brelse to))))"

definition write_log :: "'a klog_scheme \<Rightarrow> 'a klog_scheme res" where
  "write_log s = rfold log_one [0..<nat (lg_n s)] s"

definition commit :: "'a klog_scheme \<Rightarrow> 'a klog_scheme res" where
  "commit s =
     (if lg_n s > 0
      then rbind (write_log s) (\<lambda>s.
           rbind (write_head s) (\<lambda>s.
           rbind (install_trans s) (\<lambda>s.
           write_head (s\<lparr>lg_n := 0\<rparr>))))
      else Inr s)"

definition end_op :: "'a klog_scheme \<Rightarrow> 'a klog_scheme res" where
  "end_op s =
     (let s = s\<lparr>lg_outstanding := lg_outstanding s - 1\<rparr> in
      if lg_committing s then Inl (Panic ''log.committing'')
      else if lg_outstanding s = 0
      then rbind (commit (s\<lparr>lg_committing := True\<rparr>)) (\<lambda>s. Inr (s\<lparr>lg_committing := False\<rparr>))
      else Inr s)"

text \<open>The index at which \<open>log_write\<close> records the block: where it is already recorded, or the end.\<close>

definition log_index :: "u32 \<Rightarrow> 'a klog_scheme \<Rightarrow> nat" where
  "log_index blockno s = length (takeWhile (\<lambda>b. b \<noteq> blockno) (take (nat (lg_n s)) (lg_block s)))"

definition log_write :: "nat \<Rightarrow> 'a klog_scheme \<Rightarrow> 'a klog_scheme res" where
  "log_write b s =
     (if lg_n s \<ge> int LOGSIZE \<or> lg_n s \<ge> lg_size s - 1 then Inl (Panic ''too big a transaction'')
      else if lg_outstanding s < 1 then Inl (Panic ''log_write outside of trans'')
      else
        let blockno = b_blockno (bc_buf s ! b); i = log_index blockno s in
        rbind (set_block i blockno s) (\<lambda>s.
          Inr (bpin b (if int i = lg_n s then s\<lparr>lg_n := lg_n s + 1\<rparr> else s))))"

end
