(* ===== verification/LogProps.thy ===== *)
theory LogProps
  imports Log
begin

text \<open>
  Correctness of the log: words in blocks round-trip, the effect of each routine on the view, the
  disk and the sequence of disk writes, and the atomicity of a transaction under crashes.
\<close>

section \<open>Words in a block\<close>

lemma put16_length [simp]: "length (put16 d i w) = length d"
  by (simp add: put16_def)

lemma put32_length [simp]: "length (put32 d i w) = length d"
  by (simp add: put32_def)

lemma get8_update: "i < length d \<Longrightarrow> get8 (d[i := v]) j = (if j = i then v else get8 d j)"
  by (auto simp: get8_def nth_list_update)

lemma word16_bytes: "or (ucast (ucast w :: u8)) (push_bit 8 (ucast (ucast (drop_bit 8 w) :: u8))) = (w :: 16 word)"
  by (rule bit_word_eqI) (auto simp: bit_simps dest: bit_imp_le_length)

lemma word32_bytes:
  "or (or (or (ucast (ucast w :: u8)) (push_bit 8 (ucast (ucast (drop_bit 8 w) :: u8))))
     (push_bit 16 (ucast (ucast (drop_bit 16 w) :: u8)))) (push_bit 24 (ucast (ucast (drop_bit 24 w) :: u8))) = (w :: u32)"
proof (rule bit_word_eqI)
  fix n assume "n < LENGTH(32)"
  then consider "n < 8" | "8 \<le> n" "n < 16" | "16 \<le> n" "n < 24" | "24 \<le> n" "n < 32" by fastforce
  then show "bit (or (or (or (ucast (ucast w :: u8)) (push_bit 8 (ucast (ucast (drop_bit 8 w) :: u8))))
     (push_bit 16 (ucast (ucast (drop_bit 16 w) :: u8)))) (push_bit 24 (ucast (ucast (drop_bit 24 w) :: u8))) :: u32) n = bit w n"
    by cases (auto simp: bit_simps)
qed

lemma get16_put16: "i + 1 < length d \<Longrightarrow> get16 (put16 d i w) i = w"
  by (simp add: get16_def put16_def get8_update word16_bytes)

lemma get32_put32: "i + 3 < length d \<Longrightarrow> get32 (put32 d i w) i = w"
  by (simp add: get32_def put32_def get8_update word32_bytes)

lemma get8_put32: "i + 3 < length d \<Longrightarrow> j < i \<or> i + 4 \<le> j \<Longrightarrow> get8 (put32 d i w) j = get8 d j"
  by (auto simp: put32_def get8_update)

lemma get32_put32_other:
  "i + 3 < length d \<Longrightarrow> j + 4 \<le> i \<or> i + 4 \<le> j \<Longrightarrow> get32 (put32 d i w) j = get32 d j"
  by (auto simp: get32_def get8_put32)

lemma get8_put16: "i + 1 < length d \<Longrightarrow> j < i \<or> i + 2 \<le> j \<Longrightarrow> get8 (put16 d i w) j = get8 d j"
  by (auto simp: put16_def get8_update)

lemma fold_put32:
  assumes "4 + 4 * n \<le> length d"
  shows "length (fold (\<lambda>i d. put32 d (4 + 4 * i) (bl ! i)) [0..<n] d) = length d \<and>
    get32 (fold (\<lambda>i d. put32 d (4 + 4 * i) (bl ! i)) [0..<n] d) 0 = get32 d 0 \<and>
    (\<forall>i < n. get32 (fold (\<lambda>i d. put32 d (4 + 4 * i) (bl ! i)) [0..<n] d) (4 + 4 * i) = bl ! i)"
  using assms
proof (induction n)
  case (Suc n)
  then show ?case by (auto simp: get32_put32_other get32_put32 less_Suc_eq)
qed simp

lemma head_block_words:
  assumes "0 \<le> n" "n \<le> int LOGSIZE" "length d = BSIZE"
  shows "length (head_block n bl d) = BSIZE" "sint (get32 (head_block n bl d) 0) = n"
    "\<And>i. i < nat n \<Longrightarrow> get32 (head_block n bl d) (4 + 4 * i) = bl ! i"
proof -
  have len: "4 + 4 * nat n \<le> length (put32 d 0 (word_of_int n))"
    using assms by (simp add: LOGSIZE_def MAXOPBLOCKS_def BSIZE_def)
  note f = fold_put32 [OF len, of bl]
  have "sint (word_of_int n :: u32) = n"
    using assms by (simp add: signed_of_int signed_take_bit_int_eq_self LOGSIZE_def MAXOPBLOCKS_def)
  moreover have "get32 (put32 d 0 (word_of_int n)) 0 = word_of_int n"
    by (rule get32_put32) (use assms in \<open>simp add: BSIZE_def\<close>)
  ultimately show "length (head_block n bl d) = BSIZE" "sint (get32 (head_block n bl d) 0) = n"
    "\<And>i. i < nat n \<Longrightarrow> get32 (head_block n bl d) (4 + 4 * i) = bl ! i"
    using f assms by (simp_all add: head_block_def)
qed

section \<open>Sequences of disk writes\<close>

definition apply_writes :: "('n \<times> 'b) list \<Rightarrow> ('n \<Rightarrow> 'b) \<Rightarrow> 'n \<Rightarrow> 'b" where
  "apply_writes ws d = fold (\<lambda>(n, b) d. d(n := b)) ws d"

lemma apply_writes_Nil [simp]: "apply_writes [] d = d"
  by (simp add: apply_writes_def)

lemma apply_writes_append: "apply_writes (xs @ ys) d = apply_writes ys (apply_writes xs d)"
  by (simp add: apply_writes_def)

lemma apply_writes_one: "apply_writes [(n, b)] d = d(n := b)"
  by (simp add: apply_writes_def)

lemma apply_writes_snoc: "apply_writes (xs @ [(n, b)]) d = (apply_writes xs d)(n := b)"
  by (simp add: apply_writes_def)

lemma apply_writes_other: "n \<notin> fst ` set ws \<Longrightarrow> apply_writes ws d n = d n"
  by (induction ws arbitrary: d) (auto simp: apply_writes_def)

lemma apply_writes_map:
  assumes "distinct (map f [0..<k])" "t < k"
  shows "apply_writes (map (\<lambda>t. (f t, g t)) [0..<k]) d (f t) = g t"
  using assms
proof (induction k)
  case (Suc k)
  show ?case
  proof (cases "t = k")
    case True
    then show ?thesis by (simp add: apply_writes_snoc)
  next
    case False
    with Suc.prems have t: "t < k" by simp
    then have "f t \<in> f ` {0..<k}" by simp
    moreover have "f k \<notin> f ` {0..<k}" using Suc.prems by simp
    ultimately have "f t \<noteq> f k" by metis
    with Suc t show ?thesis by (simp add: apply_writes_snoc)
  qed
qed simp

lemma apply_writes_cong:
  "n \<notin> fst ` set ws \<longrightarrow> d n = d' n \<Longrightarrow> apply_writes ws d n = apply_writes ws d' n"
proof (induction ws rule: rev_induct)
  case (snoc w ws)
  then show ?case by (cases w) (auto simp: apply_writes_snoc)
qed simp

section \<open>The state of the log\<close>

lemma klog_frame:
  assumes "bio_frame s (t :: 'a klog_scheme)"
  shows "lg_start t = lg_start s" "lg_size t = lg_size s" "lg_outstanding t = lg_outstanding s"
    "lg_committing t = lg_committing s" "lg_dev t = lg_dev s" "lg_n t = lg_n s" "lg_block t = lg_block s"
    "klog.more t = klog.more s"
  using assms by (cases s; cases t; simp add: bio_frame_def)+

definition homes :: "'a klog_scheme \<Rightarrow> u32 list" where
  "homes s = take (nat (lg_n s)) (lg_block s)"

definition log_area :: "u32 \<Rightarrow> u32 set" where
  "log_area start = {n. unat start \<le> unat n \<and> unat n \<le> unat start + LOGSIZE}"

definition log_inv :: "'a klog_scheme \<Rightarrow> bool" where
  "log_inv s \<longleftrightarrow> bio_inv s \<and> held s = {} \<and> lg_dev s = 1 \<and> 0 \<le> lg_n s \<and> lg_n s < int NBUF \<and>
     length (lg_block s) = LOGSIZE \<and> distinct (homes s) \<and> pinned s = set (homes s) \<and>
     unat (lg_start s) + LOGSIZE < unat FSSIZE \<and> (\<forall>n \<in> set (homes s). n < FSSIZE \<and> n \<notin> log_area (lg_start s))"

lemma logdata_area:
  assumes "unat start + LOGSIZE < unat FSSIZE" "i < LOGSIZE"
  shows "unat (start + of_nat i + 1) = unat start + i + 1" "start + of_nat i + 1 \<in> log_area start"
    "start + of_nat i + 1 < FSSIZE" "start + of_nat i + 1 \<noteq> start" "start < FSSIZE" "start \<in> log_area start"
proof -
  have f: "unat FSSIZE = 1000" "LOGSIZE = 30" by (simp_all add: FSSIZE_def LOGSIZE_def MAXOPBLOCKS_def)
  have "start + of_nat i + 1 = of_nat (unat start + i + 1)" by simp
  then show u: "unat (start + of_nat i + 1) = unat start + i + 1"
    using assms f by (simp only: unat_of_nat) simp
  show "start + of_nat i + 1 \<in> log_area start" "start + of_nat i + 1 < FSSIZE" "start < FSSIZE" "start \<in> log_area start"
    using u assms f by (auto simp: log_area_def word_less_nat_alt)
  show "start + of_nat i + 1 \<noteq> start" using u by (metis Suc_eq_plus1 add_Suc_right less_irrefl less_add_Suc1)
qed

section \<open>One block of the log\<close>

lemma bio_eff_frame: "bio_eff s t v H P d tr \<Longrightarrow> bio_frame s t"
  by (simp add: bio_eff_def)

lemma log_one_ok:
  assumes s: "bio_inv s" "held s = {}" "lg_dev s = 1"
    and a: "lg_block s ! k < FSSIZE" "lg_block s ! k \<in> pinned s" "card (pinned s) < NBUF"
    and b: "logdata k s < FSSIZE" "logdata k s \<notin> pinned s"
  shows "\<exists>t. log_one k s = Inr t \<and> bio_eff s t ((view s)(logdata k s := view s (lg_block s ! k))) {} (pinned s)
    ((bc_disk s 1)(logdata k s := view s (lg_block s ! k))) [(logdata k s, view s (lg_block s ! k))]"
proof -
  let ?a = "lg_block s ! k" and ?b = "logdata k s"
  have ne: "?b \<noteq> ?a" using a b by auto
  obtain j t i u where r: "bread 1 ?b s = Inr (j, t)" "bread 1 ?a t = Inr (i, u)" "buf_at u j ?b" "buf_at u i ?a"
    and e1: "bio_eff s t (view s) (insert ?b {}) (pinned s) (bc_disk s 1) []"
    and e: "bio_eff s u (view s) (insert ?a (insert ?b {})) (pinned s) (bc_disk s 1) []"
    using bc.lock_two [OF s(1) b(1) a(1) ne] s a by auto
  have e': "bio_eff s u (view s) (insert ?b (insert ?a {})) (pinned s) (bc_disk s 1) []"
    using e by (simp add: insert_commute)
  obtain t' v w where w: "bwrite j (bset j (bdata u i) u) = Inr t'" "brelse i t' = Inr v" "brelse j v = Inr w"
    and eff: "bio_eff s w ((view s)(?b := view s ?a)) {} (pinned s - {?b}) ((bc_disk s 1)(?b := view s ?a)) [(?b, view s ?a)]"
    using bc.copy_after_lock [OF e' r(4,3)] ne a s by auto
  have "pinned s - {?b} = pinned s" using b by auto
  then show ?thesis
    using r w eff klog_frame [OF bio_eff_frame [OF e1]] s by (simp add: log_one_def)
qed

lemma install_one_ok:
  assumes s: "bio_inv s" "held s = {}" "lg_dev s = 1"
    and a: "logdata k s < FSSIZE" "logdata k s \<notin> pinned s"
    and b: "lg_block s ! k < FSSIZE" "lg_block s ! k \<noteq> logdata k s"
    and room: "card (pinned s) < NBUF" "card (pinned s) + 1 < NBUF \<or> lg_block s ! k \<in> pinned s"
  shows "\<exists>t. install_one k s = Inr t \<and> bio_eff s t ((view s)(lg_block s ! k := view s (logdata k s))) {}
    (pinned s - {lg_block s ! k}) ((bc_disk s 1)(lg_block s ! k := view s (logdata k s)))
    [(lg_block s ! k, view s (logdata k s))]"
proof -
  let ?a = "logdata k s" and ?b = "lg_block s ! k"
  obtain i t j u where r: "bread 1 ?a s = Inr (i, t)" "bread 1 ?b t = Inr (j, u)" "buf_at u i ?a" "buf_at u j ?b"
    and e1: "bio_eff s t (view s) (insert ?a {}) (pinned s) (bc_disk s 1) []"
    and e: "bio_eff s u (view s) (insert ?b (insert ?a {})) (pinned s) (bc_disk s 1) []"
    using bc.lock_two [OF s(1) a(1) b(1)] b(2) s room by auto
  have "view s ?a = bc_disk s 1 ?a" using view_home [OF s(1)] s a by simp
  then obtain t' v w where w: "bwrite j (bset j (bdata u i) u) = Inr t'" "brelse i t' = Inr v" "brelse j v = Inr w"
    and eff: "bio_eff s w ((view s)(?b := view s ?a)) {} (pinned s - {?b}) ((bc_disk s 1)(?b := view s ?a)) [(?b, view s ?a)]"
    using bc.copy_after_lock [OF e r(3,4)] b(2) s by auto
  then show ?thesis
    using r klog_frame [OF bio_eff_frame [OF e1]] s by (simp add: install_one_def)
qed

section \<open>The loops and the header\<close>

definition log_writes :: "'a klog_scheme \<Rightarrow> nat \<Rightarrow> (u32 \<times> block) list" where
  "log_writes s k = map (\<lambda>i. (logdata i s, view s (lg_block s ! i))) [0..<k]"

definition install_writes :: "'a klog_scheme \<Rightarrow> nat \<Rightarrow> (u32 \<times> block) list" where
  "install_writes s k = map (\<lambda>i. (lg_block s ! i, view s (logdata i s))) [0..<k]"

definition head_write :: "'a klog_scheme \<Rightarrow> u32 \<times> block" where
  "head_write s = (lg_start s, head_block (lg_n s) (lg_block s) (view s (lg_start s)))"

lemma bio_eff_append:
  "bio_eff s t v {} P d tr \<Longrightarrow> bio_eff t u v' {} P' d' tr' \<Longrightarrow> bio_eff s u v' {} P' d' (tr @ tr')"
  by (rule bio_eff_trans) auto

lemma homes_nth: "i < nat (lg_n s) \<Longrightarrow> nat (lg_n s) \<le> length (lg_block s) \<Longrightarrow> lg_block s ! i \<in> set (homes s)"
  by (auto simp: homes_def in_set_conv_nth intro!: exI [of _ i])

lemma write_log_ok:
  assumes "log_inv s" "k \<le> nat (lg_n s)"
  shows "\<exists>t. rfold log_one [0..<k] s = Inr t \<and>
    bio_eff s t (apply_writes (log_writes s k) (view s)) {} (pinned s) (apply_writes (log_writes s k) (bc_disk s 1)) (log_writes s k)"
  using assms(2)
proof (induction k)
  case 0
  then show ?case using assms bio_eff_refl [of s] by (simp add: log_writes_def log_inv_def)
next
  case (Suc k)
  then obtain t where t: "rfold log_one [0..<k] s = Inr t"
    and e: "bio_eff s t (apply_writes (log_writes s k) (view s)) {} (pinned s)
      (apply_writes (log_writes s k) (bc_disk s 1)) (log_writes s k)" by auto
  have inv: "nat (lg_n s) \<le> length (lg_block s)" "card (pinned s) < NBUF" "k < LOGSIZE"
    using assms(1) Suc.prems card_length [of "homes s"]
    by (auto simp: log_inv_def homes_def LOGSIZE_def NBUF_def nat_less_iff)
  then have home: "lg_block s ! k \<in> set (homes s)" using homes_nth [of k s] Suc.prems by simp
  have area: "logdata i s \<in> log_area (lg_start s)" "logdata i s < FSSIZE" if "i \<le> k" for i
    using logdata_area [of "lg_start s" i] assms(1) inv that by (auto simp: log_inv_def)
  note f = klog_frame [OF bio_eff_frame [OF e]] and p = bio_eff_post [OF e]
  have "lg_block s ! k \<notin> fst ` set (log_writes s k)"
    using area home assms(1) by (auto simp: log_writes_def log_inv_def)
  then have v: "view t (lg_block s ! k) = view s (lg_block s ! k)" using p apply_writes_other by metis
  have out: "logdata k s \<notin> pinned s" using area [of k] assms(1) by (auto simp: log_inv_def)
  have home': "lg_block s ! k \<in> pinned s" "lg_block s ! k < FSSIZE" using home assms(1) by (auto simp: log_inv_def)
  obtain u where u: "log_one k t = Inr u" and e2: "bio_eff t u ((view t)(logdata k s := view s (lg_block s ! k))) {}
      (pinned s) ((bc_disk t 1)(logdata k s := view s (lg_block s ! k))) [(logdata k s, view s (lg_block s ! k))]"
    using log_one_ok [of t k] p f v home' out area [of k] assms(1) inv by (auto simp: log_inv_def)
  have w: "log_writes s (Suc k) = log_writes s k @ [(logdata k s, view s (lg_block s ! k))]"
    by (simp add: log_writes_def)
  have "rfold log_one [0..<Suc k] s = Inr u" using t u by (simp add: rfold_append)
  moreover have "view t = apply_writes (log_writes s k) (view s)" "bc_disk t 1 = apply_writes (log_writes s k) (bc_disk s 1)"
    using p by simp_all
  ultimately show ?case using bio_eff_append [OF e e2] unfolding w apply_writes_snoc by metis
qed

lemma install_ok:
  assumes s: "bio_inv s" "held s = {}" "lg_dev s = 1" and n: "k \<le> nat (lg_n s)" "nat (lg_n s) \<le> LOGSIZE"
    "length (lg_block s) = LOGSIZE" "unat (lg_start s) + LOGSIZE < unat FSSIZE"
    and h: "\<And>n. n \<in> set (homes s) \<Longrightarrow> n < FSSIZE \<and> n \<notin> log_area (lg_start s)" "distinct (homes s)"
    and room: "pinned s = {} \<or> pinned s = set (homes s) \<and> card (pinned s) < NBUF"
  shows "\<exists>t. rfold install_one [0..<k] s = Inr t \<and>
    bio_eff s t (apply_writes (install_writes s k) (view s)) {} (pinned s - set (take k (lg_block s)))
      (apply_writes (install_writes s k) (bc_disk s 1)) (install_writes s k)"
  using n(1)
proof (induction k)
  case 0
  then show ?case using s bio_eff_refl [of s] by (simp add: install_writes_def)
next
  case (Suc k)
  then obtain t where t: "rfold install_one [0..<k] s = Inr t"
    and e: "bio_eff s t (apply_writes (install_writes s k) (view s)) {} (pinned s - set (take k (lg_block s)))
      (apply_writes (install_writes s k) (bc_disk s 1)) (install_writes s k)" by auto
  have len: "k < LOGSIZE" "nat (lg_n s) \<le> length (lg_block s)" using n Suc.prems by auto
  have home: "lg_block s ! i \<in> set (homes s)" if "i \<le> k" for i using homes_nth [of i s] Suc.prems len that by simp
  note area = logdata_area [OF n(4) len(1)]
  note f = klog_frame [OF bio_eff_frame [OF e]] and p = bio_eff_post [OF e]
  have "logdata k s \<notin> fst ` set (install_writes s k)"
    using area home h by (fastforce simp: install_writes_def)
  then have v: "view t (logdata k s) = view s (logdata k s)" using p apply_writes_other by metis
  have k: "lg_block s ! k < FSSIZE" "lg_block s ! k \<noteq> logdata k s" "logdata k s \<notin> pinned s"
    using h(1) [OF home [of k]] area room h(1) by auto
  have "homes s = take (nat (lg_n s)) (lg_block s)" by (simp add: homes_def)
  then have "lg_block s ! k \<notin> set (take k (lg_block s))"
    using h(2) Suc.prems len by (auto simp: in_set_conv_nth distinct_conv_nth)
  then have room': "card (pinned t) < NBUF" "card (pinned t) + 1 < NBUF \<or> lg_block s ! k \<in> pinned t"
    using p room home [of k] card_mono [of "pinned s" "pinned s - set (take k (lg_block s))"] s finite_busy [of s]
    by (auto simp: NBUF_def MAXOPBLOCKS_def)
  obtain u where u: "install_one k t = Inr u" and e2: "bio_eff t u ((view t)(lg_block s ! k := view s (logdata k s))) {}
      (pinned t - {lg_block s ! k}) ((bc_disk t 1)(lg_block s ! k := view s (logdata k s)))
      [(lg_block s ! k, view s (logdata k s))]"
    using install_one_ok [of t k] p f v k area room' s by auto
  have w: "install_writes s (Suc k) = install_writes s k @ [(lg_block s ! k, view s (logdata k s))]"
    by (simp add: install_writes_def)
  have "pinned t - {lg_block s ! k} = pinned s - set (take (Suc k) (lg_block s))"
    using p len n by (auto simp: take_Suc_conv_app_nth)
  moreover have "rfold install_one [0..<Suc k] s = Inr u" using t u by (simp add: rfold_append)
  moreover have "view t = apply_writes (install_writes s k) (view s)"
    "bc_disk t 1 = apply_writes (install_writes s k) (bc_disk s 1)" using p by simp_all
  ultimately show ?case using bio_eff_append [OF e e2] unfolding w apply_writes_snoc by metis
qed

lemma head_block_length: "0 \<le> n \<Longrightarrow> n \<le> int LOGSIZE \<Longrightarrow> length d = BSIZE \<Longrightarrow> length (head_block n bl d) = BSIZE"
  by (rule head_block_words)

lemma write_head_ok:
  assumes "bio_inv s" "held s = {}" "lg_dev s = 1" "0 \<le> lg_n s" "lg_n s \<le> int LOGSIZE" "lg_start s < FSSIZE"
    "lg_start s \<notin> pinned s" "card (pinned s) < NBUF"
  shows "\<exists>t. write_head s = Inr t \<and> bio_eff s t (apply_writes [head_write s] (view s)) {} (pinned s)
    (apply_writes [head_write s] (bc_disk s 1)) [head_write s]"
proof -
  let ?x = "head_block (lg_n s) (lg_block s) (view s (lg_start s))"
  have x: "length ?x = BSIZE" using head_block_length assms view_length by blast
  obtain i t u v where r: "bread 1 (lg_start s) s = Inr (i, t)" "bdata t i = view s (lg_start s)"
      "bwrite i (bset i ?x t) = Inr u" "brelse i u = Inr v"
    and e: "bio_eff s t (view s) {lg_start s} (pinned s) (bc_disk s 1) []"
    and eff: "bio_eff s v ((view s)(lg_start s := ?x)) {} (pinned s) ((bc_disk s 1)(lg_start s := ?x)) [(lg_start s, ?x)]"
    using bc.overwrite [OF assms(1,2,6,7,8), of ?x] x by blast
  then show ?thesis
    using assms klog_frame [OF bio_eff_frame [OF e]] by (simp add: write_head_def head_write_def apply_writes_one)
qed

text \<open>The log's own fields do not matter to the cache.\<close>

definition same_cache :: "'a bcache_scheme \<Rightarrow> 'a bcache_scheme \<Rightarrow> bool" where
  "same_cache s t \<longleftrightarrow> bc_buf t = bc_buf s \<and> bc_order t = bc_order s \<and> bc_disk t = bc_disk s \<and>
     bc_havedisk1 t = bc_havedisk1 s \<and> bc_trace t = bc_trace s \<and> bc_pid t = bc_pid s"

lemma same_cache_abs:
  assumes "same_cache s t"
  shows "bio_inv t = bio_inv s" "view t = view s" "held t = held s" "pinned t = pinned s" "bc_disk t = bc_disk s"
    "bc_trace t = bc_trace s" "buf_at t i n = buf_at s i n" "bdata t i = bdata s i"
proof -
  have c: "caches t = caches s" using assms by (auto simp: fun_eq_iff caches_def same_cache_def)
  show "view t = view s" by (rule ext) (use assms c in \<open>simp add: view_def slot_def same_cache_def split: option.split\<close>)
  show "held t = held s" "pinned t = pinned s" "buf_at t i n = buf_at s i n"
    using assms c by (simp_all add: held_def buf_at_def pinned_def same_cache_def)
  show "bio_inv t = bio_inv s" using assms c by (simp add: bio_inv_def buf_ok_def same_cache_def)
qed (use assms in \<open>simp_all add: same_cache_def\<close>)

lemma same_cache_log [simp]:
  "same_cache s (s\<lparr>lg_n := n\<rparr>)" "same_cache s (s\<lparr>lg_committing := c\<rparr>)" "same_cache s (s\<lparr>lg_outstanding := k\<rparr>)"
  "same_cache s (s\<lparr>lg_block := bl\<rparr>)"
  by (simp_all add: same_cache_def)

lemmas log_upd_abs [simp] = same_cache_log [THEN same_cache_abs(1)] same_cache_log [THEN same_cache_abs(2)]
  same_cache_log [THEN same_cache_abs(3)] same_cache_log [THEN same_cache_abs(4)]
  same_cache_log [THEN same_cache_abs(7)]

section \<open>Commit\<close>

text \<open>The disk writes of a commit, in their order.\<close>

definition commit_head :: "'a klog_scheme \<Rightarrow> block" where
  "commit_head s = head_block (lg_n s) (lg_block s) (view s (lg_start s))"

definition commit_writes :: "'a klog_scheme \<Rightarrow> (u32 \<times> block) list" where
  "commit_writes s =
     log_writes s (nat (lg_n s)) @ [(lg_start s, commit_head s)] @
     map (\<lambda>i. (lg_block s ! i, view s (lg_block s ! i))) [0..<nat (lg_n s)] @
     [(lg_start s, head_block 0 (lg_block s) (commit_head s))]"

lemma log_inv_room:
  assumes "log_inv s"
  shows "nat (lg_n s) \<le> LOGSIZE" "nat (lg_n s) \<le> length (lg_block s)" "card (pinned s) < NBUF"
    "lg_n s \<le> int LOGSIZE" "lg_start s < FSSIZE" "lg_start s \<notin> pinned s"
    "\<And>i. i < nat (lg_n s) \<Longrightarrow> logdata i s \<in> log_area (lg_start s)"
    "\<And>i. i < nat (lg_n s) \<Longrightarrow> logdata i s \<noteq> lg_start s"
    "\<And>i. i < nat (lg_n s) \<Longrightarrow> lg_block s ! i \<in> set (homes s)"
proof -
  show b: "nat (lg_n s) \<le> LOGSIZE" "nat (lg_n s) \<le> length (lg_block s)" "card (pinned s) < NBUF" "lg_n s \<le> int LOGSIZE"
    using assms card_length [of "homes s"]
    by (auto simp: log_inv_def homes_def LOGSIZE_def NBUF_def nat_less_iff)
  show "lg_start s < FSSIZE" "lg_start s \<notin> pinned s"
    using assms logdata_area(5,6) [of "lg_start s" 0] by (auto simp: log_inv_def LOGSIZE_def MAXOPBLOCKS_def)
  show "logdata i s \<in> log_area (lg_start s)" "logdata i s \<noteq> lg_start s" if "i < nat (lg_n s)" for i
    using logdata_area(2,4) [of "lg_start s" i] assms that b by (auto simp: log_inv_def)
  show "lg_block s ! i \<in> set (homes s)" if "i < nat (lg_n s)" for i using homes_nth that b by blast
qed

lemma logdata_inj:
  assumes "log_inv s"
  shows "distinct (map (\<lambda>i. logdata i s) [0..<nat (lg_n s)])"
proof -
  have "unat (logdata i s) = unat (lg_start s) + i + 1" if "i < nat (lg_n s)" for i
    using logdata_area(1) [of "lg_start s" i] assms that log_inv_room(1) [OF assms] by (auto simp: log_inv_def)
  then have "inj_on (\<lambda>i. logdata i s) {0..<nat (lg_n s)}"
    by (intro inj_on_inverseI [where g = "\<lambda>w. unat w - unat (lg_start s) - 1"]) auto
  then show ?thesis by (simp add: distinct_map)
qed

lemma view_after_log:
  assumes "log_inv s" "i < nat (lg_n s)"
  shows "apply_writes (log_writes s (nat (lg_n s))) d (logdata i s) = view s (lg_block s ! i)"
  unfolding log_writes_def by (rule apply_writes_map [OF logdata_inj [OF assms(1)] assms(2)])

lemma other_after_log:
  assumes "log_inv s" "k \<le> nat (lg_n s)" "b \<notin> log_area (lg_start s)"
  shows "apply_writes (log_writes s k) d b = d b"
  by (rule apply_writes_other) (use log_inv_room(7) [OF assms(1)] assms(2,3) in \<open>auto simp: log_writes_def\<close>)

lemma start_after_log:
  assumes "log_inv s" "k \<le> nat (lg_n s)"
  shows "apply_writes (log_writes s k) d (lg_start s) = d (lg_start s)"
  by (rule apply_writes_other) (use log_inv_room(8) [OF assms(1)] assms(2) in \<open>force simp: log_writes_def\<close>)

lemma homes_map: "nat (lg_n s) \<le> length (lg_block s) \<Longrightarrow> map (\<lambda>i. lg_block s ! i) [0..<nat (lg_n s)] = homes s"
  by (auto simp: homes_def intro!: nth_equalityI)

lemma commit_ok:
  assumes "log_inv s" "0 < lg_n s"
  shows "\<exists>t. commit s = Inr t \<and> log_inv t \<and> lg_n t = 0 \<and> bc_trace t = bc_trace s @ commit_writes s \<and>
    view t = apply_writes (commit_writes s) (view s) \<and> bc_disk t 1 = apply_writes (commit_writes s) (bc_disk s 1) \<and>
    bc_pid t = bc_pid s \<and> lg_start t = lg_start s \<and> lg_size t = lg_size s \<and> lg_outstanding t = lg_outstanding s \<and>
    lg_committing t = lg_committing s \<and> klog.more t = klog.more s"
proof -
  let ?n = "nat (lg_n s)"
  note room = log_inv_room [OF assms(1)]
  have inv: "bio_inv s" "held s = {}" "lg_dev s = 1" "0 \<le> lg_n s" "length (lg_block s) = LOGSIZE" "distinct (homes s)"
    "pinned s = set (homes s)" "unat (lg_start s) + LOGSIZE < unat FSSIZE"
    and home: "\<And>n. n \<in> set (homes s) \<Longrightarrow> n < FSSIZE \<and> n \<notin> log_area (lg_start s)"
    using assms(1) by (auto simp: log_inv_def)
  obtain s1 where w1: "write_log s = Inr s1" and e1: "bio_eff s s1 (apply_writes (log_writes s ?n) (view s)) {} (pinned s)
      (apply_writes (log_writes s ?n) (bc_disk s 1)) (log_writes s ?n)"
    using write_log_ok [OF assms(1), of ?n] by (auto simp: write_log_def)
  note f1 = klog_frame [OF bio_eff_frame [OF e1]] and p1 = bio_eff_post [OF e1]
  have st: "view s1 (lg_start s) = view s (lg_start s)" using start_after_log [OF assms(1)] p1 by simp
  have h1: "head_write s1 = (lg_start s, commit_head s)" using f1 st by (simp add: head_write_def commit_head_def)
  obtain s2 where w2: "write_head s1 = Inr s2"
    and e2: "bio_eff s1 s2 (apply_writes [head_write s1] (view s1)) {} (pinned s1)
      (apply_writes [head_write s1] (bc_disk s1 1)) [head_write s1]"
    using write_head_ok [of s1] p1 f1 inv room by auto
  note f2 = klog_frame [OF bio_eff_frame [OF e2]] and p2 = bio_eff_post [OF e2]
  have v2: "view s2 (logdata i s) = view s (lg_block s ! i)" if "i < ?n" for i
    using view_after_log [OF assms(1) that] p1 p2 room(8) [OF that] h1 by (simp add: apply_writes_one)
  have iw: "install_writes s2 ?n = map (\<lambda>i. (lg_block s ! i, view s (lg_block s ! i))) [0..<?n]"
    using v2 f1 f2 by (auto simp: install_writes_def)
  have hs: "homes s2 = homes s" using f1 f2 by (simp add: homes_def)
  obtain s3 where w3: "rfold install_one [0..<?n] s2 = Inr s3"
    and e3: "bio_eff s2 s3 (apply_writes (install_writes s2 ?n) (view s2)) {} (pinned s2 - set (take ?n (lg_block s2)))
      (apply_writes (install_writes s2 ?n) (bc_disk s2 1)) (install_writes s2 ?n)"
    using install_ok [of s2 ?n] p1 p2 f1 f2 hs inv room home by auto
  note f3 = klog_frame [OF bio_eff_frame [OF e3]] and p3 = bio_eff_post [OF e3]
  have pin3: "pinned s3 = {}" using p1 p2 p3 f1 f2 inv by (simp add: homes_def)
  have a4: "bio_inv s3" "held s3 = {}" using p3 by auto
  have g3: "lg_dev s3 = 1" "lg_start s3 = lg_start s" using f1 f2 f3 inv by auto
  let ?s4 = "s3\<lparr>lg_n := 0\<rparr>"
  have "lg_start s \<notin> fst ` set (install_writes s2 ?n)"
  proof
    assume "lg_start s \<in> fst ` set (install_writes s2 ?n)"
    then obtain i where "i < ?n" "lg_start s = lg_block s ! i" by (auto simp: iw)
    then have "lg_start s \<in> set (homes s)" using room(9) by metis
    then have "lg_start s \<notin> log_area (lg_start s)" using home by blast
    then show False by (simp add: log_area_def)
  qed
  then have st3: "view s3 (lg_start s) = commit_head s"
    using p3 apply_writes_other p2 p1 h1 by (metis apply_writes_one fun_upd_same)
  have h4: "head_write ?s4 = (lg_start s, head_block 0 (lg_block s) (commit_head s))"
    using f1 f2 f3 st3 by (simp add: head_write_def)
  obtain t where w4: "write_head ?s4 = Inr t"
    and e4: "bio_eff ?s4 t (apply_writes [head_write ?s4] (view s3)) {} (pinned s3)
      (apply_writes [head_write ?s4] (bc_disk s3 1)) [head_write ?s4]"
    using write_head_ok [of ?s4] a4 g3 room(5) pin3 by (auto simp: NBUF_def MAXOPBLOCKS_def)
  note f4 = klog_frame [OF bio_eff_frame [OF e4]] and p4 = bio_eff_post [OF e4]
  have "commit s = Inr t" using assms(2) w1 w2 w3 w4 f1 f2 by (simp add: commit_def install_trans_def)
  moreover have "log_inv t" "lg_n t = 0"
    using p4 f1 f2 f3 f4 inv pin3 by (auto simp: log_inv_def homes_def NBUF_def MAXOPBLOCKS_def)
  moreover have "bc_trace t = bc_trace s @ commit_writes s"
    using e1 e2 e3 e4 h1 h4 iw by (simp add: bio_eff_def commit_writes_def)
  moreover have "view t = apply_writes (commit_writes s) (view s)" "bc_disk t 1 = apply_writes (commit_writes s) (bc_disk s 1)"
    using p1 p2 p3 p4 h1 h4 iw by (simp_all add: commit_writes_def apply_writes_def)
  moreover have "bc_pid t = bc_pid s" using e1 e2 e3 e4 by (simp add: bio_eff_def bio_frame_def)
  ultimately show ?thesis using f1 f2 f3 f4 by simp
qed

section \<open>Recovery\<close>

lemma set_blocks:
  assumes "k \<le> length (lg_block s)"
  shows "\<exists>bl. rfold (\<lambda>i. set_block i (g i)) [0..<k] s = Inr (s\<lparr>lg_block := bl\<rparr>) \<and> length bl = length (lg_block s) \<and>
    (\<forall>i < k. bl ! i = g i)"
  using assms
proof (induction k)
  case 0
  then show ?case by (intro exI [of _ "lg_block s"]) simp
next
  case (Suc k)
  then obtain bl where "rfold (\<lambda>i. set_block i (g i)) [0..<k] s = Inr (s\<lparr>lg_block := bl\<rparr>)"
    "length bl = length (lg_block s)" "\<forall>i < k. bl ! i = g i" by auto
  moreover from this have "set_block k (g k) (s\<lparr>lg_block := bl\<rparr>) = Inr (s\<lparr>lg_block := bl[k := g k]\<rparr>)"
    using Suc.prems by (simp add: set_block_def)
  ultimately show ?case using Suc.prems
    by (intro exI [of _ "bl[k := g k]"]) (auto simp: rfold_append nth_list_update less_Suc_eq)
qed

text \<open>The header on a disk: the number of committed blocks and their home addresses.\<close>

definition head_n :: "block \<Rightarrow> int" where
  "head_n d = sint (get32 d 0)"

definition head_home :: "block \<Rightarrow> nat \<Rightarrow> u32" where
  "head_home d i = get32 d (4 + 4 * i)"

definition head_ok :: "u32 \<Rightarrow> block \<Rightarrow> bool" where
  "head_ok start d \<longleftrightarrow> 0 \<le> head_n d \<and> head_n d \<le> int LOGSIZE \<and> distinct (map (head_home d) [0..<nat (head_n d)]) \<and>
     (\<forall>i < nat (head_n d). head_home d i < FSSIZE \<and> head_home d i \<notin> log_area start)"

text \<open>A freshly booted kernel: empty cache, the log's place known.\<close>

definition booted :: "u32 \<Rightarrow> (u32 \<Rightarrow> block) \<Rightarrow> 'a klog_scheme \<Rightarrow> bool" where
  "booted start d r \<longleftrightarrow> bio_inv r \<and> held r = {} \<and> pinned r = {} \<and> bc_disk r 1 = d \<and> lg_dev r = 1 \<and> lg_start r = start \<and>
     length (lg_block r) = LOGSIZE \<and> unat start + LOGSIZE < unat FSSIZE"

definition recovery_writes :: "u32 \<Rightarrow> (u32 \<Rightarrow> block) \<Rightarrow> (u32 \<times> block) list" where
  "recovery_writes start d = map (\<lambda>i. (head_home (d start) i, d (start + of_nat i + 1))) [0..<nat (head_n (d start))]"

lemma read_head_ok:
  assumes "booted start d r" "head_ok start (d start)"
  shows "\<exists>t. read_head r = Inr t \<and> booted start d t \<and> lg_n t = head_n (d start) \<and>
    (\<forall>i < nat (lg_n t). lg_block t ! i = head_home (d start) i)"
proof -
  have b: "bio_inv r" "held r = {}" "pinned r = {}" "bc_disk r 1 = d" "lg_dev r = 1" "lg_start r = start"
    "length (lg_block r) = LOGSIZE" "unat start + LOGSIZE < unat FSSIZE" using assms(1) by (auto simp: booted_def)
  have v: "view r = d" using view_home [OF b(1)] b by auto
  have st: "start < FSSIZE" using logdata_area(5) [OF b(8), of 0] by (simp add: LOGSIZE_def MAXOPBLOCKS_def)
  obtain i t where t: "bread 1 start r = Inr (i, t)" "buf_at t i start"
    and e: "bio_eff r t (view r) {start} {} (bc_disk r 1) []"
    using bc.rd_ok [OF b(1) st] b by (auto simp: NBUF_def MAXOPBLOCKS_def)
  note f = klog_frame [OF bio_eff_frame [OF e]] and p = bio_eff_post [OF e]
  have dt: "bdata t i = d start" using buf_at_buf(11) [OF _ t(2)] p v by metis
  let ?t1 = "t\<lparr>lg_n := head_n (d start)\<rparr>"
  have len: "length (lg_block ?t1) = LOGSIZE" using f b by simp
  then have le: "nat (head_n (d start)) \<le> length (lg_block ?t1)" using assms(2) by (simp add: head_ok_def nat_le_iff)
  obtain bl where bl: "rfold (\<lambda>i. set_block i (get32 (d start) (4 + 4 * i))) [0..<nat (head_n (d start))] ?t1
      = Inr (?t1\<lparr>lg_block := bl\<rparr>)" "length bl = LOGSIZE" "\<forall>i < nat (head_n (d start)). bl ! i = head_home (d start) i"
    using set_blocks [OF le, of "\<lambda>i. get32 (d start) (4 + 4 * i)"] len unfolding head_home_def by metis
  let ?t2 = "?t1\<lparr>lg_block := bl\<rparr>"
  have at2: "buf_at ?t2 i start" using t(2) by simp
  have p2: "bio_inv ?t2" "view ?t2 = d" "held ?t2 = {start}" "pinned ?t2 = {}" "bc_disk ?t2 1 = d" using p v b by simp_all
  obtain u where u: "brelse i ?t2 = Inr u" and e2: "bio_eff ?t2 u (view ?t2) (held ?t2 - {start}) (pinned ?t2) (bc_disk ?t2 1) []"
    using bc.rel_ok [OF p2(1) at2] p2 by auto
  note g = klog_frame [OF bio_eff_frame [OF e2]] and q = bio_eff_post [OF e2]
  have "read_head r = Inr u"
    using t dt b bl(1) u by (simp add: read_head_def head_n_def)
  moreover have "booted start d u" using q g p2 f b bl(2) by (simp add: booted_def)
  ultimately show ?thesis using g bl(3) by simp
qed

lemma recover_ok:
  assumes "booted start d r" "head_ok start (d start)"
  shows "\<exists>t b0. recover_from_log r = Inr t \<and> bio_inv t \<and> held t = {} \<and> pinned t = {} \<and> lg_n t = 0 \<and>
    head_n b0 = 0 \<and> bc_disk t 1 = (apply_writes (recovery_writes start d) d)(start := b0)"
proof -
  obtain s where s: "read_head r = Inr s" "booted start d s" "lg_n s = head_n (d start)"
    and bl: "\<And>i. i < nat (lg_n s) \<Longrightarrow> lg_block s ! i = head_home (d start) i"
    using read_head_ok [OF assms] by blast
  have b: "bio_inv s" "held s = {}" "pinned s = {}" "bc_disk s 1 = d" "lg_dev s = 1" "lg_start s = start"
    "length (lg_block s) = LOGSIZE" "unat start + LOGSIZE < unat FSSIZE" using s(2) by (auto simp: booted_def)
  have v: "view s = d" using view_home [OF b(1)] b by auto
  have n: "nat (lg_n s) \<le> LOGSIZE" "0 \<le> lg_n s" using assms(2) s(3) by (auto simp: head_ok_def)
  have hm: "homes s = map (head_home (d start)) [0..<nat (head_n (d start))]"
    using homes_map [of s] n b bl s(3) by (auto intro!: nth_equalityI simp: homes_def)
  have iw: "install_writes s (nat (lg_n s)) = recovery_writes start d"
    using bl s(3) v b by (auto simp: install_writes_def recovery_writes_def)
  have home: "x < FSSIZE \<and> x \<notin> log_area (lg_start s)" if "x \<in> set (homes s)" for x
    using that assms(2) b by (auto simp: hm head_ok_def)
  have dist: "distinct (homes s)" using assms(2) by (simp add: hm head_ok_def)
  obtain t where t: "rfold install_one [0..<nat (lg_n s)] s = Inr t"
    and e: "bio_eff s t (apply_writes (recovery_writes start d) d) {} {} (apply_writes (recovery_writes start d) d)
      (recovery_writes start d)"
    using install_ok [of s "nat (lg_n s)"] home dist b n iw v by auto
  note f = klog_frame [OF bio_eff_frame [OF e]] and p = bio_eff_post [OF e]
  let ?t = "t\<lparr>lg_n := 0\<rparr>"
  have st: "start < FSSIZE" using logdata_area(5) [OF b(8), of 0] by (simp add: LOGSIZE_def MAXOPBLOCKS_def)
  obtain u where u: "write_head ?t = Inr u"
    and e2: "bio_eff ?t u (apply_writes [head_write ?t] (view ?t)) {} (pinned ?t)
      (apply_writes [head_write ?t] (bc_disk ?t 1)) [head_write ?t]"
    using write_head_ok [of ?t] p f b st by (auto simp: NBUF_def MAXOPBLOCKS_def)
  note g = klog_frame [OF bio_eff_frame [OF e2]] and q = bio_eff_post [OF e2]
  let ?b0 = "snd (head_write ?t)"
  have len: "length (view t start) = BSIZE" using view_length p by blast
  then have "head_n ?b0 = 0" using head_block_words(2) [of 0 "view t start" "lg_block t"] f b
    by (simp add: head_n_def head_write_def LOGSIZE_def)
  moreover have "recover_from_log r = Inr u"
    using s(1) t u by (simp add: recover_from_log_def install_trans_def)
  moreover have "bc_disk u 1 = (apply_writes (recovery_writes start d) d)(start := ?b0)"
    using q p f b by (simp add: apply_writes_def head_write_def)
  ultimately show ?thesis using q g p by auto
qed

section \<open>Crashes during a commit\<close>

definition home_writes :: "'a klog_scheme \<Rightarrow> (u32 \<times> block) list" where
  "home_writes s = map (\<lambda>i. (lg_block s ! i, view s (lg_block s ! i))) [0..<nat (lg_n s)]"

lemma commit_writes_homes:
  "commit_writes s = log_writes s (nat (lg_n s)) @ [(lg_start s, commit_head s)] @ home_writes s @
     [(lg_start s, head_block 0 (lg_block s) (commit_head s))]"
  by (simp add: commit_writes_def home_writes_def)

lemma home_writes_keys:
  assumes "log_inv s"
  shows "fst ` set (home_writes s) = set (homes s)"
proof -
  have "map fst (home_writes s) = homes s"
    using homes_map [OF log_inv_room(2) [OF assms]] by (simp add: home_writes_def comp_def)
  then show ?thesis by (metis list.set_map)
qed

lemma home_prefix_other:
  assumes "log_inv s" "c \<notin> set (homes s)"
  shows "apply_writes (take j (home_writes s)) d c = d c"
proof (rule apply_writes_other)
  have "fst ` set (take j (home_writes s)) \<subseteq> set (homes s)"
    unfolding home_writes_keys [OF assms(1), symmetric] by (rule image_mono) (rule set_take_subset)
  with assms(2) show "c \<notin> fst ` set (take j (home_writes s))" by blast
qed

lemma home_writes_final:
  assumes "log_inv s" "\<And>b. b \<notin> set (homes s) \<Longrightarrow> b \<notin> log_area (lg_start s) \<Longrightarrow> d b = bc_disk s 1 b" "b \<notin> log_area (lg_start s)"
  shows "apply_writes (home_writes s) d b = view s b"
proof (cases "b \<in> set (homes s)")
  case True
  then have "b \<in> set (map (\<lambda>i. lg_block s ! i) [0..<nat (lg_n s)])"
    using homes_map [OF log_inv_room(2) [OF assms(1)]] by metis
  then obtain i where i: "i < nat (lg_n s)" "b = lg_block s ! i" by auto
  have "distinct (map (\<lambda>i. lg_block s ! i) [0..<nat (lg_n s)])"
    using homes_map [OF log_inv_room(2) [OF assms(1)]] assms(1) by (simp add: log_inv_def)
  then show ?thesis
    using i apply_writes_map [of "\<lambda>i. lg_block s ! i" "nat (lg_n s)" i "\<lambda>i. view s (lg_block s ! i)" d]
    by (simp add: home_writes_def)
next
  case False
  then have "apply_writes (home_writes s) d b = d b" using home_writes_keys [OF assms(1)] by (intro apply_writes_other) simp
  also have "\<dots> = bc_disk s 1 b" using assms(2) False assms(3) .
  also have "\<dots> = view s b" using view_home [of s b] False assms(1) by (simp add: log_inv_def)
  finally show ?thesis .
qed

lemma commit_head_words:
  assumes "log_inv s"
  shows "head_n (commit_head s) = lg_n s" "\<And>i. i < nat (lg_n s) \<Longrightarrow> head_home (commit_head s) i = lg_block s ! i"
    "length (commit_head s) = BSIZE" "head_n (head_block 0 (lg_block s) (commit_head s)) = 0"
proof -
  have v: "length (view s (lg_start s)) = BSIZE" using view_length assms by (auto simp: log_inv_def)
  have n: "0 \<le> lg_n s" "lg_n s \<le> int LOGSIZE" using assms log_inv_room(4) by (auto simp: log_inv_def)
  note h = head_block_words [OF n v, where bl = "lg_block s"]
  show "head_n (commit_head s) = lg_n s" "\<And>i. i < nat (lg_n s) \<Longrightarrow> head_home (commit_head s) i = lg_block s ! i"
    "length (commit_head s) = BSIZE"
    using h by (simp_all add: head_n_def head_home_def commit_head_def)
  then show "head_n (head_block 0 (lg_block s) (commit_head s)) = 0"
    using head_block_words(2) [of 0 "commit_head s" "lg_block s"] by (simp add: head_n_def LOGSIZE_def)
qed

lemma commit_head_ok:
  assumes "log_inv s"
  shows "head_ok (lg_start s) (commit_head s)"
proof -
  note h = commit_head_words [OF assms] and room = log_inv_room [OF assms]
  have "map (head_home (commit_head s)) [0..<nat (lg_n s)] = homes s"
    using homes_map [OF room(2)] h(2) by (metis (no_types, lifting) atLeastLessThan_iff map_cong set_upt)
  then show ?thesis
    using h room assms by (auto simp: head_ok_def log_inv_def)
qed

text \<open>What recovery leaves of the disk of a commit that stopped after \<open>k\<close> writes.\<close>

lemma recovered_disk:
  assumes s: "log_inv s" "head_n (bc_disk s 1 (lg_start s)) = 0" and k: "k \<le> length (commit_writes s)"
    and d: "d = apply_writes (take k (commit_writes s)) (bc_disk s 1)" and b: "b \<notin> log_area (lg_start s)"
  shows "head_ok (lg_start s) (d (lg_start s))"
    "apply_writes (recovery_writes (lg_start s) d) d b = (if k \<le> nat (lg_n s) then bc_disk s 1 b else view s b)"
proof -
  let ?n = "nat (lg_n s)" and ?st = "lg_start s"
  note h = commit_head_words [OF s(1)] and room = log_inv_room [OF s(1)]
  have zero: "head_ok ?st x \<and> recovery_writes ?st e = []" if "head_n x = 0" "x = e ?st" for x e
    using that by (simp add: head_ok_def recovery_writes_def)
  have len: "length (log_writes s ?n) = ?n" "length (home_writes s) = ?n" by (simp_all add: log_writes_def home_writes_def)
  have st_home: "?st \<notin> set (homes s)" using room(6) s(1) by (simp add: log_inv_def)
  have other: "apply_writes (log_writes s ?n @ [(?st, commit_head s)]) (bc_disk s 1) c = bc_disk s 1 c"
    if "c \<notin> log_area ?st" for c
    using other_after_log [OF s(1) _ that, of ?n] that by (auto simp: apply_writes_snoc log_area_def)
  consider (before) "k \<le> ?n" | (during) j where "k = ?n + 1 + j" "j \<le> ?n" | (after) "k = 2 * ?n + 2"
  proof -
    have "length (commit_writes s) = 2 * ?n + 2" by (simp add: commit_writes_homes len)
    then have "k \<le> ?n \<or> k = ?n + 1 + (k - ?n - 1) \<and> k - ?n - 1 \<le> ?n \<or> k = 2 * ?n + 2" using k by linarith
    then show ?thesis using before during after by blast
  qed
  then have "head_ok ?st (d ?st) \<and>
    apply_writes (recovery_writes ?st d) d b = (if k \<le> ?n then bc_disk s 1 b else view s b)"
  proof cases
    case before
    then have "take k (commit_writes s) = log_writes s k" by (simp add: commit_writes_homes len) (simp add: log_writes_def take_map)
    then have d: "d = apply_writes (log_writes s k) (bc_disk s 1)" using d by simp
    then have "d ?st = bc_disk s 1 ?st" "d b = bc_disk s 1 b"
      using start_after_log [OF s(1) before] other_after_log [OF s(1) before b] by simp_all
    then show ?thesis using zero [of "d ?st" d] s(2) before by simp
  next
    case during
    let ?d0 = "apply_writes (log_writes s ?n @ [(?st, commit_head s)]) (bc_disk s 1)"
    have "take k (commit_writes s) = (log_writes s ?n @ [(?st, commit_head s)]) @ take j (home_writes s)"
      using during by (simp add: commit_writes_homes len)
    then have d: "d = apply_writes (take j (home_writes s)) ?d0" using d by (simp only: apply_writes_append)
    have "d ?st = ?d0 ?st" unfolding d by (rule home_prefix_other [OF s(1) st_home])
    then have st: "d ?st = commit_head s" by (simp add: apply_writes_snoc)
    have "d (logdata i s) = view s (lg_block s ! i)" if "i < ?n" for i
    proof -
      have "logdata i s \<notin> set (homes s)" using room(7) [OF that] s(1) by (auto simp: log_inv_def)
      then have "d (logdata i s) = ?d0 (logdata i s)" unfolding d by (rule home_prefix_other [OF s(1)])
      then show ?thesis using view_after_log [OF s(1) that] room(8) [OF that] by (simp add: apply_writes_snoc)
    qed
    then have "recovery_writes ?st d = home_writes s"
      using st h by (auto simp: recovery_writes_def home_writes_def)
    moreover have "apply_writes (home_writes s) d b = view s b"
    proof (rule home_writes_final [OF s(1) _ b])
      fix c assume c: "c \<notin> set (homes s)" "c \<notin> log_area ?st"
      from c(1) have "d c = ?d0 c" unfolding d by (rule home_prefix_other [OF s(1)])
      then show "d c = bc_disk s 1 c" using other c by simp
    qed
    ultimately show ?thesis using st commit_head_ok [OF s(1)] during by simp
  next
    case after
    let ?d0 = "apply_writes (log_writes s ?n @ [(?st, commit_head s)]) (bc_disk s 1)"
    let ?h0 = "head_block 0 (lg_block s) (commit_head s)"
    have "take k (commit_writes s) = ((log_writes s ?n @ [(?st, commit_head s)]) @ home_writes s) @ [(?st, ?h0)]"
      using after by (simp add: commit_writes_homes len)
    then have d: "d = (apply_writes (home_writes s) ?d0)(?st := ?h0)"
      using d by (simp only: apply_writes_append apply_writes_one)
    then have "head_ok ?st (d ?st) \<and> recovery_writes ?st d = []" using zero [of "d ?st" d] h(4) by simp
    moreover have "d b = view s b"
      using d b home_writes_final [OF s(1) other b] by (auto simp: log_area_def)
    ultimately show ?thesis using after by simp
  qed
  then show "head_ok ?st (d ?st)"
    "apply_writes (recovery_writes ?st d) d b = (if k \<le> ?n then bc_disk s 1 b else view s b)" by auto
qed

end
