(* ===== verification/LogResults.thy ===== *)
theory LogResults
  imports LogProps
begin

text \<open>
  The results on the buffer cache and the log: reads through the cache, atomicity of a commit under
  crashes, and the reservation of log space by the file system calls that are in progress.
\<close>

section \<open>Concurrent file system calls\<close>

text \<open>
  The calls in progress, each with the number of blocks it has logged: \<open>begin_op\<close>, \<open>log_write\<close> (at
  most \<open>MAXOPBLOCKS\<close> times per call) and \<open>end_op\<close> in any order of the processes.
\<close>

inductive op_step :: "'a klog_scheme \<times> (nat \<rightharpoonup> nat) \<Rightarrow> 'a klog_scheme \<times> (nat \<rightharpoonup> nat) \<Rightarrow> bool" where
  op_begin: "ops p = None \<Longrightarrow> begin_op s = Inr t \<Longrightarrow> op_step (s, ops) (t, ops(p \<mapsto> 0))"
| op_write: "ops p = Some k \<Longrightarrow> k < MAXOPBLOCKS \<Longrightarrow> log_write i s = Inr t \<Longrightarrow> op_step (s, ops) (t, ops(p \<mapsto> k + 1))"
| op_end: "ops p = Some k \<Longrightarrow> end_op s = Inr t \<Longrightarrow> op_step (s, ops) (t, ops(p := None))"

inductive_cases op_stepE: "op_step x y"

lemma more_frame:
  "bcache.more t = bcache.more (s :: 'a klog_scheme) \<Longrightarrow> lg_n t = lg_n s \<and> lg_outstanding t = lg_outstanding s \<and>
     lg_block t = lg_block s \<and> lg_size t = lg_size s \<and> lg_committing t = lg_committing s"
  by (cases s; cases t; simp)





lemma bset_more [simp]: "bcache.more (bset i d s) = bcache.more s"
  by (simp add: bset_def)











lemma bpin_more [simp]:
  "lg_n (bpin b s) = lg_n s" "lg_outstanding (bpin b s) = lg_outstanding s" "lg_size (bpin b s) = lg_size s"
  "lg_block (bpin b s) = lg_block (s :: 'a klog_scheme)" "lg_committing (bpin b s) = lg_committing s"
  using more_frame [of "bpin b s" s] by (simp_all add: bpin_def)





section \<open>Results\<close>

text \<open>A kernel with an empty cache, and one with one logged block in it.\<close>

definition ex_cold :: klog where
  "ex_cold = \<lparr>bc_buf = replicate NBUF zero_buf, bc_order = [0..<NBUF], bc_disk = (\<lambda>_ _. replicate BSIZE 0),
     bc_havedisk1 = True, bc_trace = [], bc_pid = 1, lg_start = 2, lg_size = 31, lg_outstanding = 0,
     lg_committing = False, lg_dev = 1, lg_n = 0, lg_block = replicate LOGSIZE 0\<rparr>"

definition ex_logged :: klog where
  "ex_logged = ex_cold\<lparr>bc_buf := (replicate NBUF zero_buf)[0 := \<lparr>b_valid = True, b_dirty = True, b_dev = 1,
     b_blockno = 100, b_lock = initsleeplock, b_refcnt = 0, b_data = replicate BSIZE 1\<rparr>],
     lg_n := 1, lg_block := replicate LOGSIZE 100\<rparr>"

lemma ex_cold_ok:
  "bio_inv ex_cold" "held ex_cold = {}" "pinned ex_cold = {}" "lg_start ex_cold = 2" "lg_n ex_cold = 0"
proof -
  have c: "\<not> caches ex_cold i n" for i n by (auto simp: caches_def ex_cold_def zero_buf_def)
  then show "held ex_cold = {}" "pinned ex_cold = {}" by (auto simp: held_def buf_at_def pinned_def)
  show "bio_inv ex_cold"
    using c by (auto simp: bio_inv_def ex_cold_def buf_ok_def zero_buf_def initsleeplock_def)
qed (simp_all add: ex_cold_def)

lemma ex_logged_ok: "log_inv ex_logged" "0 < lg_n ex_logged" "head_n (bc_disk ex_logged 1 (lg_start ex_logged)) = 0"
proof -
  have N: "0 < NBUF" "LOGSIZE = 30" "unat FSSIZE = 1000"
    by (simp_all add: NBUF_def LOGSIZE_def MAXOPBLOCKS_def FSSIZE_def)
  have c: "caches ex_logged i n \<longleftrightarrow> i = 0 \<and> n = 100" for i n
    using N(1) by (cases "i = 0") (auto simp: caches_def ex_logged_def zero_buf_def)
  have b: "bc_buf ex_logged ! i = (if i = 0 then \<lparr>b_valid = True, b_dirty = True, b_dev = 1,
     b_blockno = 100, b_lock = initsleeplock, b_refcnt = 0, b_data = replicate BSIZE 1\<rparr> else zero_buf)" if "i < NBUF" for i
    using that by (simp add: ex_logged_def)
  have l: "(100 :: u32) < FSSIZE" by (simp add: FSSIZE_def)
  have h: "homes ex_logged = [100]"
    unfolding homes_def by (simp add: ex_logged_def N)
  have "held ex_logged = {}" using b N(1) by (auto simp: held_def buf_at_def c initsleeplock_def)
  moreover have "pinned ex_logged = {100}" using b N(1) by (auto simp: pinned_def c)
  moreover have "bio_inv ex_logged"
    using b c N by (auto simp: bio_inv_def buf_ok_def initsleeplock_def zero_buf_def)
      (use l in \<open>auto simp: ex_logged_def ex_cold_def\<close>)
  moreover note l
  moreover have "(100 :: u32) \<notin> log_area 2" by (simp add: log_area_def N)
  ultimately show "log_inv ex_logged"
    unfolding log_inv_def by (simp add: h) (simp add: ex_logged_def ex_cold_def N NBUF_def MAXOPBLOCKS_def)
  show "0 < lg_n ex_logged" by (simp add: ex_logged_def)
  have "get8 (replicate BSIZE 0) i = 0" for i by (simp add: get8_def)
  then show "head_n (bc_disk ex_logged 1 (lg_start ex_logged)) = 0"
    by (simp add: ex_logged_def ex_cold_def head_n_def get32_def)
qed

text \<open>
  C26. Reading a block through the cache returns what the kernel last saw of it, cached or not, in a
  buffer that the caller now holds; other held buffers stay in place, the disk is not written and
  no modified block leaves the cache, as long as a buffer is free.
\<close>

theorem bread_coherent:
  assumes "bio_inv s" "n < FSSIZE" "n \<notin> held s" "card (held s \<union> pinned s) < NBUF"
  shows "\<exists>i t. bread 1 n s = Inr (i, t) \<and> bio_inv t \<and> buf_at t i n \<and> bdata t i = view s n \<and> view t = view s \<and>
    held t = insert n (held s) \<and> pinned t = pinned s \<and> bc_disk t 1 = bc_disk s 1 \<and> bc_trace t = bc_trace s \<and>
    (\<forall>j m. buf_at s j m \<longrightarrow> buf_at t j m)"
proof -
  obtain i t where t: "bread 1 n s = Inr (i, t)" "buf_at t i n"
    and e: "bio_eff s t (view s) (insert n (held s)) (pinned s) (bc_disk s 1) []"
    using bc.rd_ok [OF assms(1-3)] assms(4) by blast
  have "bdata t i = view s n" using buf_at_buf(11) [OF _ t(2)] e by (simp add: bio_eff_def)
  moreover have "buf_at t j m" if "buf_at s j m" for j m using that e buf_at_held [OF that] by (auto simp: bio_eff_def)
  ultimately show ?thesis using t e by (auto simp: bio_eff_def)
qed

theorem bread_coherent_witness:
  "\<exists>i t. bread 1 7 ex_cold = Inr (i, t) \<and> bio_inv t \<and> buf_at t i 7 \<and> bdata t i = view ex_cold 7"
proof -
  have "(7 :: u32) < FSSIZE" "card (held ex_cold \<union> pinned ex_cold) < NBUF"
    by (simp_all add: FSSIZE_def ex_cold_ok NBUF_def MAXOPBLOCKS_def)
  then show ?thesis using bread_coherent [of ex_cold 7] ex_cold_ok by blast
qed

text \<open>
  C27. A commit is atomic: it succeeds, and if the machine stops after any number \<open>k\<close> of its disk
  writes, recovery at the next boot leaves every block outside the log as before the transaction
  (while the header is not yet on the disk) or all of them as after it, and an empty log.
\<close>

theorem commit_is_atomic:
  fixes s :: "'a klog_scheme"
  assumes "log_inv s" "0 < lg_n s" "head_n (bc_disk s 1 (lg_start s)) = 0"
  shows "\<exists>t. commit s = Inr t \<and> log_inv t \<and> lg_n t = 0 \<and>
    (\<forall>b. b \<notin> log_area (lg_start s) \<longrightarrow> bc_disk t 1 b = view s b) \<and>
    (\<exists>ws. bc_trace t = bc_trace s @ ws \<and>
      (\<forall>k r :: 'a klog_scheme. k \<le> length ws \<longrightarrow> booted (lg_start s) (apply_writes (take k ws) (bc_disk s 1)) r \<longrightarrow>
        (\<exists>u. recover_from_log r = Inr u \<and> head_n (bc_disk u 1 (lg_start s)) = 0 \<and>
          (\<forall>b. b \<notin> log_area (lg_start s) \<longrightarrow>
            bc_disk u 1 b = (if k \<le> nat (lg_n s) then bc_disk s 1 b else view s b)))))"
proof -
  obtain t where t: "commit s = Inr t" "log_inv t" "lg_n t = 0" "bc_trace t = bc_trace s @ commit_writes s"
    "bc_disk t 1 = apply_writes (commit_writes s) (bc_disk s 1)"
    using commit_ok [OF assms(1,2)] by blast
  have rec: "\<exists>u. recover_from_log r = Inr u \<and> head_n (bc_disk u 1 (lg_start s)) = 0 \<and>
      (\<forall>b. b \<notin> log_area (lg_start s) \<longrightarrow> bc_disk u 1 b = (if k \<le> nat (lg_n s) then bc_disk s 1 b else view s b))"
    if k: "k \<le> length (commit_writes s)"
      and r: "booted (lg_start s) (apply_writes (take k (commit_writes s)) (bc_disk s 1)) r" for k and r :: "'a klog_scheme"
  proof -
    note d = recovered_disk [OF assms(1,3) k refl]
    have "lg_start s \<in> log_area (lg_start s)" by (simp add: log_area_def)
    then have "b \<noteq> lg_start s" if "b \<notin> log_area (lg_start s)" for b using that by blast
    moreover have "\<exists>b :: u32. b \<notin> log_area (lg_start s)" using assms(1,2) log_inv_room(9) [OF assms(1), of 0]
      by (auto simp: log_inv_def)
    ultimately show ?thesis using recover_ok [OF r] d by auto
  qed
  have len: "nat (lg_n s) < length (commit_writes s)" by (simp add: commit_writes_homes log_writes_def)
  have "bc_disk t 1 b = view s b" if b: "b \<notin> log_area (lg_start s)" for b
  proof -
    let ?d0 = "apply_writes (log_writes s (nat (lg_n s)) @ [(lg_start s, commit_head s)]) (bc_disk s 1)"
    have "?d0 c = bc_disk s 1 c" if "c \<notin> log_area (lg_start s)" for c
      using other_after_log [OF assms(1) _ that, of "nat (lg_n s)"] that by (auto simp: apply_writes_snoc log_area_def)
    then have "apply_writes (home_writes s) ?d0 b = view s b" using home_writes_final [OF assms(1) _ b] by blast
    moreover have "bc_disk t 1 = (apply_writes (home_writes s) ?d0)(lg_start s := head_block 0 (lg_block s) (commit_head s))"
      unfolding t(5) commit_writes_homes by (simp only: apply_writes_append apply_writes_one append_assoc)
    moreover have "b \<noteq> lg_start s" using b by (auto simp: log_area_def)
    ultimately show ?thesis by simp
  qed
  then show ?thesis using t rec by blast
qed

theorem commit_is_atomic_witness:
  "\<exists>t. commit ex_logged = Inr t \<and> lg_n t = 0 \<and> (\<forall>b. b \<notin> log_area 2 \<longrightarrow> bc_disk t 1 b = view ex_logged b)"
  using commit_is_atomic [OF ex_logged_ok] by (auto simp: ex_logged_def ex_cold_def)



end
