(* ===== verification/KString.thy ===== *)
theory KString
  imports Prelude
begin

text \<open>
  The kernel's memory and string routines (\<open>string.c\<close>) on a byte-addressed memory. Objects do not
  wrap around the address space, so addresses are natural numbers. The file system's own theories
  handle strings as lists of bytes; the lemmas at the end connect the two.
\<close>

type_synonym mem = "nat \<Rightarrow> u8"

section \<open>The routines\<close>

text \<open>The string instructions \<open>rep stosb\<close> and \<open>rep stosl\<close> (little endian).\<close>

fun stosb :: "nat \<Rightarrow> u8 \<Rightarrow> nat \<Rightarrow> mem \<Rightarrow> mem" where
  "stosb d c 0 m = m"
| "stosb d c (Suc n) m = stosb (d + 1) c n (m(d := c))"

fun stosl :: "nat \<Rightarrow> u32 \<Rightarrow> nat \<Rightarrow> mem \<Rightarrow> mem" where
  "stosl d w 0 m = m"
| "stosl d w (Suc n) m =
     stosl (d + 4) w n
       (m(d := ucast w, d + 1 := ucast (drop_bit 8 w), d + 2 := ucast (drop_bit 16 w), d + 3 := ucast (drop_bit 24 w)))"

definition memset :: "nat \<Rightarrow> u32 \<Rightarrow> nat \<Rightarrow> mem \<Rightarrow> mem" where
  "memset dst c n m =
     (if dst mod 4 = 0 \<and> n mod 4 = 0
      then let c = and c 0xFF in
        stosl dst (or (or (or (push_bit 24 c) (push_bit 16 c)) (push_bit 8 c)) c) (n div 4) m
      else stosb dst (ucast c) n m)"

fun memcmp :: "nat \<Rightarrow> nat \<Rightarrow> nat \<Rightarrow> mem \<Rightarrow> int" where
  "memcmp s1 s2 0 m = 0"
| "memcmp s1 s2 (Suc n) m =
     (if m s1 \<noteq> m s2 then uint (m s1) - uint (m s2) else memcmp (s1 + 1) (s2 + 1) n m)"

text \<open>The two loops of \<open>memmove\<close>: \<open>*--d = *--s\<close> and \<open>*d++ = *s++\<close>.\<close>

fun move_down :: "nat \<Rightarrow> nat \<Rightarrow> nat \<Rightarrow> mem \<Rightarrow> mem" where
  "move_down d s 0 m = m"
| "move_down d s (Suc n) m = move_down (d - 1) (s - 1) n (m(d - 1 := m (s - 1)))"

fun move_up :: "nat \<Rightarrow> nat \<Rightarrow> nat \<Rightarrow> mem \<Rightarrow> mem" where
  "move_up d s 0 m = m"
| "move_up d s (Suc n) m = move_up (d + 1) (s + 1) n (m(d := m s))"

definition memmove :: "nat \<Rightarrow> nat \<Rightarrow> nat \<Rightarrow> mem \<Rightarrow> mem" where
  "memmove dst src n m =
     (if src < dst \<and> src + n > dst then move_down (dst + n) (src + n) n m else move_up dst src n m)"

definition memcpy :: "nat \<Rightarrow> nat \<Rightarrow> nat \<Rightarrow> mem \<Rightarrow> mem" where
  "memcpy dst src n m = memmove dst src n m"

fun strncmp :: "nat \<Rightarrow> nat \<Rightarrow> nat \<Rightarrow> mem \<Rightarrow> int" where
  "strncmp p q 0 m = 0"
| "strncmp p q (Suc n) m =
     (if m p \<noteq> 0 \<and> m p = m q then strncmp (p + 1) (q + 1) n m else uint (m p) - uint (m q))"

text \<open>
  The second loop of \<open>strncpy\<close> pads with zeros. The count of the first loop is decremented before
  it is tested, so the loop that ends because of the count leaves nothing to pad.
\<close>

fun strncpy :: "nat \<Rightarrow> nat \<Rightarrow> nat \<Rightarrow> mem \<Rightarrow> mem" where
  "strncpy s t 0 m = m"
| "strncpy s t (Suc n) m =
     (let m' = m(s := m t) in if m t \<noteq> 0 then strncpy (s + 1) (t + 1) n m' else stosb (s + 1) 0 n m')"

fun safestrcpy_loop :: "nat \<Rightarrow> nat \<Rightarrow> nat \<Rightarrow> mem \<Rightarrow> nat \<times> mem" where
  "safestrcpy_loop s t 0 m = (s, m)"
| "safestrcpy_loop s t (Suc n) m =
     (let m' = m(s := m t) in if m t \<noteq> 0 then safestrcpy_loop (s + 1) (t + 1) n m' else (s + 1, m'))"

definition safestrcpy :: "nat \<Rightarrow> nat \<Rightarrow> int \<Rightarrow> mem \<Rightarrow> mem" where
  "safestrcpy s t n m =
     (if n \<le> 0 then m else let (e, m') = safestrcpy_loop s t (nat n - 1) m in m'(e := 0))"

partial_function (option) strlen_from :: "nat \<Rightarrow> nat \<Rightarrow> mem \<Rightarrow> nat option" where
  "strlen_from s n m = (if m (s + n) = 0 then Some n else strlen_from s (n + 1) m)"

definition strlen :: "nat \<Rightarrow> mem \<Rightarrow> nat option" where
  "strlen s m = strlen_from s 0 m"

section \<open>Filling and moving\<close>

lemma stosb_fill: "stosb d c n m = (\<lambda>a. if d \<le> a \<and> a < d + n then c else m a)"
proof (induction n arbitrary: d m)
  case (Suc n)
  show ?case by (rule ext) (auto simp: Suc)
qed (auto simp: fun_eq_iff)

definition byte4 :: "u8 \<Rightarrow> u32" where
  "byte4 b = or (or (or (push_bit 24 (ucast b)) (push_bit 16 (ucast b))) (push_bit 8 (ucast b))) (ucast b)"

lemma byte4_bytes:
  "ucast (byte4 b) = b" "ucast (drop_bit 8 (byte4 b)) = b"
  "ucast (drop_bit 16 (byte4 b)) = b" "ucast (drop_bit 24 (byte4 b)) = b"
     by (rule bit_word_eqI, auto simp: byte4_def bit_simps dest: bit_imp_le_length)+

lemma stosl_fill: "stosl d (byte4 b) n m = (\<lambda>a. if d \<le> a \<and> a < d + 4 * n then b else m a)"
proof (induction n arbitrary: d m)
  case (Suc n)
  show ?case
  proof (rule ext)
    fix a
    show "stosl d (byte4 b) (Suc n) m a = (if d \<le> a \<and> a < d + 4 * Suc n then b else m a)"
      by (auto simp: Suc byte4_bytes)
  qed
qed (auto simp: fun_eq_iff)

lemma mask_byte: "and c 0xFF = (ucast (ucast c :: u8) :: u32)"
proof -
  have "take_bit 8 c = (ucast (ucast c :: u8) :: u32)" by (rule bit_word_eqI) (auto simp: bit_simps)
  then show ?thesis by (simp add: take_bit_eq_mask mask_eq_exp_minus_1)
qed

lemma memset_fill: "memset d c n m = (\<lambda>a. if d \<le> a \<and> a < d + n then ucast c else m a)"
proof (cases "d mod 4 = 0 \<and> n mod 4 = 0")
  case True
  then have "4 * (n div 4) = n" by auto
  with True show ?thesis
    using stosl_fill [of d "ucast c" "n div 4" m] by (simp add: memset_def mask_byte byte4_def)
next
  case False
  then show ?thesis by (auto simp: memset_def stosb_fill)
qed

lemma move_up_copies:
  "d \<le> s \<or> s + n \<le> d \<Longrightarrow> move_up d s n m = (\<lambda>a. if d \<le> a \<and> a < d + n then m (s + (a - d)) else m a)"
proof (induction n arbitrary: d s m)
  case (Suc n)
  then have IH: "move_up (Suc d) (Suc s) n (m(d := m s)) =
      (\<lambda>a. if Suc d \<le> a \<and> a < Suc d + n then (m(d := m s)) (Suc s + (a - Suc d)) else (m(d := m s)) a)"
    by (intro Suc.IH) auto
  show ?case
  proof (rule ext)
    fix a
    consider "a < d" | "a = d" | "d < a" "a < d + Suc n" | "d + Suc n \<le> a" by linarith
    then show "move_up d s (Suc n) m a = (if d \<le> a \<and> a < d + Suc n then m (s + (a - d)) else m a)"
    proof cases
      case 3
      then have "Suc (s + (a - Suc d)) = s + (a - d)" by simp
      moreover have "s + (a - d) \<noteq> d" using Suc.prems 3 by linarith
      ultimately show ?thesis using 3 IH by simp
    qed (simp_all add: IH)
  qed
qed (auto simp: fun_eq_iff)

lemma move_down_copies:
  "s \<le> d \<Longrightarrow> move_down (d + n) (s + n) n m = (\<lambda>a. if d \<le> a \<and> a < d + n then m (s + (a - d)) else m a)"
proof (induction n arbitrary: m)
  case (Suc n)
  show ?case
  proof (rule ext)
    fix a
    have IH: "move_down (d + n) (s + n) n (m(d + n := m (s + n))) a =
        (if d \<le> a \<and> a < d + n then (m(d + n := m (s + n))) (s + (a - d)) else (m(d + n := m (s + n))) a)"
      using fun_cong [OF Suc.IH [OF Suc.prems]] .
    consider "a < d" | "a = d + n" | "d \<le> a" "a < d + n" | "d + Suc n \<le> a" by linarith
    then show "move_down (d + Suc n) (s + Suc n) (Suc n) m a =
        (if d \<le> a \<and> a < d + Suc n then m (s + (a - d)) else m a)"
      using IH Suc.prems by cases auto
  qed
qed (auto simp: fun_eq_iff)

section \<open>Strings as lists of bytes\<close>

text \<open>\<open>str_at m p xs\<close>: at \<open>p\<close> lies the NUL-terminated string \<open>xs\<close>.\<close>

fun str_at :: "mem \<Rightarrow> nat \<Rightarrow> u8 list \<Rightarrow> bool" where
  "str_at m p [] \<longleftrightarrow> m p = 0"
| "str_at m p (x # xs) \<longleftrightarrow> x \<noteq> 0 \<and> m p = x \<and> str_at m (p + 1) xs"

text \<open>Reading a list of bytes as a C string, the end of the list counting as a NUL.\<close>

definition head_byte :: "u8 list \<Rightarrow> u8" where
  "head_byte xs = (case xs of [] \<Rightarrow> 0 | x # _ \<Rightarrow> x)"

fun strncmp_bytes :: "nat \<Rightarrow> u8 list \<Rightarrow> u8 list \<Rightarrow> int" where
  "strncmp_bytes 0 p q = 0"
| "strncmp_bytes (Suc n) p q =
     (if head_byte p \<noteq> 0 \<and> head_byte p = head_byte q then strncmp_bytes n (tl p) (tl q)
      else uint (head_byte p) - uint (head_byte q))"

lemma strncmp_strings:
  "str_at m p xs \<Longrightarrow> str_at m q ys \<Longrightarrow> strncmp p q n m = strncmp_bytes n xs ys"
proof (induction n arbitrary: p q xs ys)
  case (Suc n)
  then show ?case
    by (cases xs; cases ys) (auto simp: head_byte_def)
qed simp

lemma strlen_string: "str_at m (s + n) xs \<Longrightarrow> strlen_from s n m = Some (n + length xs)"
proof (induction xs arbitrary: n)
  case (Cons x xs)
  then have "strlen_from s (n + 1) m = Some (n + 1 + length xs)" by (auto simp: ac_simps)
  with Cons.prems show ?case by (simp add: strlen_from.simps [of s n])
qed (simp add: strlen_from.simps)

definition cstr :: "u8 list \<Rightarrow> u8 list" where
  "cstr xs = takeWhile (\<lambda>b. b \<noteq> 0) xs"

lemma cstr_Nil [simp]: "cstr [] = []"
  by (simp add: cstr_def)

lemma cstr_Cons: "cstr (x # xs) = (if x = 0 then [] else x # cstr xs)"
  by (simp add: cstr_def)

lemma strncmp_bytes_0: "strncmp_bytes n p q = 0 \<longleftrightarrow> take n (cstr p) = take n (cstr q)"
proof (induction n arbitrary: p q)
  case (Suc n)
  have "uint a - uint b = 0 \<longleftrightarrow> a = b" "uint a = 0 \<longleftrightarrow> a = 0" for a b :: u8
    by (simp_all add: word_uint_eq_iff)
  with Suc show ?case by (cases p; cases q) (auto simp: head_byte_def cstr_Cons)
qed simp

text \<open>What \<open>strncpy\<close> writes: the string, cut or padded with zeros to \<open>n\<close> bytes.\<close>

definition pad_name :: "nat \<Rightarrow> u8 list \<Rightarrow> u8 list" where
  "pad_name n xs = take n (cstr xs @ replicate n 0)"

lemma pad_name_length [simp]: "length (pad_name n xs) = n"
  by (simp add: pad_name_def)

lemma cstr_nul_free: "0 \<notin> set (cstr xs)"
  by (auto simp: cstr_def dest: set_takeWhileD)

lemma cstr_id: "0 \<notin> set xs \<Longrightarrow> cstr xs = xs"
  by (auto simp: cstr_def takeWhile_eq_all_conv)

lemma cstr_append_zeros: "0 \<notin> set xs \<Longrightarrow> cstr (xs @ replicate k 0) = xs"
proof -
  assume "0 \<notin> set xs"
  then have "takeWhile (\<lambda>b. b \<noteq> 0) (xs @ replicate k 0) = xs @ takeWhile (\<lambda>b. b \<noteq> 0) (replicate k 0)"
    by (intro takeWhile_append2) auto
  then show ?thesis by (cases k) (simp_all add: cstr_def)
qed

lemma cstr_pad_name: "cstr (pad_name n xs) = take n (cstr xs)"
proof -
  have "0 \<notin> set (take n (cstr xs))" using cstr_nul_free by (meson in_set_takeD)
  moreover have "pad_name n xs = take n (cstr xs) @ replicate (n - length (cstr xs)) 0"
    by (simp add: pad_name_def min_def)
  ultimately show ?thesis using cstr_append_zeros by metis
qed

lemma strncpy_writes:
  assumes "str_at m t xs" "t + length xs < s \<or> s + n \<le> t"
  shows "strncpy s t n m = (\<lambda>a. if s \<le> a \<and> a < s + n then pad_name n xs ! (a - s) else m a)"
  using assms
proof (induction n arbitrary: s t m xs)
  case (Suc n)
  show ?case
  proof (cases xs)
    case Nil
    with Suc.prems have "pad_name (Suc n) xs = replicate (Suc n) 0" "m t = 0"
      by (simp_all add: pad_name_def)
    then show ?thesis by (auto simp: stosb_fill fun_eq_iff nth_Cons')
  next
    case (Cons x ys)
    define m' where "m' = m(s := x)"
    have keep: "str_at m' q zs" if "str_at m q zs" "s < q \<or> q + length zs < s" for q zs
      using that by (induction zs arbitrary: q) (auto simp: m'_def)
    have x: "x \<noteq> 0" "m t = x" "str_at m (t + 1) ys" using Suc.prems Cons by auto
    have "str_at m' (t + 1) ys" using keep x(3) Suc.prems(2) Cons by auto
    then have IH: "strncpy (s + 1) (t + 1) n m' =
        (\<lambda>a. if s + 1 \<le> a \<and> a < s + 1 + n then pad_name n ys ! (a - (s + 1)) else m' a)"
      by (rule Suc.IH) (use Suc.prems(2) Cons in auto)
    have "pad_name (Suc n) xs = x # pad_name n ys"
      using x(1) by (simp add: pad_name_def Cons cstr_Cons replicate_append_same [symmetric] del: replicate.simps)
    moreover have "strncpy s t (Suc n) m = strncpy (s + 1) (t + 1) n m'" using x by (simp add: m'_def)
    ultimately show ?thesis using IH by (auto simp: fun_eq_iff nth_Cons' m'_def)
  qed
qed (auto simp: fun_eq_iff)

text \<open>
  C29. \<open>memmove\<close> moves: whatever the overlap of source and destination, afterwards the destination
  holds what the source held before, and nothing else has changed.
\<close>

theorem memmove_moves:
  "memmove dst src n m = (\<lambda>a. if dst \<le> a \<and> a < dst + n then m (src + (a - dst)) else m a)"
  using move_down_copies [of src dst n m] move_up_copies [of dst src n m] by (auto simp: memmove_def)

end
