(* ===== verification/Fs.thy ===== *)
theory Fs
  imports KString LogProps
begin

text \<open>
  The file system proper (\<open>07_xv6_File_System/PartA/fs.c\<close>): the block allocator, the inode cache,
  the contents of inodes, directories and path names with symbolic links. Everything reads and
  writes disk blocks through the buffer cache and the log.
\<close>

section \<open>Inodes\<close>

type_synonym u16 = "16 word"

definition T_DIR :: u16 where "T_DIR = 1"
definition T_FILE :: u16 where "T_FILE = 2"
definition T_DEV :: u16 where "T_DEV = 3"
definition T_SYM :: u16 where "T_SYM = 4"

definition NDIRECT :: nat where "NDIRECT = 12"
definition NINDIRECT :: nat where "NINDIRECT = BSIZE div 4"
definition MAXFILE :: nat where "MAXFILE = NDIRECT + NINDIRECT"
definition NINODE :: nat where "NINODE = 50"
definition NDEV :: nat where "NDEV = 10"
definition ROOTDEV :: u32 where "ROOTDEV = 1"
definition ROOTINO :: u32 where "ROOTINO = 1"

record inode =
  i_dev :: u32
  i_inum :: u32
  i_ref :: int
  i_lock :: sleeplock
  i_valid :: bool
  i_type :: u16
  i_major :: u16
  i_minor :: u16
  i_nlink :: u16
  i_size :: u32
  i_addrs :: "u32 list"

text \<open>
  \<open>fs_devread\<close> and \<open>fs_devwrite\<close> are the table \<open>devsw\<close>: what the device functions return (a count and
  the bytes read), \<open>None\<close> a null pointer. \<open>fs_cwd\<close> is the current directory of the running process.
\<close>

record fsk = klog +
  fs_sb :: superblock
  fs_icache :: "inode list"
  fs_is_sym :: bool
  fs_devread :: "nat \<Rightarrow> (u32 \<Rightarrow> int \<times> u8 list) option"
  fs_devwrite :: "nat \<Rightarrow> (u8 list \<Rightarrow> int) option"
  fs_cwd :: nat

abbreviation ino :: "'a fsk_scheme \<Rightarrow> nat \<Rightarrow> inode" where
  "ino s i \<equiv> fs_icache s ! i"

definition upd_ino :: "nat \<Rightarrow> (inode \<Rightarrow> inode) \<Rightarrow> 'a fsk_scheme \<Rightarrow> 'a fsk_scheme" where
  "upd_ino i f s = s\<lparr>fs_icache := (fs_icache s)[i := f (fs_icache s ! i)]\<rparr>"

definition IPB :: nat where "IPB = BSIZE div 64"
definition BPB :: nat where "BPB = BSIZE * 8"

definition IBLOCK :: "u32 \<Rightarrow> superblock \<Rightarrow> u32" where
  "IBLOCK i sb = i div of_nat IPB + sb_inodestart sb"

definition BBLOCK :: "u32 \<Rightarrow> superblock \<Rightarrow> u32" where
  "BBLOCK b sb = b div of_nat BPB + sb_bmapstart sb"

section \<open>Blocks\<close>

definition bzero :: "u32 \<Rightarrow> u32 \<Rightarrow> 'a klog_scheme \<Rightarrow> 'a klog_scheme res" where
  "bzero dev bno s =
     rbind (bread dev bno s) (\<lambda>(bp, s).
     rbind (log_write bp (bset bp (replicate BSIZE 0) s)) (brelse bp))"

definition bit_mask :: "nat \<Rightarrow> u8" where
  "bit_mask bi = push_bit (bi mod 8) 1"

definition bit_free :: "block \<Rightarrow> nat \<Rightarrow> bool" where
  "bit_free d bi \<longleftrightarrow> and (get8 d (bi div 8)) (bit_mask bi) = 0"

text \<open>The outer loop of \<open>balloc\<close>, over the first blocks that the bitmap blocks stand for.\<close>

fun balloc_scan :: "u32 \<Rightarrow> nat list \<Rightarrow> 'a fsk_scheme \<Rightarrow> (u32 \<times> 'a fsk_scheme) res" where
  "balloc_scan dev [] s = Inl (Panic ''balloc: out of blocks'')"
| "balloc_scan dev (b # bs) s =
     rbind (bread dev (BBLOCK (of_nat b) (fs_sb s)) s) (\<lambda>(bp, s).
       case find (\<lambda>bi. bit_free (bdata s bp) bi) [0..<min BPB (unat (sb_size (fs_sb s)) - b)] of
         Some bi \<Rightarrow>
           let d = (bdata s bp)[bi div 8 := or (get8 (bdata s bp) (bi div 8)) (bit_mask bi)] in
           rbind (log_write bp (bset bp d s)) (\<lambda>s.
           rbind (brelse bp s) (\<lambda>s.
           rbind (bzero dev (of_nat (b + bi)) s) (\<lambda>s. Inr (of_nat (b + bi), s))))
       | None \<Rightarrow> rbind (brelse bp s) (balloc_scan dev bs))"

definition balloc :: "u32 \<Rightarrow> 'a fsk_scheme \<Rightarrow> (u32 \<times> 'a fsk_scheme) res" where
  "balloc dev s = balloc_scan dev (map (\<lambda>k. k * BPB) [0..<(unat (sb_size (fs_sb s)) + BPB - 1) div BPB]) s"

definition bfree :: "u32 \<Rightarrow> u32 \<Rightarrow> 'a fsk_scheme \<Rightarrow> 'a fsk_scheme res" where
  "bfree dev b s =
     rbind (readsb dev s) (\<lambda>(sb, s).
     let s = s\<lparr>fs_sb := sb\<rparr> in
     rbind (bread dev (BBLOCK b sb) s) (\<lambda>(bp, s).
       let bi = unat b mod BPB; d = bdata s bp in
       if bit_free d bi then Inl (Panic ''freeing free block'')
       else rbind (log_write bp (bset bp (d[bi div 8 := and (get8 d (bi div 8)) (not (bit_mask bi))]) s)) (brelse bp)))"

section \<open>The inode cache\<close>

definition iinit :: "u32 \<Rightarrow> 'a fsk_scheme \<Rightarrow> 'a fsk_scheme res" where
  "iinit dev s =
     rbind (readsb dev (s\<lparr>fs_icache := map (\<lambda>ip. ip\<lparr>i_lock := initsleeplock\<rparr>) (fs_icache s)\<rparr>)) (\<lambda>(sb, s).
       Inr (s\<lparr>fs_sb := sb\<rparr>))"

definition iget :: "u32 \<Rightarrow> u32 \<Rightarrow> 'a fsk_scheme \<Rightarrow> (nat \<times> 'a fsk_scheme) res" where
  "iget dev inum s =
     (case find (\<lambda>i. i_ref (ino s i) > 0 \<and> i_dev (ino s i) = dev \<and> i_inum (ino s i) = inum) [0..<NINODE] of
        Some i \<Rightarrow> Inr (i, upd_ino i (\<lambda>ip. ip\<lparr>i_ref := i_ref ip + 1\<rparr>) s)
      | None \<Rightarrow>
          (case find (\<lambda>i. i_ref (ino s i) = 0) [0..<NINODE] of
             None \<Rightarrow> Inl (Panic ''iget: no inodes'')
           | Some i \<Rightarrow> Inr (i, upd_ino i (\<lambda>ip. ip\<lparr>i_dev := dev, i_inum := inum, i_ref := 1, i_valid := False\<rparr>) s)))"

text \<open>The offset of inode \<open>inum\<close> in its block, and the fields of a \<open>struct dinode\<close> there.\<close>

definition dinode_at :: "u32 \<Rightarrow> nat" where
  "dinode_at inum = unat inum mod IPB * 64"

definition dinode_read :: "block \<Rightarrow> nat \<Rightarrow> inode \<Rightarrow> inode" where
  "dinode_read d o' ip = ip\<lparr>i_type := get16 d o', i_major := get16 d (o' + 2), i_minor := get16 d (o' + 4),
     i_nlink := get16 d (o' + 6), i_size := get32 d (o' + 8),
     i_addrs := map (\<lambda>i. get32 d (o' + 12 + 4 * i)) [0..<NDIRECT + 1]\<rparr>"

definition dinode_write :: "inode \<Rightarrow> nat \<Rightarrow> block \<Rightarrow> block" where
  "dinode_write ip o' d =
     fold (\<lambda>i d. put32 d (o' + 12 + 4 * i) (i_addrs ip ! i)) [0..<NDIRECT + 1]
       (put32 (put16 (put16 (put16 (put16 d o' (i_type ip)) (o' + 2) (i_major ip)) (o' + 4) (i_minor ip)) (o' + 6) (i_nlink ip))
         (o' + 8) (i_size ip))"

fun ialloc_scan :: "u32 \<Rightarrow> u16 \<Rightarrow> nat list \<Rightarrow> 'a fsk_scheme \<Rightarrow> (nat \<times> 'a fsk_scheme) res" where
  "ialloc_scan dev ty [] s = Inl (Panic ''ialloc: no inodes'')"
| "ialloc_scan dev ty (inum # inums) s =
     rbind (bread dev (IBLOCK (of_nat inum) (fs_sb s)) s) (\<lambda>(bp, s).
       let o' = dinode_at (of_nat inum); d = bdata s bp in
       if get16 d o' = 0 then
         rbind (log_write bp (bset bp (put16 (take o' d @ replicate 64 0 @ drop (o' + 64) d) o' ty) s)) (\<lambda>s.
         rbind (brelse bp s) (iget dev (of_nat inum)))
       else rbind (brelse bp s) (ialloc_scan dev ty inums))"

definition ialloc :: "u32 \<Rightarrow> u16 \<Rightarrow> 'a fsk_scheme \<Rightarrow> (nat \<times> 'a fsk_scheme) res" where
  "ialloc dev ty s = ialloc_scan dev ty [1..<unat (sb_ninodes (fs_sb s))] s"

definition iupdate :: "nat \<Rightarrow> 'a fsk_scheme \<Rightarrow> 'a fsk_scheme res" where
  "iupdate i s =
     (let ip = ino s i in
      rbind (bread (i_dev ip) (IBLOCK (i_inum ip) (fs_sb s)) s) (\<lambda>(bp, s).
      rbind (log_write bp (bset bp (dinode_write ip (dinode_at (i_inum ip)) (bdata s bp)) s)) (brelse bp)))"

definition idup :: "nat \<Rightarrow> 'a fsk_scheme \<Rightarrow> nat \<times> 'a fsk_scheme" where
  "idup i s = (i, upd_ino i (\<lambda>ip. ip\<lparr>i_ref := i_ref ip + 1\<rparr>) s)"

definition ilock :: "nat option \<Rightarrow> 'a fsk_scheme \<Rightarrow> 'a fsk_scheme res" where
  "ilock p s =
     (case p of None \<Rightarrow> Inl (Panic ''ilock'')
      | Some i \<Rightarrow>
          if i_ref (ino s i) < 1 then Inl (Panic ''ilock'')
          else rbind (acquiresleep (bc_pid s) (i_lock (ino s i))) (\<lambda>lk.
            let s = upd_ino i (\<lambda>ip. ip\<lparr>i_lock := lk\<rparr>) s in
            if i_valid (ino s i) then Inr s
            else
              rbind (bread (i_dev (ino s i)) (IBLOCK (i_inum (ino s i)) (fs_sb s)) s) (\<lambda>(bp, s).
              let s = upd_ino i (\<lambda>ip. dinode_read (bdata s bp) (dinode_at (i_inum ip)) ip) s in
              rbind (brelse bp s) (\<lambda>s.
              let s = upd_ino i (\<lambda>ip. ip\<lparr>i_valid := True\<rparr>) s in
              if i_type (ino s i) = 0 then Inl (Panic ''ilock: no type'') else Inr s))))"

definition iunlock :: "nat option \<Rightarrow> 'a fsk_scheme \<Rightarrow> 'a fsk_scheme res" where
  "iunlock p s =
     (case p of None \<Rightarrow> Inl (Panic ''iunlock'')
      | Some i \<Rightarrow>
          if \<not> holdingsleep (bc_pid s) (i_lock (ino s i)) \<or> i_ref (ino s i) < 1 then Inl (Panic ''iunlock'')
          else Inr (upd_ino i (\<lambda>ip. ip\<lparr>i_lock := releasesleep (i_lock ip)\<rparr>) s))"

section \<open>Contents of inodes\<close>

text \<open>\<open>ip->addrs[bn] = v\<close>\<close>

definition set_addr :: "nat \<Rightarrow> nat \<Rightarrow> u32 \<Rightarrow> 'a fsk_scheme \<Rightarrow> 'a fsk_scheme" where
  "set_addr i bn v s = upd_ino i (\<lambda>ip. ip\<lparr>i_addrs := (i_addrs ip)[bn := v]\<rparr>) s"

definition bmap :: "nat \<Rightarrow> nat \<Rightarrow> 'a fsk_scheme \<Rightarrow> (u32 \<times> 'a fsk_scheme) res" where
  "bmap i bn s =
     (if bn < NDIRECT then
        let addr = i_addrs (ino s i) ! bn in
        if addr = 0 then rbind (balloc (i_dev (ino s i)) s) (\<lambda>(addr, s). Inr (addr, set_addr i bn addr s))
        else Inr (addr, s)
      else
        let bn = bn - NDIRECT in
        if bn < NINDIRECT then
          rbind (let addr = i_addrs (ino s i) ! NDIRECT in
                 if addr = 0 then rbind (balloc (i_dev (ino s i)) s) (\<lambda>(addr, s). Inr (addr, set_addr i NDIRECT addr s))
                 else Inr (addr, s)) (\<lambda>(addr, s).
          rbind (bread (i_dev (ino s i)) addr s) (\<lambda>(bp, s).
          rbind (let addr = get32 (bdata s bp) (4 * bn) in
                 if addr = 0 then
                   rbind (balloc (i_dev (ino s i)) s) (\<lambda>(addr, s).
                   rbind (log_write bp (bset bp (put32 (bdata s bp) (4 * bn) addr) s)) (\<lambda>s. Inr (addr, s)))
                 else Inr (addr, s)) (\<lambda>(addr, s).
          rbind (brelse bp s) (\<lambda>s. Inr (addr, s)))))
        else Inl (Panic ''bmap: out of range''))"

definition free_direct :: "nat \<Rightarrow> nat \<Rightarrow> 'a fsk_scheme \<Rightarrow> 'a fsk_scheme res" where
  "free_direct i k s =
     (let addr = i_addrs (ino s i) ! k in
      if addr \<noteq> 0 then rbind (bfree (i_dev (ino s i)) addr s) (\<lambda>s. Inr (set_addr i k 0 s)) else Inr s)"

definition free_indirect :: "nat \<Rightarrow> nat \<Rightarrow> nat \<Rightarrow> 'a fsk_scheme \<Rightarrow> 'a fsk_scheme res" where
  "free_indirect i bp j s =
     (let a = get32 (bdata s bp) (4 * j) in
      if a \<noteq> 0 then bfree (i_dev (ino s i)) a s else Inr s)"

definition itrunc :: "nat \<Rightarrow> 'a fsk_scheme \<Rightarrow> 'a fsk_scheme res" where
  "itrunc i s =
     rbind (rfold (free_direct i) [0..<NDIRECT] s) (\<lambda>s.
     rbind (let addr = i_addrs (ino s i) ! NDIRECT in
            if addr \<noteq> 0 then
              rbind (bread (i_dev (ino s i)) addr s) (\<lambda>(bp, s).
              rbind (rfold (free_indirect i bp) [0..<NINDIRECT] s) (\<lambda>s.
              rbind (brelse bp s) (\<lambda>s.
              rbind (bfree (i_dev (ino s i)) (i_addrs (ino s i) ! NDIRECT) s) (\<lambda>s.
              Inr (set_addr i NDIRECT 0 s)))))
            else Inr s) (\<lambda>s.
     iupdate i (upd_ino i (\<lambda>ip. ip\<lparr>i_size := 0\<rparr>) s)))"

definition iput :: "nat \<Rightarrow> 'a fsk_scheme \<Rightarrow> 'a fsk_scheme res" where
  "iput i s =
     rbind (acquiresleep (bc_pid s) (i_lock (ino s i))) (\<lambda>lk.
     let s = upd_ino i (\<lambda>ip. ip\<lparr>i_lock := lk\<rparr>) s in
     rbind (if i_valid (ino s i) \<and> i_nlink (ino s i) = 0 \<and> i_ref (ino s i) = 1
            then
              rbind (itrunc i s) (\<lambda>s.
              rbind (iupdate i (upd_ino i (\<lambda>ip. ip\<lparr>i_type := 0\<rparr>) s)) (\<lambda>s.
              Inr (upd_ino i (\<lambda>ip. ip\<lparr>i_valid := False\<rparr>) s)))
            else Inr s) (\<lambda>s.
     let s = upd_ino i (\<lambda>ip. ip\<lparr>i_lock := releasesleep (i_lock ip)\<rparr>) s in
     Inr (upd_ino i (\<lambda>ip. ip\<lparr>i_ref := i_ref ip - 1\<rparr>) s)))"

definition iunlockput :: "nat \<Rightarrow> 'a fsk_scheme \<Rightarrow> 'a fsk_scheme res" where
  "iunlockput i s = rbind (iunlock (Some i) s) (iput i)"

record stat =
  st_type :: u16
  st_dev :: u32
  st_ino :: u32
  st_nlink :: u16
  st_size :: u32

definition stati :: "nat \<Rightarrow> 'a fsk_scheme \<Rightarrow> stat" where
  "stati i s = (let ip = ino s i in
     \<lparr>st_type = i_type ip, st_dev = i_dev ip, st_ino = i_inum ip, st_nlink = i_nlink ip, st_size = i_size ip\<rparr>)"

text \<open>
  The loops of \<open>readi\<close> and \<open>writei\<close>, with the offset and the number of bytes left; the guards before
  them exclude a wrap-around of \<open>off + n\<close>.
\<close>

function readi_loop :: "nat \<Rightarrow> nat \<Rightarrow> nat \<Rightarrow> 'a fsk_scheme \<Rightarrow> (u8 list \<times> 'a fsk_scheme) res" where
  "readi_loop i off n s =
     (if n = 0 then Inr ([], s)
      else
        rbind (bmap i (off div BSIZE) s) (\<lambda>(addr, s).
        rbind (bread (i_dev (ino s i)) addr s) (\<lambda>(bp, s).
        let m = min n (BSIZE - off mod BSIZE); bytes = take m (drop (off mod BSIZE) (bdata s bp)) in
        rbind (brelse bp s) (\<lambda>s.
        rbind (readi_loop i (off + m) (n - m) s) (\<lambda>(rest, s). Inr (bytes @ rest, s))))))"
  by pat_completeness auto
termination by (relation "measure (\<lambda>(i, off, n, s). n)") (auto simp: BSIZE_def)

declare readi_loop.simps [simp del]

definition readi :: "nat \<Rightarrow> u32 \<Rightarrow> u32 \<Rightarrow> 'a fsk_scheme \<Rightarrow> (int \<times> u8 list \<times> 'a fsk_scheme) res" where
  "readi i off n s =
     (let ip = ino s i in
      if i_type ip = T_DEV then
        (if sint (i_major ip) < 0 \<or> sint (i_major ip) \<ge> int NDEV then Inr (- 1, [], s)
         else case fs_devread s (unat (i_major ip)) of None \<Rightarrow> Inr (- 1, [], s)
              | Some f \<Rightarrow> (case f n of (r, bytes) \<Rightarrow> Inr (r, bytes, s)))
      else if off > i_size ip \<or> off + n < off then Inr (- 1, [], s)
      else
        let n = (if off + n > i_size ip then i_size ip - off else n) in
        rbind (readi_loop i (unat off) (unat n) s) (\<lambda>(bytes, s). Inr (sint n, bytes, s)))"

function writei_loop :: "nat \<Rightarrow> nat \<Rightarrow> u8 list \<Rightarrow> 'a fsk_scheme \<Rightarrow> 'a fsk_scheme res" where
  "writei_loop i off src s =
     (if src = [] then Inr s
      else
        rbind (bmap i (off div BSIZE) s) (\<lambda>(addr, s).
        rbind (bread (i_dev (ino s i)) addr s) (\<lambda>(bp, s).
        let m = min (length src) (BSIZE - off mod BSIZE); o' = off mod BSIZE; d = bdata s bp in
        rbind (log_write bp (bset bp (take o' d @ take m src @ drop (o' + m) d) s)) (\<lambda>s.
        rbind (brelse bp s) (\<lambda>s.
        writei_loop i (off + m) (drop m src) s)))))"
  by pat_completeness auto
termination by (relation "measure (\<lambda>(i, off, src, s). length src)") (auto simp: BSIZE_def)

declare writei_loop.simps [simp del]

text \<open>\<open>src\<close> holds the \<open>n\<close> bytes to write, \<open>n < 2^32\<close>.\<close>

definition writei :: "nat \<Rightarrow> u8 list \<Rightarrow> u32 \<Rightarrow> 'a fsk_scheme \<Rightarrow> (int \<times> 'a fsk_scheme) res" where
  "writei i src off s =
     (let ip = ino s i; n = of_nat (length src) :: u32 in
      if i_type ip = T_DEV then
        (if sint (i_major ip) < 0 \<or> sint (i_major ip) \<ge> int NDEV then Inr (- 1, s)
         else case fs_devwrite s (unat (i_major ip)) of None \<Rightarrow> Inr (- 1, s)
              | Some f \<Rightarrow> Inr (f src, s))
      else if off > i_size ip \<or> off + n < off then Inr (- 1, s)
      else if off + n > of_nat (MAXFILE * BSIZE) then Inr (- 1, s)
      else
        rbind (writei_loop i (unat off) src s) (\<lambda>s.
        let off = off + n in
        if n > 0 \<and> off > i_size (ino s i)
        then rbind (iupdate i (upd_ino i (\<lambda>ip. ip\<lparr>i_size := off\<rparr>) s)) (\<lambda>s. Inr (sint n, s))
        else Inr (sint n, s)))"

section \<open>Directories\<close>

definition DIRSIZ :: nat where "DIRSIZ = 14"

definition namecmp :: "u8 list \<Rightarrow> u8 list \<Rightarrow> int" where
  "namecmp s t = strncmp_bytes DIRSIZ s t"

definition de_inum :: "u8 list \<Rightarrow> u16" where
  "de_inum de = get16 de 0"

definition de_name :: "u8 list \<Rightarrow> u8 list" where
  "de_name de = drop 2 de"

definition dirent :: "u16 \<Rightarrow> u8 list \<Rightarrow> u8 list" where
  "dirent inum name = [ucast inum, ucast (drop_bit 8 inum)] @ pad_name DIRSIZ name"

text \<open>The offsets \<open>off = 0, 16, ...\<close> of the entries of a directory of the given size, from \<open>off\<close> on.\<close>

definition dir_offs :: "nat \<Rightarrow> u32 \<Rightarrow> nat list" where
  "dir_offs k sz = map (\<lambda>j. 16 * j) [k..<(unat sz + 15) div 16]"

fun dirlookup_scan :: "nat \<Rightarrow> u8 list \<Rightarrow> nat list \<Rightarrow> 'a fsk_scheme \<Rightarrow> ((nat \<times> nat) option \<times> 'a fsk_scheme) res" where
  "dirlookup_scan dp name [] s = Inr (None, s)"
| "dirlookup_scan dp name (off # offs) s =
     rbind (readi dp (of_nat off) 16 s) (\<lambda>(r, de, s).
       if r \<noteq> 16 then Inl (Panic ''dirlookup read'')
       else if de_inum de = 0 then dirlookup_scan dp name offs s
       else if namecmp name (de_name de) = 0
       then rbind (iget (i_dev (ino s dp)) (ucast (de_inum de)) s) (\<lambda>(i, s). Inr (Some (i, off), s))
       else dirlookup_scan dp name offs s)"

definition dirlookup :: "nat \<Rightarrow> u8 list \<Rightarrow> 'a fsk_scheme \<Rightarrow> ((nat \<times> nat) option \<times> 'a fsk_scheme) res" where
  "dirlookup dp name s =
     (if i_type (ino s dp) \<noteq> T_DIR then Inl (Panic ''dirlookup not DIR'')
      else dirlookup_scan dp name (dir_offs 0 (i_size (ino s dp))) s)"

text \<open>The second loop of \<open>dirlink\<close>: the first empty entry, or the end of the directory.\<close>

fun find_slot :: "nat \<Rightarrow> nat list \<Rightarrow> nat \<Rightarrow> 'a fsk_scheme \<Rightarrow> (nat \<times> 'a fsk_scheme) res" where
  "find_slot dp [] eod s = Inr (eod, s)"
| "find_slot dp (off # offs) eod s =
     rbind (readi dp (of_nat off) 16 s) (\<lambda>(r, de, s).
       if r \<noteq> 16 then Inl (Panic ''dirlink read'')
       else if de_inum de = 0 then Inr (off, s)
       else find_slot dp offs (off + 16) s)"

definition dirlink :: "nat \<Rightarrow> u8 list \<Rightarrow> u32 \<Rightarrow> 'a fsk_scheme \<Rightarrow> (int \<times> 'a fsk_scheme) res" where
  "dirlink dp name inum s =
     rbind (dirlookup dp name s) (\<lambda>(r, s).
       case r of Some (i, _) \<Rightarrow> rbind (iput i s) (\<lambda>s. Inr (- 1, s))
       | None \<Rightarrow>
           rbind (find_slot dp (dir_offs 0 (i_size (ino s dp))) 0 s) (\<lambda>(off, s).
           rbind (writei dp (dirent (ucast inum) name) (of_nat off) s) (\<lambda>(r, s).
             if r \<noteq> 16 then Inl (Panic ''dirlink'') else Inr (0, s))))"

section \<open>Path names\<close>

definition slash :: u8 where "slash = 47"

text \<open>
  The next element of a path and the path after it; the element is cut to \<open>DIRSIZ\<close> bytes. Paths are
  the bytes of a C string, without its NUL.
\<close>

definition skipelem :: "u8 list \<Rightarrow> (u8 list \<times> u8 list) option" where
  "skipelem path =
     (let s = dropWhile (\<lambda>c. c = slash) path in
      if s = [] then None
      else
        let rest = dropWhile (\<lambda>c. c \<noteq> slash) s; len = length s - length rest in
        Some (if len \<ge> DIRSIZ then take DIRSIZ s else take len s, dropWhile (\<lambda>c. c = slash) rest))"

lemma skipelem_shorter: "skipelem path = Some (name, rest) \<Longrightarrow> length rest < length path"
proof -
  assume *: "skipelem path = Some (name, rest)"
  define s where "s = dropWhile (\<lambda>c. c = slash) path"
  from * have s: "s \<noteq> []" "rest = dropWhile (\<lambda>c. c = slash) (dropWhile (\<lambda>c. c \<noteq> slash) s)"
    by (auto simp: skipelem_def s_def split: if_splits)
  then obtain c cs where c: "s = c # cs" by (cases s) auto
  moreover have "c \<noteq> slash" using c hd_dropWhile [of "\<lambda>c. c = slash" path] by (simp add: s_def)
  ultimately have "length rest \<le> length cs"
    using s(2) length_dropWhile_le [of "\<lambda>c. c = slash"] length_dropWhile_le [of "\<lambda>c. c \<noteq> slash" cs]
    by (metis dropWhile.simps(2) le_trans)
  moreover have "length s \<le> length path" by (simp add: s_def length_dropWhile_le)
  ultimately show ?thesis using c by simp
qed

text \<open>
  \<open>namex\<close> from the inode where the walk starts. A symbolic link is resolved by a nested \<open>namex\<close> from
  the directory that holds it; \<open>depth\<close> is the number of nested calls that fit on the kernel stack.
\<close>

function namex_walk :: "nat \<Rightarrow> nat option \<Rightarrow> u8 list \<Rightarrow> bool \<Rightarrow> u8 list \<Rightarrow> 'a fsk_scheme \<Rightarrow>
    (nat option \<times> u8 list \<times> 'a fsk_scheme) res" where
  "namex_walk depth ip path parent name0 s =
     (case skipelem path of
        None \<Rightarrow>
          if parent then
            (case ip of None \<Rightarrow> Inl (Undefined ''iput of a null pointer'')
             | Some i \<Rightarrow> rbind (iput i s) (\<lambda>s. Inr (None, name0, s)))
          else Inr (ip, name0, s)
      | Some (name, path) \<Rightarrow>
          rbind (ilock ip s) (\<lambda>s. let i = the ip in
            if i_type (ino s i) \<noteq> T_DIR then rbind (iunlockput i s) (\<lambda>s. Inr (None, name, s))
            else if parent \<and> path = [] then rbind (iunlock ip s) (\<lambda>s. Inr (ip, name, s))
            else rbind (dirlookup i name s) (\<lambda>(r, s).
              case r of
                None \<Rightarrow> rbind (iunlockput i s) (\<lambda>s. Inr (None, name, s))
              | Some (next, _) \<Rightarrow>
                  rbind (iunlock ip s) (\<lambda>s.
                  rbind (ilock (Some next) s) (\<lambda>s.
                    if i_type (ino s next) = T_SYM then
                      rbind (if i_size (ino s next) \<ge> 512 then Inr (None, s)
                             else
                               let sz = i_size (ino s next) in
                               rbind (readi next 0 sz s) (\<lambda>(r, buf, s).
                                 Inr (if r \<noteq> sint sz then None else Some buf, s))) (\<lambda>(target, s).
                      case target of
                        None \<Rightarrow> rbind (iunlockput next s) (\<lambda>s. rbind (iput i s) (\<lambda>s. Inr (None, name, s)))
                      | Some buf \<Rightarrow>
                          rbind (iunlockput next s) (\<lambda>s.
                            case depth of
                              0 \<Rightarrow> Inl (Undefined ''kernel stack overflow'')
                            | Suc d \<Rightarrow>
                                let link = cstr buf; s = s\<lparr>fs_is_sym := False\<rparr> in
                                rbind (if link \<noteq> [] \<and> hd link = slash then iget ROOTDEV ROOTINO s else Inr (idup i s)) (\<lambda>(r, s).
                                rbind (namex_walk d (Some r) link False [] s) (\<lambda>(next, _, s).
                                rbind (iput i (s\<lparr>fs_is_sym := True\<rparr>)) (\<lambda>s.
                                namex_walk depth next path parent name s)))))
                    else
                      rbind (iunlock (Some next) s) (\<lambda>s.
                      rbind (iput i s) (\<lambda>s.
                      namex_walk depth (Some next) path parent name s)))))))"
  by pat_completeness auto
termination
  by (relation "measures [\<lambda>(depth, ip, path, parent, name, s). depth, \<lambda>(depth, ip, path, parent, name, s). length path]")
    (auto dest: skipelem_shorter)

declare namex_walk.simps [simp del]

text \<open>\<open>root\<close> is 0 in the calls from outside, so the walk starts at \<open>/\<close> or at the current directory.\<close>

definition namex :: "nat \<Rightarrow> u8 list \<Rightarrow> bool \<Rightarrow> 'a fsk_scheme \<Rightarrow> (nat option \<times> u8 list \<times> 'a fsk_scheme) res" where
  "namex depth path parent s =
     (let s = s\<lparr>fs_is_sym := False\<rparr> in
      rbind (if path \<noteq> [] \<and> hd path = slash then iget ROOTDEV ROOTINO s else Inr (idup (fs_cwd s) s)) (\<lambda>(r, s).
      namex_walk depth (Some r) path parent [] s))"

definition check_sym :: "'a fsk_scheme \<Rightarrow> bool" where
  "check_sym s = fs_is_sym s"

definition namei :: "nat \<Rightarrow> u8 list \<Rightarrow> 'a fsk_scheme \<Rightarrow> (nat option \<times> 'a fsk_scheme) res" where
  "namei depth path s = rbind (namex depth path False s) (\<lambda>(ip, _, s). Inr (ip, s))"

definition nameiparent :: "nat \<Rightarrow> u8 list \<Rightarrow> 'a fsk_scheme \<Rightarrow> (nat option \<times> u8 list \<times> 'a fsk_scheme) res" where
  "nameiparent depth path s = namex depth path True s"

end
