(* ===== verification/Pipe.thy ===== *)
theory Pipe
  imports Prelude
begin

text \<open>
  Pipes (\<open>07_xv6_File_System/PartA/pipe.c\<close>). A call runs with the pipe's lock held until it returns
  or sleeps; a sleeping writer keeps the bytes that it still has to write.
\<close>

section \<open>State and operations\<close>

definition PIPESIZE :: nat where
  "PIPESIZE = 512"

record pipe =
  p_data :: "u8 list"
  p_nread :: u32
  p_nwrite :: u32
  p_readopen :: bool
  p_writeopen :: bool

text \<open>What \<open>pipealloc\<close> makes of a fresh page, whose first bytes are \<open>junk\<close>.\<close>

definition pipe_init :: "u8 list \<Rightarrow> pipe" where
  "pipe_init junk = \<lparr>p_data = junk, p_nread = 0, p_nwrite = 0, p_readopen = True, p_writeopen = True\<rparr>"

text \<open>\<open>pipeclose\<close> closes one end; the pipe is freed (\<open>None\<close>) when both ends are closed.\<close>

definition pipeclose :: "bool \<Rightarrow> pipe \<Rightarrow> pipe option" where
  "pipeclose writable p =
     (let p = (if writable then p\<lparr>p_writeopen := False\<rparr> else p\<lparr>p_readopen := False\<rparr>)
      in if \<not> p_readopen p \<and> \<not> p_writeopen p then None else Some p)"

text \<open>\<open>Done r\<close>: the call returned \<open>r\<close>; \<open>Sleep x\<close>: it sleeps, \<open>x\<close> is still to be done.\<close>

datatype 'x outcome = Done int | Sleep 'x

text \<open>\<open>p->data[p->nwrite++ % PIPESIZE] = b\<close>\<close>

definition pipe_put :: "u8 \<Rightarrow> pipe \<Rightarrow> pipe" where
  "pipe_put b p = p\<lparr>p_data := (p_data p)[unat (p_nwrite p) mod PIPESIZE := b], p_nwrite := p_nwrite p + 1\<rparr>"

text \<open>The loop of \<open>pipewrite\<close> over the bytes that are left; \<open>n\<close> is the number the caller asked for.\<close>

fun pipewrite :: "bool \<Rightarrow> int \<Rightarrow> u8 list \<Rightarrow> pipe \<Rightarrow> u8 list outcome \<times> pipe" where
  "pipewrite killed n [] p = (Done n, p)"
| "pipewrite killed n (b # bs) p =
     (if p_nwrite p = p_nread p + of_nat PIPESIZE then
        (if \<not> p_readopen p \<or> killed then (Done (- 1), p) else (Sleep (b # bs), p))
      else pipewrite killed n bs (pipe_put b p))"

fun piperead_copy :: "nat \<Rightarrow> pipe \<Rightarrow> u8 list \<times> pipe" where
  "piperead_copy 0 p = ([], p)"
| "piperead_copy (Suc n) p =
     (if p_nread p = p_nwrite p then ([], p)
      else
        let b = p_data p ! (unat (p_nread p) mod PIPESIZE);
            (bs, p) = piperead_copy n (p\<lparr>p_nread := p_nread p + 1\<rparr>)
        in (b # bs, p))"

definition piperead :: "bool \<Rightarrow> int \<Rightarrow> pipe \<Rightarrow> unit outcome \<times> u8 list \<times> pipe" where
  "piperead killed n p =
     (if p_nread p = p_nwrite p \<and> p_writeopen p then (if killed then (Done (- 1), [], p) else (Sleep (), [], p))
      else let (bs, p) = piperead_copy (nat n) p in (Done (int (length bs)), bs, p))"

section \<open>The contents of a pipe\<close>

text \<open>
  The bytes written and not yet read. The counters wrap at \<open>2^32\<close>, a multiple of \<open>PIPESIZE\<close>, so the
  positions stay consecutive across the wrap.
\<close>

definition fill :: "pipe \<Rightarrow> nat" where
  "fill p = unat (p_nwrite p - p_nread p)"

definition contents :: "pipe \<Rightarrow> u8 list" where
  "contents p = map (\<lambda>k. p_data p ! (unat (p_nread p + of_nat k) mod PIPESIZE)) [0..<fill p]"

definition pipe_ok :: "pipe \<Rightarrow> bool" where
  "pipe_ok p \<longleftrightarrow> length (p_data p) = PIPESIZE \<and> fill p \<le> PIPESIZE"

lemma unat_small: "k \<le> 1000 \<Longrightarrow> unat (of_nat k :: u32) = k"
  by (simp add: unat_of_nat)

lemma pos_add: "unat (w + of_nat k :: u32) mod PIPESIZE = (unat w + k) mod PIPESIZE"
proof -
  have "unat (w + of_nat k) = (unat w + k) mod 2 ^ 32"
    by (simp add: unat_word_ariths unat_of_nat mod_simps)
  moreover have "(PIPESIZE :: nat) dvd 2 ^ 32" by (simp add: PIPESIZE_def)
  ultimately show ?thesis by (simp only: mod_mod_cancel)
qed

lemma contents_pos: "contents p = map (\<lambda>k. p_data p ! ((unat (p_nread p) + k) mod PIPESIZE)) [0..<fill p]"
  by (simp add: contents_def pos_add)

lemma full_iff: "fill p \<le> PIPESIZE \<Longrightarrow> p_nwrite p = p_nread p + of_nat PIPESIZE \<longleftrightarrow> fill p = PIPESIZE"
proof -
  have "p_nwrite p = p_nread p + of_nat PIPESIZE \<longleftrightarrow> p_nwrite p - p_nread p = of_nat PIPESIZE" by (auto simp: algebra_simps)
  also have "\<dots> \<longleftrightarrow> fill p = PIPESIZE" by (simp add: fill_def word_unat_eq_iff unat_of_nat PIPESIZE_def)
  finally show ?thesis .
qed

lemma nwrite_fill: "p_nwrite p = p_nread p + of_nat (fill p)"
  by (simp add: fill_def)

lemma write_one:
  assumes "pipe_ok p" "fill p < PIPESIZE"
  shows "pipe_ok (pipe_put b p)" "contents (pipe_put b p) = contents p @ [b]" "fill (pipe_put b p) = fill p + 1"
proof -
  let ?q = "pipe_put b p"
  note q_def = pipe_put_def
  have "p_nwrite ?q - p_nread ?q = of_nat (fill p + 1)" by (simp add: q_def fill_def)
  then show f: "fill ?q = fill p + 1" using assms(2) unfolding fill_def [of ?q] by (simp only: unat_small PIPESIZE_def)
  have w: "unat (p_nwrite p) mod PIPESIZE = (unat (p_nread p) + fill p) mod PIPESIZE"
    using pos_add [of "p_nread p" "fill p"] nwrite_fill [of p] by simp
  show ok: "pipe_ok ?q" using assms f by (simp add: pipe_ok_def) (simp add: q_def)
  have ne: "(unat (p_nread p) + k) mod PIPESIZE \<noteq> (unat (p_nread p) + fill p) mod PIPESIZE" if "k < fill p" for k
  proof
    assume "(unat (p_nread p) + k) mod PIPESIZE = (unat (p_nread p) + fill p) mod PIPESIZE"
    then have "PIPESIZE dvd (unat (p_nread p) + fill p) - (unat (p_nread p) + k)"
      using that by (intro mod_eq_dvd_iff_nat [THEN iffD1]) auto
    then have "PIPESIZE dvd fill p - k" by simp
    with that assms(2) show False by (auto dest: dvd_imp_le)
  qed
  have m: "(unat (p_nread p) + fill p) mod PIPESIZE < length (p_data p)"
    using assms(1) by (simp add: pipe_ok_def PIPESIZE_def)
  show "contents ?q = contents p @ [b]"
    unfolding contents_pos f using ne [symmetric] m by (simp add: q_def w nth_list_update)
qed

lemma read_one:
  assumes "pipe_ok p" "p_nread p \<noteq> p_nwrite p"
  defines "q \<equiv> p\<lparr>p_nread := p_nread p + 1\<rparr>"
  shows "pipe_ok q" "contents p = p_data p ! (unat (p_nread p) mod PIPESIZE) # contents q" "fill p = fill q + 1"
proof -
  have "fill p \<noteq> 0" using assms(2) by (simp add: fill_def unat_eq_0)
  moreover have "p_nwrite q - p_nread q = of_nat (fill p) - 1" by (simp add: q_def fill_def)
  ultimately have "p_nwrite q - p_nread q = of_nat (fill p - 1)" by (simp add: of_nat_diff)
  moreover have "fill p - 1 \<le> 1000" using assms(1) by (auto simp: pipe_ok_def PIPESIZE_def)
  ultimately have f: "fill q = fill p - 1" unfolding fill_def [of q] by (simp only: unat_small)
  with \<open>fill p \<noteq> 0\<close> show f1: "fill p = fill q + 1" by simp
  show "pipe_ok q" using assms(1) f by (auto simp: pipe_ok_def) (simp_all add: q_def)
  have "unat (p_nread q + of_nat k) mod PIPESIZE = (unat (p_nread p) + Suc k) mod PIPESIZE" for k
    using pos_add [of "p_nread p" "Suc k"] by (simp add: q_def ac_simps)
  then have "contents q = map (\<lambda>k. p_data p ! ((unat (p_nread p) + Suc k) mod PIPESIZE)) [0..<fill q]"
    by (simp add: contents_def q_def)
  then show "contents p = p_data p ! (unat (p_nread p) mod PIPESIZE) # contents q"
    unfolding contents_pos [of p] f1 by (simp add: upt_conv_Cons map_Suc_upt [symmetric] comp_def del: upt_Suc)
qed

lemma pipewrite_fits:
  assumes "pipe_ok p" "length bs \<le> PIPESIZE - fill p"
  shows "\<exists>q. pipewrite killed n bs p = (Done n, q) \<and> pipe_ok q \<and> contents q = contents p @ bs"
  using assms
proof (induction bs arbitrary: p)
  case (Cons b bs)
  let ?q = "pipe_put b p"
  have f: "fill p < PIPESIZE" using Cons.prems by (simp add: pipe_ok_def)
  note w = write_one [OF Cons.prems(1) f, of b]
  have le: "length bs \<le> PIPESIZE - fill ?q" using Cons.prems(2) w(3) by simp
  obtain q where "pipewrite killed n bs ?q = (Done n, q)" "pipe_ok q" "contents q = contents ?q @ bs"
    using Cons.IH [OF w(1) le] by auto
  moreover have "p_nwrite p \<noteq> p_nread p + of_nat PIPESIZE" using full_iff [of p] f by simp
  ultimately show ?case using w(2) by simp
qed simp

text \<open>A write that does not fit fills the pipe and sleeps with the rest, while the reader is there.\<close>

lemma pipewrite_blocks:
  assumes "pipe_ok p" "PIPESIZE - fill p < length bs" "p_readopen p"
  shows "\<exists>q. pipewrite False n bs p = (Sleep (drop (PIPESIZE - fill p) bs), q) \<and> pipe_ok q \<and>
    contents q = contents p @ take (PIPESIZE - fill p) bs"
  using assms
proof (induction bs arbitrary: p)
  case (Cons b bs)
  let ?q = "pipe_put b p"
  show ?case
  proof (cases "fill p = PIPESIZE")
    case True
    then have "p_nwrite p = p_nread p + of_nat PIPESIZE" using full_iff [of p] by simp
    then show ?thesis using Cons.prems True by simp
  next
    case False
    then have f: "fill p < PIPESIZE" using Cons.prems by (simp add: pipe_ok_def)
    note w = write_one [OF Cons.prems(1) f, of b]
    have le: "PIPESIZE - fill ?q < length bs" using Cons.prems(2) w(3) f by simp
    have ro: "p_readopen ?q" using Cons.prems(3) by (simp add: pipe_put_def)
    obtain q where "pipewrite False n bs ?q = (Sleep (drop (PIPESIZE - fill ?q) bs), q)" "pipe_ok q"
      "contents q = contents ?q @ take (PIPESIZE - fill ?q) bs"
      using Cons.IH [OF w(1) le ro] by auto
    moreover have "p_nwrite p \<noteq> p_nread p + of_nat PIPESIZE" using full_iff [of p] f by simp
    moreover have "PIPESIZE - fill p = Suc (PIPESIZE - fill ?q)" using w(3) f by simp
    ultimately show ?thesis using w(2) by simp
  qed
qed simp

lemma piperead_copy_ok:
  "pipe_ok p \<Longrightarrow> \<exists>q. piperead_copy n p = (take n (contents p), q) \<and> pipe_ok q \<and> contents q = drop n (contents p)"
proof (induction n arbitrary: p)
  case (Suc n)
  show ?case
  proof (cases "p_nread p = p_nwrite p")
    case True
    then have "contents p = []" by (simp add: contents_def fill_def)
    with True Suc.prems show ?thesis by simp
  next
    case False
    note r = read_one [OF Suc.prems False]
    obtain q where q: "piperead_copy n (p\<lparr>p_nread := p_nread p + 1\<rparr>) = (take n (contents (p\<lparr>p_nread := p_nread p + 1\<rparr>)), q)"
      "pipe_ok q" "contents q = drop n (contents (p\<lparr>p_nread := p_nread p + 1\<rparr>))"
      using Suc.IH [OF r(1)] by blast
    then show ?thesis using False r(2) by simp
  qed
qed simp

lemma contents_empty: "p_nread p = p_nwrite p \<Longrightarrow> contents p = []"
  by (simp add: contents_def fill_def)

lemma piperead_ok:
  assumes "pipe_ok p" "contents p \<noteq> []"
  shows "\<exists>q. piperead killed n p = (Done (int (length (take (nat n) (contents p)))), take (nat n) (contents p), q) \<and>
    pipe_ok q \<and> contents q = drop (nat n) (contents p)"
  using piperead_copy_ok [OF assms(1), of "nat n"] contents_empty [of p] assms(2) by (auto simp: piperead_def)

text \<open>
  C30. A pipe is a bounded first-in first-out queue, also when its counters wrap: a write appends as
  many bytes as fit and sleeps with the others while the reading end is open; a read takes bytes
  from the front, in order, and leaves the rest.
\<close>

theorem pipe_is_fifo:
  assumes "pipe_ok p" "p_readopen p"
  shows "\<exists>q. pipewrite False n bs p =
      (if length bs \<le> PIPESIZE - fill p then Done n else Sleep (drop (PIPESIZE - fill p) bs), q) \<and>
    pipe_ok q \<and> contents q = contents p @ take (PIPESIZE - fill p) bs \<and>
    (contents q \<noteq> [] \<longrightarrow> (\<exists>u. piperead killed m q =
        (Done (int (length (take (nat m) (contents q)))), take (nat m) (contents q), u) \<and>
      pipe_ok u \<and> contents u = drop (nat m) (contents q)))"
proof (cases "length bs \<le> PIPESIZE - fill p")
  case True
  then show ?thesis using pipewrite_fits [OF assms(1) True, of False n] piperead_ok by fastforce
next
  case False
  then show ?thesis using pipewrite_blocks [OF assms(1) _ assms(2), of bs n] piperead_ok by fastforce
qed

theorem pipe_is_fifo_witness:
  "\<exists>q. pipewrite False 2 [1, 2] (pipe_init (replicate PIPESIZE 7)) = (Done 2, q) \<and> contents q = [1, 2]"
proof -
  have "pipe_ok (pipe_init (replicate PIPESIZE 7))" "fill (pipe_init (replicate PIPESIZE 7)) = 0"
    "contents (pipe_init (replicate PIPESIZE 7)) = []"
    by (simp_all add: pipe_ok_def pipe_init_def fill_def contents_def)
  then show ?thesis
    using pipe_is_fifo [of "pipe_init (replicate PIPESIZE 7)" 2 "[1, 2]"] by (auto simp: pipe_init_def PIPESIZE_def)
qed

end
