(* ===== verification/File.thy ===== *)
theory File
  imports Fs Pipe
begin

text \<open>
  Open files (\<open>07_xv6_File_System/PartA/file.c\<close>), the allocation of pipes, and the file descriptors
  of the running process (first part of \<open>sysfile.c\<close>).
\<close>

section \<open>State\<close>

definition NFILE :: nat where "NFILE = 100"
definition NOFILE :: nat where "NOFILE = 16"

datatype ftype = FD_NONE | FD_PIPE | FD_INODE

record kfile =
  f_type :: ftype
  f_ref :: int
  f_readable :: bool
  f_writable :: bool
  f_pipe :: nat
  f_ip :: nat
  f_off :: u32

text \<open>
  \<open>ft_pipe\<close> holds the pipes by the page they live in, \<open>ft_ofile\<close> the descriptors of the running
  process and \<open>ft_killed\<close> whether it was killed.
\<close>

record filesys = fsk +
  ft_file :: "kfile list"
  ft_pipe :: "nat \<rightharpoonup> pipe"
  ft_ofile :: "nat option list"
  ft_killed :: bool

abbreviation fil :: "'a filesys_scheme \<Rightarrow> nat \<Rightarrow> kfile" where
  "fil s i \<equiv> ft_file s ! i"

definition upd_file :: "nat \<Rightarrow> (kfile \<Rightarrow> kfile) \<Rightarrow> 'a filesys_scheme \<Rightarrow> 'a filesys_scheme" where
  "upd_file i g s = s\<lparr>ft_file := (ft_file s)[i := g (ft_file s ! i)]\<rparr>"

section \<open>The file table\<close>

definition filealloc :: "'a filesys_scheme \<Rightarrow> nat option \<times> 'a filesys_scheme" where
  "filealloc s =
     (case find (\<lambda>i. f_ref (fil s i) = 0) [0..<NFILE] of
        Some i \<Rightarrow> (Some i, upd_file i (\<lambda>f. f\<lparr>f_ref := 1\<rparr>) s)
      | None \<Rightarrow> (None, s))"

definition filedup :: "nat \<Rightarrow> 'a filesys_scheme \<Rightarrow> 'a filesys_scheme res" where
  "filedup i s =
     (if f_ref (fil s i) < 1 then Inl (Panic ''filedup'') else Inr (upd_file i (\<lambda>f. f\<lparr>f_ref := f_ref f + 1\<rparr>) s))"

definition close_pipe :: "nat \<Rightarrow> bool \<Rightarrow> 'a filesys_scheme \<Rightarrow> 'a filesys_scheme res" where
  "close_pipe a writable s =
     (case ft_pipe s a of None \<Rightarrow> Inl (Undefined ''pipeclose of a freed pipe'')
      | Some p \<Rightarrow> Inr (s\<lparr>ft_pipe := (ft_pipe s)(a := pipeclose writable p)\<rparr>))"

definition fileclose :: "nat \<Rightarrow> 'a filesys_scheme \<Rightarrow> 'a filesys_scheme res" where
  "fileclose i s =
     (if f_ref (fil s i) < 1 then Inl (Panic ''fileclose'')
      else
        let s = upd_file i (\<lambda>f. f\<lparr>f_ref := f_ref f - 1\<rparr>) s in
        if f_ref (fil s i) > 0 then Inr s
        else
          let ff = fil s i; s = upd_file i (\<lambda>f. f\<lparr>f_ref := 0, f_type := FD_NONE\<rparr>) s in
          case f_type ff of
            FD_PIPE \<Rightarrow> close_pipe (f_pipe ff) (f_writable ff) s
          | FD_INODE \<Rightarrow> rbind (begin_op s) (\<lambda>s. rbind (iput (f_ip ff) s) end_op)
          | FD_NONE \<Rightarrow> Inr s)"

definition filestat :: "nat \<Rightarrow> 'a filesys_scheme \<Rightarrow> (int \<times> stat option \<times> 'a filesys_scheme) res" where
  "filestat i s =
     (if f_type (fil s i) = FD_INODE then
        rbind (ilock (Some (f_ip (fil s i))) s) (\<lambda>s.
        let st = stati (f_ip (fil s i)) s in
        rbind (iunlock (Some (f_ip (fil s i))) s) (\<lambda>s. Inr (0, Some st, s)))
      else Inr (- 1, None, s))"

text \<open>A read or write that sleeps does not return.\<close>

definition fileread :: "nat \<Rightarrow> int \<Rightarrow> 'a filesys_scheme \<Rightarrow> (int \<times> u8 list \<times> 'a filesys_scheme) res" where
  "fileread i n s =
     (if \<not> f_readable (fil s i) then Inr (- 1, [], s)
      else case f_type (fil s i) of
        FD_PIPE \<Rightarrow>
          (case ft_pipe s (f_pipe (fil s i)) of None \<Rightarrow> Inl (Undefined ''piperead of a freed pipe'')
           | Some p \<Rightarrow> (case piperead (ft_killed s) n p of
                 (Sleep _, _, _) \<Rightarrow> Inl Hang
               | (Done r, bytes, p) \<Rightarrow> Inr (r, bytes, s\<lparr>ft_pipe := (ft_pipe s)(f_pipe (fil s i) \<mapsto> p)\<rparr>)))
      | FD_INODE \<Rightarrow>
          rbind (ilock (Some (f_ip (fil s i))) s) (\<lambda>s.
          rbind (readi (f_ip (fil s i)) (f_off (fil s i)) (word_of_int n) s) (\<lambda>(r, bytes, s).
          let s = (if r > 0 then upd_file i (\<lambda>f. f\<lparr>f_off := f_off f + word_of_int r\<rparr>) s else s) in
          rbind (iunlock (Some (f_ip (fil s i))) s) (\<lambda>s. Inr (r, bytes, s))))
      | FD_NONE \<Rightarrow> Inl (Panic ''fileread''))"

definition write_max :: nat where
  "write_max = ((MAXOPBLOCKS - 1 - 1 - 2) div 2) * 512"

text \<open>The loop of \<open>filewrite\<close>; the result tells whether all bytes were written.\<close>

function filewrite_loop :: "nat \<Rightarrow> u8 list \<Rightarrow> 'a filesys_scheme \<Rightarrow> (bool \<times> 'a filesys_scheme) res" where
  "filewrite_loop i bytes s =
     (if bytes = [] then Inr (True, s)
      else
        let n1 = min (length bytes) write_max in
        rbind (begin_op s) (\<lambda>s.
        rbind (ilock (Some (f_ip (fil s i))) s) (\<lambda>s.
        rbind (writei (f_ip (fil s i)) (take n1 bytes) (f_off (fil s i)) s) (\<lambda>(r, s).
        let s = (if r > 0 then upd_file i (\<lambda>f. f\<lparr>f_off := f_off f + word_of_int r\<rparr>) s else s) in
        rbind (iunlock (Some (f_ip (fil s i))) s) (\<lambda>s.
        rbind (end_op s) (\<lambda>s.
        if r < 0 then Inr (False, s)
        else if r \<noteq> int n1 then Inl (Panic ''short filewrite'')
        else filewrite_loop i (drop n1 bytes) s))))))"
  by pat_completeness auto
termination
  by (relation "measure (\<lambda>(i, bytes, s). length bytes)") (auto simp: write_max_def MAXOPBLOCKS_def)

declare filewrite_loop.simps [simp del]

definition filewrite :: "nat \<Rightarrow> u8 list \<Rightarrow> 'a filesys_scheme \<Rightarrow> (int \<times> 'a filesys_scheme) res" where
  "filewrite i bytes s =
     (let n = int (length bytes) in
      if \<not> f_writable (fil s i) then Inr (- 1, s)
      else case f_type (fil s i) of
        FD_PIPE \<Rightarrow>
          (case ft_pipe s (f_pipe (fil s i)) of None \<Rightarrow> Inl (Undefined ''pipewrite to a freed pipe'')
           | Some p \<Rightarrow> (case pipewrite (ft_killed s) n bytes p of
                 (Sleep _, _) \<Rightarrow> Inl Hang
               | (Done r, p) \<Rightarrow> Inr (r, s\<lparr>ft_pipe := (ft_pipe s)(f_pipe (fil s i) \<mapsto> p)\<rparr>)))
      | FD_INODE \<Rightarrow> rbind (filewrite_loop i bytes s) (\<lambda>(all, s). Inr (if all then n else - 1, s))
      | FD_NONE \<Rightarrow> Inl (Panic ''filewrite''))"

section \<open>Pipes\<close>

text \<open>\<open>page\<close> is what \<open>kalloc\<close> returns: a page with its contents, or nothing.\<close>

definition pipealloc :: "(nat \<times> u8 list) option \<Rightarrow> 'a filesys_scheme \<Rightarrow> ((nat \<times> nat) option \<times> 'a filesys_scheme) res" where
  "pipealloc page s =
     (case filealloc s of
        (None, s) \<Rightarrow> Inr (None, s)
      | (Some f0, s) \<Rightarrow>
          (case filealloc s of
             (None, s) \<Rightarrow> rbind (fileclose f0 s) (\<lambda>s. Inr (None, s))
           | (Some f1, s) \<Rightarrow>
               (case page of
                  None \<Rightarrow> rbind (fileclose f0 s) (\<lambda>s. rbind (fileclose f1 s) (\<lambda>s. Inr (None, s)))
                | Some (a, junk) \<Rightarrow>
                    let s = s\<lparr>ft_pipe := (ft_pipe s)(a \<mapsto> pipe_init junk)\<rparr>;
                        s = upd_file f0 (\<lambda>f. f\<lparr>f_type := FD_PIPE, f_readable := True, f_writable := False, f_pipe := a\<rparr>) s;
                        s = upd_file f1 (\<lambda>f. f\<lparr>f_type := FD_PIPE, f_readable := False, f_writable := True, f_pipe := a\<rparr>) s
                    in Inr (Some (f0, f1), s))))"

section \<open>Descriptors\<close>

text \<open>\<open>argfd\<close>: the file of a descriptor, when the descriptor is open.\<close>

definition argfd :: "int \<Rightarrow> 'a filesys_scheme \<Rightarrow> (nat \<times> nat) option" where
  "argfd fd s =
     (if fd < 0 \<or> fd \<ge> int NOFILE then None
      else case ft_ofile s ! nat fd of None \<Rightarrow> None | Some f \<Rightarrow> Some (nat fd, f))"

definition fdalloc :: "nat \<Rightarrow> 'a filesys_scheme \<Rightarrow> nat option \<times> 'a filesys_scheme" where
  "fdalloc f s =
     (case find (\<lambda>fd. ft_ofile s ! fd = None) [0..<NOFILE] of
        Some fd \<Rightarrow> (Some fd, s\<lparr>ft_ofile := (ft_ofile s)[fd := Some f]\<rparr>)
      | None \<Rightarrow> (None, s))"

definition fd_result :: "nat option \<Rightarrow> int" where
  "fd_result r = (case r of None \<Rightarrow> - 1 | Some fd \<Rightarrow> int fd)"

definition sys_dup :: "int \<Rightarrow> 'a filesys_scheme \<Rightarrow> (int \<times> 'a filesys_scheme) res" where
  "sys_dup fd s =
     (case argfd fd s of None \<Rightarrow> Inr (- 1, s)
      | Some (_, f) \<Rightarrow>
          (case fdalloc f s of (None, s) \<Rightarrow> Inr (- 1, s)
           | (Some nfd, s) \<Rightarrow> rbind (filedup f s) (\<lambda>s. Inr (int nfd, s))))"

text \<open>\<open>argptr\<close> fails for a bad buffer; \<open>buf\<close> is the buffer's contents, \<open>ok\<close> whether it is good.\<close>

definition sys_read :: "int \<Rightarrow> bool \<Rightarrow> int \<Rightarrow> 'a filesys_scheme \<Rightarrow> (int \<times> u8 list \<times> 'a filesys_scheme) res" where
  "sys_read fd ok n s =
     (case argfd fd s of None \<Rightarrow> Inr (- 1, [], s)
      | Some (_, f) \<Rightarrow> if \<not> ok then Inr (- 1, [], s) else fileread f n s)"

definition sys_write :: "int \<Rightarrow> u8 list option \<Rightarrow> 'a filesys_scheme \<Rightarrow> (int \<times> 'a filesys_scheme) res" where
  "sys_write fd buf s =
     (case argfd fd s of None \<Rightarrow> Inr (- 1, s)
      | Some (_, f) \<Rightarrow> (case buf of None \<Rightarrow> Inr (- 1, s) | Some bytes \<Rightarrow> filewrite f bytes s))"

definition sys_close :: "int \<Rightarrow> 'a filesys_scheme \<Rightarrow> (int \<times> 'a filesys_scheme) res" where
  "sys_close fd s =
     (case argfd fd s of None \<Rightarrow> Inr (- 1, s)
      | Some (n, f) \<Rightarrow> rbind (fileclose f (s\<lparr>ft_ofile := (ft_ofile s)[n := None]\<rparr>)) (\<lambda>s. Inr (0, s)))"

definition sys_fstat :: "int \<Rightarrow> bool \<Rightarrow> 'a filesys_scheme \<Rightarrow> (int \<times> stat option \<times> 'a filesys_scheme) res" where
  "sys_fstat fd ok s =
     (case argfd fd s of None \<Rightarrow> Inr (- 1, None, s)
      | Some (_, f) \<Rightarrow> if \<not> ok then Inr (- 1, None, s) else filestat f s)"

definition sys_pipe :: "(nat \<times> u8 list) option \<Rightarrow> bool \<Rightarrow> 'a filesys_scheme \<Rightarrow> (int \<times> (nat \<times> nat) option \<times> 'a filesys_scheme) res" where
  "sys_pipe page ok s =
     (if \<not> ok then Inr (- 1, None, s)
      else rbind (pipealloc page s) (\<lambda>(r, s).
        case r of None \<Rightarrow> Inr (- 1, None, s)
        | Some (rf, wrf) \<Rightarrow>
            (case fdalloc rf s of
               (None, s) \<Rightarrow> rbind (fileclose rf s) (\<lambda>s. rbind (fileclose wrf s) (\<lambda>s. Inr (- 1, None, s)))
             | (Some fd0, s) \<Rightarrow>
                 (case fdalloc wrf s of
                    (None, s) \<Rightarrow>
                      let s = s\<lparr>ft_ofile := (ft_ofile s)[fd0 := None]\<rparr> in
                      rbind (fileclose rf s) (\<lambda>s. rbind (fileclose wrf s) (\<lambda>s. Inr (- 1, None, s)))
                  | (Some fd1, s) \<Rightarrow> Inr (0, Some (fd0, fd1), s)))))"

end
