(* ===== verification/Sysfile.thy ===== *)
theory Sysfile
  imports File
begin

text \<open>
  The system calls on paths (\<open>07_xv6_File_System/PartA/sysfile.c\<close>). Arguments are what \<open>argstr\<close> and
  \<open>argint\<close> deliver, \<open>None\<close> when they fail; \<open>depth\<close> bounds the nesting of symbolic links as in
  \<open>namex\<close>.
\<close>

definition O_WRONLY :: u32 where "O_WRONLY = 0x001"
definition O_RDWR :: u32 where "O_RDWR = 0x002"
definition O_CREATE :: u32 where "O_CREATE = 0x200"

definition dot :: "u8 list" where "dot = [46]"
definition dotdot :: "u8 list" where "dotdot = [46, 46]"

text \<open>\<open>end_op(); return r;\<close>\<close>

definition ends :: "'r \<Rightarrow> 'a klog_scheme \<Rightarrow> ('r \<times> 'a klog_scheme) res" where
  "ends r s = rbind (end_op s) (\<lambda>s. Inr (r, s))"

section \<open>Links\<close>

text \<open>The label \<open>bad\<close> of \<open>sys_link\<close>.\<close>

definition link_bad :: "nat \<Rightarrow> 'a fsk_scheme \<Rightarrow> (int \<times> 'a fsk_scheme) res" where
  "link_bad ip s =
     rbind (ilock (Some ip) s) (\<lambda>s.
     rbind (iupdate ip (upd_ino ip (\<lambda>i. i\<lparr>i_nlink := i_nlink i - 1\<rparr>) s)) (\<lambda>s.
     rbind (iunlockput ip s) (ends (- 1))))"

definition sys_link :: "nat \<Rightarrow> u8 list option \<Rightarrow> u8 list option \<Rightarrow> 'a fsk_scheme \<Rightarrow> (int \<times> 'a fsk_scheme) res" where
  "sys_link depth old new s =
     (case (old, new) of
        (Some old, Some new) \<Rightarrow>
          rbind (begin_op s) (\<lambda>s.
          rbind (namei depth old s) (\<lambda>(r, s).
          case r of None \<Rightarrow> ends (- 1) s
          | Some ip \<Rightarrow>
              rbind (ilock (Some ip) s) (\<lambda>s.
              if i_type (ino s ip) = T_DIR then rbind (iunlockput ip s) (ends (- 1))
              else
                rbind (iupdate ip (upd_ino ip (\<lambda>i. i\<lparr>i_nlink := i_nlink i + 1\<rparr>) s)) (\<lambda>s.
                rbind (iunlock (Some ip) s) (\<lambda>s.
                rbind (nameiparent depth new s) (\<lambda>(r, name, s).
                case r of None \<Rightarrow> link_bad ip s
                | Some dp \<Rightarrow>
                    rbind (ilock (Some dp) s) (\<lambda>s.
                    rbind (if i_dev (ino s dp) \<noteq> i_dev (ino s ip) then Inr (- 1, s)
                           else dirlink dp name (i_inum (ino s ip)) s) (\<lambda>(e, s).
                    if e < 0 then rbind (iunlockput dp s) (link_bad ip)
                    else
                      rbind (iunlockput dp s) (\<lambda>s.
                      rbind (iput ip s) (ends 0))))))))))
      | _ \<Rightarrow> Inr (- 1, s))"

fun dirempty_scan :: "nat \<Rightarrow> nat list \<Rightarrow> 'a fsk_scheme \<Rightarrow> (bool \<times> 'a fsk_scheme) res" where
  "dirempty_scan dp [] s = Inr (True, s)"
| "dirempty_scan dp (off # offs) s =
     rbind (readi dp (of_nat off) 16 s) (\<lambda>(r, de, s).
       if r \<noteq> 16 then Inl (Panic ''isdirempty: readi'')
       else if de_inum de \<noteq> 0 then Inr (False, s)
       else dirempty_scan dp offs s)"

definition isdirempty :: "nat \<Rightarrow> 'a fsk_scheme \<Rightarrow> (bool \<times> 'a fsk_scheme) res" where
  "isdirempty dp s = dirempty_scan dp (dir_offs 2 (i_size (ino s dp))) s"

definition unlink_bad :: "nat \<Rightarrow> 'a fsk_scheme \<Rightarrow> (int \<times> 'a fsk_scheme) res" where
  "unlink_bad dp s = rbind (iunlockput dp s) (ends (- 1))"

text \<open>The second half of \<open>sys_unlink\<close>: both inodes are locked and the entry at \<open>off\<close> may go.\<close>

definition unlink_entry :: "nat \<Rightarrow> nat \<Rightarrow> nat \<Rightarrow> 'a fsk_scheme \<Rightarrow> (int \<times> 'a fsk_scheme) res" where
  "unlink_entry dp ip off s =
     rbind (writei dp (replicate 16 0) (of_nat off) s) (\<lambda>(r, s).
     if r \<noteq> 16 then Inl (Panic ''unlink: writei'')
     else
       rbind (if i_type (ino s ip) = T_DIR
              then iupdate dp (upd_ino dp (\<lambda>i. i\<lparr>i_nlink := i_nlink i - 1\<rparr>) s)
              else Inr s) (\<lambda>s.
       rbind (iunlockput dp s) (\<lambda>s.
       rbind (iupdate ip (upd_ino ip (\<lambda>i. i\<lparr>i_nlink := i_nlink i - 1\<rparr>) s)) (\<lambda>s.
       rbind (iunlockput ip s) (ends 0)))))"

definition sys_unlink :: "nat \<Rightarrow> u8 list option \<Rightarrow> 'a fsk_scheme \<Rightarrow> (int \<times> 'a fsk_scheme) res" where
  "sys_unlink depth path s =
     (case path of None \<Rightarrow> Inr (- 1, s)
      | Some path \<Rightarrow>
          rbind (begin_op s) (\<lambda>s.
          rbind (nameiparent depth path s) (\<lambda>(r, name, s).
          case r of None \<Rightarrow> ends (- 1) s
          | Some dp \<Rightarrow>
              rbind (ilock (Some dp) s) (\<lambda>s.
              if namecmp name dot = 0 \<or> namecmp name dotdot = 0 then unlink_bad dp s
              else
                rbind (dirlookup dp name s) (\<lambda>(r, s).
                case r of None \<Rightarrow> unlink_bad dp s
                | Some (ip, off) \<Rightarrow>
                    rbind (ilock (Some ip) s) (\<lambda>s.
                    if sint (i_nlink (ino s ip)) < 1 then Inl (Panic ''unlink: nlink < 1'')
                    else
                      rbind (if i_type (ino s ip) = T_DIR then isdirempty ip s else Inr (True, s)) (\<lambda>(empty, s).
                      if \<not> empty then rbind (iunlockput ip s) (unlink_bad dp)
                      else unlink_entry dp ip off s)))))))"

section \<open>Creating and opening\<close>

definition create :: "nat \<Rightarrow> u8 list \<Rightarrow> u16 \<Rightarrow> u16 \<Rightarrow> u16 \<Rightarrow> 'a fsk_scheme \<Rightarrow> (nat option \<times> 'a fsk_scheme) res" where
  "create depth path ty major minor s =
     rbind (nameiparent depth path s) (\<lambda>(r, name, s).
     case r of None \<Rightarrow> Inr (None, s)
     | Some dp \<Rightarrow>
         rbind (ilock (Some dp) s) (\<lambda>s.
         rbind (dirlookup dp name s) (\<lambda>(r, s).
         case r of
           Some (ip, _) \<Rightarrow>
             rbind (iunlockput dp s) (\<lambda>s.
             rbind (ilock (Some ip) s) (\<lambda>s.
             if ty = T_FILE \<and> i_type (ino s ip) = T_FILE then Inr (Some ip, s)
             else rbind (iunlockput ip s) (\<lambda>s. Inr (None, s))))
         | None \<Rightarrow>
             rbind (ialloc (i_dev (ino s dp)) ty s) (\<lambda>(ip, s).
             rbind (ilock (Some ip) s) (\<lambda>s.
             rbind (iupdate ip (upd_ino ip (\<lambda>i. i\<lparr>i_major := major, i_minor := minor, i_nlink := 1\<rparr>) s)) (\<lambda>s.
             rbind (if ty = T_DIR then
                      rbind (iupdate dp (upd_ino dp (\<lambda>i. i\<lparr>i_nlink := i_nlink i + 1\<rparr>) s)) (\<lambda>s.
                      rbind (dirlink ip dot (i_inum (ino s ip)) s) (\<lambda>(e, s).
                      if e < 0 then Inl (Panic ''create dots'')
                      else
                        rbind (dirlink ip dotdot (i_inum (ino s dp)) s) (\<lambda>(e, s).
                        if e < 0 then Inl (Panic ''create dots'') else Inr s)))
                    else Inr s) (\<lambda>s.
             rbind (dirlink dp name (i_inum (ino s ip)) s) (\<lambda>(e, s).
             if e < 0 then Inl (Panic ''create: dirlink'')
             else rbind (iunlockput dp s) (\<lambda>s. Inr (Some ip, s))))))))))"

text \<open>The part of \<open>sys_open\<close> after the inode is found and locked.\<close>

definition open_file :: "nat \<Rightarrow> u32 \<Rightarrow> 'a filesys_scheme \<Rightarrow> (int \<times> 'a filesys_scheme) res" where
  "open_file ip omode s =
     (case filealloc s of
        (None, s) \<Rightarrow> rbind (iunlockput ip s) (ends (- 1))
      | (Some f, s) \<Rightarrow>
          (case fdalloc f s of
             (None, s) \<Rightarrow> rbind (fileclose f s) (\<lambda>s. rbind (iunlockput ip s) (ends (- 1)))
           | (Some fd, s) \<Rightarrow>
               rbind (iunlock (Some ip) s) (\<lambda>s.
               rbind (end_op s) (\<lambda>s.
               Inr (int fd, upd_file f (\<lambda>f. f\<lparr>f_type := FD_INODE, f_ip := ip, f_off := 0,
                 f_readable := (and omode O_WRONLY = 0),
                 f_writable := (and omode O_WRONLY \<noteq> 0 \<or> and omode O_RDWR \<noteq> 0)\<rparr>) s)))))"

definition sys_open :: "nat \<Rightarrow> u8 list option \<Rightarrow> u32 option \<Rightarrow> 'a filesys_scheme \<Rightarrow> (int \<times> 'a filesys_scheme) res" where
  "sys_open depth path omode s =
     (case (path, omode) of
        (Some path, Some omode) \<Rightarrow>
          rbind (begin_op s) (\<lambda>s.
          if and omode O_CREATE \<noteq> 0 then
            rbind (create depth path T_FILE 0 0 s) (\<lambda>(r, s).
            case r of None \<Rightarrow> ends (- 1) s | Some ip \<Rightarrow> open_file ip omode s)
          else
            rbind (namei depth path s) (\<lambda>(r, s).
            case r of None \<Rightarrow> ends (- 1) s
            | Some ip \<Rightarrow>
                rbind (ilock (Some ip) s) (\<lambda>s.
                if i_type (ino s ip) = T_DIR \<and> check_sym s then rbind (iunlockput ip s) (ends (- 1))
                else if i_type (ino s ip) = T_DIR \<and> omode \<noteq> 0 then rbind (iunlockput ip s) (ends (- 1))
                else open_file ip omode s)))
      | _ \<Rightarrow> Inr (- 1, s))"

text \<open>\<open>iunlockput(ip); end_op(); return 0;\<close> or \<open>end_op(); return -1;\<close> after a \<open>create\<close>.\<close>

definition created :: "nat option \<times> 'a fsk_scheme \<Rightarrow> (int \<times> 'a fsk_scheme) res" where
  "created x = (case x of (None, s) \<Rightarrow> ends (- 1) s | (Some ip, s) \<Rightarrow> rbind (iunlockput ip s) (ends 0))"

definition sys_mkdir :: "nat \<Rightarrow> u8 list option \<Rightarrow> 'a fsk_scheme \<Rightarrow> (int \<times> 'a fsk_scheme) res" where
  "sys_mkdir depth path s =
     rbind (begin_op s) (\<lambda>s.
       case path of None \<Rightarrow> ends (- 1) s | Some path \<Rightarrow> rbind (create depth path T_DIR 0 0 s) created)"

definition sys_mknod :: "nat \<Rightarrow> u8 list option \<Rightarrow> int option \<Rightarrow> int option \<Rightarrow> 'a fsk_scheme \<Rightarrow> (int \<times> 'a fsk_scheme) res" where
  "sys_mknod depth path major minor s =
     rbind (begin_op s) (\<lambda>s.
       case (path, major, minor) of
         (Some path, Some major, Some minor) \<Rightarrow>
           rbind (create depth path T_DEV (word_of_int major) (word_of_int minor) s) created
       | _ \<Rightarrow> ends (- 1) s)"

definition sys_chdir :: "nat \<Rightarrow> u8 list option \<Rightarrow> 'a fsk_scheme \<Rightarrow> (int \<times> 'a fsk_scheme) res" where
  "sys_chdir depth path s =
     rbind (begin_op s) (\<lambda>s.
     rbind (case path of None \<Rightarrow> Inr (None, s) | Some path \<Rightarrow> namei depth path s) (\<lambda>(r, s).
     case r of None \<Rightarrow> ends (- 1) s
     | Some ip \<Rightarrow>
         rbind (ilock (Some ip) s) (\<lambda>s.
         if i_type (ino s ip) \<noteq> T_DIR then rbind (iunlockput ip s) (ends (- 1))
         else
           rbind (iunlock (Some ip) s) (\<lambda>s.
           rbind (iput (fs_cwd s) s) (\<lambda>s.
           rbind (end_op s) (\<lambda>s. Inr (0, s\<lparr>fs_cwd := ip\<rparr>)))))))"

text \<open>The result of \<open>writei\<close> is ignored.\<close>

definition sys_symlink :: "nat \<Rightarrow> u8 list option \<Rightarrow> u8 list option \<Rightarrow> 'a fsk_scheme \<Rightarrow> (int \<times> 'a fsk_scheme) res" where
  "sys_symlink depth target link_name s =
     (case (target, link_name) of
        (Some target, Some link_name) \<Rightarrow>
          rbind (begin_op s) (\<lambda>s.
          rbind (create depth link_name T_SYM 0 0 s) (\<lambda>(r, s).
          case r of None \<Rightarrow> ends (- 1) s
          | Some ip \<Rightarrow>
              rbind (writei ip target 0 s) (\<lambda>(_, s).
              rbind (iunlockput ip s) (ends 0))))
      | _ \<Rightarrow> Inr (- 1, s))"

end
