(* ===== verification/FsProps.thy ===== *)
theory FsProps
  imports Fs LogResults
begin

text \<open>
  What the file system does to the disk inside a transaction: every operation reads and changes
  blocks through the cache and pins what it changes until the commit. First the effect of single
  blocks inside a transaction, then the block allocator.
\<close>

section \<open>Blocks inside a transaction\<close>

definition op_inv :: "'a klog_scheme \<Rightarrow> bool" where
  "op_inv s \<longleftrightarrow> bio_inv s \<and> 0 \<le> lg_n s \<and> length (lg_block s) = LOGSIZE \<and> lg_n s \<le> int LOGSIZE \<and> distinct (homes s) \<and>
     pinned s = set (homes s) \<and> 1 \<le> lg_outstanding s"

text \<open>Room for \<open>k\<close> more blocks, each locked or logged, in the log and in the cache.\<close>

definition room :: "'a klog_scheme \<Rightarrow> nat \<Rightarrow> bool" where
  "room s k \<longleftrightarrow> lg_n s + int (card (held s)) + int k \<le> int NBUF \<and> int NBUF < lg_size s"

text \<open>
  From \<open>s\<close> to \<open>t\<close> inside a transaction: the view becomes \<open>v\<close>, the buffers of \<open>H\<close> are locked, at most
  \<open>k\<close> blocks are new in the log; locked buffers stay in place and the disk is not written.
\<close>

definition op_eff :: "'a klog_scheme \<Rightarrow> 'a klog_scheme \<Rightarrow> (u32 \<Rightarrow> block) \<Rightarrow> u32 set \<Rightarrow> nat \<Rightarrow> bool" where
  "op_eff s t v H k \<longleftrightarrow> op_inv t \<and> view t = v \<and> held t = H \<and> bc_pid t = bc_pid s \<and> lg_n t \<le> lg_n s + int k \<and>
     lg_size t = lg_size s \<and> pinned s \<subseteq> pinned t \<and> bc_disk t 1 = bc_disk s 1 \<and>
     (\<forall>j m. buf_at s j m \<longrightarrow> m \<in> H \<longrightarrow> buf_at t j m)"

definition clean :: "'a klog_scheme \<Rightarrow> u32 \<Rightarrow> bool" where
  "clean s n \<longleftrightarrow> n \<in> pinned s \<or> view s n = bc_disk s 1 n"

lemma NBUF_LOGSIZE: "NBUF = LOGSIZE"
  by (simp add: NBUF_def LOGSIZE_def)

lemma op_eff_post: "op_eff s t v H k \<Longrightarrow> op_inv t \<and> view t = v \<and> held t = H \<and> bc_disk t 1 = bc_disk s 1 \<and> bc_pid t = bc_pid s"
  by (simp add: op_eff_def)

lemma op_inv_bio: "op_inv s \<Longrightarrow> bio_inv s"
  by (simp add: op_inv_def)

lemma op_refl: "op_inv s \<Longrightarrow> op_eff s s (view s) (held s) 0"
  by (simp add: op_eff_def)

lemma op_weaken: "op_eff s t v H j \<Longrightarrow> j \<le> k \<Longrightarrow> op_eff s t v H k"
  by (auto simp: op_eff_def)

lemma op_trans:
  assumes "op_eff s t v H j" "op_eff t u v' H' k" "held s \<inter> H' \<subseteq> H"
  shows "op_eff s u v' H' (j + k)"
proof -
  have "buf_at u i m" if "buf_at s i m" "m \<in> H'" for i m
  proof -
    have "m \<in> H" using that buf_at_held assms(3) by blast
    then show ?thesis using that assms(1,2) by (simp add: op_eff_def)
  qed
  with assms(1,2) show ?thesis by (auto simp: op_eff_def)
qed

lemma held_finite: "op_inv s \<Longrightarrow> finite (held s)"
  using finite_busy [of s] by simp

lemma op_room:
  assumes "op_eff s t v H j" "room s (j + k + l)" "card H \<le> card (held s) + l"
  shows "room t k"
  using assms by (auto simp: room_def op_eff_def)

lemma op_room_same: "op_eff s t v (held s) j \<Longrightarrow> room s (j + k) \<Longrightarrow> room t k"
  using op_room [of s t v "held s" j k 0] by simp

lemma room_mono: "room s k \<Longrightarrow> j \<le> k \<Longrightarrow> room s j"
  by (auto simp: room_def)

lemma room_busy: "op_inv s \<Longrightarrow> room s 1 \<Longrightarrow> card (held s \<union> pinned s) < NBUF"
proof -
  assume a: "op_inv s" "room s 1"
  then have "card (pinned s) \<le> nat (lg_n s)"
    using card_length [of "homes s"] by (simp add: op_inv_def homes_def)
  moreover have "card (held s \<union> pinned s) \<le> card (held s) + card (pinned s)" by (rule card_Un_le)
  moreover have "0 \<le> lg_n s" "lg_n s + int (card (held s)) + 1 \<le> int NBUF" using a by (auto simp: room_def op_inv_def)
  ultimately show ?thesis by linarith
qed

lemma op_read:
  assumes "op_inv s" "room s 1" "n < FSSIZE" "n \<notin> held s"
  shows "\<exists>i t. bread 1 n s = Inr (i, t) \<and> buf_at t i n \<and> bdata t i = view s n \<and> clean t n \<and>
    op_eff s t (view s) (insert n (held s)) 0 \<and> klog.more t = klog.more s"
proof -
  obtain i t where t: "bread 1 n s = Inr (i, t)" "buf_at t i n"
    and e: "bio_eff s t (view s) (insert n (held s)) (pinned s) (bc_disk s 1) []"
    using bc.rd_ok [OF op_inv_bio [OF assms(1)] assms(3,4)] room_busy [OF assms(1,2)] by blast
  note p = bio_eff_post [OF e] and f = klog_frame [OF bio_eff_frame [OF e]]
  have "bdata t i = view s n" using buf_at_buf(11) [OF _ t(2)] p by simp
  moreover have "clean t n" using view_home [OF op_inv_bio [OF assms(1)] assms(4)] p by (auto simp: clean_def)
  moreover have "op_eff s t (view s) (insert n (held s)) 0"
    using assms(1) p f e by (simp add: op_eff_def op_inv_def homes_def bio_eff_def bio_frame_def)
  ultimately show ?thesis using t f by blast
qed

lemma op_release:
  assumes "op_inv s" "buf_at s i n" "clean s n"
  shows "\<exists>t. brelse i s = Inr t \<and> op_eff s t (view s) (held s - {n}) 0 \<and> klog.more t = klog.more s"
proof -
  obtain t where t: "brelse i s = Inr t" and e: "bio_eff s t (view s) (held s - {n}) (pinned s) (bc_disk s 1) []"
    using bc.rel_ok [OF op_inv_bio [OF assms(1)] assms(2)] assms(3) unfolding clean_def by blast
  note p = bio_eff_post [OF e] and f = klog_frame [OF bio_eff_frame [OF e]]
  have "op_eff s t (view s) (held s - {n}) 0"
    using assms(1) p f e by (simp add: op_eff_def op_inv_def homes_def bio_eff_def bio_frame_def)
  with t f show ?thesis by blast
qed

text \<open>\<open>log_write\<close> after a change of the contents of a locked buffer.\<close>

lemma log_index_spec:
  assumes "op_inv s" "i = log_index n s"
  shows "i \<le> nat (lg_n s)" "i < nat (lg_n s) \<Longrightarrow> homes s ! i = n" "i = nat (lg_n s) \<Longrightarrow> n \<notin> set (homes s)"
proof -
  have l: "length (homes s) = nat (lg_n s)" using assms(1) by (auto simp: op_inv_def homes_def)
  have i: "i = length (takeWhile (\<lambda>b. b \<noteq> n) (homes s))" using assms(2) by (simp add: log_index_def homes_def)
  show "i \<le> nat (lg_n s)" using length_takeWhile_le [of "\<lambda>b. b \<noteq> n" "homes s"] i l by simp
  show "i < nat (lg_n s) \<Longrightarrow> homes s ! i = n" using nth_length_takeWhile [of "\<lambda>b. b \<noteq> n" "homes s"] i l by simp
  show "i = nat (lg_n s) \<Longrightarrow> n \<notin> set (homes s)"
    using i l takeWhile_eq_take [of "\<lambda>b. b \<noteq> n" "homes s"] takeWhile_eq_all_conv [of "\<lambda>b. b \<noteq> n" "homes s"] by auto
qed

lemma log_write_op:
  assumes s: "op_inv s" and at: "buf_at s i n" and room: "lg_n s < int LOGSIZE" "lg_n s < lg_size s - 1"
  shows "\<exists>t. log_write i s = Inr t \<and> op_eff s t (view s) (held s) 1 \<and> n \<in> pinned t \<and> klog.more t = klog.more s"
proof -
  have b: "b_blockno (bc_buf s ! i) = n" using buf_at_buf(4) [OF op_inv_bio [OF s] at] .
  define k where "k = log_index n s"
  note k = log_index_spec [OF s k_def]
  have lb: "length (lg_block s) = LOGSIZE" "0 \<le> lg_n s" "1 \<le> lg_outstanding s" "pinned s = set (homes s)"
    "distinct (homes s)" using s by (auto simp: op_inv_def)
  have k': "k < length (lg_block s)" using k(1) lb room by simp
  define u where "u = (if int k = lg_n s then s\<lparr>lg_block := (lg_block s)[k := n], lg_n := lg_n s + 1\<rparr>
      else s\<lparr>lg_block := (lg_block s)[k := n]\<rparr>)"
  have lw: "log_write i s = Inr (bpin i u)"
    using room lb k' b by (simp add: log_write_def set_block_def k_def [symmetric] u_def)
  have same: "same_cache s u" by (auto simp: u_def same_cache_def)
  note su = same_cache_abs [OF same]
  have at': "buf_at u i n" using at su by simp
  have e: "bio_eff u (bpin i u) (view s) (held s) (insert n (pinned s)) (bc_disk s 1) []"
    using bc.pin_ok [OF _ at'] op_inv_bio [OF s] su by simp
  note p = bio_eff_post [OF e] and f = klog_frame [OF bio_eff_frame [OF e]]
  have h: "homes u = (if int k = lg_n s then homes s @ [n] else homes s) \<and> lg_n u = (if int k = lg_n s then lg_n s + 1 else lg_n s) \<and>
      (int k = lg_n s \<longrightarrow> n \<notin> set (homes s)) \<and> (int k \<noteq> lg_n s \<longrightarrow> n \<in> set (homes s))"
  proof (cases "int k = lg_n s")
    case True
    then have kn: "k = nat (lg_n s)" by simp
    have "take (nat (lg_n s + 1)) ((lg_block s)[k := n]) = take k (lg_block s) @ [n]"
      using k' kn lb(2) by (simp add: nat_add_distrib take_Suc_conv_app_nth)
    with True kn show ?thesis using k(3) by (simp add: u_def homes_def)
  next
    case False
    then have "k < nat (lg_n s)" using k(1) lb(2) by linarith
    moreover have "length (homes s) = nat (lg_n s)" using lb room by (simp add: homes_def)
    ultimately have "homes s ! k = n" "n \<in> set (homes s)" using k(2) nth_mem by fastforce+
    moreover have "homes u = (homes s)[k := n]" using False by (simp add: u_def homes_def take_update_swap)
    ultimately show ?thesis using False list_update_id [of "homes s" k] by (simp add: u_def)
  qed
  have "homes (bpin i u) = homes u" using f by (simp add: homes_def)
  moreover have "length (lg_block u) = LOGSIZE" "lg_size u = lg_size s" "lg_outstanding u = lg_outstanding s"
    "bc_pid u = bc_pid s" "klog.more u = klog.more s" "bc_disk u = bc_disk s"
    using lb by (auto simp: u_def)
  moreover have "bc_pid (bpin i u) = bc_pid u" using bio_eff_frame [OF e] by (simp add: bio_frame_def)
  moreover have "\<forall>j m. buf_at s j m \<longrightarrow> m \<in> held s \<longrightarrow> buf_at (bpin i u) j m" using e su by (auto simp: bio_eff_def)
  moreover have "distinct (homes u)" "insert n (pinned s) = set (homes u)" "lg_n u \<le> int LOGSIZE" "0 \<le> lg_n u"
    "lg_n u \<le> lg_n s + 1" using h lb room by (auto split: if_splits)
  ultimately have "op_eff s (bpin i u) (view s) (held s) 1" "n \<in> pinned (bpin i u)" "klog.more (bpin i u) = klog.more s"
    using p f lb unfolding op_eff_def op_inv_def by auto
  with lw show ?thesis by blast
qed

lemma op_set:
  assumes "op_inv s" "buf_at s i n" "length d = BSIZE"
  shows "op_eff s (bset i d s) ((view s)(n := d)) (held s) 0 \<and> klog.more (bset i d s) = klog.more s"
proof -
  note e = bc.put_ok [OF op_inv_bio [OF assms(1)] assms(2,3)]
  note p = bio_eff_post [OF e] and f = klog_frame [OF bio_eff_frame [OF e]]
  show ?thesis using assms(1) p f e by (simp add: op_eff_def op_inv_def homes_def bio_eff_def bio_frame_def)
qed

lemma op_modify:
  assumes s: "op_inv s" and at: "buf_at s i n" and d: "length d = BSIZE" and room: "room s 0"
  shows "\<exists>t u. log_write i (bset i d s) = Inr t \<and> brelse i t = Inr u \<and>
    op_eff s t ((view s)(n := d)) (held s) 1 \<and> clean t n \<and> klog.more t = klog.more s \<and>
    op_eff s u ((view s)(n := d)) (held s - {n}) 1 \<and> klog.more u = klog.more s"
proof -
  let ?b = "bset i d s"
  have e1: "op_eff s ?b ((view s)(n := d)) (held s) 0" "klog.more ?b = klog.more s" using op_set [OF s at d] by auto
  note p1 = op_eff_post [OF e1(1)]
  have at1: "buf_at ?b i n" using e1 at buf_at_held [OF at] by (simp add: op_eff_def)
  have "0 < card (held s)" using held_finite [OF s] buf_at_held [OF at] by (auto simp: card_gt_0_iff)
  then have r: "lg_n ?b < int LOGSIZE" "lg_n ?b < lg_size ?b - 1"
    using room op_room_same [OF e1(1), of 0] p1 NBUF_LOGSIZE by (auto simp: room_def)
  obtain t where t: "log_write i ?b = Inr t" and e2: "op_eff ?b t ((view s)(n := d)) (held s) 1"
    and pt: "n \<in> pinned t" "klog.more t = klog.more s"
    using log_write_op [OF _ at1 r] p1 e1(2) by auto
  note p2 = op_eff_post [OF e2]
  have at2: "buf_at t i n" using e2 at1 buf_at_held [OF at] by (simp add: op_eff_def)
  have c: "clean t n" using pt by (simp add: clean_def)
  obtain u where u: "brelse i t = Inr u" and e3: "op_eff t u ((view s)(n := d)) (held s - {n}) 0"
    and mu: "klog.more u = klog.more s"
    using op_release [OF _ at2 c] p2 pt(2) by auto
  have e12: "op_eff s t ((view s)(n := d)) (held s) (0 + 1)"
    by (rule op_trans [OF e1(1) e2]) auto
  then have "op_eff s u ((view s)(n := d)) (held s - {n}) (0 + 1 + 0)"
    by (rule op_trans [OF _ e3]) auto
  with t u e12 c pt(2) mu show ?thesis by auto
qed

lemma op_same:
  assumes "op_eff s t v H k" "same_cache t u" "lg_n u = lg_n t" "lg_block u = lg_block t" "lg_size u = lg_size t"
    "lg_outstanding u = lg_outstanding t"
  shows "op_eff s u v H k"
proof -
  have "bc_pid u = bc_pid t" using assms(2) by (simp add: same_cache_def)
  moreover have "homes u = homes t" using assms by (simp add: homes_def)
  ultimately show ?thesis using assms same_cache_abs [OF assms(2)]
    unfolding op_eff_def op_inv_def by auto
qed

lemma op_same_fsk [simp]:
  "same_cache t (t\<lparr>fs_sb := sb\<rparr>)" "same_cache t (t\<lparr>fs_icache := ic\<rparr>)" "same_cache t (t\<lparr>fs_is_sym := y\<rparr>)"
  by (simp_all add: same_cache_def)

text \<open>Reading a block and letting it go, and reading, changing and letting go.\<close>

lemma op_peek:
  assumes "op_inv s" "room s 1" "n < FSSIZE" "n \<notin> held s"
  shows "\<exists>i t u. bread 1 n s = Inr (i, t) \<and> bdata t i = view s n \<and> klog.more t = klog.more s \<and> brelse i t = Inr u \<and>
    op_eff s u (view s) (held s) 0 \<and> klog.more u = klog.more s"
proof -
  obtain i t where t: "bread 1 n s = Inr (i, t)" "buf_at t i n" "bdata t i = view s n" "clean t n"
    and e1: "op_eff s t (view s) (insert n (held s)) 0" and mt: "klog.more t = klog.more s"
    using op_read [OF assms] by blast
  note p1 = op_eff_post [OF e1]
  obtain u where u: "brelse i t = Inr u" and e2: "op_eff t u (view s) (insert n (held s) - {n}) 0"
    and mu: "klog.more u = klog.more s"
    using op_release [OF _ t(2,4)] p1 mt by auto
  have "op_eff s u (view s) (insert n (held s) - {n}) (0 + 0)"
    by (rule op_trans [OF e1 e2]) auto
  with t u mt mu assms(4) show ?thesis by auto
qed

lemma op_update:
  assumes s: "op_inv s" and room: "room s 1" and n: "n < FSSIZE" "n \<notin> held s"
  shows "\<exists>i t. bread 1 n s = Inr (i, t) \<and> bdata t i = view s n \<and> klog.more t = klog.more s \<and> bc_pid t = bc_pid s \<and>
    (\<forall>d. length d = BSIZE \<longrightarrow> (\<exists>u w. log_write i (bset i d t) = Inr u \<and> brelse i u = Inr w \<and> klog.more u = klog.more s \<and>
       op_eff s w ((view s)(n := d)) (held s) 1 \<and> klog.more w = klog.more s))"
proof -
  obtain i t where t: "bread 1 n s = Inr (i, t)" "buf_at t i n" "bdata t i = view s n"
    and e1: "op_eff s t (view s) (insert n (held s)) 0" and mt: "klog.more t = klog.more s"
    using op_read [OF assms] by blast
  note p1 = op_eff_post [OF e1]
  have r: "room t 0" using op_room [OF e1, of 0 1] room held_finite [OF s] n(2) by simp
  have "\<exists>u w. log_write i (bset i d t) = Inr u \<and> brelse i u = Inr w \<and> klog.more u = klog.more s \<and>
       op_eff s w ((view s)(n := d)) (held s) 1 \<and> klog.more w = klog.more s" if d: "length d = BSIZE" for d
  proof -
    obtain u w where w: "log_write i (bset i d t) = Inr u" "brelse i u = Inr w" "klog.more u = klog.more s"
      and e2: "op_eff t w ((view s)(n := d)) (insert n (held s) - {n}) 1" and mw: "klog.more w = klog.more s"
      using op_modify [OF _ t(2) d r] p1 mt by auto
    have "op_eff s w ((view s)(n := d)) (insert n (held s) - {n}) (0 + 1)"
      by (rule op_trans [OF e1 e2]) auto
    with w mw n(2) show ?thesis by auto
  qed
  with t mt p1 show ?thesis by auto
qed

lemma bzero_ok:
  assumes "op_inv s" "room s 1" "n < FSSIZE" "n \<notin> held s"
  shows "\<exists>t. bzero 1 n s = Inr t \<and> op_eff s t ((view s)(n := replicate BSIZE 0)) (held s) 1 \<and> klog.more t = klog.more s"
proof -
  obtain i t where t: "bread 1 n s = Inr (i, t)" and
    "\<forall>d. length d = BSIZE \<longrightarrow> (\<exists>u w. log_write i (bset i d t) = Inr u \<and> brelse i u = Inr w \<and> klog.more u = klog.more s \<and>
       op_eff s w ((view s)(n := d)) (held s) 1 \<and> klog.more w = klog.more s)"
    using op_update [OF assms] by blast
  then obtain u w where "log_write i (bset i (replicate BSIZE 0) t) = Inr u" "brelse i u = Inr w"
    "op_eff s w ((view s)(n := replicate BSIZE 0)) (held s) 1" "klog.more w = klog.more s"
    by (metis length_replicate)
  with t show ?thesis by (simp add: bzero_def)
qed

section \<open>The block allocator\<close>

lemma bit_free_bit: "bit_free d b \<longleftrightarrow> \<not> bit (get8 d (b div 8)) (b mod 8)"
  by (simp add: bit_free_def bit_mask_def push_bit_eq_mult and_exp_eq_0_iff_not_bit)

definition mark_used :: "block \<Rightarrow> nat \<Rightarrow> block" where
  "mark_used d b = d[b div 8 := or (get8 d (b div 8)) (bit_mask b)]"

definition mark_free :: "block \<Rightarrow> nat \<Rightarrow> block" where
  "mark_free d b = d[b div 8 := and (get8 d (b div 8)) (not (bit_mask b))]"

lemma mark_length [simp]: "length (mark_used d b) = length d" "length (mark_free d b) = length d"
  by (simp_all add: mark_used_def mark_free_def)

lemma bit_mask_bit: "bit (bit_mask b) n \<longleftrightarrow> n = b mod 8"
  by (auto simp: bit_mask_def bit_simps)

lemma div_mod_8: "b div 8 = c div 8 \<Longrightarrow> b mod 8 = c mod 8 \<Longrightarrow> b = (c :: nat)"
  by (metis div_mult_mod_eq)

lemma bit_free_mark_used:
  "b div 8 < length d \<Longrightarrow> bit_free (mark_used d b) c \<longleftrightarrow> c \<noteq> b \<and> bit_free d c"
  using div_mod_8 [of c b] by (auto simp: bit_free_bit mark_used_def get8_update bit_or_iff bit_mask_bit)

lemma bit_free_mark_free:
  "b div 8 < length d \<Longrightarrow> bit_free (mark_free d b) c \<longleftrightarrow> c = b \<or> bit_free d c"
  using div_mod_8 [of c b]
  by (auto simp: bit_free_bit mark_free_def get8_update bit_and_iff bit_not_iff bit_mask_bit)

lemma mark_free_used:
  assumes "b div 8 < length d" "bit_free d b"
  shows "mark_free (mark_used d b) b = d"
proof -
  have "and (or (get8 d (b div 8)) (bit_mask b)) (not (bit_mask b)) = get8 d (b div 8)"
    by (rule bit_word_eqI) (use assms(2) in \<open>auto simp: bit_simps bit_mask_bit bit_free_bit\<close>)
  then show ?thesis using assms(1)
    by (simp add: mark_free_def mark_used_def get8_update get8_def)
qed

text \<open>
  The file system has at most \<open>FSSIZE\<close> blocks (\<open>ide.c\<close> accepts no others), so its bitmap is one
  block, which is a block of the file system itself.
\<close>

definition sb_ok :: "superblock \<Rightarrow> bool" where
  "sb_ok sb \<longleftrightarrow> sb_size sb \<le> FSSIZE \<and> sb_bmapstart sb < sb_size sb"

definition free_blocks :: "(u32 \<Rightarrow> block) \<Rightarrow> superblock \<Rightarrow> nat set" where
  "free_blocks v sb = {b. b < unat (sb_size sb) \<and> bit_free (v (sb_bmapstart sb)) b}"

lemma sb_ok_bounds:
  assumes "sb_ok sb"
  shows "unat (sb_size sb) \<le> 1000" "0 < unat (sb_size sb)" "sb_bmapstart sb < FSSIZE"
    "b < unat (sb_size sb) \<Longrightarrow> of_nat b < FSSIZE" "b < unat (sb_size sb) \<Longrightarrow> unat (of_nat b :: u32) = b"
    "b < unat (sb_size sb) \<Longrightarrow> b div 8 < BSIZE" "b < unat (sb_size sb) \<Longrightarrow> b < BPB"
proof -
  have F: "unat FSSIZE = 1000" by (simp add: FSSIZE_def)
  show s: "unat (sb_size sb) \<le> 1000" using assms F by (metis sb_ok_def word_le_nat_alt)
  have b: "unat (sb_bmapstart sb) < unat (sb_size sb)" using assms by (simp add: sb_ok_def word_less_nat_alt)
  then show "0 < unat (sb_size sb)" by simp
  show "sb_bmapstart sb < FSSIZE" using b s F by (simp add: word_less_nat_alt)
  assume *: "b < unat (sb_size sb)"
  then show u: "unat (of_nat b :: u32) = b" using s by (simp add: unat_of_nat)
  then show "of_nat b < FSSIZE" using * s F by (simp add: word_less_nat_alt)
  show "b div 8 < BSIZE" "b < BPB" using * s by (simp_all add: BPB_def BSIZE_def)
qed

lemma fsk_more:
  assumes "klog.more t = klog.more (s :: 'a fsk_scheme)"
  shows "fs_sb t = fs_sb s" "fs_icache t = fs_icache s" "fs_is_sym t = fs_is_sym s" "fs_devread t = fs_devread s"
    "fs_devwrite t = fs_devwrite s" "fs_cwd t = fs_cwd s" "fsk.more t = fsk.more s"
  using assms by (cases s; cases t; simp)+

lemma bblock_bitmap: "sb_ok sb \<Longrightarrow> b < unat (sb_size sb) \<Longrightarrow> BBLOCK (of_nat b) sb = sb_bmapstart sb"
proof -
  assume *: "sb_ok sb" "b < unat (sb_size sb)"
  have "unat (of_nat b div of_nat BPB :: u32) = 0"
    using sb_ok_bounds(5,7) [OF *] by (simp add: unat_div BPB_def BSIZE_def)
  then show ?thesis by (simp add: BBLOCK_def unat_eq_0)
qed

lemma balloc_starts:
  assumes "sb_ok sb"
  shows "map (\<lambda>k. k * BPB) [0..<(unat (sb_size sb) + BPB - 1) div BPB] = [0]"
    "min BPB (unat (sb_size sb) - 0) = unat (sb_size sb)"
proof -
  have "(unat (sb_size sb) + BPB - 1) div BPB = 1"
    using sb_ok_bounds(1,2) [OF assms] by (intro div_nat_eqI) (auto simp: BPB_def BSIZE_def)
  then show "map (\<lambda>k. k * BPB) [0..<(unat (sb_size sb) + BPB - 1) div BPB] = [0]" by simp
  show "min BPB (unat (sb_size sb) - 0) = unat (sb_size sb)"
    using sb_ok_bounds(1) [OF assms] by (simp add: BPB_def BSIZE_def)
qed

lemma find_first_free:
  assumes "b \<in> free_blocks v sb" "\<And>c. c < b \<Longrightarrow> c \<notin> free_blocks v sb"
  shows "find (\<lambda>bi. bit_free (v (sb_bmapstart sb)) bi) [0..<unat (sb_size sb)] = Some b"
  using assms by (auto simp: find_Some_iff free_blocks_def intro!: exI [of _ b])

lemma balloc_ok:
  assumes s: "op_inv s" and room: "room s 2" and sb: "fs_sb s = sb" "sb_ok sb"
    and B: "sb_bmapstart sb \<notin> held s" "unat (sb_bmapstart sb) \<notin> free_blocks (view s) sb"
    and b: "b \<in> free_blocks (view s) sb" "\<And>c. c < b \<Longrightarrow> c \<notin> free_blocks (view s) sb" "of_nat b \<notin> held s"
  shows "\<exists>t. balloc 1 s = Inr (of_nat b, t) \<and> klog.more t = klog.more s \<and>
    op_eff s t ((view s)(sb_bmapstart sb := mark_used (view s (sb_bmapstart sb)) b, of_nat b := replicate BSIZE 0)) (held s) 2"
proof -
  let ?B = "sb_bmapstart sb"
  let ?d = "mark_used (view s ?B) b"
  have bs: "b < unat (sb_size sb)" using b(1) by (simp add: free_blocks_def)
  note bnd = sb_ok_bounds [OF sb(2)]
  have len: "length ?d = BSIZE" using view_length [OF op_inv_bio [OF s]] by simp
  obtain i t where t: "bread 1 ?B s = Inr (i, t)" "bdata t i = view s ?B" "klog.more t = klog.more s"
    and up: "\<forall>d. length d = BSIZE \<longrightarrow> (\<exists>u w. log_write i (bset i d t) = Inr u \<and> brelse i u = Inr w \<and> klog.more u = klog.more s \<and>
       op_eff s w ((view s)(?B := d)) (held s) 1 \<and> klog.more w = klog.more s)"
    using op_update [OF s room_mono [OF room] bnd(3) B(1)] by auto
  obtain u w where w: "log_write i (bset i ?d t) = Inr u" "brelse i u = Inr w" "klog.more w = klog.more s"
    and e1: "op_eff s w ((view s)(?B := ?d)) (held s) 1"
    using up len by blast
  note p1 = op_eff_post [OF e1]
  have r: "room w 1" using op_room_same [OF e1, of 1] room by (simp add: numeral_2_eq_2)
  obtain x where x: "bzero 1 (of_nat b) w = Inr x" "klog.more x = klog.more w"
    and e2: "op_eff w x ((view s)(?B := ?d, of_nat b := replicate BSIZE 0)) (held s) 1"
    using bzero_ok [OF _ r bnd(4) [OF bs]] p1 b(3) by auto
  have "op_eff s x ((view s)(?B := ?d, of_nat b := replicate BSIZE 0)) (held s) (1 + 1)"
    by (rule op_trans [OF e1 e2]) auto
  moreover have "balloc_scan 1 [0] s = Inr (of_nat b, x)"
    using t w(1,2) x(1) sb(1) fsk_more(1) [OF t(3)] find_first_free [OF b(1,2)] bblock_bitmap [OF sb(2) bnd(2)] balloc_starts(2) [OF sb(2)]
    by (simp add: mark_used_def)
  ultimately show ?thesis
    using x(2) w(3) balloc_starts(1) [OF sb(2)] sb(1) by (auto simp: balloc_def numeral_2_eq_2)
qed

lemma bfree_ok:
  assumes s: "op_inv s" and room: "room s 1" and sb: "superblock_of (view s 1) = sb" "sb_ok sb"
    and h: "1 \<notin> held s" "sb_bmapstart sb \<notin> held s"
    and b: "b < unat (sb_size sb)" "b \<notin> free_blocks (view s) sb"
  shows "\<exists>t. bfree 1 (of_nat b) s = Inr t \<and> fs_sb t = sb \<and> fs_icache t = fs_icache s \<and>
    op_eff s t ((view s)(sb_bmapstart sb := mark_free (view s (sb_bmapstart sb)) b)) (held s) 1"
proof -
  let ?B = "sb_bmapstart sb"
  let ?d = "mark_free (view s ?B) b"
  note bnd = sb_ok_bounds [OF sb(2)]
  have F: "1 < FSSIZE" by (simp add: FSSIZE_def)
  obtain i t u where t: "bread 1 1 s = Inr (i, t)" "bdata t i = view s 1" "brelse i t = Inr u"
    and e1: "op_eff s u (view s) (held s) 0" and mu: "klog.more u = klog.more s"
    using op_peek [OF s room F h(1)] by blast
  define x where "x = u\<lparr>fs_sb := sb\<rparr>"
  have ex: "op_eff s x (view s) (held s) 0" using e1 by (simp add: x_def op_same)
  note p1 = op_eff_post [OF ex]
  have r: "room x 1" using op_room_same [OF ex, of 1] room by simp
  have len: "length ?d = BSIZE" using view_length [OF op_inv_bio [OF s]] by simp
  have ub: "unat (of_nat b :: u32) mod BPB = b" using bnd(5,7) [OF b(1)] by simp
  have xf: "fs_sb x = sb" "fs_icache x = fs_icache s" using fsk_more [OF mu] by (simp_all add: x_def)
  obtain j y where y: "bread 1 ?B x = Inr (j, y)" "bdata y j = view s ?B" "klog.more y = klog.more x"
    and up: "\<forall>d. length d = BSIZE \<longrightarrow> (\<exists>u w. log_write j (bset j d y) = Inr u \<and> brelse j u = Inr w \<and> klog.more u = klog.more x \<and>
       op_eff x w ((view s)(?B := d)) (held s) 1 \<and> klog.more w = klog.more x)"
    using op_update [OF _ r bnd(3)] p1 h(2) by auto
  obtain v w where w: "log_write j (bset j ?d y) = Inr v" "brelse j v = Inr w" "klog.more w = klog.more x"
    and e2: "op_eff x w ((view s)(?B := ?d)) (held s) 1"
    using up len by blast
  have "op_eff s w ((view s)(?B := ?d)) (held s) (0 + 1)"
    by (rule op_trans [OF ex e2]) auto
  moreover have "\<not> bit_free (view s ?B) b" using b by (simp add: free_blocks_def)
  then have "bfree 1 (of_nat b) s = Inr w"
    using t y(1,2) w(1,2) sb(1) ub bblock_bitmap [OF sb(2) b(1)]
    by (simp add: bfree_def readsb_def x_def [symmetric] mark_free_def)
  ultimately show ?thesis using fsk_more [OF w(3)] xf by auto
qed

end
