(* ===== verification/FsFile.thy ===== *)
theory FsFile
  imports FsProps
begin

text \<open>
  The contents of a file: which disk blocks its address array and its indirect block name, what
  \<open>bmap\<close> does when it allocates a missing block, and the file as an array of bytes that \<open>writei\<close> and
  \<open>readi\<close> work on.
\<close>

section \<open>The block map of a file\<close>

definition fmap :: "(u32 \<Rightarrow> block) \<Rightarrow> u32 list \<Rightarrow> nat \<Rightarrow> u32" where
  "fmap v as k = (if k < NDIRECT then as ! k else if as ! NDIRECT = 0 then 0
     else get32 (v (as ! NDIRECT)) (4 * (k - NDIRECT)))"

definition fused :: "(u32 \<Rightarrow> block) \<Rightarrow> u32 list \<Rightarrow> u32 set" where
  "fused v as = {a. a \<noteq> 0 \<and> (a = as ! NDIRECT \<or> (\<exists>k < MAXFILE. a = fmap v as k))}"

definition used :: "(u32 \<Rightarrow> block) \<Rightarrow> superblock \<Rightarrow> u32 \<Rightarrow> bool" where
  "used v sb n \<longleftrightarrow> n < sb_size sb \<and> unat n \<notin> free_blocks v sb"

text \<open>No block of the file is named twice, and every one of them is marked in the bitmap.\<close>

definition file_ok :: "(u32 \<Rightarrow> block) \<Rightarrow> superblock \<Rightarrow> u32 list \<Rightarrow> bool" where
  "file_ok v sb as \<longleftrightarrow> sb_ok sb \<and> (\<forall>n. length (v n) = BSIZE) \<and> length as = NDIRECT + 1 \<and>
     (\<forall>j k. j < MAXFILE \<longrightarrow> k < MAXFILE \<longrightarrow> fmap v as j = fmap v as k \<longrightarrow> fmap v as j \<noteq> 0 \<longrightarrow> j = k) \<and>
     (\<forall>k < MAXFILE. fmap v as k \<noteq> 0 \<longrightarrow> fmap v as k \<noteq> as ! NDIRECT) \<and>
     (\<forall>n \<in> fused v as. used v sb n \<and> n \<noteq> sb_bmapstart sb) \<and> used v sb (sb_bmapstart sb) \<and> used v sb 0"

definition fblock :: "(u32 \<Rightarrow> block) \<Rightarrow> u32 list \<Rightarrow> nat \<Rightarrow> block" where
  "fblock v as k = (if fmap v as k = 0 then replicate BSIZE 0 else v (fmap v as k))"

text \<open>
  From the disk \<open>v\<close> and the addresses \<open>as\<close> to \<open>v'\<close> and \<open>as'\<close>: the file keeps its blocks and gained new
  ones, at most \<open>m\<close> blocks were allocated, and no used block outside the file changed, the bitmap
  apart. \<open>grow\<close>: the contents of the file are the same, where a missing block reads as zeros.
\<close>

definition extends :: "superblock \<Rightarrow> (u32 \<Rightarrow> block) \<Rightarrow> u32 list \<Rightarrow> (u32 \<Rightarrow> block) \<Rightarrow> u32 list \<Rightarrow> nat \<Rightarrow> bool" where
  "extends sb v as v' as' m \<longleftrightarrow> file_ok v' sb as' \<and>
     (\<forall>k < MAXFILE. fmap v as k \<noteq> 0 \<longrightarrow> fmap v' as' k = fmap v as k) \<and>
     free_blocks v' sb \<subseteq> free_blocks v sb \<and> card (free_blocks v sb) \<le> card (free_blocks v' sb) + m \<and>
     fused v as \<subseteq> fused v' as' \<and> (\<forall>n \<in> fused v' as'. n \<notin> fused v as \<longrightarrow> \<not> used v sb n) \<and>
     (\<forall>n. used v sb n \<longrightarrow> n \<notin> fused v as \<longrightarrow> n \<noteq> sb_bmapstart sb \<longrightarrow> v' n = v n)"

definition grow :: "superblock \<Rightarrow> (u32 \<Rightarrow> block) \<Rightarrow> u32 list \<Rightarrow> (u32 \<Rightarrow> block) \<Rightarrow> u32 list \<Rightarrow> nat \<Rightarrow> bool" where
  "grow sb v as v' as' m \<longleftrightarrow> extends sb v as v' as' m \<and> (\<forall>k < MAXFILE. fblock v' as' k = fblock v as k)"

lemma extends_refl: "file_ok v sb as \<Longrightarrow> extends sb v as v as 0"
  by (simp add: extends_def)

lemma used_mono: "free_blocks v' sb \<subseteq> free_blocks v sb \<Longrightarrow> used v sb n \<Longrightarrow> used v' sb n"
  by (auto simp: used_def)

lemma extends_trans:
  assumes "extends sb v as v' as' m" "extends sb v' as' v'' as'' n"
  shows "extends sb v as v'' as'' (m + n)"
proof -
  have "v'' b = v b" if "used v sb b" "b \<notin> fused v as" "b \<noteq> sb_bmapstart sb" for b
    using assms that used_mono [of v' sb v b] unfolding extends_def by metis
  moreover have "\<not> used v sb b" if "b \<in> fused v'' as''" "b \<notin> fused v as" for b
    using assms that used_mono [of v' sb v b] unfolding extends_def by metis
  ultimately show ?thesis using assms unfolding extends_def by force
qed

lemma file_ok_fused: "file_ok v sb as \<Longrightarrow> n \<in> fused v as \<Longrightarrow> used v sb n \<and> n \<noteq> sb_bmapstart sb"
  by (simp add: file_ok_def)

lemma MAXFILE_NDIRECT: "NDIRECT < MAXFILE" "NDIRECT = 12" "MAXFILE = 140" "NINDIRECT = 128"
  by (simp_all add: MAXFILE_def NINDIRECT_def NDIRECT_def BSIZE_def)

lemma indirect_fused: "as ! NDIRECT \<noteq> 0 \<Longrightarrow> as ! NDIRECT \<in> fused v as"
  by (simp add: fused_def)

lemma fmap_fused: "k < MAXFILE \<Longrightarrow> fmap v as k \<noteq> 0 \<Longrightarrow> fmap v as k \<in> fused v as"
  by (auto simp: fused_def)

section \<open>A new block\<close>

text \<open>The disk after \<open>balloc\<close> returned the block \<open>b\<close>.\<close>

definition alloc_view :: "(u32 \<Rightarrow> block) \<Rightarrow> superblock \<Rightarrow> nat \<Rightarrow> u32 \<Rightarrow> block" where
  "alloc_view v sb b = v(sb_bmapstart sb := mark_used (v (sb_bmapstart sb)) b, of_nat b := replicate BSIZE 0)"

lemma alloc_free:
  assumes f: "file_ok v sb as" and b: "b \<in> free_blocks v sb"
  shows "of_nat b \<noteq> sb_bmapstart sb" "(of_nat b :: u32) \<noteq> 0" "of_nat b \<notin> fused v as" "unat (of_nat b :: u32) = b"
    "free_blocks (alloc_view v sb b) sb = free_blocks v sb - {b}" "\<not> used v sb (of_nat b)"
    "used (alloc_view v sb b) sb n \<longleftrightarrow> n = of_nat b \<or> used v sb n"
    "length (alloc_view v sb b n) = BSIZE"
proof -
  have s: "sb_ok sb" "\<And>n. length (v n) = BSIZE" using f by (auto simp: file_ok_def)
  have bs: "b < unat (sb_size sb)" using b by (simp add: free_blocks_def)
  note bnd = sb_ok_bounds [OF s(1)]
  show u: "unat (of_nat b :: u32) = b" using bnd(5) [OF bs] .
  show nu: "\<not> used v sb (of_nat b)" using u b by (simp add: used_def)
  then show B: "of_nat b \<noteq> sb_bmapstart sb" "(of_nat b :: u32) \<noteq> 0" "of_nat b \<notin> fused v as"
    using f unfolding file_ok_def by metis+
  have "b div 8 < length (v (sb_bmapstart sb))" using bnd(6) [OF bs] s(2) by simp
  then show fr: "free_blocks (alloc_view v sb b) sb = free_blocks v sb - {b}"
    using B(1) bs by (auto simp: free_blocks_def alloc_view_def bit_free_mark_used)
  have "n = of_nat b \<or> unat n \<noteq> b" using u by (metis word_unat_eq_iff)
  moreover have "of_nat b < sb_size sb" using bs u by (simp add: word_less_nat_alt)
  ultimately show "used (alloc_view v sb b) sb n \<longleftrightarrow> n = of_nat b \<or> used v sb n"
    using fr u by (auto simp: used_def)
  show "length (alloc_view v sb b n) = BSIZE" using s(2) by (simp add: alloc_view_def)
qed

lemma free_finite: "finite (free_blocks v sb)"
  by (simp add: free_blocks_def)

lemma get32_zero: "get32 (replicate m 0) i = 0"
  by (simp add: get32_def get8_def)

text \<open>A step that adds the block \<open>a\<close> to a file at the index \<open>k\<close>, or as its indirect block.\<close>

lemma grow_alloc:
  assumes f: "file_ok v sb as" and b: "b \<in> free_blocks v sb" and a: "a = of_nat b" and len: "length as' = NDIRECT + 1"
    and v: "\<And>n. length (v' n) = BSIZE" "\<And>n. used v sb n \<Longrightarrow> n \<noteq> sb_bmapstart sb \<Longrightarrow> n \<noteq> as ! NDIRECT \<or> n = 0 \<Longrightarrow> v' n = v n"
      "v' (sb_bmapstart sb) = alloc_view v sb b (sb_bmapstart sb)" "v' a = replicate BSIZE 0"
    and m: "(\<exists>k < MAXFILE. fmap v as k = 0 \<and> fmap v' as' k = a \<and> (\<forall>j < MAXFILE. j \<noteq> k \<longrightarrow> fmap v' as' j = fmap v as j)) \<and>
        as' ! NDIRECT = as ! NDIRECT \<or>
      (\<forall>j < MAXFILE. fmap v' as' j = fmap v as j) \<and> as ! NDIRECT = 0 \<and> as' ! NDIRECT = a"
  shows "grow sb v as v' as' 1"
proof -
  let ?B = "sb_bmapstart sb"
  note al = alloc_free [OF f b]
  note fo = f [unfolded file_ok_def]
  have fr: "free_blocks v' sb = free_blocks v sb - {b}" using al(5) v(3) by (simp add: free_blocks_def)
  have us: "used v' sb n \<longleftrightarrow> n = a \<or> used v sb n" for n
    using al(7) [of n] a fr al(5) by (simp add: used_def)
  have fu: "fused v' as' = insert a (fused v as)"
    using m
  proof
    assume "(\<exists>k < MAXFILE. fmap v as k = 0 \<and> fmap v' as' k = a \<and> (\<forall>j < MAXFILE. j \<noteq> k \<longrightarrow> fmap v' as' j = fmap v as j)) \<and>
      as' ! NDIRECT = as ! NDIRECT"
    then obtain l where l: "l < MAXFILE" "fmap v as l = 0" "fmap v' as' l = a"
      "\<forall>j < MAXFILE. j \<noteq> l \<longrightarrow> fmap v' as' j = fmap v as j" "as' ! NDIRECT = as ! NDIRECT" by blast
    have "n = 0 \<or> (\<exists>k < MAXFILE. n = fmap v' as' k) \<longleftrightarrow> n = 0 \<or> n = a \<or> (\<exists>k < MAXFILE. n = fmap v as k)" for n
      using l(1-4) by metis
    then show ?thesis using l(5) al(2) a unfolding fused_def by auto
  next
    assume "(\<forall>j < MAXFILE. fmap v' as' j = fmap v as j) \<and> as ! NDIRECT = 0 \<and> as' ! NDIRECT = a"
    then show ?thesis using al(2) a unfolding fused_def by auto
  qed
  have anew: "a \<notin> fused v as" "a \<noteq> 0" "a \<noteq> ?B" "\<not> used v sb a" using al a by auto
  have inj: "j = k" if "j < MAXFILE" "k < MAXFILE" "fmap v' as' j = fmap v' as' k" "fmap v' as' j \<noteq> 0" for j k
    using m
  proof
    assume "(\<exists>k < MAXFILE. fmap v as k = 0 \<and> fmap v' as' k = a \<and> (\<forall>j < MAXFILE. j \<noteq> k \<longrightarrow> fmap v' as' j = fmap v as j)) \<and>
      as' ! NDIRECT = as ! NDIRECT"
    then obtain l where l: "l < MAXFILE" "fmap v' as' l = a" "\<forall>j < MAXFILE. j \<noteq> l \<longrightarrow> fmap v' as' j = fmap v as j" by blast
    have "fmap v as i \<noteq> a" if "i < MAXFILE" for i using anew(1,2) fmap_fused [OF that, of v as] by auto
    then show "j = k" using that l fo by metis
  next
    assume "(\<forall>j < MAXFILE. fmap v' as' j = fmap v as j) \<and> as ! NDIRECT = 0 \<and> as' ! NDIRECT = a"
    then show "j = k" using that fo by metis
  qed
  have ind: "fmap v' as' k \<noteq> as' ! NDIRECT" if "k < MAXFILE" "fmap v' as' k \<noteq> 0" for k
  proof -
    have ne: "fmap v as k \<noteq> a" using anew(1,2) fmap_fused [OF that(1), of v as] by auto
    have "as ! NDIRECT \<noteq> a" using anew(1,2) indirect_fused by metis
    with ne m that fo show ?thesis by metis
  qed
  have fb: "fblock v' as' k = fblock v as k \<and> (fmap v as k \<noteq> 0 \<longrightarrow> fmap v' as' k = fmap v as k)" if k: "k < MAXFILE" for k
  proof (cases "fmap v as k = 0")
    case True
    then have "fmap v' as' k = 0 \<or> fmap v' as' k = a" using m k by metis
    with True v(4) show ?thesis by (auto simp: fblock_def)
  next
    case False
    then have "fmap v' as' k = fmap v as k" using m k by metis
    moreover have "v' (fmap v as k) = v (fmap v as k)"
      using False fmap_fused [OF k False] fo k by (intro v(2)) auto
    ultimately show ?thesis by (simp add: fblock_def)
  qed
  have "file_ok v' sb as'" unfolding file_ok_def fu
  proof (intro conjI allI impI ballI)
    show "sb_ok sb" "length (v' n) = BSIZE" "length as' = NDIRECT + 1" for n using fo len v(1) by auto
    show "used v' sb n" "n \<noteq> ?B" if "n \<in> insert a (fused v as)" for n using that fo us anew by auto
    show "used v' sb ?B" "used v' sb 0" using fo us by auto
  qed (use inj ind in blast)+
  moreover have "card (free_blocks v sb) \<le> card (free_blocks v' sb) + 1"
    using fr b free_finite by (simp add: card_Diff_singleton)
  moreover have "v' n = v n" if "used v sb n" "n \<notin> fused v as" "n \<noteq> ?B" for n
  proof (cases "n = as ! NDIRECT")
    case True
    with that(2) have "n = 0" using indirect_fused by metis
    with that v(2) show ?thesis by auto
  next
    case False
    with that v(2) show ?thesis by auto
  qed
  moreover have "free_blocks v' sb \<subseteq> free_blocks v sb" using fr by auto
  moreover have "\<not> used v sb n" if "n \<in> fused v' as'" "n \<notin> fused v as" for n using that fu anew(4) by auto
  ultimately show ?thesis unfolding grow_def extends_def using fb fu by (intro conjI) auto
qed

section \<open>The effect of the file operations\<close>

abbreviation addrs :: "'a fsk_scheme \<Rightarrow> nat \<Rightarrow> u32 list" where
  "addrs s i \<equiv> i_addrs (ino s i)"

abbreviation fnum :: "'a fsk_scheme \<Rightarrow> nat \<Rightarrow> nat \<Rightarrow> u32" where
  "fnum s i \<equiv> fmap (view s) (addrs s i)"

text \<open>Only the addresses of the inode \<open>i\<close> change in memory.\<close>

definition fs_frame :: "nat \<Rightarrow> 'a fsk_scheme \<Rightarrow> 'a fsk_scheme \<Rightarrow> bool" where
  "fs_frame i s t \<longleftrightarrow> fs_sb t = fs_sb s \<and> fs_is_sym t = fs_is_sym s \<and> fs_devread t = fs_devread s \<and>
     fs_devwrite t = fs_devwrite s \<and> fs_cwd t = fs_cwd s \<and> fsk.more t = fsk.more s \<and>
     length (fs_icache t) = length (fs_icache s) \<and> (\<forall>j. j \<noteq> i \<longrightarrow> ino t j = ino s j) \<and>
     (\<exists>as. ino t i = (ino s i)\<lparr>i_addrs := as\<rparr>)"

text \<open>The file \<open>i\<close> was written, or only given blocks: \<open>j\<close> blocks at most are new in the log.\<close>

definition write_eff :: "nat \<Rightarrow> 'a fsk_scheme \<Rightarrow> 'a fsk_scheme \<Rightarrow> nat \<Rightarrow> nat \<Rightarrow> bool" where
  "write_eff i s t j m \<longleftrightarrow> op_eff s t (view t) {} j \<and> fs_frame i s t \<and>
     extends (fs_sb s) (view s) (addrs s i) (view t) (addrs t i) m"

definition file_eff :: "nat \<Rightarrow> 'a fsk_scheme \<Rightarrow> 'a fsk_scheme \<Rightarrow> nat \<Rightarrow> nat \<Rightarrow> bool" where
  "file_eff i s t j m \<longleftrightarrow> write_eff i s t j m \<and>
     (\<forall>k < MAXFILE. fblock (view t) (addrs t i) k = fblock (view s) (addrs s i) k)"

text \<open>An inode of the disk 1 inside a transaction, with no buffer locked.\<close>

definition file_at :: "'a fsk_scheme \<Rightarrow> nat \<Rightarrow> bool" where
  "file_at s i \<longleftrightarrow> op_inv s \<and> held s = {} \<and> i < length (fs_icache s) \<and> i_dev (ino s i) = 1 \<and>
     file_ok (view s) (fs_sb s) (addrs s i)"

lemma fs_frame_refl: "fs_frame i s s"
  by (auto simp: fs_frame_def intro: exI [of _ "addrs s i"])

lemma fs_frame_trans: "fs_frame i s t \<Longrightarrow> fs_frame i t u \<Longrightarrow> fs_frame i s u"
  by (auto simp: fs_frame_def)

lemma fs_frame_more: "klog.more t = klog.more s \<Longrightarrow> fs_frame i s t"
  using fsk_more [of t s] by (auto simp: fs_frame_def intro: exI [of _ "addrs s i"])

lemma fs_frame_ino:
  "fs_frame i s t \<Longrightarrow> i_dev (ino t i) = i_dev (ino s i) \<and> i_inum (ino t i) = i_inum (ino s i) \<and>
     i_type (ino t i) = i_type (ino s i) \<and> i_size (ino t i) = i_size (ino s i) \<and> i_major (ino t i) = i_major (ino s i) \<and>
     fs_sb t = fs_sb s"
  by (auto simp: fs_frame_def)

lemma write_eff_trans: "write_eff i s t j m \<Longrightarrow> write_eff i t u k n \<Longrightarrow> write_eff i s u (j + k) (m + n)"
  unfolding write_eff_def
  using op_trans [of s t "view t" "{}" j u "view u" "{}" k] fs_frame_trans [of i s t u] extends_trans
  by (metis Int_empty_right fs_frame_ino subset_refl)

lemma file_eff_trans: "file_eff i s t j m \<Longrightarrow> file_eff i t u k n \<Longrightarrow> file_eff i s u (j + k) (m + n)"
  unfolding file_eff_def using write_eff_trans by metis

lemma file_eff_write: "file_eff i s t j m \<Longrightarrow> write_eff i s t j m"
  by (simp add: file_eff_def)

lemma write_eff_at: "file_at s i \<Longrightarrow> write_eff i s t j m \<Longrightarrow> file_at t i"
  unfolding file_at_def write_eff_def by (auto simp: op_eff_def fs_frame_def extends_def)

lemma file_eff_at: "file_at s i \<Longrightarrow> file_eff i s t j m \<Longrightarrow> file_at t i"
  by (rule write_eff_at [OF _ file_eff_write])

lemma file_eff_refl: "file_at s i \<Longrightarrow> file_eff i s s 0 0"
  unfolding file_at_def file_eff_def write_eff_def using op_refl [of s] fs_frame_refl extends_refl by auto

lemma write_eff_room: "write_eff i s t j m \<Longrightarrow> held s = {} \<Longrightarrow> room s (j + k) \<Longrightarrow> room t k"
  unfolding write_eff_def using op_room_same [of s t "view t" j k] by auto

lemma file_eff_room: "file_eff i s t j m \<Longrightarrow> held s = {} \<Longrightarrow> room s (j + k) \<Longrightarrow> room t k"
  using write_eff_room file_eff_write by blast

lemma write_eff_weaken: "write_eff i s t j m \<Longrightarrow> j \<le> j' \<Longrightarrow> m \<le> m' \<Longrightarrow> write_eff i s t j' m'"
  using op_weaken by (fastforce simp: write_eff_def extends_def)

lemma file_eff_weaken: "file_eff i s t j m \<Longrightarrow> j \<le> j' \<Longrightarrow> m \<le> m' \<Longrightarrow> file_eff i s t j' m'"
  using write_eff_weaken by (auto simp: file_eff_def)

lemma write_eff_free:
  "write_eff i s t j m \<Longrightarrow> card (free_blocks (view s) (fs_sb s)) \<le> card (free_blocks (view t) (fs_sb t)) + m"
  using fs_frame_ino [of i s t] by (simp add: write_eff_def extends_def)

lemma set_addr_same: "same_cache t (set_addr i k a t)"
  by (simp add: set_addr_def upd_ino_def)

lemma set_addr_op: "op_eff s t v H j \<Longrightarrow> op_eff s (set_addr i k a t) v H j"
  by (rule op_same [OF _ set_addr_same]) (simp_all add: set_addr_def upd_ino_def)

lemma set_addr_simps:
  assumes "i < length (fs_icache t)"
  shows "addrs (set_addr i k a t) i = (addrs t i)[k := a]" "fs_frame i t (set_addr i k a t)"
    "view (set_addr i k a t) = view t"
  using assms same_cache_abs(2) [OF set_addr_same] by (auto simp: set_addr_def upd_ino_def fs_frame_def)

lemma first_free:
  assumes "1 \<le> card (free_blocks v sb)"
  obtains b where "b \<in> free_blocks v sb" "\<And>c. c < b \<Longrightarrow> c \<notin> free_blocks v sb"
proof -
  from assms have "free_blocks v sb \<noteq> {}" by auto
  then obtain c where "c \<in> free_blocks v sb" by auto
  then show thesis using that [of "LEAST b. b \<in> free_blocks v sb"] LeastI [of "\<lambda>b. b \<in> free_blocks v sb" c]
      not_less_Least [of _ "\<lambda>b. b \<in> free_blocks v sb"] by blast
qed

lemma file_ok_B: "file_ok v sb as \<Longrightarrow> unat (sb_bmapstart sb) \<notin> free_blocks v sb \<and> sb_ok sb"
  by (simp add: file_ok_def used_def)

text \<open>A pointer in the inode: the address of a direct block or of the indirect block.\<close>

definition slot_addr :: "nat \<Rightarrow> nat \<Rightarrow> 'a fsk_scheme \<Rightarrow> (u32 \<times> 'a fsk_scheme) res" where
  "slot_addr i k s = (let addr = i_addrs (ino s i) ! k in
     if addr = 0 then rbind (balloc (i_dev (ino s i)) s) (\<lambda>(addr, s). Inr (addr, set_addr i k addr s))
     else Inr (addr, s))"

lemma fmap_set_direct:
  assumes "length as = NDIRECT + 1" "k < NDIRECT" "as ! NDIRECT = 0 \<or> v' (as ! NDIRECT) = v (as ! NDIRECT)"
  shows "fmap v' (as[k := a]) j = (if j = k then a else fmap v as j)"
  using assms by (auto simp: fmap_def)

lemma fmap_set_indirect:
  assumes "length as = NDIRECT + 1" "as ! NDIRECT = 0" "v' a = replicate BSIZE 0"
  shows "fmap v' (as[NDIRECT := a]) j = fmap v as j"
  using assms by (auto simp: fmap_def get32_zero)

lemma slot_addr_ok:
  assumes s: "file_at s i" and room: "room s 2" and k: "k \<le> NDIRECT" and fr: "1 \<le> card (free_blocks (view s) (fs_sb s))"
  shows "\<exists>a t. slot_addr i k s = Inr (a, t) \<and> a \<noteq> 0 \<and> addrs t i ! k = a \<and> file_eff i s t 2 1"
proof (cases "addrs s i ! k = 0")
  case False
  have "file_eff i s s 2 1" using file_eff_weaken [OF file_eff_refl [OF s], of 2 1] by simp
  with False show ?thesis by (auto simp: slot_addr_def)
next
  case True
  let ?v = "view s" and ?sb = "fs_sb s" and ?as = "addrs s i"
  have fs: "op_inv s" "held s = {}" "i < length (fs_icache s)" "i_dev (ino s i) = 1" "file_ok ?v ?sb ?as"
    using s by (auto simp: file_at_def)
  obtain b where b: "b \<in> free_blocks ?v ?sb" "\<And>c. c < b \<Longrightarrow> c \<notin> free_blocks ?v ?sb" using first_free [OF fr] by blast
  note al = alloc_free [OF fs(5) b(1)] and B = file_ok_B [OF fs(5)]
  obtain t where t: "balloc 1 s = Inr (of_nat b, t)" "klog.more t = klog.more s"
    and e: "op_eff s t (alloc_view ?v ?sb b) {} 2"
    using balloc_ok [OF fs(1) room refl _ _ _ b] B fs(2) unfolding alloc_view_def by auto
  let ?u = "set_addr i k (of_nat b) t" and ?v' = "alloc_view ?v ?sb b"
  have it: "i < length (fs_icache t)" "addrs t i = ?as" using fsk_more [OF t(2)] fs(3) by simp_all
  note su = set_addr_simps [OF it(1), of k "of_nat b"]
  have vt: "view t = ?v'" using op_eff_post [OF e] by simp
  have len: "length ?as = NDIRECT + 1" using fs(5) by (simp add: file_ok_def)
  have v0: "?v' (of_nat b) = replicate BSIZE 0" by (simp add: alloc_view_def)
  have ve: "?v' n = ?v n" if "used ?v ?sb n" "n \<noteq> sb_bmapstart ?sb" for n
    using that al(6) by (auto simp: alloc_view_def)
  have ind: "?as ! NDIRECT = 0 \<or> ?v' (?as ! NDIRECT) = ?v (?as ! NDIRECT)"
    using ve file_ok_fused [OF fs(5)] indirect_fused [of ?as ?v] by metis
  have "grow ?sb ?v ?as ?v' (?as[k := of_nat b]) 1"
  proof (rule grow_alloc [OF fs(5) b(1) refl])
    show "(\<exists>l < MAXFILE. fmap ?v ?as l = 0 \<and> fmap ?v' (?as[k := of_nat b]) l = of_nat b \<and>
        (\<forall>j < MAXFILE. j \<noteq> l \<longrightarrow> fmap ?v' (?as[k := of_nat b]) j = fmap ?v ?as j)) \<and>
        ?as[k := of_nat b] ! NDIRECT = ?as ! NDIRECT \<or>
      (\<forall>j < MAXFILE. fmap ?v' (?as[k := of_nat b]) j = fmap ?v ?as j) \<and> ?as ! NDIRECT = 0 \<and> ?as[k := of_nat b] ! NDIRECT = of_nat b"
    proof (cases "k = NDIRECT")
      case eq: True
      have "fmap ?v' (?as[NDIRECT := of_nat b]) j = fmap ?v ?as j" for j
        by (rule fmap_set_indirect) (use eq True len v0 in simp_all)
      then show ?thesis using eq True len by auto
    next
      case False
      then have kd: "k < NDIRECT" using k by simp
      have "fmap ?v' (?as[k := of_nat b]) j = (if j = k then of_nat b else fmap ?v ?as j)" for j
        by (rule fmap_set_direct) (use len kd ind in simp_all)
      moreover have "fmap ?v ?as k = 0" "k < MAXFILE" using kd True MAXFILE_NDIRECT(1) by (simp_all add: fmap_def)
      ultimately show ?thesis using kd by auto
    qed
  qed (use len v0 al ve in auto)
  moreover have "view ?u = ?v'" using su(3) vt by simp
  moreover have "addrs ?u i = ?as[k := of_nat b]" using su(1) it(2) by simp
  moreover have "op_eff s ?u ?v' {} 2" by (rule set_addr_op [OF e])
  moreover have "fs_frame i s ?u" using fs_frame_trans [OF fs_frame_more [OF t(2)] su(2)] .
  ultimately have "file_eff i s ?u 2 1" "addrs ?u i ! k = of_nat b" using len k by (simp_all add: file_eff_def write_eff_def grow_def)
  with t(1) True fs(4) al(2) show ?thesis by (auto simp: slot_addr_def)
qed

lemma fmap_set_entry:
  assumes "as ! NDIRECT = c" "c \<noteq> 0" "length d = BSIZE" "v c = d" "e < NINDIRECT" "v' c = put32 d (4 * e) a" "j < MAXFILE"
  shows "fmap v' as j = (if j = NDIRECT + e then a else fmap v as j)"
proof -
  have e: "4 * e + 3 < length d" using assms(3,5) MAXFILE_NDIRECT by (simp add: BSIZE_def)
  have "4 * (j - NDIRECT) + 4 \<le> 4 * e \<or> 4 * e + 4 \<le> 4 * (j - NDIRECT)" if "\<not> j < NDIRECT" "j \<noteq> NDIRECT + e"
    using that by arith
  then show ?thesis
    using assms(1,2,4,6) get32_put32 [OF e, of a] get32_put32_other [OF e, of "4 * (j - NDIRECT)" a]
    by (auto simp: fmap_def)
qed

text \<open>An entry of the indirect block.\<close>

definition entry_addr :: "nat \<Rightarrow> nat \<Rightarrow> u32 \<Rightarrow> 'a fsk_scheme \<Rightarrow> (u32 \<times> 'a fsk_scheme) res" where
  "entry_addr i e addr s = rbind (bread (i_dev (ino s i)) addr s) (\<lambda>(bp, s).
     rbind (let addr = get32 (bdata s bp) (4 * e) in
            if addr = 0 then
              rbind (balloc (i_dev (ino s i)) s) (\<lambda>(addr, s).
              rbind (log_write bp (bset bp (put32 (bdata s bp) (4 * e) addr) s)) (\<lambda>s. Inr (addr, s)))
            else Inr (addr, s)) (\<lambda>(addr, s).
     rbind (brelse bp s) (\<lambda>s. Inr (addr, s))))"

lemma entry_addr_new:
  assumes s: "file_at s i" and room: "room s 4" and c: "addrs s i ! NDIRECT = c" "c \<noteq> 0" and e: "e < NINDIRECT"
    and fr: "1 \<le> card (free_blocks (view s) (fs_sb s))" and z: "get32 (view s c) (4 * e) = 0"
  shows "\<exists>a t. entry_addr i e c s = Inr (a, t) \<and> a \<noteq> 0 \<and> fnum t i (NDIRECT + e) = a \<and> file_eff i s t 3 1"
proof -
  let ?v = "view s" and ?sb = "fs_sb s" and ?as = "addrs s i"
  have fs: "op_inv s" "held s = {}" "i < length (fs_icache s)" "i_dev (ino s i) = 1" "file_ok ?v ?sb ?as"
    using s by (auto simp: file_at_def)
  have cu: "used ?v ?sb c" "c \<noteq> sb_bmapstart ?sb" using file_ok_fused [OF fs(5)] indirect_fused [of ?as ?v] c by auto
  have B: "unat (sb_bmapstart ?sb) \<notin> free_blocks ?v ?sb" "sb_ok ?sb" using file_ok_B [OF fs(5)] by auto
  have cF: "c < FSSIZE" using cu(1) B(2) by (auto simp: used_def sb_ok_def)
  obtain b where b: "b \<in> free_blocks ?v ?sb" "\<And>x. x < b \<Longrightarrow> x \<notin> free_blocks ?v ?sb" using first_free [OF fr] by blast
  note al = alloc_free [OF fs(5) b(1)]
  have cb: "c \<noteq> of_nat b" using al(6) cu(1) by metis
  obtain p u where u: "bread 1 c s = Inr (p, u)" "buf_at u p c" "bdata u p = ?v c" "klog.more u = klog.more s"
    and e1: "op_eff s u ?v {c} 0"
    using op_read [OF fs(1) room_mono [OF room] cF] fs(2) by auto
  note p1 = op_eff_post [OF e1]
  have ru: "room u 2" using op_room [OF e1, of 2 1] room_mono [OF room, of 3] fs(2) by (simp add: numeral_3_eq_3)
  obtain t where t: "balloc 1 u = Inr (of_nat b, t)" "klog.more t = klog.more s"
    and e2: "op_eff u t (alloc_view ?v ?sb b) {c} 2"
    using balloc_ok [OF _ ru refl, of b] p1 B b cu(2) cb fsk_more(1) [OF u(4)] u(4) unfolding alloc_view_def by auto
  note p2 = op_eff_post [OF e2]
  have at: "buf_at t p c" using e2 u(2) by (simp add: op_eff_def)
  let ?d = "put32 (?v c) (4 * e) (of_nat b)"
  have avc: "alloc_view ?v ?sb b c = ?v c" using cu(2) cb by (simp add: alloc_view_def)
  have bt: "bdata t p = ?v c" using buf_at_buf(11) [OF op_inv_bio at] p2 avc by simp
  have vl: "length (?v n) = BSIZE" for n using view_length [OF op_inv_bio [OF fs(1)]] .
  have rt: "room t 0" using op_room [OF e2, of 0 0] ru p1 by simp
  obtain x w where w: "log_write p (bset p ?d t) = Inr x" "brelse p x = Inr w" "klog.more w = klog.more s"
    and e3: "op_eff t w ((alloc_view ?v ?sb b)(c := ?d)) {} 1"
    using op_modify [OF _ at _ rt, of ?d] p2 vl t(2) by auto
  define v' where "v' = (alloc_view ?v ?sb b)(c := ?d)"
  have "op_eff s t (alloc_view ?v ?sb b) {c} (0 + 2)" by (rule op_trans [OF e1 e2]) (use fs(2) in auto)
  then have "op_eff s w v' {} (0 + 2 + 1)" unfolding v'_def by (rule op_trans [OF _ e3]) auto
  then have ew: "op_eff s w v' {} 3" by (simp add: numeral_3_eq_3)
  have vw: "view w = v'" using op_eff_post [OF ew] by simp
  have aw: "addrs w i = ?as" "fs_icache u = fs_icache s" using fsk_more [OF w(3)] fsk_more [OF u(4)] by simp_all
  have fm: "fmap v' ?as j = (if j = NDIRECT + e then of_nat b else fmap ?v ?as j)" if "j < MAXFILE" for j
    by (rule fmap_set_entry [OF c(1) c(2) vl refl e]) (use that in \<open>simp_all add: v'_def\<close>)
  have kM: "NDIRECT + e < MAXFILE" using e MAXFILE_NDIRECT by simp
  have "grow ?sb ?v ?as v' ?as 1"
  proof (rule grow_alloc [OF fs(5) b(1) refl])
    show "length ?as = NDIRECT + 1" using fs(5) by (simp add: file_ok_def)
    show "length (v' n) = BSIZE" for n using al(8) vl by (simp add: v'_def)
    show "v' n = ?v n" if "used ?v ?sb n" "n \<noteq> sb_bmapstart ?sb" "n \<noteq> ?as ! NDIRECT \<or> n = 0" for n
      using that al(6) c by (auto simp: v'_def alloc_view_def)
    show "v' (sb_bmapstart ?sb) = alloc_view ?v ?sb b (sb_bmapstart ?sb)" using cu(2) by (simp add: v'_def)
    show "v' (of_nat b) = replicate BSIZE 0" using cb by (simp add: v'_def alloc_view_def)
    have "fmap ?v ?as (NDIRECT + e) = 0" using z c by (simp add: fmap_def)
    then show "(\<exists>l < MAXFILE. fmap ?v ?as l = 0 \<and> fmap v' ?as l = of_nat b \<and>
        (\<forall>j < MAXFILE. j \<noteq> l \<longrightarrow> fmap v' ?as j = fmap ?v ?as j)) \<and> ?as ! NDIRECT = ?as ! NDIRECT \<or>
      (\<forall>j < MAXFILE. fmap v' ?as j = fmap ?v ?as j) \<and> ?as ! NDIRECT = 0 \<and> ?as ! NDIRECT = of_nat b"
      using fm kM by auto
  qed
  then have "file_eff i s w 3 1" using ew vw aw fs_frame_more [OF w(3)] by (simp add: file_eff_def write_eff_def grow_def)
  moreover have "fnum w i (NDIRECT + e) = of_nat b" using fm [OF kM] vw aw by simp
  moreover have "entry_addr i e c s = Inr (of_nat b, w)"
    using u(1,3) z t(1) bt w(1,2) fs(4) aw(2) by (simp add: entry_addr_def)
  ultimately show ?thesis using al(2) by blast
qed

lemma file_eff_peek:
  "file_at s i \<Longrightarrow> op_eff s t (view s) {} 0 \<Longrightarrow> klog.more t = klog.more s \<Longrightarrow> file_eff i s t 0 0"
  using op_eff_post [of s t "view s" "{}" 0] fsk_more(2) [of t s] fs_frame_more [of t s i] extends_refl
  by (auto simp: file_eff_def write_eff_def file_at_def)

lemma entry_addr_old:
  assumes s: "file_at s i" and room: "room s 1" and c: "addrs s i ! NDIRECT = c" "c \<noteq> 0"
    and z: "get32 (view s c) (4 * e) \<noteq> 0"
  shows "\<exists>t. entry_addr i e c s = Inr (get32 (view s c) (4 * e), t) \<and> file_eff i s t 0 0 \<and> view t = view s \<and>
    klog.more t = klog.more s"
proof -
  have fs: "op_inv s" "held s = {}" "i_dev (ino s i) = 1" "file_ok (view s) (fs_sb s) (addrs s i)"
    using s by (auto simp: file_at_def)
  have "used (view s) (fs_sb s) c" using file_ok_fused [OF fs(4)] indirect_fused c by metis
  then have cF: "c < FSSIZE" using file_ok_B [OF fs(4)] by (auto simp: used_def sb_ok_def)
  obtain p t u where u: "bread 1 c s = Inr (p, t)" "bdata t p = view s c" "brelse p t = Inr u"
    and e: "op_eff s u (view s) {} 0" "klog.more u = klog.more s"
    using op_peek [OF fs(1) room cF] fs(2) by auto
  then have "entry_addr i e c s = Inr (get32 (view s c) (4 * e), u)" using z fs(3) by (simp add: entry_addr_def)
  then show ?thesis using file_eff_peek [OF s e] e op_eff_post [OF e(1)] by blast
qed

lemma entry_addr_ok:
  assumes s: "file_at s i" and room: "room s 4" and c: "addrs s i ! NDIRECT = c" "c \<noteq> 0" and e: "e < NINDIRECT"
    and fr: "1 \<le> card (free_blocks (view s) (fs_sb s))"
  shows "\<exists>a t. entry_addr i e c s = Inr (a, t) \<and> a \<noteq> 0 \<and> fnum t i (NDIRECT + e) = a \<and> file_eff i s t 3 1"
proof (cases "get32 (view s c) (4 * e) = 0")
  case False
  obtain t where t: "entry_addr i e c s = Inr (get32 (view s c) (4 * e), t)" "file_eff i s t 0 0" "view t = view s"
    "klog.more t = klog.more s"
    using entry_addr_old [OF s room_mono [OF room] c False] by auto
  have "fnum t i (NDIRECT + e) = get32 (view s c) (4 * e)" using t(3) fsk_more(2) [OF t(4)] c by (simp add: fmap_def)
  with t False file_eff_weaken [OF t(2), of 3 1] show ?thesis by auto
qed (rule entry_addr_new [OF assms])

lemma bmap_parts:
  "bmap i k s = (if k < NDIRECT then slot_addr i k s
     else if k - NDIRECT < NINDIRECT
     then rbind (slot_addr i NDIRECT s) (\<lambda>(addr, s). entry_addr i (k - NDIRECT) addr s)
     else Inl (Panic ''bmap: out of range''))"
  unfolding bmap_def slot_addr_def entry_addr_def Let_def by (rule refl)

lemma bmap_ok:
  assumes s: "file_at s i" and room: "room s 6" and k: "k < MAXFILE" and fr: "2 \<le> card (free_blocks (view s) (fs_sb s))"
  shows "\<exists>a t. bmap i k s = Inr (a, t) \<and> a \<noteq> 0 \<and> fnum t i k = a \<and> file_eff i s t 5 2"
proof (cases "k < NDIRECT")
  case True
  obtain a t where t: "slot_addr i k s = Inr (a, t)" "a \<noteq> 0" "addrs t i ! k = a" "file_eff i s t 2 1"
    using slot_addr_ok [OF s room_mono [OF room], of k] True fr by auto
  then show ?thesis using True file_eff_weaken [OF t(4), of 5 2] by (auto simp: bmap_parts fmap_def)
next
  case False
  then have e: "k - NDIRECT < NINDIRECT" "NDIRECT + (k - NDIRECT) = k" using k MAXFILE_NDIRECT by auto
  obtain c t where t: "slot_addr i NDIRECT s = Inr (c, t)" "c \<noteq> 0" "addrs t i ! NDIRECT = c" "file_eff i s t 2 1"
    using slot_addr_ok [OF s room_mono [OF room], of NDIRECT] fr by auto
  have f1: "1 \<le> card (free_blocks (view t) (fs_sb t))" using write_eff_free [OF file_eff_write [OF t(4)]] fr by simp
  have rt: "room t 4" using file_eff_room [OF t(4), of 4] s room by (simp add: file_at_def)
  obtain a u where u: "entry_addr i (k - NDIRECT) c t = Inr (a, u)" "a \<noteq> 0" "fnum u i k = a" "file_eff i t u 3 1"
    using entry_addr_ok [OF file_eff_at [OF s t(4)] rt t(3,2) e(1) f1] e(2) by auto
  have "file_eff i s u 5 2" using file_eff_trans [OF t(4) u(4)] by (simp add: numeral_2_eq_2)
  then show ?thesis using False e t(1) u by (auto simp: bmap_parts)
qed

lemma bmap_old:
  assumes s: "file_at s i" and room: "room s 1" and k: "k < MAXFILE" and z: "fnum s i k \<noteq> 0"
  shows "\<exists>t. bmap i k s = Inr (fnum s i k, t) \<and> file_eff i s t 0 0 \<and> view t = view s \<and> klog.more t = klog.more s"
proof (cases "k < NDIRECT")
  case True
  then have "bmap i k s = Inr (fnum s i k, s)" using z by (simp add: bmap_parts fmap_def slot_addr_def)
  then show ?thesis using file_eff_refl [OF s] by blast
next
  case False
  then have e: "k - NDIRECT < NINDIRECT" using k MAXFILE_NDIRECT by auto
  have c: "addrs s i ! NDIRECT \<noteq> 0" "get32 (view s (addrs s i ! NDIRECT)) (4 * (k - NDIRECT)) \<noteq> 0"
    "fnum s i k = get32 (view s (addrs s i ! NDIRECT)) (4 * (k - NDIRECT))"
    using z False by (auto simp: fmap_def split: if_splits)
  show ?thesis using entry_addr_old [OF s room refl c(1,2)] c False e by (auto simp: bmap_parts slot_addr_def)
qed

end
