(* ===== verification/FsBytes.thy ===== *)
theory FsBytes
  imports FsFile
begin

text \<open>
  A file as an array of bytes: what the loops of \<open>writei\<close> and \<open>readi\<close> and the inode update after
  them do to it.
\<close>

section \<open>Bytes and chunks\<close>

definition fbyte :: "'a fsk_scheme \<Rightarrow> nat \<Rightarrow> nat \<Rightarrow> u8" where
  "fbyte s i p = fblock (view s) (addrs s i) (p div BSIZE) ! (p mod BSIZE)"

text \<open>The number of blocks that the bytes from \<open>off\<close> to \<open>off + n\<close> lie in.\<close>

definition chunks :: "nat \<Rightarrow> nat \<Rightarrow> nat" where
  "chunks off n = (if n = 0 then 0 else (off mod BSIZE + n + BSIZE - 1) div BSIZE)"

lemma BSIZE_pos: "0 < BSIZE"
  by (simp add: BSIZE_def)

lemma block_split: "p = p div BSIZE * BSIZE + p mod BSIZE"
  by simp

lemma chunks_step:
  assumes "0 < n" "m = min n (BSIZE - off mod BSIZE)"
  shows "chunks off n = 1 + chunks (off + m) (n - m)"
proof (cases "n \<le> BSIZE - off mod BSIZE")
  case True
  then have "m = n" "off mod BSIZE + n \<le> BSIZE" using assms mod_less_divisor [OF BSIZE_pos, of off] by auto
  moreover have "(off mod BSIZE + n + BSIZE - 1) div BSIZE = 1"
    using \<open>off mod BSIZE + n \<le> BSIZE\<close> assms(1) BSIZE_pos by (intro div_nat_eqI) auto
  ultimately show ?thesis using assms(1) by (simp add: chunks_def)
next
  case False
  have o: "off mod BSIZE < BSIZE" using mod_less_divisor [OF BSIZE_pos] .
  from False have m: "m = BSIZE - off mod BSIZE" using assms(2) by simp
  have "off + m = off div BSIZE * BSIZE + BSIZE" using m o block_split [of off] by linarith
  then have z: "(off + m) mod BSIZE = 0" by simp
  have "off mod BSIZE + n + BSIZE - 1 = (n - m + BSIZE - 1) + BSIZE" using False m o assms(1) by linarith
  then have "(off mod BSIZE + n + BSIZE - 1) div BSIZE = (n - m + BSIZE - 1) div BSIZE + 1"
    using BSIZE_pos by (simp only: div_add_self2)
  moreover have "0 < n - m" using False m by simp
  ultimately show ?thesis using z assms(1) by (simp add: chunks_def)
qed

lemma chunk_iff:
  assumes "m \<le> BSIZE - off mod BSIZE"
  shows "off \<le> p \<and> p < off + m \<longleftrightarrow> p div BSIZE = off div BSIZE \<and> off mod BSIZE \<le> p mod BSIZE \<and> p mod BSIZE < off mod BSIZE + m"
proof
  assume a: "off \<le> p \<and> p < off + m"
  have "off div BSIZE * BSIZE \<le> p" using a div_times_less_eq_dividend [of off BSIZE] by linarith
  moreover have "p < off div BSIZE * BSIZE + BSIZE"
    using a assms block_split [of off] mod_less_divisor [OF BSIZE_pos, of off] by linarith
  ultimately have d: "p div BSIZE = off div BSIZE" using BSIZE_pos by (intro div_nat_eqI) (auto simp: mult.commute)
  then have "p mod BSIZE + off = off mod BSIZE + p"
    using block_split [of off] block_split [of p, unfolded d] by linarith
  with a d show "p div BSIZE = off div BSIZE \<and> off mod BSIZE \<le> p mod BSIZE \<and> p mod BSIZE < off mod BSIZE + m" by simp
next
  assume a: "p div BSIZE = off div BSIZE \<and> off mod BSIZE \<le> p mod BSIZE \<and> p mod BSIZE < off mod BSIZE + m"
  then show "off \<le> p \<and> p < off + m"
    using block_split [of off] block_split [of p, unfolded a [THEN conjunct1]] by linarith
qed

lemma chunk_offset: "p div BSIZE = off div BSIZE \<Longrightarrow> off \<le> p \<Longrightarrow> p - off = p mod BSIZE - off mod (BSIZE :: nat)"
  by (metis block_split add_diff_cancel_left)

lemma block_index: "p < MAXFILE * BSIZE \<Longrightarrow> p div BSIZE < MAXFILE"
  using BSIZE_pos by (simp add: less_mult_imp_div_less)

text \<open>Splicing bytes into a block.\<close>

lemma splice_length: "o' + length ys \<le> length d \<Longrightarrow> length (take o' d @ ys @ drop (o' + length ys) d) = length d"
  by simp

lemma splice_nth:
  "o' + length ys \<le> length d \<Longrightarrow> j < length d \<Longrightarrow>
    (take o' d @ ys @ drop (o' + length ys) d) ! j = (if o' \<le> j \<and> j < o' + length ys then ys ! (j - o') else d ! j)"
  by (auto simp: nth_append min_def)

section \<open>Writing\<close>

lemma overwrite_block:
  assumes f: "file_ok v sb as" and k: "k < MAXFILE" "fmap v as k = n" "n \<noteq> 0" and d: "length d = BSIZE"
  shows "extends sb v as (v(n := d)) as 0"
    "\<And>j. j < MAXFILE \<Longrightarrow> fmap (v(n := d)) as j = fmap v as j"
    "\<And>j. j < MAXFILE \<Longrightarrow> fblock (v(n := d)) as j = (if j = k then d else fblock v as j)"
proof -
  have nf: "n \<in> fused v as" using fmap_fused [OF k(1), of v as] k by simp
  have nI: "n \<noteq> as ! NDIRECT" "n \<noteq> sb_bmapstart sb"
    using f k file_ok_fused [OF f nf] unfolding file_ok_def by metis+
  show fm: "fmap (v(n := d)) as j = fmap v as j" if "j < MAXFILE" for j
    using nI by (auto simp: fmap_def)
  show "fblock (v(n := d)) as j = (if j = k then d else fblock v as j)" if j: "j < MAXFILE" for j
  proof (cases "j = k")
    case False
    then have "fmap v as j = 0 \<or> fmap v as j \<noteq> n" using f k j unfolding file_ok_def by metis
    with False show ?thesis using fm [OF j] by (auto simp: fblock_def)
  qed (use fm [OF k(1)] k in \<open>simp add: fblock_def\<close>)
  have fu: "fused (v(n := d)) as = fused v as" using fm unfolding fused_def by metis
  have fr: "free_blocks (v(n := d)) sb = free_blocks v sb" using nI by (simp add: free_blocks_def)
  then have us: "used (v(n := d)) sb m = used v sb m" for m by (simp add: used_def)
  have "file_ok (v(n := d)) sb as"
    unfolding file_ok_def fu us using f d fm by (simp add: file_ok_def)
  then show "extends sb v as (v(n := d)) as 0"
    unfolding extends_def fu us fr using fm nf by auto
qed

text \<open>One round of the loop: the block \<open>off / BSIZE\<close> gets the bytes \<open>ys\<close>.\<close>

definition write_chunk :: "nat \<Rightarrow> nat \<Rightarrow> u8 list \<Rightarrow> 'a fsk_scheme \<Rightarrow> 'a fsk_scheme res" where
  "write_chunk i off ys s =
     rbind (bmap i (off div BSIZE) s) (\<lambda>(addr, s).
     rbind (bread (i_dev (ino s i)) addr s) (\<lambda>(bp, s).
     rbind (log_write bp (bset bp (take (off mod BSIZE) (bdata s bp) @ ys @
       drop (off mod BSIZE + length ys) (bdata s bp)) s)) (brelse bp)))"

lemma writei_loop_chunk:
  assumes "src \<noteq> []" "m = min (length src) (BSIZE - off mod BSIZE)"
  shows "writei_loop i off src s = rbind (write_chunk i off (take m src) s) (writei_loop i (off + m) (drop m src))"
proof -
  have "length (take m src) = m" using assms by simp
  with assms show ?thesis
    unfolding write_chunk_def rbind_assoc
    by (subst writei_loop.simps) (simp add: rbind_assoc split_def)
qed

lemma write_chunk_ok:
  assumes s: "file_at s i" and room: "room s 6" and fr: "2 \<le> card (free_blocks (view s) (fs_sb s))"
    and off: "off < MAXFILE * BSIZE" and ys: "off mod BSIZE + length ys \<le> BSIZE"
  shows "\<exists>t. write_chunk i off ys s = Inr t \<and> write_eff i s t 6 2 \<and> fnum t i (off div BSIZE) \<noteq> 0 \<and>
    (\<forall>p < MAXFILE * BSIZE. fbyte t i p = (if off \<le> p \<and> p < off + length ys then ys ! (p - off) else fbyte s i p))"
proof -
  let ?k = "off div BSIZE" and ?o = "off mod BSIZE"
  have k: "?k < MAXFILE" using block_index [OF off] .
  obtain a t where t: "bmap i ?k s = Inr (a, t)" "a \<noteq> 0" "fnum t i ?k = a" and e1: "file_eff i s t 5 2"
    using bmap_ok [OF s room k fr] by blast
  have ft: "file_at t i" by (rule file_eff_at [OF s e1])
  then have t': "op_inv t" "held t = {}" "i_dev (ino t i) = 1" "file_ok (view t) (fs_sb t) (addrs t i)"
    by (auto simp: file_at_def)
  have rt: "room t 1" using file_eff_room [OF e1, of 1] s room by (simp add: file_at_def)
  have "used (view t) (fs_sb t) a" using file_ok_fused [OF t'(4)] fmap_fused [OF k, of "view t" "addrs t i"] t(2,3) by auto
  then have aF: "a < FSSIZE" using file_ok_B [OF t'(4)] by (auto simp: used_def sb_ok_def)
  let ?d0 = "view t a"
  define d where "d = take ?o ?d0 @ ys @ drop (?o + length ys) ?d0"
  have l0: "length ?d0 = BSIZE" using view_length [OF op_inv_bio [OF t'(1)]] .
  have ld: "length d = BSIZE" using splice_length [of ?o ys ?d0] ys l0 by (simp add: d_def)
  obtain p u where u: "bread 1 a t = Inr (p, u)" "bdata u p = ?d0" and
    "\<forall>d. length d = BSIZE \<longrightarrow> (\<exists>x w. log_write p (bset p d u) = Inr x \<and> brelse p x = Inr w \<and> klog.more x = klog.more t \<and>
       op_eff t w ((view t)(a := d)) (held t) 1 \<and> klog.more w = klog.more t)"
    using op_update [OF t'(1) rt aF] t'(2) by auto
  then obtain x w where w: "log_write p (bset p d u) = Inr x" "brelse p x = Inr w" "klog.more w = klog.more t"
    and e2: "op_eff t w ((view t)(a := d)) {} 1"
    using ld t'(2) by metis
  have run: "write_chunk i off ys s = Inr w"
    using t(1) u w(1,2) t'(3) by (simp add: write_chunk_def d_def)
  note ov = overwrite_block [OF t'(4) k t(3) t(2) ld]
  have vw: "view w = (view t)(a := d)" "addrs w i = addrs t i"
    using op_eff_post [OF e2] fsk_more(2) [OF w(3)] by simp_all
  have "write_eff i t w 1 0" using e2 ov(1) vw fs_frame_more [OF w(3)] by (simp add: write_eff_def)
  then have "write_eff i s w (5 + 1) (2 + 0)" by (rule write_eff_trans [OF file_eff_write [OF e1]])
  then have eff: "write_eff i s w 6 2" by simp
  have bytes: "fbyte w i p = (if off \<le> p \<and> p < off + length ys then ys ! (p - off) else fbyte s i p)"
    if p: "p < MAXFILE * BSIZE" for p
  proof -
    have pk: "p div BSIZE < MAXFILE" by (rule block_index [OF p])
    have m: "p mod BSIZE < BSIZE" using mod_less_divisor [OF BSIZE_pos] .
    have same: "fblock (view t) (addrs t i) (p div BSIZE) = fblock (view s) (addrs s i) (p div BSIZE)"
      using e1 pk by (simp add: file_eff_def)
    have "length ys \<le> BSIZE - ?o" using ys by simp
    note iff = chunk_iff [OF this, of p]
    show ?thesis
    proof (cases "p div BSIZE = ?k")
      case True
      have "fblock (view t) (addrs t i) ?k = ?d0" using t(2,3) by (simp add: fblock_def)
      then have "fbyte s i p = ?d0 ! (p mod BSIZE)" using same True by (simp add: fbyte_def)
      moreover have "fbyte w i p = d ! (p mod BSIZE)" using ov(3) [OF pk] vw True by (simp add: fbyte_def)
      moreover have "d ! (p mod BSIZE) = (if ?o \<le> p mod BSIZE \<and> p mod BSIZE < ?o + length ys
          then ys ! (p mod BSIZE - ?o) else ?d0 ! (p mod BSIZE))"
        unfolding d_def by (rule splice_nth) (use ys m l0 in simp_all)
      ultimately show ?thesis using iff True chunk_offset [OF True] by auto
    next
      case False
      then have "fbyte w i p = fbyte s i p" using ov(3) [OF pk] vw same by (simp add: fbyte_def)
      with False iff show ?thesis by auto
    qed
  qed
  have "fnum w i ?k \<noteq> 0" using ov(2) [OF k] vw t(2,3) by simp
  with run eff bytes show ?thesis by blast
qed

lemma write_eff_mapped: "write_eff i s t j m \<Longrightarrow> k < MAXFILE \<Longrightarrow> fnum s i k \<noteq> 0 \<Longrightarrow> fnum t i k \<noteq> 0"
  by (auto simp: write_eff_def extends_def)

lemma writei_loop_ok:
  assumes "file_at s i" "off + length src \<le> MAXFILE * BSIZE" "room s (6 * chunks off (length src))"
    "2 * chunks off (length src) \<le> card (free_blocks (view s) (fs_sb s))"
  shows "\<exists>t. writei_loop i off src s = Inr t \<and>
    write_eff i s t (6 * chunks off (length src)) (2 * chunks off (length src)) \<and>
    (\<forall>p < MAXFILE * BSIZE. fbyte t i p = (if off \<le> p \<and> p < off + length src then src ! (p - off) else fbyte s i p)) \<and>
    (\<forall>p. off \<le> p \<longrightarrow> p < off + length src \<longrightarrow> fnum t i (p div BSIZE) \<noteq> 0)"
  using assms
proof (induction "length src" arbitrary: off src s rule: less_induct)
  case less
  show ?case
  proof (cases "src = []")
    case True
    have "writei_loop i off src s = Inr s" using True by (simp add: writei_loop.simps)
    then show ?thesis using True file_eff_write [OF file_eff_refl [OF less.prems(1)]] by (auto simp: chunks_def)
  next
    case False
    define m where "m = min (length src) (BSIZE - off mod BSIZE)"
    have o: "off mod BSIZE < BSIZE" using mod_less_divisor [OF BSIZE_pos] .
    have m: "0 < m" "m \<le> length src" "m \<le> BSIZE - off mod BSIZE" "length (take m src) = m" "length (drop m src) = length src - m"
      using False o by (auto simp: m_def)
    let ?c = "chunks (off + m) (length src - m)"
    have c: "chunks off (length src) = 1 + ?c" using chunks_step [OF _ m_def] False by simp
    have pre: "room s 6" "2 \<le> card (free_blocks (view s) (fs_sb s))" "off < MAXFILE * BSIZE" "off mod BSIZE + length (take m src) \<le> BSIZE"
      using less.prems(2-4) m o room_mono [OF less.prems(3), of 6] c by auto
    obtain t where t: "write_chunk i off (take m src) s = Inr t" and e1: "write_eff i s t 6 2"
      and ft: "fnum t i (off div BSIZE) \<noteq> 0"
      and b1: "\<forall>p < MAXFILE * BSIZE. fbyte t i p = (if off \<le> p \<and> p < off + m then take m src ! (p - off) else fbyte s i p)"
      using write_chunk_ok [OF less.prems(1) pre] m(4) by auto
    have st: "file_at t i" by (rule write_eff_at [OF less.prems(1) e1])
    have rt: "room t (6 * ?c)" using write_eff_room [OF e1, of "6 * ?c"] less.prems(1,3) c by (simp add: file_at_def)
    have frt: "2 * ?c \<le> card (free_blocks (view t) (fs_sb t))" using write_eff_free [OF e1] less.prems(4) c by simp
    have "\<exists>u. writei_loop i (off + m) (drop m src) t = Inr u \<and> write_eff i t u (6 * ?c) (2 * ?c) \<and>
      (\<forall>p < MAXFILE * BSIZE. fbyte u i p = (if off + m \<le> p \<and> p < off + m + length (drop m src) then drop m src ! (p - (off + m)) else fbyte t i p)) \<and>
      (\<forall>p. off + m \<le> p \<longrightarrow> p < off + m + length (drop m src) \<longrightarrow> fnum u i (p div BSIZE) \<noteq> 0)"
      using less.hyps [of "drop m src" t "off + m"] st rt frt m less.prems(2) by simp
    then obtain u where u: "writei_loop i (off + m) (drop m src) t = Inr u" and e2: "write_eff i t u (6 * ?c) (2 * ?c)"
      and b2: "\<forall>p < MAXFILE * BSIZE. fbyte u i p = (if off + m \<le> p \<and> p < off + length src then drop m src ! (p - (off + m)) else fbyte t i p)"
      and f2: "\<forall>p. off + m \<le> p \<longrightarrow> p < off + length src \<longrightarrow> fnum u i (p div BSIZE) \<noteq> 0"
      using m by auto
    have "writei_loop i off src s = Inr u" by (simp only: writei_loop_chunk [OF False m_def] rbind_Inr t u)
    moreover have "write_eff i s u (6 * chunks off (length src)) (2 * chunks off (length src))"
      using write_eff_trans [OF e1 e2] c by simp
    moreover have "fbyte u i p = (if off \<le> p \<and> p < off + length src then src ! (p - off) else fbyte s i p)"
      if "p < MAXFILE * BSIZE" for p
      using b1 b2 that m by (cases "p < off + m") auto
    moreover have "fnum u i (p div BSIZE) \<noteq> 0" if p: "off \<le> p" "p < off + length src" for p
    proof (cases "p < off + m")
      case True
      then have "p div BSIZE = off div BSIZE" using chunk_iff [OF m(3), of p] p(1) by simp
      moreover have "off div BSIZE < MAXFILE" using block_index [OF pre(3)] .
      ultimately show ?thesis using write_eff_mapped [OF e2] ft by metis
    next
      case False
      with f2 p show ?thesis by simp
    qed
    ultimately show ?thesis by blast
  qed
qed

section \<open>Reading\<close>

lemma chunk_bytes:
  assumes "length d = BSIZE" "off mod BSIZE + m \<le> BSIZE"
  shows "take m (drop (off mod BSIZE) d) = map (\<lambda>p. d ! (p mod BSIZE)) [off..<off + m]"
proof (rule nth_equalityI)
  fix j assume "j < length (take m (drop (off mod BSIZE) d))"
  then have j: "j < m" by simp
  have "(off + j) mod BSIZE = off mod BSIZE + j"
    using j assms(2) by (subst mod_add_left_eq [symmetric]) (simp del: mod_add_left_eq)
  then show "take m (drop (off mod BSIZE) d) ! j = map (\<lambda>p. d ! (p mod BSIZE)) [off..<off + m] ! j"
    using j assms by simp
qed (use assms in simp)

lemma upt_take_block: "m \<le> n \<Longrightarrow> [off..<off + m] @ [off + m..<off + n] = [off..<off + n :: nat]"
  using upt_add_eq_append [of off "off + m" "n - m"] by simp

lemma readi_loop_ok:
  assumes "file_at s i" "off + n \<le> MAXFILE * BSIZE" "room s 1"
    "\<And>p. off \<le> p \<Longrightarrow> p < off + n \<Longrightarrow> fnum s i (p div BSIZE) \<noteq> 0"
  shows "\<exists>t. readi_loop i off n s = Inr (map (fbyte s i) [off..<off + n], t) \<and> op_eff s t (view s) {} 0 \<and>
    klog.more t = klog.more s"
  using assms
proof (induction n arbitrary: off s rule: less_induct)
  case (less n)
  have fs: "op_inv s" "held s = {}" "i_dev (ino s i) = 1" "file_ok (view s) (fs_sb s) (addrs s i)"
    using less.prems(1) by (auto simp: file_at_def)
  show ?case
  proof (cases "n = 0")
    case True
    then have "readi_loop i off n s = Inr ([], s)" by (simp add: readi_loop.simps)
    then show ?thesis using True op_refl [OF fs(1)] fs(2) by auto
  next
    case False
    let ?k = "off div BSIZE" and ?o = "off mod BSIZE"
    define m where "m = min n (BSIZE - ?o)"
    have o: "?o < BSIZE" using mod_less_divisor [OF BSIZE_pos] .
    have m: "0 < m" "m \<le> n" "?o + m \<le> BSIZE" using False o by (auto simp: m_def)
    have off: "off < MAXFILE * BSIZE" using less.prems(2) False by simp
    have k: "?k < MAXFILE" by (rule block_index [OF off])
    let ?a = "fnum s i ?k"
    have a: "?a \<noteq> 0" using less.prems(4) [of off] False by simp
    obtain t where t: "bmap i ?k s = Inr (?a, t)" "file_eff i s t 0 0" "view t = view s" "klog.more t = klog.more s"
      using bmap_old [OF less.prems(1,3) k a] by blast
    have et: "op_eff s t (view s) {} 0" using t(2,3) by (simp add: file_eff_def write_eff_def)
    have ft: "file_at t i" by (rule file_eff_at [OF less.prems(1) t(2)])
    then have t': "op_inv t" "held t = {}" by (auto simp: file_at_def)
    have rt: "room t 1" using op_room_same [of s t _ 0 1] et fs(2) less.prems(3) by simp
    have ic: "fs_icache t = fs_icache s" using fsk_more [OF t(4)] by simp
    have "used (view s) (fs_sb s) ?a" using file_ok_fused [OF fs(4) fmap_fused [OF k a]] by simp
    then have aF: "?a < FSSIZE" using file_ok_B [OF fs(4)] by (auto simp: used_def sb_ok_def)
    obtain b u w where u: "bread 1 ?a t = Inr (b, u)" "bdata u b = view s ?a" "brelse b u = Inr w"
      and e2: "op_eff t w (view s) {} 0" and mw: "klog.more w = klog.more s"
      using op_peek [OF t'(1) rt aF] t'(2) t(3,4) by auto
    have "op_eff s w (view s) {} (0 + 0)" by (rule op_trans [OF et e2]) auto
    then have ew: "op_eff s w (view s) {} 0" by simp
    have vw: "view w = view s" "fs_icache w = fs_icache s" using op_eff_post [OF ew] fsk_more(2) [OF mw] by auto
    have fw: "file_at w i"
      using write_eff_at [OF less.prems(1) file_eff_write [OF file_eff_peek [OF less.prems(1) ew mw]]] .
    have rw: "room w 1" using op_room_same [of s w _ 0 1] ew fs(2) less.prems(3) by simp
    obtain x where x: "readi_loop i (off + m) (n - m) w = Inr (map (fbyte w i) [off + m..<off + n], x)"
      and e3: "op_eff w x (view s) {} 0" and mx: "klog.more x = klog.more s"
      using less.IH [of "n - m" w "off + m"] m fw rw less.prems(2,4) vw mw by auto
    have "op_eff s x (view s) {} (0 + 0)" by (rule op_trans [OF ew e3]) auto
    moreover have fb: "fbyte w i = fbyte s i" unfolding fbyte_def [abs_def] vw by simp
    have bytes: "take m (drop ?o (view s ?a)) = map (fbyte s i) [off..<off + m]"
    proof -
      have "view s ?a ! (p mod BSIZE) = fbyte s i p" if "p \<in> set [off..<off + m]" for p
      proof -
        have "p div BSIZE = ?k" using chunk_iff [of m off p] that m(3) by auto
        then show ?thesis using a by (simp add: fbyte_def fblock_def)
      qed
      then show ?thesis
        unfolding chunk_bytes [OF view_length [OF op_inv_bio [OF fs(1)]] m(3)] by simp
    qed
    have "readi_loop i off n s = Inr (take m (drop ?o (view s ?a)) @ map (fbyte w i) [off + m..<off + n], x)"
      using False t(1) u x fs(3) ic by (subst readi_loop.simps) (simp add: m_def [symmetric])
    then have "readi_loop i off n s = Inr (map (fbyte s i) [off..<off + n], x)"
      unfolding bytes fb map_append [symmetric] upt_take_block [OF m(2)] .
    ultimately show ?thesis using mx by auto
  qed
qed

section \<open>The inode on the disk\<close>

lemma other_block:
  assumes f: "file_ok v sb as" and n: "n \<notin> fused v as" "n \<noteq> sb_bmapstart sb" "n \<noteq> 0" and d: "length d = BSIZE"
  shows "file_ok (v(n := d)) sb as" "fmap (v(n := d)) as = fmap v as" "k < MAXFILE \<Longrightarrow> fblock (v(n := d)) as k = fblock v as k"
    "fused (v(n := d)) as = fused v as"
proof -
  have "as ! NDIRECT = 0 \<or> as ! NDIRECT \<noteq> n" using indirect_fused [of as v] n(1) by metis
  then show fm: "fmap (v(n := d)) as = fmap v as" by (auto simp: fun_eq_iff fmap_def)
  show fu: "fused (v(n := d)) as = fused v as" using fm by (simp add: fused_def)
  have fr: "free_blocks (v(n := d)) sb = free_blocks v sb" using n(2) by (simp add: free_blocks_def)
  then have us: "used (v(n := d)) sb m = used v sb m" for m by (simp add: used_def)
  show "file_ok (v(n := d)) sb as" unfolding file_ok_def fu us fm using f d by (simp add: file_ok_def)
  show "fblock (v(n := d)) as k = fblock v as k" if "k < MAXFILE"
    using fmap_fused [OF that, of v as] n(1) fm by (auto simp: fblock_def)
qed

lemma fold_put32_length: "length (fold (\<lambda>i d. put32 d (g i) (h i)) xs d) = length d"
  by (induction xs arbitrary: d) simp_all

lemma dinode_write_length [simp]: "length (dinode_write ip o' d) = length d"
  by (simp add: dinode_write_def fold_put32_length)

abbreviation iblock :: "'a fsk_scheme \<Rightarrow> nat \<Rightarrow> u32" where
  "iblock s i \<equiv> IBLOCK (i_inum (ino s i)) (fs_sb s)"

text \<open>The block that holds the inode on the disk is marked in the bitmap and belongs to no file.\<close>

definition inode_ok :: "'a fsk_scheme \<Rightarrow> nat \<Rightarrow> bool" where
  "inode_ok s i \<longleftrightarrow> used (view s) (fs_sb s) (iblock s i) \<and> iblock s i \<notin> fused (view s) (addrs s i) \<and>
     iblock s i \<noteq> sb_bmapstart (fs_sb s) \<and> iblock s i \<noteq> 0"

lemma iupdate_ok:
  assumes s: "op_inv s" "held s = {}" "room s 1" and i: "i_dev (ino s i) = 1" "iblock s i < FSSIZE"
  shows "\<exists>t. iupdate i s = Inr t \<and> klog.more t = klog.more s \<and>
    op_eff s t ((view s)(iblock s i := dinode_write (ino s i) (dinode_at (i_inum (ino s i))) (view s (iblock s i)))) {} 1"
proof -
  let ?n = "iblock s i"
  let ?d = "dinode_write (ino s i) (dinode_at (i_inum (ino s i))) (view s ?n)"
  obtain b t where t: "bread 1 ?n s = Inr (b, t)" "bdata t b = view s ?n" and
    "\<forall>d. length d = BSIZE \<longrightarrow> (\<exists>u w. log_write b (bset b d t) = Inr u \<and> brelse b u = Inr w \<and> klog.more u = klog.more s \<and>
       op_eff s w ((view s)(?n := d)) (held s) 1 \<and> klog.more w = klog.more s)"
    using op_update [OF s(1,3) i(2)] s(2) by auto
  moreover have "length ?d = BSIZE" using view_length [OF op_inv_bio [OF s(1)]] by simp
  ultimately obtain u w where "log_write b (bset b ?d t) = Inr u" "brelse b u = Inr w"
    "op_eff s w ((view s)(?n := ?d)) {} 1" "klog.more w = klog.more s"
    using s(2) by metis
  then show ?thesis using t i(1) by (simp add: iupdate_def)
qed

end
