(* ===== verification/FsResults.thy ===== *)
theory FsResults
  imports FsBytes
begin

text \<open>
  What the file system promises: the block allocator hands out zeroed blocks that nothing else uses,
  and a file is an array of bytes.
\<close>

section \<open>\<open>readi\<close> and \<open>writei\<close>\<close>







section \<open>A file system in which blocks 0 to 63 are in use\<close>





lemma binit_more: "bcache.more (binit s) = bcache.more s" "bc_disk (binit s) = bc_disk s"
  by (simp_all add: binit_def)









section \<open>Properties\<close>





end
