(* ===== verification/FsDir.thy ===== *)
theory FsDir
  imports FsResults
begin

text \<open>
  Directories and path names: a directory as a sequence of entries, what looking a name up and
  linking it do to them, and the elements of a path.
\<close>

section \<open>Reading entries\<close>












section \<open>Linking\<close>












section \<open>Elements of a path\<close>

function path_elems :: "u8 list \<Rightarrow> u8 list list" where
  "path_elems path = (case skipelem path of None \<Rightarrow> [] | Some (name, rest) \<Rightarrow> name # path_elems rest)"
  by pat_completeness auto
termination by (relation "measure length") (auto dest: skipelem_shorter)

declare path_elems.simps [simp del]

text \<open>The reference: cut the path at every slash.\<close>

fun path_parts :: "u8 list \<Rightarrow> u8 list list" where
  "path_parts [] = [[]]"
| "path_parts (c # cs) =
     (if c = slash then [] # path_parts cs else (c # hd (path_parts cs)) # tl (path_parts cs))"

definition path_names :: "u8 list \<Rightarrow> u8 list list" where
  "path_names path = map (take DIRSIZ) (filter (\<lambda>p. p \<noteq> []) (path_parts path))"

lemma path_parts_append:
  "\<forall>c \<in> set w. c \<noteq> slash \<Longrightarrow> path_parts (w @ r) = (w @ hd (path_parts r)) # tl (path_parts r)"
proof (induction w)
  case Nil
  have "path_parts r \<noteq> []" by (cases r) auto
  then show ?case by simp
qed simp

lemma path_names_slashes: "path_names (dropWhile (\<lambda>c. c = slash) path) = path_names path"
  by (induction path) (auto simp: path_names_def)

lemma path_names_first:
  assumes "s \<noteq> []" "hd s \<noteq> slash"
  shows "path_names s = take DIRSIZ (takeWhile (\<lambda>c. c \<noteq> slash) s) # path_names (dropWhile (\<lambda>c. c \<noteq> slash) s)"
proof -
  let ?w = "takeWhile (\<lambda>c. c \<noteq> slash) s" and ?r = "dropWhile (\<lambda>c. c \<noteq> slash) s"
  have "\<forall>c \<in> set ?w. c \<noteq> slash" by (auto dest: set_takeWhileD)
  from path_parts_append [OF this, of ?r] have "path_parts s = (?w @ hd (path_parts ?r)) # tl (path_parts ?r)" by simp
  moreover have "?w \<noteq> []" using assms by (cases s) auto
  moreover have "path_parts r = [] # tl (path_parts r)" if "r = [] \<or> hd r = slash" for r
    using that by (cases r) auto
  from this [of ?r] obtain ps where "path_parts ?r = [] # ps"
    using hd_dropWhile [of "\<lambda>c. c \<noteq> slash" s] by blast
  ultimately show ?thesis by (simp add: path_names_def)
qed

lemma path_names_Nil: "path_names [] = []"
  by (simp add: path_names_def)

lemma skipelem_names:
  "skipelem path = None \<Longrightarrow> path_names path = []"
  "skipelem path = Some (name, rest) \<Longrightarrow> path_names path = name # path_names rest"
proof -
  let ?s = "dropWhile (\<lambda>c. c = slash) path"
  let ?w = "takeWhile (\<lambda>c. c \<noteq> slash) ?s" and ?r = "dropWhile (\<lambda>c. c \<noteq> slash) ?s"
  have len: "length ?s - length ?r = length ?w"
    by (metis diff_add_inverse2 length_append takeWhile_dropWhile_id)
  have tk: "(if length ?s - length ?r \<ge> DIRSIZ then take DIRSIZ ?s else take (length ?s - length ?r) ?s) = take DIRSIZ ?w"
  proof -
    have "take n ?s = take n ?w" if "n \<le> length ?w" for n
      using that by (metis append_eq_conv_conj min.absorb1 take_all_iff take_append takeWhile_dropWhile_id take_take take_eq_Nil diff_is_0_eq append_Nil2 take0)
    then show ?thesis unfolding len by auto
  qed
  have e: "skipelem path = (if ?s = [] then None else Some (take DIRSIZ ?w, dropWhile (\<lambda>c. c = slash) ?r))"
    unfolding skipelem_def Let_def tk ..
  have n: "?s \<noteq> [] \<Longrightarrow> path_names path = take DIRSIZ ?w # path_names (dropWhile (\<lambda>c. c = slash) ?r)"
    using path_names_first [of ?s] hd_dropWhile [of "\<lambda>c. c = slash" path] path_names_slashes by metis
  then show "skipelem path = Some (name, rest) \<Longrightarrow> path_names path = name # path_names rest"
    using e by (auto split: if_splits)
  have "?s = [] \<Longrightarrow> path_names path = []"
    by (metis path_names_slashes path_names_Nil)
  then show "skipelem path = None \<Longrightarrow> path_names path = []" using e by (simp split: if_splits)
qed

section \<open>Properties\<close>





text \<open>
  The elements that \<open>skipelem\<close> takes off a path one after the other are the nonempty parts
  between the slashes, each cut to \<open>DIRSIZ\<close> bytes; in particular the walk over a path ends.
\<close>

theorem skipelem_splits: "path_elems path = path_names path"
proof (induction path rule: path_elems.induct)
  case (1 path)
  show ?case
  proof (cases "skipelem path")
    case None
    then show ?thesis using skipelem_names(1) [of path] by (simp add: path_elems.simps [of path])
  next
    case (Some x)
    obtain name rest where x: "x = (name, rest)" by fastforce
    then have "path_elems rest = path_names rest" using Some 1 by blast
    then have "path_elems path = name # path_names rest" using Some x by (subst path_elems.simps) simp
    then show ?thesis using Some x skipelem_names(2) by metis
  qed
qed

end
