(* ===== verification/Fscheck.thy ===== *)
theory Fscheck
  imports Log
begin

text \<open>
  The checker of file system images (\<open>07_xv6_File_System/PartB/fscheck.c\<close>). The image is the list of
  its bytes; an access outside it, or outside one of the arrays of the checker, is undefined
  behaviour. \<open>print_err\<close> ends the program with a message (\<open>Panic\<close>).
\<close>

section \<open>The image\<close>

definition print_err :: "string \<Rightarrow> 'a res" where
  "print_err msg = Inl (Panic msg)"

text \<open>An \<open>int16_t\<close> and an \<open>int\<close> in the image.\<close>

definition img16 :: "u8 list \<Rightarrow> int \<Rightarrow> int res" where
  "img16 img a = (if 0 \<le> a \<and> a + 2 \<le> int (length img) then Inr (sint (get16 img (nat a))) else Inl (Undefined ''image''))"

definition img32 :: "u8 list \<Rightarrow> int \<Rightarrow> int res" where
  "img32 img a = (if 0 \<le> a \<and> a + 4 \<le> int (length img) then Inr (sint (get32 img (nat a))) else Inl (Undefined ''image''))"

definition img8 :: "u8 list \<Rightarrow> int \<Rightarrow> u8 res" where
  "img8 img a = (if 0 \<le> a \<and> a < int (length img) then Inr (img ! nat a) else Inl (Undefined ''image''))"

text \<open>Sizes and offsets of \<open>fs.h\<close>: a \<open>struct dinode\<close> has 64 bytes, its addresses begin at 12.\<close>

definition FS_BSIZE :: int where "FS_BSIZE = 512"
definition FS_NDIRECT :: nat where "FS_NDIRECT = 12"
definition FS_NINDIRECT :: nat where "FS_NINDIRECT = 128"
definition FS_BPB :: int where "FS_BPB = FS_BSIZE * 8"
definition FS_ROOTINO :: int where "FS_ROOTINO = 1"

definition di_type :: "u8 list \<Rightarrow> int \<Rightarrow> int res" where
  "di_type img ip = img16 img ip"

definition di_size :: "u8 list \<Rightarrow> int \<Rightarrow> int res" where
  "di_size img ip = img32 img (ip + 8)"

definition di_addr :: "u8 list \<Rightarrow> int \<Rightarrow> nat \<Rightarrow> int res" where
  "di_addr img ip i = img32 img (ip + 12 + 4 * int i)"

record fs_super =
  su_nblocks :: int
  su_ninodes :: int
  su_inodestart :: int
  su_bmapstart :: int

definition read_super :: "u8 list \<Rightarrow> fs_super res" where
  "read_super img =
     rbind (img32 img (FS_BSIZE + 4)) (\<lambda>nb.
     rbind (img32 img (FS_BSIZE + 8)) (\<lambda>ni.
     rbind (img32 img (FS_BSIZE + 20)) (\<lambda>is.
     rbind (img32 img (FS_BSIZE + 24)) (\<lambda>bs.
       Inr \<lparr>su_nblocks = nb, su_ninodes = ni, su_inodestart = is, su_bmapstart = bs\<rparr>))))"

section \<open>The arrays of the checker\<close>

record fsck =
  ck_dmap :: "int list"
  ck_data :: "int list"
  ck_inode :: "int list"
  ck_dir :: "int list"

definition set_at :: "int \<Rightarrow> int \<Rightarrow> int list \<Rightarrow> int list res" where
  "set_at i v xs = (if 0 \<le> i \<and> i < int (length xs) then Inr (xs[nat i := v]) else Inl (Undefined ''array''))"

definition get_at :: "int \<Rightarrow> int list \<Rightarrow> int res" where
  "get_at i xs = (if 0 \<le> i \<and> i < int (length xs) then Inr (xs ! nat i) else Inl (Undefined ''array''))"

text \<open>\<open>data_use[a] = 1\<close>, counted, for a nonzero address.\<close>

definition use_block :: "int \<Rightarrow> int \<times> fsck \<Rightarrow> (int \<times> fsck) res" where
  "use_block a x = (case x of (n, s) \<Rightarrow>
     if a \<noteq> 0 then rbind (set_at a 1 (ck_data s)) (\<lambda>d. Inr (n + 1, s\<lparr>ck_data := d\<rparr>)) else Inr (n, s))"

definition cal_num_block :: "u8 list \<Rightarrow> int \<Rightarrow> fsck \<Rightarrow> (int \<times> fsck) res" where
  "cal_num_block img ip s =
     rbind (rfold (\<lambda>i x. rbind (di_addr img ip i) (\<lambda>a. use_block a x)) [0..<FS_NDIRECT] (0, s)) (\<lambda>(n, s).
     rbind (di_addr img ip FS_NDIRECT) (\<lambda>ind.
     if ind = 0 then Inr (n, s)
     else
       rbind (set_at ind 1 (ck_data s)) (\<lambda>d.
       rfold (\<lambda>i x. rbind (img32 img (ind * FS_BSIZE + 4 * int i)) (\<lambda>a. use_block a x)) [0..<FS_NINDIRECT]
         (n, s\<lparr>ck_data := d\<rparr>))))"

definition check_dot :: "u8 list \<Rightarrow> int \<Rightarrow> int \<Rightarrow> int res" where
  "check_dot img inode data_b_add =
     rbind (img16 img (data_b_add * FS_BSIZE)) (\<lambda>temp.
       if inode \<noteq> temp then print_err ''ERROR: current directory mismatch.'' else Inr temp)"

definition count_refer_node :: "u8 list \<Rightarrow> int \<Rightarrow> fsck \<Rightarrow> fsck res" where
  "count_refer_node img ref_inode s =
     rfold (\<lambda>i s. rbind (img16 img (ref_inode + 16 * int i)) (\<lambda>temp.
       if temp \<noteq> 0 then rbind (set_at temp 1 (ck_dir s)) (\<lambda>d. Inr (s\<lparr>ck_dir := d\<rparr>)) else Inr s)) [0..<512 div 16] s"

text \<open>Bit \<open>i mod 8\<close> of byte \<open>i div 8\<close> of the bitmap.\<close>

definition init_map :: "u8 list \<Rightarrow> fs_super \<Rightarrow> fsck \<Rightarrow> fsck res" where
  "init_map img sb s =
     rfold (\<lambda>i s. rbind (img8 img (su_bmapstart sb * FS_BSIZE + int (i div 8))) (\<lambda>c.
       rbind (set_at (int i) (uint (and (push_bit (i mod 8) 1) c)) (ck_dmap s)) (\<lambda>d.
         Inr (s\<lparr>ck_dmap := d\<rparr>)))) [0..<nat (su_nblocks sb)] s"

section \<open>The checks of \<open>main\<close>\<close>

definition check_inode :: "u8 list \<Rightarrow> fs_super \<Rightarrow> nat \<Rightarrow> fsck \<Rightarrow> fsck res" where
  "check_inode img sb i s =
     (let temp_i = su_inodestart sb * FS_BSIZE + 64 * FS_ROOTINO + 64 * int i in
      rbind (di_type img temp_i) (\<lambda>ty.
      if ty \<noteq> 0 then
        rbind (set_at (int i + 1) 1 (ck_inode s)) (\<lambda>u.
        let s = s\<lparr>ck_inode := u\<rparr> in
        if ty \<noteq> 1 \<and> ty \<noteq> 2 \<and> ty \<noteq> 3 then print_err ''ERROR: bad inode.''
        else
          rbind (di_size img temp_i) (\<lambda>file_size.
          rbind (cal_num_block img temp_i s) (\<lambda>(num_of_block, s).
          if num_of_block * FS_BSIZE < file_size \<or> file_size < (num_of_block - 1) * FS_BSIZE
          then print_err ''ERROR: bad size in inode.'' else Inr s)))
      else Inr s))"

definition check_directory :: "u8 list \<Rightarrow> fs_super \<Rightarrow> nat \<Rightarrow> unit \<Rightarrow> unit res" where
  "check_directory img sb i u =
     (let temp_i = su_inodestart sb * FS_BSIZE + 64 * int i in
      rbind (di_type img temp_i) (\<lambda>ty.
      rbind (if int i = FS_ROOTINO then
               if ty \<noteq> 1 then print_err ''ERROR: root directory does not exist.''
               else
                 rbind (di_addr img temp_i 0) (\<lambda>a.
                 rbind (img16 img (FS_BSIZE * a)) (\<lambda>d0.
                 if d0 \<noteq> FS_ROOTINO then print_err ''ERROR: root directory does not exist.''
                 else
                   rbind (img16 img (FS_BSIZE * a + 16)) (\<lambda>d1.
                   if d1 \<noteq> FS_ROOTINO then print_err ''ERROR: root directory does not exist.'' else Inr ())))
             else Inr ()) (\<lambda>_.
      if ty = 1 then rbind (di_addr img temp_i 0) (\<lambda>a. rbind (check_dot img (int i) a) (\<lambda>_. Inr ())) else Inr ())))"

definition check_used_marked :: "fsck \<Rightarrow> nat \<Rightarrow> unit \<Rightarrow> unit res" where
  "check_used_marked s i u =
     rbind (get_at (int i) (ck_data s)) (\<lambda>d.
     if d = 1 then rbind (get_at (int i) (ck_dmap s)) (\<lambda>b.
       if b = 0 then print_err ''ERROR: bitmap marks data free but data block used by inode.'' else Inr ())
     else Inr ())"

definition check_marked_used :: "fsck \<Rightarrow> nat \<Rightarrow> unit \<Rightarrow> unit res" where
  "check_marked_used s i u =
     rbind (get_at (int i) (ck_dmap s)) (\<lambda>b.
     if b \<noteq> 0 then rbind (get_at (int i) (ck_data s)) (\<lambda>d.
       if d = 0 then print_err ''ERROR: bitmap marks data block in use but not used.'' else Inr ())
     else Inr ())"

definition count_dir :: "u8 list \<Rightarrow> fs_super \<Rightarrow> nat \<Rightarrow> fsck \<Rightarrow> fsck res" where
  "count_dir img sb i s =
     (let temp_i = su_inodestart sb * FS_BSIZE + 64 + 64 * int i in
      rbind (di_type img temp_i) (\<lambda>ty.
      if ty = 1 then rbind (di_addr img temp_i 0) (\<lambda>a. count_refer_node img (a * FS_BSIZE) s) else Inr s))"

definition check_reference :: "fsck \<Rightarrow> nat \<Rightarrow> unit \<Rightarrow> unit res" where
  "check_reference s i u =
     rbind (get_at (int i) (ck_dir s)) (\<lambda>d.
     rbind (get_at (int i) (ck_inode s)) (\<lambda>n.
     if d = 1 \<and> n = 0 then print_err ''ERROR: inode marked free but referred to in directory.''
     else if n = 1 \<and> d = 0 then print_err ''ERROR: inode marked in use but not found in a directory.''
     else Inr ()))"

text \<open>
  \<open>map_num\<close> is the number of bitmap blocks; the first data block comes after them. \<open>main\<close> gets the
  number of arguments and the contents of the image, \<open>None\<close> if it cannot be opened.
\<close>

definition map_num :: "fs_super \<Rightarrow> int" where
  "map_num sb = su_nblocks sb div FS_BPB + 1"

definition fresh_arrays :: "fs_super \<Rightarrow> fsck" where
  "fresh_arrays sb = \<lparr>ck_dmap = replicate (nat (map_num sb * FS_BPB)) 0, ck_data = replicate (nat (su_nblocks sb)) 0,
     ck_inode = replicate (nat (su_ninodes sb)) 0, ck_dir = replicate (nat (su_ninodes sb)) 0\<rparr>"

definition fscheck_image :: "u8 list \<Rightarrow> unit res" where
  "fscheck_image img =
     rbind (read_super img) (\<lambda>sb.
     rbind (init_map img sb (fresh_arrays sb)) (\<lambda>s.
     rbind (rfold (check_inode img sb) [0..<nat (su_ninodes sb - 1)] s) (\<lambda>s.
     rbind (rfold (check_directory img sb) [0..<nat (su_ninodes sb)] ()) (\<lambda>_.
     rbind (rfold (check_used_marked s) [0..<nat (su_nblocks sb)] ()) (\<lambda>_.
     rbind (rfold (check_marked_used s) [nat (su_bmapstart sb + map_num sb)..<nat (map_num sb * FS_BPB)] ()) (\<lambda>_.
     rbind (rfold (count_dir img sb) [0..<nat (su_ninodes sb)] s) (\<lambda>s.
     rfold (check_reference s) [0..<nat (su_ninodes sb)] ())))))))"

definition fscheck_main :: "nat \<Rightarrow> u8 list option \<Rightarrow> unit res" where
  "fscheck_main argc opened =
     (if argc = 1 then print_err ''Usage: ./fscheck <image-file-path>''
      else case opened of None \<Rightarrow> print_err ''ERROR: image not found.'' | Some img \<Rightarrow> fscheck_image img)"

end
