(* ===== verification/FscheckProps.thy ===== *)
theory FscheckProps
  imports Fscheck
begin

text \<open>
  What an image that the checker accepts looks like: the loops of the checker as statements about
  all inodes and blocks.
\<close>

section \<open>Loops of checks\<close>





lemma fold_marks_length [simp]: "length (fold (\<lambda>i d. d[nat i := v]) is d) = length d"
  by (induction "is" arbitrary: d) auto

section \<open>The image as mathematical values\<close>
















section \<open>A consistent image\<close>






section \<open>The parts of the checker on an image in range\<close>






text \<open>Marking the indices of a list.\<close>

definition marks :: "int list \<Rightarrow> int list \<Rightarrow> int list" where
  "marks is d = fold (\<lambda>i d. d[nat i := 1]) is d"

lemma marks_simps [simp]:
  "marks [] d = d" "marks (i # is) d = marks is (d[nat i := 1])" "length (marks is d) = length d"
  by (simp_all add: marks_def)























section \<open>The whole checker\<close>


















end
