(* ===== verification/Ring.thy ===== *)
theory Ring
  imports Prelude
begin

text \<open>
  Buffers that are used in a circle: the counters run on and wrap at \<open>2^32\<close>, and a position in the buffer is
  a counter modulo its size.
\<close>

definition ring :: "nat \<Rightarrow> 'a list \<Rightarrow> u32 \<Rightarrow> nat \<Rightarrow> 'a list" where
  "ring N buf a k = map (\<lambda>i. buf ! (unat (a + of_nat i) mod N)) [0..<k]"

lemma ring_0 [simp]: "ring N buf a 0 = []"
  by (simp add: ring_def)

lemma length_ring [simp]: "length (ring N buf a k) = k"
  by (simp add: ring_def)

lemma ring_snoc: "ring N buf a (Suc k) = ring N buf a k @ [buf ! (unat (a + of_nat k) mod N)]"
  by (simp add: ring_def)

lemma ring_Cons: "ring N buf a (Suc k) = buf ! (unat a mod N) # ring N buf (a + 1) k"
  unfolding ring_def upt_conv_Cons [OF zero_less_Suc] by (simp add: map_Suc_upt [symmetric] add.assoc del: upt_Suc)

lemma ring_pos:
  assumes "N dvd 4294967296"
  shows "unat (a + of_nat i :: u32) mod N = (unat a + i) mod N"
proof -
  have "unat (a + of_nat i) = (unat a + i) mod 4294967296" by (simp add: unat_word_ariths unat_of_nat mod_simps)
  then show ?thesis using assms by (simp only: mod_mod_cancel)
qed

text \<open>Storing behind the contents leaves the contents alone while there is room.\<close>

lemma ring_put:
  assumes N: "N dvd 4294967296" "length buf = N" and k: "k < N"
  shows "ring N (buf[unat (a + of_nat k) mod N := b]) a (Suc k) = ring N buf a k @ [b]"
proof -
  have ne: "(unat a + k) mod N \<noteq> (unat a + i) mod N" if "i < k" for i
  proof
    assume e: "(unat a + k) mod N = (unat a + i) mod N"
    have "N dvd (unat a + k) - (unat a + i)" by (rule mod_eq_dvd_iff_nat [THEN iffD1]) (use e that in auto)
    then have "N dvd k - i" by simp
    with that k show False by (auto dest: dvd_imp_le)
  qed
  have "(unat a + k) mod N < length buf" using N k by simp
  then show ?thesis unfolding ring_snoc using ne by (simp add: ring_def ring_pos [OF N(1)])
qed

lemma ring_take: "i \<le> k \<Longrightarrow> take i (ring N buf a k) = ring N buf a i"
  by (simp add: ring_def take_map)

lemma ring_drop: "i \<le> k \<Longrightarrow> drop i (ring N buf a k) = ring N buf (a + of_nat i) (k - i)"
proof (induction i arbitrary: a k)
  case (Suc i)
  then obtain k' where k: "k = Suc k'" by (cases k) auto
  then have "drop (Suc i) (ring N buf a k) = drop i (ring N buf (a + 1) k')" by (simp add: ring_Cons)
  also have "\<dots> = ring N buf (a + 1 + of_nat i) (k' - i)" by (rule Suc.IH) (use Suc.prems k in simp)
  finally show ?case using k by (simp add: algebra_simps)
qed simp

text \<open>Counters: one step back, one step on.\<close>

lemma counter_back: "e \<noteq> w \<Longrightarrow> unat (e - w) = Suc (unat (e - 1 - w))" for e w :: u32
proof -
  assume "e \<noteq> w"
  then have "e - w \<noteq> 0" by simp
  then have u: "unat (e - w - 1) = unat (e - w) - 1" "0 < unat (e - w)" by (simp_all add: unat_minus_one unat_gt_0)
  have e: "e - 1 - w = e - w - 1" by simp
  show ?thesis unfolding e using u by linarith
qed

lemma counter_on: "unat (e - w) < 4294967295 \<Longrightarrow> unat (e + 1 - w) = Suc (unat (e - w))" for e w :: u32
proof -
  assume lt: "unat (e - w) < 4294967295"
  have "e + 1 - w = (e - w) + 1" by simp
  then show ?thesis using lt by (simp only: unat_word_ariths) simp
qed

end
