(* ===== verification/Console.thy ===== *)
theory Console
  imports Ring
begin

text \<open>
  The console (\<open>07_xv6_File_System/PartA/console.c\<close> with \<open>uart.c\<close> and \<open>kbd.c\<close>): printing numbers and
  formats, the text screen, the line editor that an interrupt runs on the keys, and the calls on the console
  device. A call runs with the console's lock held until it returns or sleeps. The bytes sent to the serial
  port and the cells of the screen are part of the state; the serial port is ready when asked.
\<close>

unbundle bit_operations_syntax

type_synonym u16 = "16 word"

section \<open>The screen and the serial port\<close>

definition BACKSPACE :: nat where "BACKSPACE = 0x100"

text \<open>The cells of the screen, the position of the cursor, the bytes sent if there is a serial port, and \<open>panicked\<close>.\<close>

record cons_out =
  o_crt :: "nat \<Rightarrow> u16"
  o_pos :: nat
  o_uart :: bool
  o_sent :: "u8 list"
  o_panicked :: bool

definition cga_cell :: "nat \<Rightarrow> u16" where
  "cga_cell c = of_nat (c mod 256) OR 0x0700"

definition cgaputc :: "nat \<Rightarrow> cons_out \<Rightarrow> cons_out res" where
  "cgaputc c o' =
     (let pos = o_pos o'; crt = o_crt o';
          (pos, crt) =
            (if c = 10 then (pos + (80 - pos mod 80), crt)
             else if c = BACKSPACE then (if pos > 0 then pos - 1 else pos, crt)
             else (pos + 1, crt(pos := cga_cell c)))
      in if pos > 25 * 80 then Inl (Panic ''pos under/overflow'')
         else
           let (pos, crt) =
             (if pos div 80 \<ge> 24
              then let crt = (\<lambda>i. if i < 23 * 80 then crt (i + 80) else crt i); pos = pos - 80
                   in (pos, \<lambda>i. if pos \<le> i \<and> i < 24 * 80 then 0 else crt i)
              else (pos, crt))
           in Inr (o'\<lparr>o_pos := pos, o_crt := crt(pos := 0x0720)\<rparr>))"

definition uartputc :: "u8 \<Rightarrow> cons_out \<Rightarrow> cons_out" where
  "uartputc b o' = (if o_uart o' then o'\<lparr>o_sent := o_sent o' @ [b]\<rparr> else o')"

definition consputc :: "nat \<Rightarrow> cons_out \<Rightarrow> cons_out res" where
  "consputc c o' =
     (if o_panicked o' then Inl Hang
      else
        let o' = (if c = BACKSPACE then uartputc 8 (uartputc 0x20 (uartputc 8 o')) else uartputc (of_nat c) o')
        in cgaputc c o')"

fun consputs :: "nat list \<Rightarrow> cons_out \<Rightarrow> cons_out res" where
  "consputs [] o' = Inr o'"
| "consputs (c # cs) o' = rbind (consputc c o') (consputs cs)"

section \<open>Printing\<close>

definition digits :: "nat list" where
  "digits = [48, 49, 50, 51, 52, 53, 54, 55, 56, 57, 97, 98, 99, 100, 101, 102]"

text \<open>The digits of \<open>x\<close> as the first loop of \<open>printint\<close> stores them, the last one first; \<open>base\<close> is 10 or 16.\<close>

function printint_loop :: "u32 \<Rightarrow> u32 \<Rightarrow> nat list" where
  "printint_loop x base =
     (let c = digits ! unat (x mod base); x' = x div base in
      if x' \<noteq> 0 \<and> 1 < base then c # printint_loop x' base else [c])"
  by pat_completeness auto
termination
proof (relation "measure (\<lambda>(x, base). unat x)", goal_cases)
  case (2 x base c x')
  then have "x \<noteq> 0" by auto
  then have "0 < unat x" by (simp add: unat_gt_0)
  moreover have "1 < unat base" using 2 by (simp add: word_less_nat_alt)
  ultimately show ?case using 2 by (simp add: unat_div)
qed simp

declare printint_loop.simps [simp del]

text \<open>\<open>buf\<close> has 16 characters.\<close>

definition printint :: "u32 \<Rightarrow> u32 \<Rightarrow> bool \<Rightarrow> nat list res" where
  "printint xx base sign =
     (let neg = sign \<and> sint xx < 0;
          x = (if neg then - xx else xx);
          buf = printint_loop x base @ (if neg then [45] else [])
      in if length buf > 16 then Inl (Undefined ''printint: buf'') else Inr (rev buf))"

text \<open>
  What \<open>cprintf\<close> hands to \<open>consputc\<close>; \<open>str\<close> is the string at an address. An argument that is missing is
  undefined.
\<close>

fun cprintf_loop :: "(u32 \<Rightarrow> nat list) \<Rightarrow> nat list \<Rightarrow> u32 list \<Rightarrow> nat list res" where
  "cprintf_loop str [] args = Inr []"
| "cprintf_loop str [c] args = (if c = 37 then Inr [] else Inr [c])"
| "cprintf_loop str (c # d # fmt) args =
     (if c \<noteq> 37 then rbind (cprintf_loop str (d # fmt) args) (\<lambda>out. Inr (c # out))
      else if d = 37 then rbind (cprintf_loop str fmt args) (\<lambda>out. Inr (37 # out))
      else if d \<in> {100, 120, 112, 115} then
        (case args of [] \<Rightarrow> Inl (Undefined ''cprintf: missing argument'')
         | a # args \<Rightarrow>
             rbind (if d = 100 then printint a 10 True
                    else if d = 115 then Inr (if a = 0 then [40, 110, 117, 108, 108, 41] else str a)
                    else printint a 16 False) (\<lambda>s.
             rbind (cprintf_loop str fmt args) (\<lambda>out. Inr (s @ out))))
      else rbind (cprintf_loop str fmt args) (\<lambda>out. Inr (37 # d # out)))"

definition cprintf :: "(u32 \<Rightarrow> nat list) \<Rightarrow> nat list option \<Rightarrow> u32 list \<Rightarrow> cons_out \<Rightarrow> cons_out res" where
  "cprintf str fmt args o' =
     (case fmt of None \<Rightarrow> Inl (Panic ''null fmt'')
      | Some fmt \<Rightarrow> rbind (cprintf_loop str fmt args) (\<lambda>out. consputs out o'))"

section \<open>The line editor\<close>

definition INPUT_BUF :: nat where "INPUT_BUF = 128"

record cons =
  in_buf :: "u8 list"
  in_r :: u32
  in_w :: u32
  in_e :: u32
  in_out :: cons_out

text \<open>Control-U: the loop that takes back the line.\<close>

function kill_line :: "cons \<Rightarrow> cons res" where
  "kill_line s =
     (if in_e s \<noteq> in_w s \<and> in_buf s ! (unat (in_e s - 1) mod INPUT_BUF) \<noteq> 10
      then rbind (consputc BACKSPACE (in_out s)) (\<lambda>o'. kill_line (s\<lparr>in_e := in_e s - 1, in_out := o'\<rparr>))
      else Inr s)"
  by pat_completeness auto
termination
  by (relation "measure (\<lambda>s. unat (in_e s - in_w s))") (auto dest: counter_back)

declare kill_line.simps [simp del]

text \<open>One key: whether a process listing is asked for, whether a reader is woken, and the state.\<close>

definition console_key :: "int \<Rightarrow> cons \<Rightarrow> (bool \<times> bool \<times> cons) res" where
  "console_key c s =
     (if c = 0x10 then Inr (True, False, s)
      else if c = 0x15 then rbind (kill_line s) (\<lambda>s. Inr (False, False, s))
      else if c = 8 \<or> c = 0x7F then
        (if in_e s \<noteq> in_w s
         then rbind (consputc BACKSPACE (in_out s)) (\<lambda>o'. Inr (False, False, s\<lparr>in_e := in_e s - 1, in_out := o'\<rparr>))
         else Inr (False, False, s))
      else if c \<noteq> 0 \<and> in_e s - in_r s < of_nat INPUT_BUF then
        let c = (if c = 13 then 10 else c);
            s = s\<lparr>in_buf := (in_buf s)[unat (in_e s) mod INPUT_BUF := word_of_int c], in_e := in_e s + 1\<rparr>
        in rbind (consputc (nat c) (in_out s)) (\<lambda>o'.
           let s = s\<lparr>in_out := o'\<rparr> in
           if c = 10 \<or> c = 4 \<or> in_e s = in_r s + of_nat INPUT_BUF then Inr (False, True, s\<lparr>in_w := in_e s\<rparr>)
           else Inr (False, False, s))
      else Inr (False, False, s))"

text \<open>\<open>consoleintr\<close> on the keys that \<open>getc\<close> returns until it returns a negative number.\<close>

fun consoleintr :: "int list \<Rightarrow> cons \<Rightarrow> (bool \<times> bool \<times> cons) res" where
  "consoleintr [] s = Inr (False, False, s)"
| "consoleintr (c # cs) s =
     (if c < 0 then Inr (False, False, s)
      else rbind (console_key c s) (\<lambda>(d, k, s).
        rbind (consoleintr cs s) (\<lambda>(d', k', s). Inr (d \<or> d', k \<or> k', s))))"

text \<open>
  \<open>consoleread\<close>: it returns a number, with the bytes delivered so far; or it sleeps, with \<open>n\<close> bytes still
  wanted, and continues with them when it is woken.
\<close>

datatype cread = Returned int "u8 list" | Sleeping nat "u8 list"

fun consoleread_loop :: "bool \<Rightarrow> nat \<Rightarrow> nat \<Rightarrow> u8 list \<Rightarrow> cons \<Rightarrow> cread \<times> cons" where
  "consoleread_loop killed target 0 dst s = (Returned (int target) dst, s)"
| "consoleread_loop killed target (Suc n) dst s =
     (if in_r s = in_w s then (if killed then (Returned (- 1) dst, s) else (Sleeping (Suc n) dst, s))
      else
        let c = in_buf s ! (unat (in_r s) mod INPUT_BUF); s' = s\<lparr>in_r := in_r s + 1\<rparr> in
        if c = 4 then (Returned (int target - int (Suc n)) dst, if Suc n < target then s else s')
        else if c = 10 then (Returned (int target - int n) (dst @ [c]), s')
        else consoleread_loop killed target n (dst @ [c]) s')"

definition consoleread :: "bool \<Rightarrow> nat \<Rightarrow> cons \<Rightarrow> cread \<times> cons" where
  "consoleread killed n s = consoleread_loop killed n n [] s"

definition consolewrite :: "u8 list \<Rightarrow> cons \<Rightarrow> (int \<times> cons) res" where
  "consolewrite buf s =
     rbind (consputs (map unat buf) (in_out s)) (\<lambda>o'. Inr (int (length buf), s\<lparr>in_out := o'\<rparr>))"

section \<open>The keyboard\<close>

text \<open>A table as in C: the first entries in order, then some at given places, and 0 elsewhere.\<close>

definition keymap :: "u8 list \<Rightarrow> (u8 \<times> u8) list \<Rightarrow> u8 \<Rightarrow> u8" where
  "keymap first rest i =
     (case map_of rest i of Some c \<Rightarrow> c | None \<Rightarrow> if unat i < length first then first ! unat i else 0)"

definition normalmap :: "u8 \<Rightarrow> u8" where
  "normalmap = keymap
     [0, 27, 49, 50, 51, 52, 53, 54, 55, 56, 57, 48, 45, 61, 8, 9,
      113, 119, 101, 114, 116, 121, 117, 105, 111, 112, 91, 93, 10, 0, 97, 115,
      100, 102, 103, 104, 106, 107, 108, 59, 39, 96, 0, 92, 122, 120, 99, 118,
      98, 110, 109, 44, 46, 47, 0, 42, 0, 32, 0, 0, 0, 0, 0, 0,
      0, 0, 0, 0, 0, 0, 0, 55, 56, 57, 45, 52, 53, 54, 43, 49,
      50, 51, 48, 46, 0, 0, 0, 0]
     [(0x9C, 0xA), (0xB5, 0x2F), (0xC8, 0xE2), (0xD0, 0xE3), (0xC9, 0xE6), (0xD1, 0xE7), (0xCB, 0xE4), (0xCD, 0xE5), (0x97, 0xE0), (0xCF, 0xE1), (0xD2, 0xE8), (0xD3, 0xE9)]"

definition shiftmap :: "u8 \<Rightarrow> u8" where
  "shiftmap = keymap
     [0, 27, 33, 64, 35, 36, 37, 94, 38, 42, 40, 41, 95, 43, 8, 9,
      81, 87, 69, 82, 84, 89, 85, 73, 79, 80, 123, 125, 10, 0, 65, 83,
      68, 70, 71, 72, 74, 75, 76, 58, 34, 126, 0, 124, 90, 88, 67, 86,
      66, 78, 77, 60, 62, 63, 0, 42, 0, 32, 0, 0, 0, 0, 0, 0,
      0, 0, 0, 0, 0, 0, 0, 55, 56, 57, 45, 52, 53, 54, 43, 49,
      50, 51, 48, 46, 0, 0, 0, 0]
     [(0x9C, 0xA), (0xB5, 0x2F), (0xC8, 0xE2), (0xD0, 0xE3), (0xC9, 0xE6), (0xD1, 0xE7), (0xCB, 0xE4), (0xCD, 0xE5), (0x97, 0xE0), (0xCF, 0xE1), (0xD2, 0xE8), (0xD3, 0xE9)]"

definition ctlmap :: "u8 \<Rightarrow> u8" where
  "ctlmap = keymap
     [0, 0, 0, 0, 0, 0, 0, 0, 0, 0, 0, 0, 0, 0, 0, 0,
      17, 23, 5, 18, 20, 25, 21, 9, 15, 16, 0, 0, 13, 0, 1, 19,
      4, 6, 7, 8, 10, 11, 12, 0, 0, 0, 0, 28, 26, 24, 3, 22,
      2, 14, 13, 0, 0, 239, 0, 0]
     [(0x9C, 0xD), (0xB5, 0xEF), (0xC8, 0xE2), (0xD0, 0xE3), (0xC9, 0xE6), (0xD1, 0xE7), (0xCB, 0xE4), (0xCD, 0xE5), (0x97, 0xE0), (0xCF, 0xE1), (0xD2, 0xE8), (0xD3, 0xE9)]"

definition SHIFT :: u32 where "SHIFT = 1"
definition CTL :: u32 where "CTL = 2"
definition ALT :: u32 where "ALT = 4"
definition CAPSLOCK :: u32 where "CAPSLOCK = 8"
definition NUMLOCK :: u32 where "NUMLOCK = 16"
definition SCROLLLOCK :: u32 where "SCROLLLOCK = 32"
definition E0ESC :: u32 where "E0ESC = 64"

definition shiftcode :: "u8 \<Rightarrow> u32" where
  "shiftcode d =
     (if d = 0x1D \<or> d = 0x9D then CTL else if d = 0x2A \<or> d = 0x36 then SHIFT else if d = 0x38 \<or> d = 0xB8 then ALT else 0)"

definition togglecode :: "u8 \<Rightarrow> u32" where
  "togglecode d = (if d = 0x3A then CAPSLOCK else if d = 0x45 then NUMLOCK else if d = 0x46 then SCROLLLOCK else 0)"

text \<open>\<open>kbdgetc\<close> on the byte the controller has, if any, and the state \<open>shift\<close> of the modifier keys.\<close>

definition kbdgetc :: "u8 option \<Rightarrow> u32 \<Rightarrow> int \<times> u32" where
  "kbdgetc inp shift =
     (case inp of None \<Rightarrow> (- 1, shift)
      | Some data \<Rightarrow>
          if data = 0xE0 then (0, shift OR E0ESC)
          else if data AND 0x80 \<noteq> 0 then
            let data = (if shift AND E0ESC \<noteq> 0 then data else data AND 0x7F)
            in (0, shift AND NOT (shiftcode data OR E0ESC))
          else
            let (data, shift) = (if shift AND E0ESC \<noteq> 0 then (data OR 0x80, shift AND NOT E0ESC) else (data, shift));
                shift = (shift OR shiftcode data) XOR togglecode data;
                k = shift AND (CTL OR SHIFT);
                c = (if k = 0 then normalmap data else if k = 1 then shiftmap data else ctlmap data);
                c = (if shift AND CAPSLOCK \<noteq> 0
                     then if 97 \<le> c \<and> c \<le> 122 then c - 32 else if 65 \<le> c \<and> c \<le> 90 then c + 32 else c
                     else c)
            in (uint c, shift))"

end
