(* ===== verification/ConsoleProps.thy ===== *)
theory ConsoleProps
  imports Console
begin

text \<open>
  The console: numbers are printed in full, the cursor stays on the screen, keys edit the line, and reading
  delivers the lines in the order in which they were finished.
\<close>

unbundle bit_operations_syntax

section \<open>Output\<close>

definition on_screen :: "cons_out \<Rightarrow> bool" where
  "on_screen o' \<longleftrightarrow> o_pos o' < 24 * 80 \<and> \<not> o_panicked o'"

lemma cgaputc_ok: "on_screen o' \<Longrightarrow> \<exists>u. cgaputc c o' = Inr u \<and> on_screen u \<and> (\<forall>i \<ge> 24 * 80. o_crt u i = o_crt o' i)"
proof -
  assume s: "on_screen o'"
  define p where "p = o_pos o'"
  have p: "p < 1920" "\<not> o_panicked o'" using s by (simp_all add: on_screen_def p_def)
  have "p div 80 < 24" using p(1) by (simp add: div_less_iff_less_mult)
  moreover have "80 * (p div 80) + p mod 80 = p" "p mod 80 < 80" by simp_all
  ultimately have nl: "p + (80 - p mod 80) \<le> 1920" by linarith
  define q where "q = (if c = 10 then p + (80 - p mod 80) else if c = BACKSPACE then (if p > 0 then p - 1 else p) else p + 1)"
  define crt where "crt = (if c = 10 \<or> c = BACKSPACE then o_crt o' else (o_crt o')(p := cga_cell c))"
  have "p - 1 \<le> 1920" "p + 1 \<le> 1920" using p(1) by linarith+
  then have q: "q \<le> 1920" using p(1) nl unfolding q_def by (cases "c = 10"; cases "c = BACKSPACE"; cases "0 < p"; simp)
  have crt: "\<forall>i \<ge> 1920. crt i = o_crt o' i" using p(1) by (simp add: crt_def)
  have e: "cgaputc c o' = (let (pos, crt) =
      (if q div 80 \<ge> 24
       then let crt = (\<lambda>i. if i < 23 * 80 then crt (i + 80) else crt i); pos = q - 80
            in (pos, \<lambda>i. if pos \<le> i \<and> i < 24 * 80 then 0 else crt i)
       else (q, crt))
    in Inr (o'\<lparr>o_pos := pos, o_crt := crt(pos := 0x0720)\<rparr>))"
  proof -
    have n: "\<not> 25 * 80 < q" using q by simp
    have "(if c = 10 then (o_pos o' + (80 - o_pos o' mod 80), o_crt o') else if c = BACKSPACE then (if o_pos o' > 0 then o_pos o' - 1 else o_pos o', o_crt o')
      else (o_pos o' + 1, (o_crt o')(o_pos o' := cga_cell c))) = (q, crt)" unfolding q_def crt_def p_def by (simp split: if_split)
    then show ?thesis unfolding cgaputc_def Let_def using n by (simp only: prod.case if_False)
  qed
  show ?thesis
  proof (cases "q div 80 \<ge> 24")
    case True
    then have "q - 80 < 1920" using q by linarith
    then show ?thesis unfolding e using True crt p(2) by (simp add: Let_def on_screen_def)
  next
    case False
    then have "q < 1920" by (simp add: not_le div_less_iff_less_mult)
    then show ?thesis unfolding e using False crt p(2) by (simp add: Let_def on_screen_def)
  qed
qed

lemma consputc_ok: "on_screen o' \<Longrightarrow> \<exists>u. consputc c o' = Inr u \<and> on_screen u"
proof -
  assume s: "on_screen o'"
  let ?v = "if c = BACKSPACE then uartputc 8 (uartputc 0x20 (uartputc 8 o')) else uartputc (of_nat c) o'"
  have "on_screen ?v" using s by (simp add: on_screen_def uartputc_def)
  then obtain u where "cgaputc c ?v = Inr u" "on_screen u" using cgaputc_ok by blast
  then show ?thesis using s by (simp add: consputc_def on_screen_def Let_def)
qed

section \<open>Numbers\<close>

definition digit_of :: "nat \<Rightarrow> nat" where
  "digit_of c = (if c \<ge> 97 then c - 87 else c - 48)"

lemma digit_of_digits: "i < 16 \<Longrightarrow> digit_of (digits ! i) = i"
proof -
  have "list_all (\<lambda>i. digit_of (digits ! i) = i) [0..<16]" by code_simp
  then show "i < 16 \<Longrightarrow> digit_of (digits ! i) = i" by (simp only: list_all_iff set_upt) simp
qed

lemma sint_cases: "sint xx = (if uint xx < 2147483648 then uint xx else uint xx - 4294967296)" for xx :: u32
proof -
  have lt: "0 \<le> uint xx" "uint xx < 4294967296" using uint_lt2p [of xx] by simp_all
  have "sint xx = (uint xx + 2147483648) mod 4294967296 - 2147483648"
    by (simp add: sint_uint signed_take_bit_eq_take_bit_shift take_bit_eq_mod)
  moreover have "(uint xx + 2147483648) mod 4294967296 = (if uint xx < 2147483648 then uint xx + 2147483648 else uint xx - 2147483648)"
  proof (cases "uint xx < 2147483648")
    case True
    then show ?thesis using lt by (simp add: mod_pos_pos_trivial)
  next
    case False
    have "uint xx + 2147483648 = uint xx - 2147483648 + 4294967296" by simp
    then have "(uint xx + 2147483648) mod 4294967296 = (uint xx - 2147483648 + 4294967296) mod 4294967296" by (rule arg_cong)
    also have "\<dots> = (uint xx - 2147483648) mod 4294967296" by (rule mod_add_self2)
    also have "\<dots> = uint xx - 2147483648" using lt False by (simp add: mod_pos_pos_trivial)
    finally show ?thesis using False by simp
  qed
  ultimately show ?thesis by (simp split: if_splits)
qed

lemma printint_loop_ok:
  assumes base: "1 < base" "base \<le> 16"
  shows "foldr (\<lambda>c n. digit_of c + unat base * n) (printint_loop x base) 0 = unat x"
    and "0 < k \<Longrightarrow> unat x < unat base ^ k \<Longrightarrow> length (printint_loop x base) \<le> k"
proof -
  have b: "1 < unat base" "unat base \<le> 16" using base by (simp_all add: word_less_nat_alt word_le_nat_alt)
  have d: "digit_of (digits ! unat (x mod base)) = unat x mod unat base" for x
  proof -
    have m: "unat (x mod base) = unat x mod unat base" by (rule unat_mod)
    have "unat x mod unat base < unat base" using b(1) by simp
    then have "unat x mod unat base < 16" using b(2) by linarith
    then show ?thesis unfolding m by (rule digit_of_digits)
  qed
  have nz: "x div base \<noteq> 0 \<longleftrightarrow> unat x div unat base \<noteq> 0" for x by (simp add: unat_div [symmetric] unat_eq_0)
  show "foldr (\<lambda>c n. digit_of c + unat base * n) (printint_loop x base) 0 = unat x"
  proof (induction "unat x" arbitrary: x rule: less_induct)
    case less
    show ?case
    proof (cases "unat x div unat base = 0")
      case True
      then have "\<not> (x div base \<noteq> 0)" using nz by blast
      then have "printint_loop x base = [digits ! unat (x mod base)]" by (subst printint_loop.simps) (simp only: Let_def if_False simp_thms)
      moreover have "unat x mod unat base = unat x" using True b(1) by (metis div_eq_0_iff mod_less not_less_zero)
      ultimately show ?thesis using d [of x] by simp
    next
      case False
      then have x: "x div base \<noteq> 0" using nz by blast
      then have s: "printint_loop x base = digits ! unat (x mod base) # printint_loop (x div base) base"
        using base(1) by (subst printint_loop.simps) (simp only: Let_def if_True simp_thms)
      have "unat (x div base) < unat x" unfolding unat_div
      by (rule div_less_dividend) (use False b(1) in \<open>cases "unat x"; simp\<close>)+
      then have "foldr (\<lambda>c n. digit_of c + unat base * n) (printint_loop (x div base) base) 0 = unat (x div base)" by (rule less.hyps)
      then show ?thesis unfolding s using d [of x] by (simp add: unat_div)
    qed
  qed
  show "0 < k \<Longrightarrow> unat x < unat base ^ k \<Longrightarrow> length (printint_loop x base) \<le> k"
  proof (induction k arbitrary: x)
    case (Suc k)
    show ?case
    proof (cases "unat x div unat base = 0")
      case True
      then have "\<not> (x div base \<noteq> 0)" using nz by blast
      then have "printint_loop x base = [digits ! unat (x mod base)]" by (subst printint_loop.simps) (simp only: Let_def if_False simp_thms)
      then show ?thesis by simp
    next
      case False
      then have x: "x div base \<noteq> 0" using nz by blast
      then have s: "printint_loop x base = digits ! unat (x mod base) # printint_loop (x div base) base"
        using base(1) by (subst printint_loop.simps) (simp only: Let_def if_True simp_thms)
      have lt: "unat (x div base) < unat base ^ k" using Suc.prems(2) b(1) by (simp add: unat_div less_mult_imp_div_less mult.commute)
      have "0 < k"
      proof (rule ccontr)
        assume "\<not> 0 < k"
        then show False using lt x by (simp add: unat_eq_0)
      qed
      then show ?thesis unfolding s using Suc.IH [OF _ lt] by simp
    qed
  qed simp
qed

section \<open>The line editor\<close>

text \<open>The finished input that readers have not taken, and the line that is still edited.\<close>

definition ready :: "cons \<Rightarrow> u8 list" where
  "ready s = ring INPUT_BUF (in_buf s) (in_r s) (unat (in_w s - in_r s))"

definition line :: "cons \<Rightarrow> u8 list" where
  "line s = ring INPUT_BUF (in_buf s) (in_w s) (unat (in_e s - in_w s))"

definition cons_ok :: "cons \<Rightarrow> bool" where
  "cons_ok s \<longleftrightarrow> length (in_buf s) = INPUT_BUF \<and> unat (in_w s - in_r s) + unat (in_e s - in_w s) \<le> INPUT_BUF \<and>
     10 \<notin> set (line s) \<and> on_screen (in_out s)"

lemma length_ready: "length (ready s) = unat (in_w s - in_r s)"
  by (simp add: ready_def)

lemma length_line: "length (line s) = unat (in_e s - in_w s)"
  by (simp add: line_def)

lemma counters_add: "unat (w - r) + unat (e - w) \<le> 128 \<Longrightarrow> unat (e - r) = unat (w - r) + unat (e - w)" for e w r :: u32
proof -
  assume le: "unat (w - r) + unat (e - w) \<le> 128"
  have "e - r = (w - r) + (e - w)" by simp
  then have "unat (e - r) = (unat (w - r) + unat (e - w)) mod 4294967296" by (simp only: unat_word_ariths) simp
  then show ?thesis using le by simp
qed

lemma INPUT_BUF_dvd: "INPUT_BUF dvd 4294967296"
  by (simp add: INPUT_BUF_def)

text \<open>All that is in the buffer.\<close>

lemma pending:
  assumes "unat (w - r) + unat (e - w) \<le> 128"
  shows "ring N buf r (unat (e - r)) = ring N buf r (unat (w - r)) @ ring N buf w (unat (e - w))"
proof -
  let ?k = "unat (w - r)"
  have e: "unat (e - r) = ?k + unat (e - w)" by (rule counters_add [OF assms])
  have w: "r + of_nat ?k = w" by simp
  have "ring N buf r (unat (e - r)) = take ?k (ring N buf r (unat (e - r))) @ drop ?k (ring N buf r (unat (e - r)))" by simp
  also have "\<dots> = ring N buf r ?k @ ring N buf w (unat (e - w))" using e w by (simp add: ring_take ring_drop)
  finally show ?thesis .
qed

lemma cons_okD:
  assumes "cons_ok s"
  shows "length (in_buf s) = INPUT_BUF" "unat (in_w s - in_r s) + unat (in_e s - in_w s) \<le> 128" "10 \<notin> set (line s)" "on_screen (in_out s)"
    "unat (in_e s - in_r s) = length (ready s) + length (line s)"
  using assms counters_add [of "in_w s" "in_r s" "in_e s"] by (simp_all add: cons_ok_def INPUT_BUF_def length_ready length_line)

text \<open>Taking back the last character.\<close>

lemma back_one:
  assumes ok: "cons_ok s" and ne: "in_e s \<noteq> in_w s" and out: "on_screen o'"
  shows "cons_ok (s\<lparr>in_e := in_e s - 1, in_out := o'\<rparr>)" "ready (s\<lparr>in_e := in_e s - 1, in_out := o'\<rparr>) = ready s"
    "line s = line (s\<lparr>in_e := in_e s - 1, in_out := o'\<rparr>) @ [in_buf s ! (unat (in_e s - 1) mod INPUT_BUF)]"
proof -
  let ?t = "s\<lparr>in_e := in_e s - 1, in_out := o'\<rparr>"
  note b = counter_back [OF ne]
  have "in_w s + of_nat (unat (in_e s - 1 - in_w s)) = in_e s - 1" by simp
  then show l: "line s = line ?t @ [in_buf s ! (unat (in_e s - 1) mod INPUT_BUF)]" unfolding line_def b by (simp add: ring_snoc)
  show "ready ?t = ready s" by (simp add: ready_def)
  have "10 \<notin> set (line ?t)" using cons_okD(3) [OF ok] unfolding l by simp
  then show "cons_ok ?t" using cons_okD [OF ok] b out by (simp add: cons_ok_def INPUT_BUF_def)
qed

lemma line_empty: "line s = [] \<longleftrightarrow> in_e s = in_w s"
proof -
  have "line s = [] \<longleftrightarrow> unat (in_e s - in_w s) = 0" by (metis length_0_conv length_line)
  then show ?thesis by (simp add: unat_eq_0)
qed

lemma kill_line_ok: "cons_ok s \<Longrightarrow> \<exists>t. kill_line s = Inr t \<and> cons_ok t \<and> ready t = ready s \<and> line t = []"
proof (induction "unat (in_e s - in_w s)" arbitrary: s rule: less_induct)
  case less
  show ?case
  proof (cases "in_e s = in_w s")
    case True
    then show ?thesis using less.prems line_empty [of s] by (subst kill_line.simps) simp
  next
    case False
    obtain o' where o': "consputc BACKSPACE (in_out s) = Inr o'" "on_screen o'" using consputc_ok cons_okD(4) [OF less.prems] by blast
    let ?t = "s\<lparr>in_e := in_e s - 1, in_out := o'\<rparr>"
    note b = back_one [OF less.prems False o'(2)]
    have nl: "in_buf s ! (unat (in_e s - 1) mod INPUT_BUF) \<noteq> 10" using cons_okD(3) [OF less.prems] unfolding b(3) by auto
    have step: "kill_line s = kill_line ?t" by (subst kill_line.simps) (simp add: False nl o'(1))
    have "unat (in_e ?t - in_w ?t) < unat (in_e s - in_w s)" using counter_back [OF False] by simp
    from less.hyps [OF this b(1)] show ?thesis unfolding step b(2) .
  qed
qed

text \<open>What a key does to the finished input and the line.\<close>

definition edit_key :: "int \<Rightarrow> u8 list \<times> u8 list \<Rightarrow> u8 list \<times> u8 list" where
  "edit_key c rl =
     (if c = 0x10 then rl
      else if c = 0x15 then (fst rl, [])
      else if c = 8 \<or> c = 0x7F then (fst rl, butlast (snd rl))
      else if c \<noteq> 0 \<and> length (fst rl) + length (snd rl) < 128 then
        let c = (if c = 13 then 10 else c); l = snd rl @ [word_of_int c] in
        if c = 10 \<or> c = 4 \<or> length (fst rl) + length l = 128 then (fst rl @ l, []) else (fst rl, l)
      else rl)"

lemma put_char:
  fixes s :: cons and b :: u8 and o' :: cons_out
  assumes ok: "cons_ok s" and room: "length (ready s) + length (line s) < 128"
  defines "t \<equiv> s\<lparr>in_buf := (in_buf s)[unat (in_e s) mod INPUT_BUF := b], in_e := in_e s + 1, in_out := o'\<rparr>"
  shows "length (in_buf t) = INPUT_BUF" "unat (in_w t - in_r t) + unat (in_e t - in_w t) \<le> 128" "ready t = ready s" "line t = line s @ [b]"
    "in_e t - in_r t = of_nat (length (ready s) + length (line s) + 1)"
proof -
  note k = cons_okD [OF ok]
  let ?k = "length (ready s) + length (line s)"
  have ek: "unat (in_e s - in_r s) = ?k" by (rule k(5))
  have ew: "unat (in_e t - in_w t) = Suc (unat (in_e s - in_w s))"
    using counter_on [of "in_e s" "in_w s"] k(2) by (simp add: t_def)
  show "length (in_buf t) = INPUT_BUF" using k(1) by (simp add: t_def)
  show le: "unat (in_w t - in_r t) + unat (in_e t - in_w t) \<le> 128"
    using room ew by (simp add: length_ready length_line) (simp add: t_def)
  have pos: "in_r s + of_nat ?k = in_e s" unfolding ek [symmetric] by simp
  have er: "unat (in_e t - in_r t) = Suc ?k" using counter_on [of "in_e s" "in_r s"] room ek by (simp add: t_def)
  have "in_e t - in_r t = of_nat (unat (in_e t - in_r t))" by simp
  then have "in_e t - in_r t = of_nat (Suc ?k)" by (simp only: er)
  then show "in_e t - in_r t = of_nat (?k + 1)" by simp
  have all: "ring INPUT_BUF (in_buf t) (in_r t) (unat (in_e t - in_r t)) = ring INPUT_BUF (in_buf s) (in_r s) ?k @ [b]"
    unfolding er using ring_put [OF INPUT_BUF_dvd k(1), of ?k "in_r s" b] room unfolding pos by (simp add: t_def INPUT_BUF_def)
  have "ready t @ line t = ready s @ line s @ [b]"
    using all pending [OF le, of INPUT_BUF "in_buf t"] pending [OF k(2), of INPUT_BUF "in_buf s"] unfolding ek by (simp add: ready_def line_def)
  moreover have "length (ready t) = length (ready s)" by (simp add: length_ready t_def)
  ultimately show "ready t = ready s" "line t = line s @ [b]" by simp_all
qed

lemma commit:
  assumes "length (in_buf s) = INPUT_BUF" "unat (in_w s - in_r s) + unat (in_e s - in_w s) \<le> 128" "on_screen (in_out s)"
  shows "cons_ok (s\<lparr>in_w := in_e s\<rparr>)" "ready (s\<lparr>in_w := in_e s\<rparr>) = ready s @ line s" "line (s\<lparr>in_w := in_e s\<rparr>) = []"
proof -
  have "unat (in_e s - in_r s) \<le> 128" using counters_add [OF assms(2)] assms(2) by simp
  moreover show "line (s\<lparr>in_w := in_e s\<rparr>) = []" by (simp add: line_def)
  ultimately show "cons_ok (s\<lparr>in_w := in_e s\<rparr>)" using assms by (simp add: cons_ok_def INPUT_BUF_def)
  show "ready (s\<lparr>in_w := in_e s\<rparr>) = ready s @ line s"
    using pending [OF assms(2), of INPUT_BUF "in_buf s"] by (simp add: ready_def line_def)
qed

lemma byte_ne: "0 \<le> c \<Longrightarrow> c < 256 \<Longrightarrow> c \<noteq> 10 \<Longrightarrow> word_of_int c \<noteq> (10 :: u8)"
proof
  assume c: "0 \<le> c" "c < 256" "c \<noteq> 10" "word_of_int c = (10 :: u8)"
  have "uint (word_of_int c :: u8) = c" using c(1,2) by (simp add: uint_word_of_int mod_pos_pos_trivial)
  then show False using c(3,4) by simp
qed

lemma console_key_ok:
  assumes ok: "cons_ok s" and c: "0 \<le> c" "c < 256"
  shows "\<exists>d k t. console_key c s = Inr (d, k, t) \<and> cons_ok t \<and> (ready t, line t) = edit_key c (ready s, line s) \<and>
    (k \<longleftrightarrow> ready t \<noteq> ready s)"
proof -
  note i = cons_okD [OF ok]
  consider "c = 0x10" | "c = 0x15" | "c = 8 \<or> c = 0x7F"
    | "c \<noteq> 0x10" "c \<noteq> 0x15" "\<not> (c = 8 \<or> c = 0x7F)" "\<not> (c \<noteq> 0 \<and> length (ready s) + length (line s) < 128)"
    | "c \<noteq> 0x10" "c \<noteq> 0x15" "\<not> (c = 8 \<or> c = 0x7F)" "c \<noteq> 0 \<and> length (ready s) + length (line s) < 128" by blast
  then show ?thesis
  proof cases
    case 1
    then show ?thesis using ok by (intro exI [of _ True] exI [of _ False] exI [of _ s]) (simp add: console_key_def edit_key_def)
  next
    case 2
    obtain t where "kill_line s = Inr t" "cons_ok t" "ready t = ready s" "line t = []" using kill_line_ok [OF ok] by blast
    then show ?thesis using 2 by (intro exI [of _ False] exI [of _ False] exI [of _ t]) (simp add: console_key_def edit_key_def)
  next
    case 3
    show ?thesis
    proof (cases "in_e s = in_w s")
      case True
      then have "line s = []" by (simp add: line_empty)
      then show ?thesis using 3 True ok by (intro exI [of _ False] exI [of _ False] exI [of _ s]) (auto simp: console_key_def edit_key_def)
    next
      case False
      obtain o' where o': "consputc BACKSPACE (in_out s) = Inr o'" "on_screen o'" using consputc_ok i(4) by blast
      note b = back_one [OF ok False o'(2)]
      have "butlast (line s) = line (s\<lparr>in_e := in_e s - 1, in_out := o'\<rparr>)" unfolding b(3) by simp
      then show ?thesis using 3 False o'(1) b(1,2)
        by (intro exI [of _ False] exI [of _ False] exI [of _ "s\<lparr>in_e := in_e s - 1, in_out := o'\<rparr>"]) (auto simp: console_key_def edit_key_def)
    qed
  next
    case 4
    have "in_e s - in_r s < of_nat INPUT_BUF \<longleftrightarrow> length (ready s) + length (line s) < 128"
      using i(5) by (simp add: word_less_nat_alt INPUT_BUF_def)
    then show ?thesis using 4 ok by (intro exI [of _ False] exI [of _ False] exI [of _ s]) (auto simp: console_key_def edit_key_def)
  next
    case 5
    have room: "in_e s - in_r s < of_nat INPUT_BUF" "length (ready s) + length (line s) < 128" using 5 i(5) by (simp_all add: word_less_nat_alt INPUT_BUF_def)
    let ?c = "if c = 13 then 10 else c"
    obtain o' where o': "consputc (nat ?c) (in_out s) = Inr o'" "on_screen o'" using consputc_ok i(4) by blast
    let ?t = "s\<lparr>in_buf := (in_buf s)[unat (in_e s) mod INPUT_BUF := word_of_int ?c], in_e := in_e s + 1, in_out := o'\<rparr>"
    note p = put_char [OF ok room(2), where b = "word_of_int ?c" and o' = o']
    have t: "console_key c s = (if ?c = 10 \<or> ?c = 4 \<or> in_e ?t = in_r ?t + of_nat INPUT_BUF then Inr (False, True, ?t\<lparr>in_w := in_e ?t\<rparr>) else Inr (False, False, ?t))"
      using 5 room(1) o'(1) unfolding console_key_def by (simp only: if_False if_True Let_def simp_thms) simp
    have le: "length (ready s) + length (line s) + 1 < 2 ^ 32" using room(2) by simp
    have full: "in_e ?t = in_r ?t + of_nat INPUT_BUF \<longleftrightarrow> length (ready s) + length (line s) + 1 = 128"
    proof -
      have "in_e ?t = in_r ?t + of_nat INPUT_BUF \<longleftrightarrow> in_e ?t - in_r ?t = of_nat INPUT_BUF" by (simp only: diff_eq_eq add.commute)
      also have "\<dots> \<longleftrightarrow> (of_nat (length (ready s) + length (line s) + 1) :: u32) = of_nat INPUT_BUF" by (simp only: p(5))
      also have "\<dots> \<longleftrightarrow> length (ready s) + length (line s) + 1 = 128"
        using room(2) by (simp add: word_unat_eq_iff unat_of_nat INPUT_BUF_def del: of_nat_add of_nat_Suc)
      finally show ?thesis .
    qed
    have ek: "edit_key c (ready s, line s) = (if ?c = 10 \<or> ?c = 4 \<or> length (ready s) + length (line s) + 1 = 128
        then (ready s @ line s @ [word_of_int ?c], []) else (ready s, line s @ [word_of_int ?c]))"
      using 5 by (simp add: edit_key_def Let_def)
    show ?thesis
    proof (cases "?c = 10 \<or> ?c = 4 \<or> length (ready s) + length (line s) + 1 = 128")
      case True
      have "on_screen (in_out ?t)" using o'(2) by simp
      note cm = commit [OF p(1,2) this]
      have "console_key c s = Inr (False, True, ?t\<lparr>in_w := in_e ?t\<rparr>)" unfolding t full using True by (simp only: if_True)
      moreover have "edit_key c (ready s, line s) = (ready s @ line s @ [word_of_int ?c], [])" unfolding ek using True by (simp only: if_True)
      ultimately show ?thesis using cm p(3,4) by (intro exI [of _ False] exI [of _ True] exI [of _ "?t\<lparr>in_w := in_e ?t\<rparr>"]) simp
    next
      case False
      have "word_of_int ?c \<noteq> (10 :: u8)" by (rule byte_ne) (use c False in auto)
      then have "10 \<notin> set (line ?t)" using i(3) unfolding p(4) by simp
      then have "cons_ok ?t" using p(1,2) o'(2) by (simp add: cons_ok_def INPUT_BUF_def)
      moreover have "console_key c s = Inr (False, False, ?t)" unfolding t full using False by (simp only: if_False)
      moreover have "edit_key c (ready s, line s) = (ready s, line s @ [word_of_int ?c])" unfolding ek using False by (simp only: if_False)
      ultimately show ?thesis using p(3,4) by (intro exI [of _ False] exI [of _ False] exI [of _ ?t]) simp
    qed
  qed
qed

lemma consoleintr_ok:
  "cons_ok s \<Longrightarrow> \<forall>c \<in> set cs. 0 \<le> c \<and> c < 256 \<Longrightarrow>
    \<exists>d k t. consoleintr cs s = Inr (d, k, t) \<and> cons_ok t \<and> (ready t, line t) = fold edit_key cs (ready s, line s)"
proof (induction cs arbitrary: s)
  case Nil
  then show ?case by (intro exI [of _ False] exI [of _ False] exI [of _ s]) simp
next
  case (Cons c cs)
  have c: "0 \<le> c" "c < 256" using Cons.prems(2) by simp_all
  obtain d k t where t: "console_key c s = Inr (d, k, t)" "cons_ok t" "(ready t, line t) = edit_key c (ready s, line s)"
    using console_key_ok [OF Cons.prems(1) c] by blast
  obtain d' k' u where u: "consoleintr cs t = Inr (d', k', u)" "cons_ok u" "(ready u, line u) = fold edit_key cs (ready t, line t)"
    using Cons.IH [OF t(2)] Cons.prems(2) by auto
  have "consoleintr (c # cs) s = Inr (d \<or> d', k \<or> k', u)" using c t(1) u(1) by simp
  then show ?case using u(2,3) t(3) by auto
qed

section \<open>Reading\<close>

lemma take_char:
  assumes ok: "cons_ok s" and r: "ready s = b # rest"
  shows "in_r s \<noteq> in_w s" "in_buf s ! (unat (in_r s) mod INPUT_BUF) = b" "cons_ok (s\<lparr>in_r := in_r s + 1\<rparr>)"
    "ready (s\<lparr>in_r := in_r s + 1\<rparr>) = rest" "line (s\<lparr>in_r := in_r s + 1\<rparr>) = line s"
proof -
  let ?t = "s\<lparr>in_r := in_r s + 1\<rparr>"
  have k: "unat (in_w s - in_r s) = Suc (length rest)" using r length_ready [of s] by simp
  then show ne: "in_r s \<noteq> in_w s" by auto
  have e: "in_w s - in_r s = of_nat (Suc (length rest))" using k by (metis of_nat_unat ucast_id)
  have w: "in_w s - (in_r s + 1) = in_w s - in_r s - 1" by simp
  have "unat (in_w s - in_r s - 1) = unat (in_w s - in_r s) - 1" by (rule unat_minus_one) (use ne in simp)
  then have k': "unat (in_w s - (in_r s + 1)) = length rest" unfolding w using k by simp
  have "ready s = in_buf s ! (unat (in_r s) mod INPUT_BUF) # ring INPUT_BUF (in_buf s) (in_r s + 1) (length rest)"
    unfolding ready_def k by (rule ring_Cons)
  then show "in_buf s ! (unat (in_r s) mod INPUT_BUF) = b" "ready ?t = rest" using r k' by (simp_all add: ready_def)
  show l: "line ?t = line s" by (simp add: line_def)
  show "cons_ok ?t" using cons_okD [OF ok] k k' l by (simp add: cons_ok_def INPUT_BUF_def)
qed

lemma consoleread_line:
  "cons_ok s \<Longrightarrow> ready s = l @ 10 # rest \<Longrightarrow> 10 \<notin> set l \<Longrightarrow> 4 \<notin> set l \<Longrightarrow> length l < n \<Longrightarrow>
    \<exists>u. consoleread_loop killed target n dst s = (Returned (int target - int n + int (length l) + 1) (dst @ l @ [10]), u) \<and>
      cons_ok u \<and> ready u = rest \<and> line u = line s"
proof (induction l arbitrary: n dst s)
  case Nil
  then obtain n' where n: "n = Suc n'" by (cases n) auto
  have r: "ready s = 10 # rest" using Nil.prems(2) by simp
  note t = take_char [OF Nil.prems(1) r]
  have "consoleread_loop killed target n dst s = (Returned (int target - int n') (dst @ [10]), s\<lparr>in_r := in_r s + 1\<rparr>)"
    using t(1,2) by (simp add: n Let_def)
  then show ?case using t(3-5) n by simp
next
  case (Cons b l)
  then obtain n' where n: "n = Suc n'" "length l < n'" by (cases n) auto
  have r: "ready s = b # l @ 10 # rest" using Cons.prems(2) by simp
  note t = take_char [OF Cons.prems(1) r]
  have b: "b \<noteq> 10" "b \<noteq> 4" using Cons.prems(3,4) by auto
  have "10 \<notin> set l" "4 \<notin> set l" using Cons.prems(3,4) by simp_all
  from Cons.IH [OF t(3,4) this n(2)] obtain u where u:
    "consoleread_loop killed target n' (dst @ [b]) (s\<lparr>in_r := in_r s + 1\<rparr>) = (Returned (int target - int n' + int (length l) + 1) ((dst @ [b]) @ l @ [10]), u)"
    "cons_ok u" "ready u = rest" "line u = line s" unfolding t(5) by blast
  have "consoleread_loop killed target n dst s = consoleread_loop killed target n' (dst @ [b]) (s\<lparr>in_r := in_r s + 1\<rparr>)"
    using t(1,2) b by (simp add: n(1) Let_def)
  then show ?case using u n(1) by simp
qed

text \<open>An end of input: Control-D ends a read; the next read returns 0 if the first one had got characters.\<close>

lemma consoleread_eof:
  assumes "cons_ok s" "ready s = 4 # rest" "0 < n"
  shows "\<exists>u. consoleread killed n s = (Returned 0 [], u) \<and> cons_ok u \<and> ready u = rest"
proof -
  obtain n' where n: "n = Suc n'" using assms(3) by (cases n) auto
  note t = take_char [OF assms(1,2)]
  show ?thesis using t by (simp add: n consoleread_def Let_def)
qed

section \<open>Properties\<close>

text \<open>
  C39. The console edits lines: keys that an interrupt brings change the finished input and the edited line as
  the reference editor does, whatever the positions in the circular buffer and without a fault; then a read
  with room for it returns exactly the first finished line, with its newline, and leaves the rest for the
  next read.
\<close>

theorem console_line_discipline:
  assumes "cons_ok s" "\<And>c. c \<in> set cs \<Longrightarrow> 0 \<le> c \<and> c < 256"
    "fold edit_key cs (ready s, line s) = (l @ 10 # rest, edited)" "10 \<notin> set l" "4 \<notin> set l" "length l < n"
  shows "\<exists>d k t u. consoleintr cs s = Inr (d, k, t) \<and> cons_ok t \<and> (ready t, line t) = (l @ 10 # rest, edited) \<and>
    consoleread killed n t = (Returned (int (length l) + 1) (l @ [10]), u) \<and> cons_ok u \<and> (ready u, line u) = (rest, edited)"
proof -
  obtain d k t where t: "consoleintr cs s = Inr (d, k, t)" "cons_ok t" "(ready t, line t) = fold edit_key cs (ready s, line s)"
    using consoleintr_ok [OF assms(1)] assms(2) by blast
  then have r: "ready t = l @ 10 # rest" "line t = edited" using assms(3) by simp_all
  from consoleread_line [OF t(2) r(1) assms(4-6), of killed n "[]"] obtain u where
    "consoleread_loop killed n n [] t = (Returned (int (length l) + 1) (l @ [10]), u)" "cons_ok u" "ready u = rest" "line u = line t" by auto
  then show ?thesis using t(1,2) r unfolding consoleread_def by blast
qed

text \<open>An empty console with a serial port, and \<open>ab\<close>, a backspace, \<open>c\<close> and the return key.\<close>

definition ex_cons :: cons where
  "ex_cons = \<lparr>in_buf = replicate 128 0, in_r = 4294967294, in_w = 4294967294, in_e = 4294967294,
     in_out = \<lparr>o_crt = \<lambda>_. 0, o_pos = 0, o_uart = True, o_sent = [], o_panicked = False\<rparr>\<rparr>"

theorem console_line_discipline_witness:
  "\<exists>d k t u. consoleintr [97, 98, 8, 99, 13] ex_cons = Inr (d, k, t) \<and> consoleread False 10 t = (Returned 3 [97, 99, 10], u)"
proof -
  have ok: "cons_ok ex_cons" by (simp add: cons_ok_def ex_cons_def INPUT_BUF_def line_def on_screen_def)
  have e: "ready ex_cons = []" "line ex_cons = []" by (simp_all add: ready_def line_def ex_cons_def)
  have f: "fold edit_key [97, 98, 8, 99, 13] (ready ex_cons, line ex_cons) = ([97, 99] @ 10 # [], [])"
    unfolding e by (simp add: edit_key_def)
  have c: "0 \<le> c \<and> c < 256" if "c \<in> set [97, 98, 8, 99, 13 :: int]" for c using that by auto
  have l: "(10 :: u8) \<notin> set [97, 99]" "(4 :: u8) \<notin> set [97, 99]" "length [97, 99 :: u8] < 10" by simp_all
  from console_line_discipline [OF ok c f l, of False] show ?thesis by auto
qed

text \<open>
  \<open>printint\<close> prints every number in full: the digits, read in the base, give the number or its absolute
  value, the sign is there exactly for negative numbers, and the 16 characters of the buffer suffice.
\<close>

theorem printint_prints:
  assumes "base = 10 \<or> base = 16"
  shows "\<exists>ds. printint xx base sign = Inr ((if sign \<and> sint xx < 0 then [45] else []) @ ds) \<and> length ds \<le> 10 \<and>
    fold (\<lambda>c n. n * unat base + digit_of c) ds 0 = (if sign then nat \<bar>sint xx\<bar> else unat xx)"
proof -
  let ?neg = "sign \<and> sint xx < 0"
  let ?x = "if ?neg then - xx else xx"
  have b: "1 < base" "base \<le> 16" using assms by auto
  have lt: "unat ?x < 4294967296" using unsigned_less [of ?x, where ?'a = nat] by simp
  have "unat base ^ 10 \<ge> 4294967296" using assms by auto
  then have len: "length (printint_loop ?x base) \<le> 10" using printint_loop_ok(2) [OF b, of 10 ?x] lt by linarith
  have f: "fold (\<lambda>c n. n * unat base + digit_of c) (rev (printint_loop ?x base)) 0 = unat ?x"
    using printint_loop_ok(1) [OF b, of ?x] by (simp add: foldr_conv_fold mult.commute add.commute)
  have v: "unat ?x = (if sign then nat \<bar>sint xx\<bar> else unat xx)"
  proof (cases "sint xx < 0")
    case True
    then have u: "sint xx = uint xx - 4294967296" "0 < uint xx" using uint_lt2p [of xx] by (auto simp: sint_cases split: if_splits)
    have "uint xx mod 4294967296 = uint xx" using uint_lt2p [of xx] by (simp add: mod_pos_pos_trivial)
    then have "(- uint xx) mod 4294967296 = 4294967296 - uint xx" using u(2) by (simp add: zmod_zminus1_eq_if)
    then have "uint (- xx) = - sint xx" using u(1) by (simp add: uint_word_ariths)
    then have "unat (- xx) = nat \<bar>sint xx\<bar>" unfolding unat_eq_nat_uint abs_of_neg [OF True] by (rule arg_cong)
    then show ?thesis using True by (cases sign) (simp_all only: simp_thms if_True if_False)
  next
    case False
    then have "sint xx = uint xx" using uint_lt2p [of xx] by (auto simp: sint_cases split: if_splits)
    then have "unat xx = nat \<bar>sint xx\<bar>" unfolding unat_eq_nat_uint by (simp only: abs_of_nonneg uint_ge_0)
    then show ?thesis using False by (cases sign) (simp_all only: simp_thms if_True if_False)
  qed
  have "printint xx base sign = Inr ((if ?neg then [45] else []) @ rev (printint_loop ?x base))"
    using len by (auto simp: printint_def Let_def)
  then show ?thesis using len f v by (intro exI [of _ "rev (printint_loop ?x base)"]) simp
qed


text \<open>A negative number and an address.\<close>

theorem printint_prints_witness: "\<exists>ds. printint (- 120) 10 True = Inr ([45] @ ds) \<and> fold (\<lambda>c n. n * 10 + digit_of c) ds 0 = 120"
  using printint_prints [of 10 "- 120" True] by (simp add: sint_cases) blast

section \<open>The keyboard\<close>

text \<open>Shift and caps lock; and the home key, which sends \<open>E0 47\<close>: the table has it at another place.\<close>

lemma kbdgetc_shift: "kbdgetc (Some 0x2A) 0 = (0, SHIFT)" "kbdgetc (Some 0x1E) SHIFT = (65, SHIFT)" "kbdgetc (Some 0xAA) SHIFT = (0, 0)"
  "kbdgetc (Some 0x1E) CAPSLOCK = (65, CAPSLOCK)" "kbdgetc (Some 0x1E) 0 = (97, 0)"
  by code_simp+

lemma kbdgetc_home: "kbdgetc (Some 0xE0) 0 = (0, E0ESC)" "kbdgetc (Some 0x47) E0ESC = (0, 0)" "normalmap 0x97 = 0xE0"
  by code_simp+

end
