(* ===== verification/Mysh.thy ===== *)
theory Mysh
  imports Prelude
begin

text \<open>
  The shell of project 3 (\<open>03_Shell/mysh.c\<close>): splitting of command lines, redirection, background
  jobs and the built-in commands. Processes and terminals belong to the operating system: what a
  command can observe of it is an argument (\<open>os\<close>), and what the shell asks of it is recorded.
\<close>

section \<open>State\<close>

definition MAX_COMMAND_LEN :: nat where "MAX_COMMAND_LEN = 520"
definition MAX_PARSE_NUM :: nat where "MAX_PARSE_NUM = 260"
definition MAX_SIM_JOBS :: nat where "MAX_SIM_JOBS = 40"
definition MAX_JID :: nat where "MAX_JID = 1000"

record job_info =
  jobid :: int
  jobpid :: int
  job_argv :: "string list"

text \<open>A child process: its arguments, the file its output goes to, and whether the shell waits for it.\<close>

record child =
  ch_pid :: int
  ch_argv :: "string list"
  ch_redirect :: "string option"
  ch_bg :: bool

datatype msg = Invalid_JID int | Terminated int | Job_line int "string list" | Error string | Prompt | Echo string

text \<open>
  \<open>sh_kids\<close> are the children that have not been waited for. \<open>sh_batch\<close>: the shell runs a batch file,
  so that \<open>batch_fd\<close> and \<open>line\<close> are not null; \<open>sh_freed\<close>: they were closed and freed.
\<close>

record shell =
  jobid_next :: int
  bg_flag :: "bool list"
  job_arr :: "job_info option list"
  sh_kids :: "int list"
  sh_spawned :: "child list"
  sh_msgs :: "msg list"
  sh_batch :: bool
  sh_freed :: bool
  sh_exited :: bool

text \<open>
  What the operating system does during one command: the process number of the next child, which
  children have already ended, and the order in which children end from now on.
\<close>

record os =
  os_pid :: int
  os_dead :: "int \<Rightarrow> bool"
  os_exits :: "int list"

definition say :: "msg \<Rightarrow> shell \<Rightarrow> shell" where
  "say m s = s\<lparr>sh_msgs := sh_msgs s @ [m]\<rparr>"

section \<open>Waiting\<close>

text \<open>\<open>waitpid(pid, NULL, WNOHANG)\<close>, \<open>waitpid(pid, NULL, 0)\<close> and the loop around \<open>wait\<close>.\<close>

definition waitpid_nohang :: "os \<Rightarrow> int \<Rightarrow> shell \<Rightarrow> int \<times> shell" where
  "waitpid_nohang o' pid s =
     (if pid \<notin> set (sh_kids s) then (- 1, s)
      else if os_dead o' pid then (pid, s\<lparr>sh_kids := remove1 pid (sh_kids s)\<rparr>)
      else (0, s))"

definition waitpid_block :: "os \<Rightarrow> int \<Rightarrow> shell \<Rightarrow> shell res" where
  "waitpid_block o' pid s =
     (if pid \<notin> set (sh_kids s) then Inr s
      else if os_dead o' pid \<or> pid \<in> set (os_exits o') then Inr (s\<lparr>sh_kids := remove1 pid (sh_kids s)\<rparr>)
      else Inl Hang)"

fun wait_child :: "int \<Rightarrow> int list \<Rightarrow> shell \<Rightarrow> shell res" where
  "wait_child child_pid [] s = Inl Hang"
| "wait_child child_pid (tpid # exits) s =
     (let s = s\<lparr>sh_kids := remove1 tpid (sh_kids s)\<rparr> in
      if tpid = child_pid then Inr s else wait_child child_pid exits s)"

section \<open>Jobs\<close>

definition bg_at :: "int \<Rightarrow> shell \<Rightarrow> bool res" where
  "bg_at j s = (if 0 \<le> j \<and> j < int MAX_JID then Inr (bg_flag s ! nat j) else Inl (Undefined ''bg_flag''))"

definition func_wait :: "os \<Rightarrow> int \<Rightarrow> shell \<Rightarrow> shell res" where
  "func_wait o' j s =
     rbind (if j \<ge> jobid_next s then Inr False else bg_at j s) (\<lambda>valid.
     if \<not> valid then Inr (say (Invalid_JID j) s)
     else
       rbind (case find (\<lambda>x. case x of None \<Rightarrow> False | Some jb \<Rightarrow> jobid jb = j) (job_arr s) of
                Some (Some jb) \<Rightarrow> waitpid_block o' (jobpid jb) s
              | _ \<Rightarrow> Inr s) (\<lambda>s.
       Inr (say (Terminated j) s)))"

text \<open>Remove the job in slot \<open>i\<close> if its process has ended.\<close>

definition job_ended :: "os \<Rightarrow> nat \<Rightarrow> shell \<Rightarrow> bool \<times> shell" where
  "job_ended o' i s =
     (case job_arr s ! i of None \<Rightarrow> (False, s)
      | Some jb \<Rightarrow>
          (case waitpid_nohang o' (jobpid jb) s of (r, s) \<Rightarrow>
             if r = jobpid jb \<or> r = - 1 then (True, s\<lparr>job_arr := (job_arr s)[i := None]\<rparr>) else (False, s)))"

text \<open>
  The printed line is put together in \<open>job_cmd\<close>, each argument with a space after it; the last space
  is then overwritten, which needs at least one argument.
\<close>

definition job_line :: "job_info \<Rightarrow> msg res" where
  "job_line jb =
     (if job_argv jb = [] \<or> sum_list (map (\<lambda>a. length a + 1) (job_argv jb)) \<ge> MAX_COMMAND_LEN
      then Inl (Undefined ''job_cmd'') else Inr (Job_line (jobid jb) (job_argv jb)))"

definition func_jobs :: "os \<Rightarrow> shell \<Rightarrow> shell res" where
  "func_jobs o' s =
     rfold (\<lambda>i s. case job_ended o' i s of (ended, s) \<Rightarrow>
       (case job_arr s ! i of None \<Rightarrow> Inr s
        | Some jb \<Rightarrow> rbind (job_line jb) (\<lambda>m. Inr (say m s)))) [0..<MAX_SIM_JOBS] s"

text \<open>The batch file is closed and the line freed once for every job.\<close>

definition exit_cleanup :: "shell \<Rightarrow> shell res" where
  "exit_cleanup s =
     rfold (\<lambda>i s. case job_arr s ! i of None \<Rightarrow> Inr s
       | Some jb \<Rightarrow>
           let s = s\<lparr>job_arr := (job_arr s)[i := None]\<rparr> in
           if sh_batch s then (if sh_freed s then Inl (Undefined ''double free'') else Inr (s\<lparr>sh_freed := True\<rparr>))
           else Inr s) [0..<MAX_SIM_JOBS] s"

definition func_exit :: "shell \<Rightarrow> shell res" where
  "func_exit s = rbind (exit_cleanup s) (\<lambda>s. Inr (s\<lparr>sh_exited := True\<rparr>))"

definition job_arr_add :: "os \<Rightarrow> string list \<Rightarrow> int \<Rightarrow> shell \<Rightarrow> shell res" where
  "job_arr_add o' argv job_pid s =
     (if jobid_next s \<ge> int MAX_JID then Inl (Undefined ''bg_flag'')
      else
        let s = s\<lparr>bg_flag := (bg_flag s)[nat (jobid_next s) := True]\<rparr>;
            s = fold (\<lambda>i s. snd (job_ended o' i s)) [0..<MAX_SIM_JOBS] s
        in (case find (\<lambda>i. job_arr s ! i = None) [0..<MAX_SIM_JOBS] of
              Some i \<Rightarrow> Inr (s\<lparr>job_arr := (job_arr s)[i := Some \<lparr>jobid = jobid_next s, jobpid = job_pid, job_argv = argv\<rparr>]\<rparr>)
            | None \<Rightarrow> Inr (say (Error ''More than 32 jobs running in the background!'') s)))"

text \<open>
  \<open>func_general_cmd\<close>: \<open>args\<close> is the filled part of \<open>arg_arr\<close>, \<open>argc\<close> may be negative. The child gets
  the arguments up to \<open>argc\<close>, and \<open>argv[argc]\<close> as the name of the output file; it stores the null
  pointer in \<open>argv[argc]\<close>, which has to lie inside \<open>arg_arr\<close>. \<open>fork\<close> succeeds.
\<close>

definition func_general_cmd :: "os \<Rightarrow> string list \<Rightarrow> int \<Rightarrow> bool \<Rightarrow> bool \<Rightarrow> shell \<Rightarrow> shell res" where
  "func_general_cmd o' args argc bg rd s =
     (if argc < 0 \<or> argc \<ge> int MAX_PARSE_NUM then Inl (Undefined ''argv[argc]'')
      else
        let argv = take (nat argc) args; pid = os_pid o';
            s = s\<lparr>sh_kids := sh_kids s @ [pid], sh_spawned := sh_spawned s @
              [\<lparr>ch_pid = pid, ch_argv = argv, ch_redirect = (if rd then Some (args ! nat argc) else None), ch_bg = bg\<rparr>]\<rparr>
        in rbind (if \<not> bg then wait_child pid (os_exits o') s else job_arr_add o' argv pid s) (\<lambda>s.
           Inr (s\<lparr>jobid_next := jobid_next s + 1\<rparr>)))"

section \<open>Built-in commands\<close>

definition isdigit :: "char \<Rightarrow> bool" where
  "isdigit c \<longleftrightarrow> 48 \<le> (of_char c :: nat) \<and> (of_char c :: nat) \<le> 57"

definition isnumber :: "string \<Rightarrow> bool" where
  "isnumber cs = list_all isdigit cs"

text \<open>\<open>atoi\<close> on digits: \<open>strtol\<close> stops at \<open>LONG_MAX\<close>, the result is converted to \<open>int\<close>.\<close>

definition atoi :: "string \<Rightarrow> int" where
  "atoi cs = cint (min (2 ^ 63 - 1) (foldl (\<lambda>v c. 10 * v + (of_char c - 48)) 0 cs))"

text \<open>The result tells whether a built-in command ran.\<close>

definition check_built_in :: "os \<Rightarrow> string list \<Rightarrow> int \<Rightarrow> shell \<Rightarrow> (bool \<times> shell) res" where
  "check_built_in o' args argc s =
     (if argc = 1 then
        if args ! 0 = ''exit'' then rbind (func_exit s) (\<lambda>s. Inr (True, s))
        else if args ! 0 = ''jobs'' then rbind (func_jobs o' s) (\<lambda>s. Inr (True, s))
        else Inr (False, s)
      else if argc = 2 \<and> args ! 0 = ''wait'' then
        if \<not> isnumber (args ! 1) then Inr (True, say (Invalid_JID (- 1)) s)
        else rbind (func_wait o' (atoi (args ! 1)) s) (\<lambda>s. Inr (True, s))
      else Inr (False, s))"

section \<open>Command lines\<close>

text \<open>The pieces that \<open>strtok_r\<close> returns with the delimiter \<open>' '\<close>.\<close>

fun pieces :: "char \<Rightarrow> string \<Rightarrow> string list" where
  "pieces d [] = [[]]"
| "pieces d (c # cs) = (if c = d then [] # pieces d cs else (c # hd (pieces d cs)) # tl (pieces d cs))"

definition tokens :: "string \<Rightarrow> string list" where
  "tokens cs = filter (\<lambda>t. t \<noteq> []) (pieces CHR '' '' cs)"

definition push_arg :: "string \<Rightarrow> string list \<Rightarrow> string list res" where
  "push_arg a args = (if length args < MAX_PARSE_NUM then Inr (args @ [a]) else Inl (Undefined ''arg_arr''))"

text \<open>The loop over the tokens: an error message, or the arguments and whether there was a \<open>>\<close>.\<close>

fun parse_loop :: "string list \<Rightarrow> string list \<Rightarrow> bool \<Rightarrow> nat \<Rightarrow> (string + string list \<times> bool) res" where
  "parse_loop [] args rd after = Inr (Inr (args, rd))"
| "parse_loop (token # ts) args rd after =
     (if CHR ''>'' \<in> set token then
        let left = takeWhile (\<lambda>c. c \<noteq> CHR ''>'') token; right = tl (dropWhile (\<lambda>c. c \<noteq> CHR ''>'') token) in
        if rd \<or> CHR ''>'' \<in> set right then Inr (Inl ''Error: Multiple redirection characters!'')
        else
          rbind (if left \<noteq> [] then push_arg left args else Inr args) (\<lambda>args.
          rbind (if right \<noteq> [] then push_arg right args else Inr args) (\<lambda>args.
          parse_loop ts args True (if right \<noteq> [] then after + 1 else after)))
      else if rd \<and> after + 1 > 1 then Inr (Inl ''Error: Multiple arguments after redirection character!'')
      else rbind (push_arg token args) (\<lambda>args. parse_loop ts args rd (if rd then after + 1 else after)))"

definition newline :: char where "newline = CHR 0x0A"

text \<open>The removal of the newline from the last argument.\<close>

definition strip_newline :: "string list \<Rightarrow> string list res" where
  "strip_newline args =
     (if args = [] then Inl (Undefined ''arg_arr[-1]'')
      else
        let t = last args in
        if length t > 1 \<and> last t = newline then Inr (butlast args @ [butlast t])
        else if t \<noteq> [] \<and> hd t = newline then Inr (butlast args)
        else Inr args)"

text \<open>What \<open>parse_command\<close> found: an error, an empty line, or arguments, \<open>argc\<close> and the two flags.\<close>

datatype parsed = Parse_error string | Blank | Command "string list" int bool bool

definition parse_line :: "string \<Rightarrow> parsed res" where
  "parse_line command =
     rbind (parse_loop (tokens command) [] False 0) (\<lambda>r.
     case r of Inl e \<Rightarrow> Inr (Parse_error e)
     | Inr (args, rd) \<Rightarrow>
         rbind (strip_newline args) (\<lambda>args.
         if args = [] then Inr Blank
         else
           let bg = (last args = ''&'') in
           Inr (Command args (int (length args) - of_bool bg - of_bool rd) bg rd)))"

definition parse_command :: "os \<Rightarrow> string \<Rightarrow> shell \<Rightarrow> shell res" where
  "parse_command o' command s =
     rbind (parse_line command) (\<lambda>p.
     case p of Parse_error e \<Rightarrow> Inr (say (Error e) s)
     | Blank \<Rightarrow> Inr s
     | Command args argc bg rd \<Rightarrow>
         rbind (check_built_in o' args argc s) (\<lambda>(done, s).
         if done then Inr s else func_general_cmd o' args argc bg rd s))"

section \<open>The main loops\<close>

definition shell_start :: "bool \<Rightarrow> shell" where
  "shell_start batch = \<lparr>jobid_next = 0, bg_flag = replicate MAX_JID False, job_arr = replicate MAX_SIM_JOBS None,
     sh_kids = [], sh_spawned = [], sh_msgs = [], sh_batch = batch, sh_freed = False, sh_exited = False\<rparr>"

text \<open>
  \<open>fgets\<close> reads up to a newline or \<open>MAX_COMMAND_LEN - 1\<close> characters: the characters, whether the end
  of the input was hit, and the rest.
\<close>

definition fgets :: "string \<Rightarrow> string \<times> bool \<times> string" where
  "fgets inp =
     (let n = length (takeWhile (\<lambda>c. c \<noteq> newline) inp);
          k = min (n + 1) (MAX_COMMAND_LEN - 1)
      in (take k inp, length inp < k, drop k inp))"

text \<open>The interactive loop; \<open>env k\<close> is what the operating system does during command \<open>k\<close>.\<close>

function interactive :: "(nat \<Rightarrow> os) \<Rightarrow> nat \<Rightarrow> bool \<Rightarrow> string \<Rightarrow> shell \<Rightarrow> shell res" where
  "interactive env k long_line inp s =
     (let s = (if \<not> long_line then say Prompt s else s) in
      case fgets inp of (command, eof, rest) \<Rightarrow>
        if eof then exit_cleanup (say (Echo [newline]) s)
        else if last command \<noteq> newline then
          interactive env k True rest (if \<not> long_line then say (Error ''Error: Line longer than 512!'') s else s)
        else
          rbind (parse_command (env k) command s) (\<lambda>s.
          if sh_exited s then Inr s else interactive env (k + 1) False rest s))"
  by pat_completeness auto
termination
  by (relation "measure (\<lambda>(env, k, l, inp, s). length inp)") (auto simp: fgets_def MAX_COMMAND_LEN_def)

declare interactive.simps [simp del]

text \<open>The lines \<open>getline\<close> returns from the batch file.\<close>

definition run_batch_line :: "os \<Rightarrow> string \<Rightarrow> shell \<Rightarrow> shell res" where
  "run_batch_line o' line s =
     (let s = say (Echo line) s in
      if length line > 512 then Inr (say (Error ''Error: Line longer than 512!'') s)
      else
        parse_command o' line (if last line \<noteq> newline then say (Echo [newline]) s else s))"

fun batch :: "(nat \<Rightarrow> os) \<Rightarrow> nat \<Rightarrow> string list \<Rightarrow> shell \<Rightarrow> shell res" where
  "batch env k [] s = exit_cleanup s"
| "batch env k (line # lines) s =
     rbind (run_batch_line (env k) line s) (\<lambda>s. if sh_exited s then Inr s else batch env (k + 1) lines s)"

text \<open>
  \<open>main\<close>: the number of arguments, the input, and the lines of the batch file (\<open>None\<close> if it cannot
  be opened); the result is the final state, \<open>None\<close> for a usage error.
\<close>

definition mysh_main :: "(nat \<Rightarrow> os) \<Rightarrow> nat \<Rightarrow> string \<Rightarrow> string list option \<Rightarrow> shell option res" where
  "mysh_main env argc input batch_file =
     (if argc > 2 then Inr None
      else if argc = 1 then rbind (interactive env 0 False input (shell_start False)) (\<lambda>s. Inr (Some s))
      else case batch_file of None \<Rightarrow> Inr None
           | Some lines \<Rightarrow> rbind (batch env 0 lines (shell_start True)) (\<lambda>s. Inr (Some s)))"

end
