(* ===== verification/MyshProps.thy ===== *)
theory MyshProps
  imports Mysh
begin

text \<open>
  The shell: command lines are read back as they were written, the argument array is long enough, and
  the job table agrees with the history of children that the shell started.
\<close>

section \<open>Tokens\<close>

fun spaced :: "string list \<Rightarrow> string" where
  "spaced [] = []"
| "spaced [w] = w"
| "spaced (w # ws) = w @ '' '' @ spaced ws"

lemma pieces_nonempty: "pieces d cs \<noteq> []"
  by (cases cs) auto

lemma pieces_append: "d \<notin> set w \<Longrightarrow> pieces d (w @ cs) = (w @ hd (pieces d cs)) # tl (pieces d cs)"
  by (induction w) (auto simp: pieces_nonempty)

lemma pieces_delim: "d \<notin> set w \<Longrightarrow> pieces d (w @ d # cs) = w # pieces d cs"
  by (simp add: pieces_append)

lemma tokens_spaced: "\<forall>w \<in> set ws. w \<noteq> [] \<and> CHR '' '' \<notin> set w \<Longrightarrow> tokens (spaced ws) = ws"
proof (induction ws rule: spaced.induct)
  case (2 w)
  then show ?case using pieces_append [of "CHR '' ''" w "[]"] by (simp add: tokens_def)
next
  case (3 w v vs)
  then show ?case using pieces_delim [of "CHR '' ''" w "spaced (v # vs)"] by (simp add: tokens_def)
qed (simp add: tokens_def)

lemma pieces_snoc: "c \<noteq> d \<Longrightarrow> pieces d (cs @ [c]) = butlast (pieces d cs) @ [last (pieces d cs) @ [c]]"
proof (induction cs)
  case (Cons a cs)
  obtain h hs where h: "pieces d cs = h # hs" using pieces_nonempty [of d cs] by (cases "pieces d cs") auto
  have "pieces d (cs @ [c]) = butlast (h # hs) @ [last (h # hs) @ [c]]" using Cons h by simp
  then show ?case using h by (cases hs rule: rev_cases) auto
qed simp

lemma tokens_snoc: "c \<noteq> CHR '' '' \<Longrightarrow> tokens (cs @ [c]) \<noteq> [] \<and> last (last (tokens (cs @ [c]))) = c"
  by (simp add: tokens_def pieces_snoc)

lemma pieces_size: "sum_list (map (\<lambda>t. length t + 1) (pieces d cs)) = length cs + 1"
proof (induction cs)
  case (Cons c cs)
  have "pieces d cs = hd (pieces d cs) # tl (pieces d cs)" by (simp add: pieces_nonempty)
  then have "sum_list (map (\<lambda>t. length t + 1) (pieces d cs)) =
      length (hd (pieces d cs)) + 1 + sum_list (map (\<lambda>t. length t + 1) (tl (pieces d cs)))"
    by (metis list.simps(9) sum_list.Cons)
  with Cons show ?case by simp
qed simp

lemma tokens_size: "sum_list (map (\<lambda>t. length t + 1) (tokens cs)) \<le> length cs + 1"
proof -
  have "sum_list (map f (filter P xs)) \<le> sum_list (map f xs)" for f :: "string \<Rightarrow> nat" and P xs
    by (induction xs) auto
  then show ?thesis unfolding tokens_def using pieces_size [of "CHR '' ''" cs] by metis
qed

section \<open>Parsing\<close>

lemma parse_loop_plain:
  "\<forall>t \<in> set ts. CHR ''>'' \<notin> set t \<Longrightarrow> length args + length ts \<le> MAX_PARSE_NUM \<Longrightarrow>
    parse_loop ts args False 0 = Inr (Inr (args @ ts, False))"
  by (induction ts arbitrary: args) (auto simp: push_arg_def)

lemma parse_loop_redirect:
  assumes "\<forall>t \<in> set ts. CHR ''>'' \<notin> set t" "CHR ''>'' \<notin> set f" "length args + length ts < MAX_PARSE_NUM"
  shows "parse_loop (ts @ [''>'', f]) args False 0 = Inr (Inr (args @ ts @ [f], True))"
  using assms
proof (induction ts arbitrary: args)
  case (Cons t ts)
  then show ?case by (simp add: push_arg_def)
qed (simp add: push_arg_def)

text \<open>No line that the shell can read in overruns the array of arguments.\<close>

lemma parse_loop_total:
  assumes "2 * length args + sum_list (map (\<lambda>t. length t + 1) ts) \<le> 2 * MAX_PARSE_NUM" "\<forall>t \<in> set ts. t \<noteq> []"
  shows "\<exists>r. parse_loop ts args rd after = Inr r"
  using assms
proof (induction ts arbitrary: args rd after)
  case (Cons t ts)
  have t: "0 < length t" using Cons.prems(2) by auto
  show ?case
  proof (cases "CHR ''>'' \<in> set t")
    case True
    then obtain l r where lr: "t = l @ CHR ''>'' # r" "CHR ''>'' \<notin> set l" by (meson split_list_first)
    then have tw: "takeWhile (\<lambda>c. c \<noteq> CHR ''>'') t = l" "tl (dropWhile (\<lambda>c. c \<noteq> CHR ''>'') t) = r"
      by (simp_all add: takeWhile_append dropWhile_append)
    define a where "a = args @ (if l \<noteq> [] then [l] else [])"
    define b where "b = a @ (if r \<noteq> [] then [r] else [])"
    have len: "length t = length l + 1 + length r" using lr by simp
    define S where "S = sum_list (map (\<lambda>t. length t + 1) ts)"
    have pr: "2 * length args + (length t + 1) + S \<le> 2 * MAX_PARSE_NUM" using Cons.prems(1) by (simp add: S_def)
    have la: "length a = length args + (if 0 < length l then 1 else 0)" by (simp add: a_def)
    have lb: "length b = length a + (if 0 < length r then 1 else 0)" by (simp add: b_def)
    have l: "(if l \<noteq> [] then push_arg l args else Inr args) = Inr a"
      using Cons.prems(1) t by (simp add: push_arg_def a_def)
    have r: "(if r \<noteq> [] then push_arg r a else Inr a) = Inr b"
    proof (cases "0 < length r")
      case True
      then have "length a < MAX_PARSE_NUM" using pr la len by (cases "0 < length l"; simp only: if_True if_False; linarith)
      with True show ?thesis by (simp add: push_arg_def b_def)
    qed (simp add: b_def)
    have "2 * length b + S \<le> 2 * MAX_PARSE_NUM"
    proof -
      have "length a \<le> length args + 1" "0 < length l \<or> length a = length args" using la by auto
      moreover have "length b \<le> length a + 1" "0 < length r \<or> length b = length a" using lb by auto
      ultimately show ?thesis using pr len by linarith
    qed
    then have "2 * length b + sum_list (map (\<lambda>t. length t + 1) ts) \<le> 2 * MAX_PARSE_NUM" by (simp add: S_def)
    then have "\<exists>x. parse_loop ts b True (if r \<noteq> [] then after + 1 else after) = Inr x"
      using Cons.IH Cons.prems(2) by simp
    then show ?thesis unfolding parse_loop.simps Let_def tw l rbind_Inr r using True by auto
  next
    case False
    have "length args < MAX_PARSE_NUM" using Cons.prems(1) t by simp
    then have p: "push_arg t args = Inr (args @ [t])" by (simp add: push_arg_def)
    have "\<exists>x. parse_loop ts (args @ [t]) rd (if rd then after + 1 else after) = Inr x"
      by (rule Cons.IH) (use Cons.prems t in \<open>auto simp del: length_greater_0_conv\<close>)
    with p False show ?thesis by auto
  qed
qed simp

text \<open>The arguments take no more room than the tokens, and the last one ends as the last token does.\<close>

abbreviation room_of :: "string list \<Rightarrow> nat" where
  "room_of ts \<equiv> sum_list (map (\<lambda>t. length t + 1) ts)"

lemma parse_loop_args:
  "parse_loop ts args rd after = Inr (Inr (args', rd')) \<Longrightarrow> \<forall>t \<in> set ts. t \<noteq> [] \<Longrightarrow>
    room_of args' \<le> room_of args + room_of ts \<and>
    (ts \<noteq> [] \<longrightarrow> last (last ts) \<noteq> CHR ''>'' \<longrightarrow> args' \<noteq> [] \<and> last (last args') = last (last ts)) \<and>
    ((\<forall>a \<in> set args. a \<noteq> []) \<longrightarrow> (\<forall>a \<in> set args'. a \<noteq> [])) \<and> (ts = [] \<longrightarrow> args' = args)"
proof (induction ts arbitrary: args rd after)
  case (Cons t ts)
  show ?case
  proof (cases "CHR ''>'' \<in> set t")
    case True
    then obtain l r where lr: "t = l @ CHR ''>'' # r" "CHR ''>'' \<notin> set l" by (meson split_list_first)
    then have tw: "takeWhile (\<lambda>c. c \<noteq> CHR ''>'') t = l" "tl (dropWhile (\<lambda>c. c \<noteq> CHR ''>'') t) = r"
      by (simp_all add: takeWhile_append dropWhile_append)
    define b where "b = args @ (if l \<noteq> [] then [l] else []) @ (if r \<noteq> [] then [r] else [])"
    obtain aft where "parse_loop ts b True aft = Inr (Inr (args', rd'))"
      using Cons.prems(1) True unfolding parse_loop.simps Let_def tw
      by (auto simp: push_arg_def rbind_eq_Inr b_def split: if_splits)
    moreover have "\<forall>t \<in> set ts. t \<noteq> []" using Cons.prems(2) by simp
    ultimately have ih: "room_of args' \<le> room_of b + room_of ts"
      "ts \<noteq> [] \<Longrightarrow> last (last ts) \<noteq> CHR ''>'' \<Longrightarrow> args' \<noteq> [] \<and> last (last args') = last (last ts)"
      "\<forall>a \<in> set b. a \<noteq> [] \<Longrightarrow> \<forall>a \<in> set args'. a \<noteq> []" "ts = [] \<Longrightarrow> args' = b"
      using Cons.IH [of b True aft] by blast+
    have room: "room_of b \<le> room_of args + (length t + 1)" using lr(1) by (simp add: b_def)
    have ne: "(\<forall>a \<in> set args. a \<noteq> []) \<Longrightarrow> (\<forall>a \<in> set b. a \<noteq> [])" by (auto simp: b_def)
    have lst: "last t \<noteq> CHR ''>'' \<Longrightarrow> b \<noteq> [] \<and> last (last b) = last t" using lr(1) by (auto simp: b_def split: if_splits)
    have "room_of args' \<le> room_of args + room_of (t # ts)" using ih(1) room by simp
    moreover have "args' \<noteq> [] \<and> last (last args') = last (last (t # ts))" if "last (last (t # ts)) \<noteq> CHR ''>''"
      using that ih(2,4) lst by (cases "ts = []") simp_all
    moreover have "\<forall>a \<in> set args. a \<noteq> [] \<Longrightarrow> \<forall>a \<in> set args'. a \<noteq> []" using ih(3) ne by blast
    ultimately show ?thesis by blast
  next
    case False
    then obtain aft where "parse_loop ts (args @ [t]) rd aft = Inr (Inr (args', rd'))"
      using Cons.prems(1) by (auto simp: push_arg_def rbind_eq_Inr split: if_splits)
    from Cons.IH [OF this] Cons.prems(2) show ?thesis by (cases "ts = []") auto
  qed
qed simp

lemma room_of_last: "ws \<noteq> [] \<Longrightarrow> \<forall>w \<in> set ws. w \<noteq> [] \<Longrightarrow> 2 * length ws + length (last ws) \<le> room_of ws + 1"
proof (induction ws)
  case (Cons w ws)
  have "0 < length w" using Cons.prems(2) by simp
  with Cons show ?case by (cases "ws = []") (auto simp del: length_greater_0_conv)
qed simp

lemma tokens_nonempty: "\<forall>t \<in> set (tokens cs). t \<noteq> []"
  by (simp add: tokens_def)

text \<open>A batch file may end in a line without a newline; if it has only spaces, \<open>arg_arr[-1]\<close> is read.\<close>

lemma blank_last_line: "parse_line '' '' = Inl (Undefined ''arg_arr[-1]'')"
  by (simp add: parse_line_def tokens_def strip_newline_def)

section \<open>Properties of parsing\<close>

text \<open>A command line as a user writes it: words, and either an output file or the background sign.\<close>

definition word :: "string \<Rightarrow> bool" where
  "word w \<longleftrightarrow> w \<noteq> [] \<and> CHR '' '' \<notin> set w \<and> CHR ''>'' \<notin> set w \<and> newline \<notin> set w \<and> w \<noteq> ''&''"

definition command_line :: "string list \<Rightarrow> string option \<Rightarrow> bool \<Rightarrow> string" where
  "command_line ws redirect bg =
     spaced (ws @ (case redirect of None \<Rightarrow> [] | Some f \<Rightarrow> [''>'', f]) @ (if bg then [''&''] else [])) @ [newline]"

lemma spaced_snoc: "ws \<noteq> [] \<Longrightarrow> spaced ws @ cs = spaced (butlast ws @ [last ws @ cs])"
proof (induction ws rule: spaced.induct)
  case (3 w v vs)
  obtain x xs where "butlast (v # vs) @ [last (v # vs) @ cs] = x # xs"
    by (cases "butlast (v # vs) @ [last (v # vs) @ cs]") auto
  with 3 show ?case by (auto split: if_splits)
qed simp_all

lemma newline_chars: "newline \<noteq> CHR '' ''" "newline \<noteq> CHR ''>''"
  by (simp_all add: newline_def)

lemma tokens_line:
  assumes "ws \<noteq> []" "\<forall>w \<in> set ws. w \<noteq> [] \<and> CHR '' '' \<notin> set w"
  shows "tokens (spaced ws @ [newline]) = butlast ws @ [last ws @ [newline]]"
  unfolding spaced_snoc [OF assms(1)]
  by (rule tokens_spaced) (use assms newline_chars(1) in \<open>auto dest: in_set_butlastD\<close>)

lemma strip_line: "ws \<noteq> [] \<Longrightarrow> last ws \<noteq> [] \<Longrightarrow> strip_newline (butlast ws @ [last ws @ [newline]]) = Inr ws"
  by (auto simp: strip_newline_def)

lemma parse_plain_line:
  assumes "ws \<noteq> []" "\<forall>w \<in> set ws. w \<noteq> [] \<and> CHR '' '' \<notin> set w \<and> CHR ''>'' \<notin> set w" "length ws \<le> MAX_PARSE_NUM"
  shows "parse_line (spaced ws @ [newline]) =
    Inr (Command ws (int (length ws) - of_bool (last ws = ''&'')) (last ws = ''&'') False)"
proof -
  let ?ts = "butlast ws @ [last ws @ [newline]]"
  have "\<forall>t \<in> set ?ts. CHR ''>'' \<notin> set t" using assms newline_chars(2) by (auto dest: in_set_butlastD)
  moreover have "length ([] :: string list) + length ?ts \<le> MAX_PARSE_NUM" using assms by simp
  ultimately have "parse_loop ?ts [] False 0 = Inr (Inr ([] @ ?ts, False))" by (rule parse_loop_plain)
  moreover have "last ws \<noteq> []" using assms last_in_set by blast
  ultimately show ?thesis
    using tokens_line [of ws] strip_line [of ws] assms(1,2) by (simp add: parse_line_def)
qed

lemma parse_redirect_line:
  assumes "\<forall>w \<in> set ws. w \<noteq> [] \<and> CHR '' '' \<notin> set w \<and> CHR ''>'' \<notin> set w" "length ws < MAX_PARSE_NUM"
    and f: "f \<noteq> []" "CHR '' '' \<notin> set f" "CHR ''>'' \<notin> set f" "f \<noteq> ''&''"
  shows "parse_line (spaced (ws @ [''>'', f]) @ [newline]) = Inr (Command (ws @ [f]) (int (length ws)) False True)"
proof -
  have t: "tokens (spaced (ws @ [''>'', f]) @ [newline]) = ws @ [''>'', f @ [newline]]"
    using tokens_line [of "ws @ [''>'', f]"] assms(1) f by (auto simp: butlast_append)
  have "parse_loop (ws @ [''>'', f @ [newline]]) [] False 0 = Inr (Inr ([] @ ws @ [f @ [newline]], True))"
    by (rule parse_loop_redirect) (use assms newline_chars(2) in auto)
  moreover have "strip_newline (ws @ [f @ [newline]]) = Inr (ws @ [f])"
    using strip_line [of "ws @ [f]"] f(1) by simp
  ultimately show ?thesis using t f(4) by (simp add: parse_line_def)
qed

section \<open>Waiting for children\<close>

text \<open>Children were waited for, and jobs whose process has gone were dropped.\<close>

definition reaps :: "shell \<Rightarrow> shell \<Rightarrow> bool" where
  "reaps s t \<longleftrightarrow> (\<exists>ja ks. t = s\<lparr>job_arr := ja, sh_kids := ks\<rparr> \<and> length ja = length (job_arr s) \<and>
     set ks \<subseteq> set (sh_kids s) \<and> (distinct (sh_kids s) \<longrightarrow> distinct ks) \<and>
     (\<forall>i < length ja. ja ! i = job_arr s ! i \<or>
        ja ! i = None \<and> (\<exists>jb. job_arr s ! i = Some jb \<and> (distinct (sh_kids s) \<longrightarrow> jobpid jb \<noteq> 0 \<longrightarrow> jobpid jb \<notin> set ks))))"

lemma reaps_fields:
  "reaps s t \<Longrightarrow> jobid_next t = jobid_next s \<and> bg_flag t = bg_flag s \<and> sh_spawned t = sh_spawned s \<and> sh_msgs t = sh_msgs s \<and>
     sh_exited t = sh_exited s \<and> length (job_arr t) = length (job_arr s) \<and> set (sh_kids t) \<subseteq> set (sh_kids s) \<and>
     (distinct (sh_kids s) \<longrightarrow> distinct (sh_kids t)) \<and>
     (\<forall>i < length (job_arr t). job_arr t ! i = job_arr s ! i \<or>
        job_arr t ! i = None \<and> (\<exists>jb. job_arr s ! i = Some jb \<and> (distinct (sh_kids s) \<longrightarrow> jobpid jb \<noteq> 0 \<longrightarrow> jobpid jb \<notin> set (sh_kids t))))"
  by (auto simp: reaps_def)

lemma reaps_refl: "reaps s s"
  unfolding reaps_def by (rule exI [of _ "job_arr s"], rule exI [of _ "sh_kids s"]) simp

lemma reaps_trans: "reaps s t \<Longrightarrow> reaps t u \<Longrightarrow> reaps s u"
proof -
  assume a: "reaps s t" and b: "reaps t u"
  note ra = a [THEN reaps_fields] and rb = b [THEN reaps_fields]
  obtain ja ks where t: "t = s\<lparr>job_arr := ja, sh_kids := ks\<rparr>" using a by (auto simp: reaps_def)
  obtain ja' ks' where u: "u = t\<lparr>job_arr := ja', sh_kids := ks'\<rparr>" using b by (auto simp: reaps_def)
  have slot: "ja' ! i = job_arr s ! i \<or> ja' ! i = None \<and>
      (\<exists>jb. job_arr s ! i = Some jb \<and> (distinct (sh_kids s) \<longrightarrow> jobpid jb \<noteq> 0 \<longrightarrow> jobpid jb \<notin> set ks'))"
    if i: "i < length ja'" for i
  proof (cases "ja' ! i = ja ! i")
    case True
    have sub: "set ks' \<subseteq> set ks" and il: "i < length ja" using rb i unfolding t u by auto
    have "ja ! i = job_arr s ! i \<or> ja ! i = None \<and>
        (\<exists>jb. job_arr s ! i = Some jb \<and> (distinct (sh_kids s) \<longrightarrow> jobpid jb \<noteq> 0 \<longrightarrow> jobpid jb \<notin> set ks))"
      using ra il unfolding t by simp
    with True sub show ?thesis by auto
  next
    case False
    then have n: "ja' ! i = None" and j: "\<exists>jb. ja ! i = Some jb \<and> (distinct ks \<longrightarrow> jobpid jb \<noteq> 0 \<longrightarrow> jobpid jb \<notin> set ks')"
      using rb i unfolding t u by auto
    have "ja ! i = job_arr s ! i" using ra rb i j unfolding t u by auto
    with n j show ?thesis using ra unfolding t by auto
  qed
  have "u = s\<lparr>job_arr := ja', sh_kids := ks'\<rparr>" by (simp add: t u)
  moreover have "length ja' = length (job_arr s)" "set ks' \<subseteq> set (sh_kids s)" "distinct (sh_kids s) \<longrightarrow> distinct ks'"
    using ra rb unfolding t u by auto
  ultimately show ?thesis unfolding reaps_def using slot by blast
qed

lemma reaps_kids: "reaps s (s\<lparr>sh_kids := remove1 p (sh_kids s)\<rparr>)"
  unfolding reaps_def
  by (rule exI [of _ "job_arr s"], rule exI [of _ "remove1 p (sh_kids s)"]) (simp add: set_remove1_subset)

lemma reaps_job_ended: "i < length (job_arr s) \<Longrightarrow> reaps s (snd (job_ended o' i s))"
proof (cases "job_arr s ! i")
  case None
  then show ?thesis by (simp add: job_ended_def reaps_refl)
next
  case (Some jb)
  assume i: "i < length (job_arr s)"
  obtain r t where w: "waitpid_nohang o' (jobpid jb) s = (r, t)" by fastforce
  then have t: "t = s \<or> t = s\<lparr>sh_kids := remove1 (jobpid jb) (sh_kids s)\<rparr>"
    "r = jobpid jb \<or> r = - 1 \<Longrightarrow> distinct (sh_kids s) \<Longrightarrow> jobpid jb \<noteq> 0 \<Longrightarrow> jobpid jb \<notin> set (sh_kids t)"
    by (auto simp: waitpid_nohang_def split: if_splits)
  show ?thesis
  proof (cases "r = jobpid jb \<or> r = - 1")
    case True
    have "reaps s (t\<lparr>job_arr := (job_arr t)[i := None]\<rparr>)"
      unfolding reaps_def using t(1) t(2) [OF True] i Some
      by (intro exI [of _ "(job_arr s)[i := None]"] exI [of _ "sh_kids t"])
        (auto simp: nth_list_update dest: set_remove1_subset [THEN subsetD])
    then show ?thesis using Some w True by (simp add: job_ended_def)
  next
    case False
    then show ?thesis using Some w t(1) reaps_refl reaps_kids by (auto simp: job_ended_def)
  qed
qed

lemma reaps_wait_child: "wait_child c exits s = Inr t \<Longrightarrow> reaps s t \<and> job_arr t = job_arr s \<and> (distinct (sh_kids s) \<longrightarrow> c \<notin> set (sh_kids t))"
proof (induction exits arbitrary: s)
  case (Cons p exits)
  let ?s = "s\<lparr>sh_kids := remove1 p (sh_kids s)\<rparr>"
  show ?case
  proof (cases "p = c")
    case True
    then show ?thesis using Cons.prems reaps_kids by auto
  next
    case False
    then have "wait_child c exits ?s = Inr t" using Cons.prems by simp
    from Cons.IH [OF this] show ?thesis using reaps_trans [OF reaps_kids [of s p]] by (auto simp: distinct_remove1)
  qed
qed simp

lemma wait_child_ends: "c \<in> set exits \<Longrightarrow> \<exists>t. wait_child c exits s = Inr t"
  by (induction exits arbitrary: s) auto

lemma reaps_fold_job_ended:
  "set is \<subseteq> {..<length (job_arr s)} \<Longrightarrow> reaps s (fold (\<lambda>i s. snd (job_ended o' i s)) is s)"
proof (induction "is" arbitrary: s)
  case (Cons i "is")
  have r: "reaps s (snd (job_ended o' i s))" by (rule reaps_job_ended) (use Cons.prems in simp)
  have "length (job_arr (snd (job_ended o' i s))) = length (job_arr s)" using reaps_fields [OF r] by simp
  then show ?case using Cons.IH [of "snd (job_ended o' i s)"] Cons.prems reaps_trans [OF r] by simp
qed (simp add: reaps_refl)

definition overflow :: msg where
  "overflow = Error ''More than 32 jobs running in the background!''"

lemma job_arr_add_ok:
  assumes "jobid_next s < int MAX_JID" "length (job_arr s) = MAX_SIM_JOBS"
  shows "\<exists>t u. job_arr_add o' argv p s = Inr t \<and> reaps (s\<lparr>bg_flag := (bg_flag s)[nat (jobid_next s) := True]\<rparr>) u \<and>
    ((\<exists>i < MAX_SIM_JOBS. job_arr u ! i = None \<and>
        t = u\<lparr>job_arr := (job_arr u)[i := Some \<lparr>jobid = jobid_next u, jobpid = p, job_argv = argv\<rparr>]\<rparr>) \<or>
     t = say overflow u)"
proof -
  let ?s = "s\<lparr>bg_flag := (bg_flag s)[nat (jobid_next s) := True]\<rparr>"
  let ?u = "fold (\<lambda>i s. snd (job_ended o' i s)) [0..<MAX_SIM_JOBS] ?s"
  have r: "reaps ?s ?u" by (rule reaps_fold_job_ended) (use assms(2) in auto)
  show ?thesis
  proof (cases "find (\<lambda>i. job_arr ?u ! i = None) [0..<MAX_SIM_JOBS]")
    case None
    then have "job_arr_add o' argv p s = Inr (say overflow ?u)"
      using assms(1) by (simp add: job_arr_add_def overflow_def)
    with r show ?thesis by blast
  next
    case (Some i)
    then have "i < MAX_SIM_JOBS" "job_arr ?u ! i = None" by (auto simp: find_Some_iff)
    moreover have "job_arr_add o' argv p s =
        Inr (?u\<lparr>job_arr := (job_arr ?u)[i := Some \<lparr>jobid = jobid_next ?u, jobpid = p, job_argv = argv\<rparr>]\<rparr>)"
      using assms(1) Some by (simp add: job_arr_add_def)
    ultimately show ?thesis using r by blast
  qed
qed

section \<open>The job table and the history\<close>

text \<open>
  The table against the first \<open>n\<close> children: every job is a background child; and as long as the table
  never overflowed, every background child that still runs has its job.
\<close>

definition table_ok :: "nat \<Rightarrow> shell \<Rightarrow> bool" where
  "table_ok n s \<longleftrightarrow> length (job_arr s) = MAX_SIM_JOBS \<and> distinct (sh_kids s) \<and> distinct (map ch_pid (sh_spawned s)) \<and>
     (\<forall>c \<in> set (sh_spawned s). ch_pid c \<noteq> 0) \<and> set (sh_kids s) \<subseteq> ch_pid ` set (sh_spawned s) \<and>
     (\<forall>i < MAX_SIM_JOBS. \<forall>jb. job_arr s ! i = Some jb \<longrightarrow> 0 \<le> jobid jb \<and> jobid jb < int n \<and>
        ch_bg (sh_spawned s ! nat (jobid jb)) \<and> jobpid jb = ch_pid (sh_spawned s ! nat (jobid jb)) \<and>
        job_argv jb = ch_argv (sh_spawned s ! nat (jobid jb))) \<and>
     (overflow \<notin> set (sh_msgs s) \<longrightarrow> \<not> sh_exited s \<longrightarrow> (\<forall>j < n. ch_bg (sh_spawned s ! j) \<longrightarrow> ch_pid (sh_spawned s ! j) \<in> set (sh_kids s) \<longrightarrow>
        (\<exists>i < MAX_SIM_JOBS. \<exists>jb. job_arr s ! i = Some jb \<and> jobid jb = int j)))"

definition shell_inv :: "shell \<Rightarrow> bool" where
  "shell_inv s \<longleftrightarrow> jobid_next s = int (length (sh_spawned s)) \<and> table_ok (length (sh_spawned s)) s \<and>
     length (bg_flag s) = MAX_JID \<and>
     (\<forall>j < MAX_JID. bg_flag s ! j \<longleftrightarrow> j < length (sh_spawned s) \<and> ch_bg (sh_spawned s ! j))"

lemma table_ok_drop:
  assumes "table_ok n s" "sh_spawned t = sh_spawned s" "length (job_arr t) = MAX_SIM_JOBS" "distinct (sh_kids t)"
    "set (sh_kids t) \<subseteq> set (sh_kids s)"
    and job: "\<And>i jb. i < MAX_SIM_JOBS \<Longrightarrow> job_arr t ! i = Some jb \<Longrightarrow> job_arr s ! i = Some jb"
    and keep: "\<And>j. overflow \<notin> set (sh_msgs t) \<Longrightarrow> \<not> sh_exited t \<Longrightarrow> j < n \<Longrightarrow> ch_bg (sh_spawned t ! j) \<Longrightarrow>
      ch_pid (sh_spawned t ! j) \<in> set (sh_kids t) \<Longrightarrow> \<exists>i < MAX_SIM_JOBS. \<exists>jb. job_arr t ! i = Some jb \<and> jobid jb = int j"
  shows "table_ok n t"
proof -
  note s = assms(1) [unfolded table_ok_def]
  show ?thesis unfolding table_ok_def
  proof (intro conjI allI impI)
    fix i jb
    assume i: "i < MAX_SIM_JOBS" "job_arr t ! i = Some jb"
    have "0 \<le> jobid jb \<and> jobid jb < int n \<and> ch_bg (sh_spawned s ! nat (jobid jb)) \<and>
        jobpid jb = ch_pid (sh_spawned s ! nat (jobid jb)) \<and> job_argv jb = ch_argv (sh_spawned s ! nat (jobid jb))"
      using s job [OF i] i(1) by blast
    then show "0 \<le> jobid jb" "jobid jb < int n" "ch_bg (sh_spawned t ! nat (jobid jb))"
      "jobpid jb = ch_pid (sh_spawned t ! nat (jobid jb))" "job_argv jb = ch_argv (sh_spawned t ! nat (jobid jb))"
      using assms(2) by simp_all
  next
    show "length (job_arr t) = MAX_SIM_JOBS" "distinct (sh_kids t)" "distinct (map ch_pid (sh_spawned t))"
      "\<forall>c \<in> set (sh_spawned t). ch_pid c \<noteq> 0" using s assms(2-4) by simp_all
    show "set (sh_kids t) \<subseteq> ch_pid ` set (sh_spawned t)" using s assms(2,5) by (metis order_trans)
  qed (rule keep)
qed

lemma table_ok_reaps:
  assumes "table_ok n s" "reaps s t" "n \<le> length (sh_spawned s)"
  shows "table_ok n t"
proof -
  note r = reaps_fields [OF assms(2)] and s = assms(1) [unfolded table_ok_def]
  have job: "job_arr s ! i = Some jb" if "i < MAX_SIM_JOBS" "job_arr t ! i = Some jb" for i jb
    using that r s by (metis option.distinct(1))
  have keep: "\<exists>i < MAX_SIM_JOBS. \<exists>jb. job_arr t ! i = Some jb \<and> jobid jb = int j"
    if o: "overflow \<notin> set (sh_msgs t)" "\<not> sh_exited t" and j: "j < n" "ch_bg (sh_spawned t ! j)" "ch_pid (sh_spawned t ! j) \<in> set (sh_kids t)" for j
  proof -
    have "ch_pid (sh_spawned s ! j) \<in> set (sh_kids s)" using j(3) r by auto
    then obtain i jb where i: "i < MAX_SIM_JOBS" "job_arr s ! i = Some jb" "jobid jb = int j"
      using s o j r by metis
    then have jb: "jobpid jb = ch_pid (sh_spawned s ! j)" using s by auto
    have "sh_spawned s ! j \<in> set (sh_spawned s)" using j(1) assms(3) by simp
    then have "jobpid jb \<noteq> 0" using s jb by auto
    then have "job_arr t ! i = job_arr s ! i" using r s i j(3) jb by (metis option.inject)
    with i show ?thesis by metis
  qed
  have "sh_spawned t = sh_spawned s" "length (job_arr t) = MAX_SIM_JOBS" "distinct (sh_kids t)" "set (sh_kids t) \<subseteq> set (sh_kids s)"
    using r s by simp_all
  from table_ok_drop [OF assms(1) this job keep] show ?thesis .
qed

end
