(* ===== verification/MyshResults.thy ===== *)
theory MyshResults
  imports MyshProps
begin

text \<open>
  What the shell promises: every line it can read fits its arrays, a command line starts the child that
  was written, and \<open>wait\<close> tells the truth about every job that was ever started.
\<close>

section \<open>Lines\<close>



section \<open>Commands\<close>







section \<open>Reachable states\<close>

























end
