(* ===== verification/Utilities.thy ===== *)
theory Utilities
  imports CString
begin

text \<open>
  The three line filters of project 1 (\<open>01_UNIX_Utilities\<close>): \<open>my-look\<close>, \<open>across\<close> and \<open>my-diff\<close>. A
  program gets its argument vector and the files it can open, by name; it returns its exit code and what
  it prints. Memory does not run out here.
\<close>

type_synonym files = "string \<Rightarrow> string option"

definition NL :: char where "NL = CHR 0x0A"

section \<open>my-look\<close>

definition tolower :: "char \<Rightarrow> char" where
  "tolower c = (let n = of_char c :: nat in if 65 \<le> n \<and> n \<le> 90 then char_of (n + 32) else c)"

fun str_to_lower :: "string \<Rightarrow> string" where
  "str_to_lower [] = []"
| "str_to_lower (c # cs) = (if c = CHR 0x00 then [] else tolower c # str_to_lower cs)"

text \<open>\<open>strncmp\<close> on C strings; only the sign of the result is specified.\<close>

fun str_ncmp :: "string \<Rightarrow> string \<Rightarrow> nat \<Rightarrow> int" where
  "str_ncmp s t 0 = 0"
| "str_ncmp [] [] (Suc n) = 0"
| "str_ncmp [] (d # ds) (Suc n) = - 1"
| "str_ncmp (c # cs) [] (Suc n) = 1"
| "str_ncmp (c # cs) (d # ds) (Suc n) =
     (if c = d then str_ncmp cs ds n else if (of_char c :: nat) < of_char d then - 1 else 1)"

function look_loop :: "string \<Rightarrow> string \<Rightarrow> string" where
  "look_loop str fp =
     (case fgets_take 99 fp of (line, fp) \<Rightarrow>
        if line = [] then []
        else
          (if str_ncmp str (str_to_lower line) (length str) = 0 then c_string line else []) @ look_loop str fp)"
  by pat_completeness auto
termination
proof (relation "measure (\<lambda>(str, fp). length fp)", goal_cases)
  case (2 str fp line rest)
  then show ?case using fgets_take_length [of 99 fp line rest] by auto
qed simp

declare look_loop.simps [simp del]

definition my_look :: "files \<Rightarrow> string list \<Rightarrow> int \<times> string" where
  "my_look fs argv =
     (if length argv < 2 \<or> length argv > 3 then (1, ''my-look: invalid number of arguments'' @ [NL])
      else
        let str = str_to_lower (argv ! 1);
            filename = (if length argv = 3 then argv ! 2 else ''/usr/share/dict/words'')
        in (case fs filename of None \<Rightarrow> (1, ''my-look: cannot open file'' @ [NL])
            | Some fp \<Rightarrow> (0, look_loop str fp)))"

section \<open>across\<close>

definition isdigit :: "char \<Rightarrow> bool" where
  "isdigit c \<longleftrightarrow> 48 \<le> (of_char c :: nat) \<and> (of_char c :: nat) \<le> 57"

text \<open>Both return 0 if all characters pass.\<close>

fun check_digits :: "string \<Rightarrow> int" where
  "check_digits [] = 0"
| "check_digits (c # cs) = (if c = CHR 0x00 then 0 else if \<not> isdigit c then 1 else check_digits cs)"

fun check_letters :: "string \<Rightarrow> int" where
  "check_letters [] = 0"
| "check_letters (c # cs) =
     (if c = CHR 0x00 then 0
      else if (schar c < 97 \<or> schar c > 122) \<and> c \<noteq> NL then 1 else check_letters cs)"

text \<open>\<open>strtol(s, NULL, 10)\<close> of a string of digits, assigned to an \<open>int\<close>.\<close>

definition strtol_int :: "string \<Rightarrow> int" where
  "strtol_int s = cint (min (2 ^ 63 - 1) (int (number 10 (digits 10 s))))"

text \<open>\<open>strlen(str) + start_idx > target_len\<close> is computed with the 64 bits of a \<open>size_t\<close>.\<close>

definition bad_position :: "string \<Rightarrow> int \<Rightarrow> int \<Rightarrow> bool" where
  "bad_position str start_idx target_len \<longleftrightarrow>
     (of_nat (length str) + word_of_int start_idx :: u64) > word_of_int target_len"

function across_loop :: "string \<Rightarrow> int \<Rightarrow> int \<Rightarrow> string \<Rightarrow> string res" where
  "across_loop str start_idx target_len fp =
     (case fgets_take 99 fp of (chunk, fp) \<Rightarrow>
        if chunk = [] then Inr []
        else
          let line = c_string chunk in
          if line = [] then Inl (Undefined ''across: line[-1]'')
          else
            let line_len_without_n = (if last line = NL then int (length line) - 1 else int (length line)) in
            if line_len_without_n \<noteq> target_len then across_loop str start_idx target_len fp
            else if start_idx < 0 \<or> start_idx > int (length line) then Inl (Undefined ''across: line + start_idx'')
            else rbind (across_loop str start_idx target_len fp) (\<lambda>out.
              Inr ((if str_ncmp str (drop (nat start_idx) line) (length str) = 0 \<and> check_letters line = 0 then line else []) @ out)))"
  by pat_completeness auto
termination
proof (relation "measure (\<lambda>(str, i, n, fp). length fp)", goal_cases)
  case (2 str i n fp line rest)
  then show ?case using fgets_take_length [of 99 fp line rest] by auto
next
  case (3 str i n fp line rest)
  then show ?case using fgets_take_length [of 99 fp line rest] by auto
qed simp

declare across_loop.simps [simp del]

definition across :: "files \<Rightarrow> string list \<Rightarrow> (int \<times> string) res" where
  "across fs argv =
     (if length argv < 4 \<or> length argv > 5 then Inr (1, ''across: invalid number of arguments'' @ [NL])
      else
        let str = argv ! 1 in
        if check_digits (argv ! 2) \<noteq> 0 \<or> check_digits (argv ! 3) \<noteq> 0
        then Inr (1, ''across: invalid arguments for start index or word length'' @ [NL])
        else
          let start_idx = strtol_int (argv ! 2);
              target_len = strtol_int (argv ! 3);
              filename = (if length argv = 5 then argv ! 4 else ''/usr/share/dict/words'')
          in (case fs filename of None \<Rightarrow> Inr (1, ''across: cannot open file'' @ [NL])
              | Some fp \<Rightarrow>
                  if bad_position str start_idx target_len then Inr (1, ''across: invalid position'' @ [NL])
                  else rbind (across_loop str start_idx target_len fp) (\<lambda>out. Inr (0, out))))"

section \<open>my-diff\<close>

text \<open>The line without its newline, as a C string.\<close>

definition remove_newline :: "string \<Rightarrow> string res" where
  "remove_newline line =
     (let s = c_string line in
      if s = [] then Inl (Undefined ''remove_newline: line[-1]'')
      else Inr (if last s = NL then butlast s else s))"

text \<open>
  \<open>getline(&line, &n, fp)\<close>. A buffer is known by its real size, \<open>None\<close> for a null pointer; \<open>n\<close> is what the
  caller says its size is. \<open>alloc\<close> is how the library chooses a new size for a buffer of at least so many
  bytes. Where \<open>n\<close> promises more than the buffer has, the library writes past its end.
\<close>

fun line_of :: "string \<Rightarrow> string \<times> string" where
  "line_of [] = ([], [])"
| "line_of (c # cs) = (if c = NL then ([c], cs) else let (l, r) = line_of cs in (c # l, r))"

lemma line_of_length: "line_of s = (l, r) \<Longrightarrow> length s = length l + length r"
  by (induction s arbitrary: l r) (auto split: if_splits prod.splits)

type_synonym buffer = "nat option"

definition getline ::
  "(nat \<Rightarrow> nat \<Rightarrow> nat) \<Rightarrow> buffer \<Rightarrow> nat \<Rightarrow> string \<Rightarrow> (string option \<times> buffer \<times> nat \<times> string) res" where
  "getline alloc b n fp =
     (case line_of fp of (l, r) \<Rightarrow>
        if l = [] then Inr (None, b, n, fp)
        else
          let need = length l + 1 in
          (case b of
             None \<Rightarrow> let c = alloc 0 need in Inr (Some l, Some c, c, r)
           | Some c \<Rightarrow>
               if n < need then let c = alloc n need in Inr (Some l, Some c, c, r)
               else if c < need then Inl (Undefined ''getline: write past the buffer'')
               else Inr (Some l, b, n, r)))"

lemma getline_shorter: "getline alloc b n fp = Inr (Some l, b', n', fp') \<Longrightarrow> length fp' < length fp"
  using line_of_length [of fp] by (auto simp: getline_def split: prod.splits if_splits option.splits)

text \<open>\<open>printf("%d\n", i)\<close>\<close>

fun decimal :: "nat \<Rightarrow> string" where
  "decimal n = (if n < 10 then [char_of (48 + n)] else decimal (n div 10) @ [char_of (48 + n mod 10)])"

declare decimal.simps [simp del]

text \<open>The header of a block of differences.\<close>

definition diff_header :: "int \<Rightarrow> int \<Rightarrow> string" where
  "diff_header last_diff lineno = (if last_diff + 1 \<noteq> lineno then decimal (nat lineno) @ [NL] else [])"

text \<open>The \<open>do\<close> loops that print the rest of the longer file; \<open>pre\<close> is the mark.\<close>

function diff_rest :: "(nat \<Rightarrow> nat \<Rightarrow> nat) \<Rightarrow> string \<Rightarrow> string \<Rightarrow> buffer \<Rightarrow> nat \<Rightarrow> string \<Rightarrow> string res" where
  "diff_rest alloc pre line b n fp =
     rbind (remove_newline line) (\<lambda>l.
     rbind (getline alloc b n fp) (\<lambda>(r, b, n, fp').
     case r of None \<Rightarrow> Inr (pre @ l @ [NL])
     | Some line' \<Rightarrow> rbind (diff_rest alloc pre line' b n fp') (\<lambda>out. Inr (pre @ l @ [NL] @ out))))"
  by pat_completeness auto
termination
  by (relation "measure (\<lambda>(a, p, l, b, n, fp). length fp)") (auto dest: getline_shorter)

declare diff_rest.simps [simp del]

text \<open>The comparison loop; counting past the largest \<open>int\<close> is undefined.\<close>

function diff_loop ::
  "(nat \<Rightarrow> nat \<Rightarrow> nat) \<Rightarrow> int \<Rightarrow> int \<Rightarrow> buffer \<Rightarrow> buffer \<Rightarrow> nat \<Rightarrow> string \<Rightarrow> string \<Rightarrow> string res" where
  "diff_loop alloc lineno last_diff bA bB n fpA fpB =
     (if lineno \<ge> 2 ^ 31 - 1 then Inl (Undefined ''my-diff: lineno'')
      else
        let lineno = lineno + 1 in
        rbind (getline alloc bA n fpA) (\<lambda>(rA, bA, n, fpA').
        rbind (getline alloc bB n fpB) (\<lambda>(rB, bB, n, fpB').
        case (rA, rB) of
          (Some lineA, Some lineB) \<Rightarrow>
            rbind (remove_newline lineA) (\<lambda>a.
            rbind (remove_newline lineB) (\<lambda>b.
            if strcmp a b \<noteq> 0
            then rbind (diff_loop alloc lineno lineno bA bB n fpA' fpB') (\<lambda>out.
              Inr (diff_header last_diff lineno @ ''< '' @ a @ [NL] @ ''> '' @ b @ [NL] @ out))
            else diff_loop alloc lineno last_diff bA bB n fpA' fpB'))
        | (None, Some lineB) \<Rightarrow>
            rbind (diff_rest alloc ''> '' lineB bB n fpB') (\<lambda>out. Inr (diff_header last_diff lineno @ out))
        | (Some lineA, None) \<Rightarrow>
            rbind (diff_rest alloc ''< '' lineA bA n fpA') (\<lambda>out. Inr (diff_header last_diff lineno @ out))
        | (None, None) \<Rightarrow> Inr [])))"
  by pat_completeness auto
termination
  by (relation "measure (\<lambda>(a, i, d, bA, bB, n, fpA, fpB). nat (2 ^ 31 - i))") auto

declare diff_loop.simps [simp del]

definition my_diff :: "(nat \<Rightarrow> nat \<Rightarrow> nat) \<Rightarrow> files \<Rightarrow> string list \<Rightarrow> (int \<times> string) res" where
  "my_diff alloc fs argv =
     (if length argv \<noteq> 3 then Inr (1, ''my-diff: invalid number of arguments'' @ [NL])
      else
        (case (fs (argv ! 1), fs (argv ! 2)) of
           (Some fpA, Some fpB) \<Rightarrow> rbind (diff_loop alloc 0 (- 1) None None 0 fpA fpB) (\<lambda>out. Inr (0, out))
         | _ \<Rightarrow> Inr (1, ''my-diff: cannot open file'' @ [NL])))"

end
