(* ===== verification/UtilitiesProps.thy ===== *)
theory UtilitiesProps
  imports Utilities "HOL-Library.Sublist"
begin

text \<open>
  What the three filters print, over the lines of their files: \<open>my-look\<close> and \<open>across\<close> print the lines that
  match, \<open>my-diff\<close> the differences position by position, as long as no line outgrows a buffer.
\<close>

section \<open>Lines\<close>

text \<open>The lines of a text, with their newlines and without.\<close>

fun full_lines :: "string \<Rightarrow> string list" where
  "full_lines [] = []"
| "full_lines (c # cs) =
     (if c = NL then [NL] # full_lines cs
      else case full_lines cs of [] \<Rightarrow> [[c]] | l # ls \<Rightarrow> (c # l) # ls)"

definition strip :: "string \<Rightarrow> string" where
  "strip l = (if l \<noteq> [] \<and> last l = NL then butlast l else l)"

definition text_lines :: "string \<Rightarrow> string list" where
  "text_lines s = map strip (full_lines s)"

lemma full_lines_concat: "concat (full_lines s) = s"
proof (induction s)
  case (Cons c cs)
  then show ?case by (cases "full_lines cs") auto
qed simp

lemma full_lines_empty [simp]: "full_lines s = [] \<longleftrightarrow> s = []"
  by (cases s) (auto split: list.splits)

lemma line_of_full: "s \<noteq> [] \<Longrightarrow> line_of s = (l, r) \<Longrightarrow> full_lines s = l # full_lines r"
proof (induction s arbitrary: l r)
  case (Cons c cs)
  show ?case
  proof (cases "c = NL")
    case False
    obtain l' r' where lr: "line_of cs = (l', r')" by (cases "line_of cs")
    with Cons.prems False have "l = c # l'" "r = r'" by simp_all
    with Cons.IH [of l' r'] lr False show ?thesis by (cases "cs = []") auto
  qed (use Cons.prems in simp)
qed simp

lemma line_of_empty: "line_of s = (l, r) \<Longrightarrow> l = [] \<longleftrightarrow> s = []"
  by (cases s) (auto split: if_splits prod.splits)

lemma line_of_append: "line_of s = (l, r) \<Longrightarrow> s = l @ r"
  by (induction s arbitrary: l r) (auto split: if_splits prod.splits)

text \<open>\<open>fgets\<close> with a buffer that is large enough reads a line.\<close>

lemma fgets_line: "line_of s = (l, r) \<Longrightarrow> length l \<le> n \<Longrightarrow> fgets_take n s = (l, r)"
proof (induction s arbitrary: n l r)
  case Nil
  then show ?case by (cases n) auto
next
  case (Cons c cs)
  then show ?case by (cases n) (auto simp: NL_def split: if_splits prod.splits)
qed

lemma c_string_id: "CHR 0x00 \<notin> set s \<Longrightarrow> c_string s = s"
  by (auto simp: c_string_def takeWhile_eq_all_conv)

lemma strip_length: "length (strip l) \<le> length l"
  by (auto simp: strip_def)

lemma full_lines_set: "\<forall>l \<in> set (full_lines s). set l \<subseteq> set s \<and> l \<noteq> []"
proof (induction s)
  case (Cons c cs)
  then show ?case by (cases "full_lines cs") auto
qed simp

section \<open>my-look\<close>

lemma str_to_lower_map: "CHR 0x00 \<notin> set s \<Longrightarrow> str_to_lower s = map tolower s"
  by (induction s) auto

lemma str_ncmp_prefix: "str_ncmp s t (length s) = 0 \<longleftrightarrow> prefix s t"
  by (induction s t "length s" arbitrary: rule: str_ncmp.induct) auto

text \<open>The lines a loop sees that reads with \<open>fgets(line, 100, fp)\<close>.\<close>

lemma fgets_next:
  assumes "s \<noteq> []" "\<forall>l \<in> set (full_lines s). length l \<le> 99" "CHR 0x00 \<notin> set s"
  obtains l r where "fgets_take 99 s = (l, r)" "full_lines s = l # full_lines r" "s = l @ r" "l \<noteq> []" "CHR 0x00 \<notin> set l" "length r < length s"
proof -
  obtain l r where lr: "line_of s = (l, r)" by (cases "line_of s")
  note f = line_of_full [OF assms(1) lr] and a = line_of_append [OF lr]
  have "length l \<le> 99" using assms(2) f by simp
  moreover have "l \<noteq> []" using line_of_empty [OF lr] assms(1) by simp
  moreover from this have "CHR 0x00 \<notin> set l" "length r < length s" using a assms(3) by auto
  ultimately show thesis using that fgets_line [OF lr] f a by blast
qed

lemma look_loop_lines:
  assumes "\<forall>l \<in> set (full_lines fp). length l \<le> 99" "CHR 0x00 \<notin> set fp"
  shows "look_loop str fp = concat (filter (\<lambda>l. prefix str (map tolower l)) (full_lines fp))"
  using assms
proof (induction "length fp" arbitrary: fp rule: less_induct)
  case less
  show ?case
  proof (cases "fp = []")
    case True
    then show ?thesis by (subst look_loop.simps) (simp add: eval_nat_numeral)
  next
    case False
    obtain l r where l: "fgets_take 99 fp = (l, r)" "full_lines fp = l # full_lines r" "fp = l @ r" "l \<noteq> []"
      "CHR 0x00 \<notin> set l" "length r < length fp" using fgets_next [OF False less.prems] .
    have "look_loop str r = concat (filter (\<lambda>l. prefix str (map tolower l)) (full_lines r))"
      using less.hyps [OF l(6)] less.prems l(2,3) by simp
    then show ?thesis using l(1,2,4,5)
      by (subst look_loop.simps) (simp add: str_to_lower_map str_ncmp_prefix c_string_id)
  qed
qed

section \<open>across\<close>

lemma check_letters_ok: "CHR 0x00 \<notin> set s \<Longrightarrow> check_letters s = 0 \<longleftrightarrow> (\<forall>c \<in> set s. c = NL \<or> 97 \<le> schar c \<and> schar c \<le> 122)"
  by (induction s) auto

lemma strip_Cons: "c \<noteq> NL \<Longrightarrow> strip (c # l) = c # strip l"
  by (simp add: strip_def)

lemma strip_NL: "\<forall>l \<in> set (full_lines s). NL \<notin> set (strip l)"
proof (induction s)
  case (Cons c cs)
  have "strip [NL] = []" "strip [] = []" by (simp_all add: strip_def)
  with Cons show ?case by (cases "full_lines cs") (auto simp: strip_Cons)
qed simp

lemma strip_cases: "l \<noteq> [] \<Longrightarrow> l = strip l @ [NL] \<or> l = strip l"
  by (auto simp: strip_def) (metis append_butlast_last_id)

lemma prefix_take: "prefix s t \<longleftrightarrow> take (length s) t = s"
  by (auto simp: prefix_def) (metis append_take_drop_id)

text \<open>A line passes: its length, the word at its place, and only letters.\<close>

definition fits :: "string \<Rightarrow> nat \<Rightarrow> nat \<Rightarrow> string \<Rightarrow> bool" where
  "fits str i n w \<longleftrightarrow> length w = n \<and> take (length str) (drop i w) = str \<and> (\<forall>c \<in> set w. 97 \<le> schar c \<and> schar c \<le> 122)"

lemma line_fits:
  assumes l: "l \<in> set (full_lines s)" "CHR 0x00 \<notin> set l" "l \<noteq> []" and n: "length str + i \<le> n" "length (strip l) = n"
  shows "str_ncmp str (drop i l) (length str) = 0 \<and> check_letters l = 0 \<longleftrightarrow> fits str i n (strip l)"
proof -
  let ?w = "strip l"
  obtain e where e: "l = ?w @ e" "e = [NL] \<or> e = []" using strip_cases [OF l(3)] by (metis append_Nil2)
  have "drop i l = drop i ?w @ e" using arg_cong [OF e(1), of "drop i"] n by simp
  moreover have "length str \<le> length (drop i ?w)" using n by simp
  ultimately have "prefix str (drop i l) \<longleftrightarrow> take (length str) (drop i ?w) = str" by (simp add: prefix_take)
  moreover have nn: "NL \<notin> set ?w" using strip_NL l(1) by blast
  have "set l = set ?w \<union> set e" using arg_cong [OF e(1), of set] by simp
  then have "check_letters l = 0 \<longleftrightarrow> (\<forall>c \<in> set ?w. 97 \<le> schar c \<and> schar c \<le> 122)"
    using e(2) nn check_letters_ok [OF l(2)] by (elim disjE) fastforce+
  ultimately show ?thesis using n(2) by (simp add: str_ncmp_prefix fits_def)
qed

lemma across_loop_lines:
  assumes "\<forall>l \<in> set (full_lines fp). length l \<le> 99" "CHR 0x00 \<notin> set fp" and n: "length str + i \<le> n"
  shows "across_loop str (int i) (int n) fp = Inr (concat (filter (\<lambda>l. fits str i n (strip l)) (full_lines fp)))"
  using assms(1,2)
proof (induction "length fp" arbitrary: fp rule: less_induct)
  case less
  show ?case
  proof (cases "fp = []")
    case True
    then show ?thesis by (subst across_loop.simps) (simp add: eval_nat_numeral)
  next
    case False
    obtain l r where l: "fgets_take 99 fp = (l, r)" "full_lines fp = l # full_lines r" "fp = l @ r" "l \<noteq> []"
      "CHR 0x00 \<notin> set l" "length r < length fp" using fgets_next [OF False less.prems] .
    have IH: "across_loop str (int i) (int n) r = Inr (concat (filter (\<lambda>l. fits str i n (strip l)) (full_lines r)))"
      using less.hyps [OF l(6)] less.prems l(2,3) by simp
    have len: "(if last l = NL then int (length l) - 1 else int (length l)) = int (length (strip l))"
      using l(4) by (auto simp: strip_def Suc_leI)
    show ?thesis
    proof (cases "length (strip l) = n")
      case True
      have "int i \<le> int (length l)" using True n strip_length [of l] by simp
      moreover have "str_ncmp str (drop i l) (length str) = 0 \<and> check_letters l = 0 \<longleftrightarrow> fits str i n (strip l)"
        using line_fits [OF _ l(5,4) n True, of fp] l(2) by simp
      ultimately show ?thesis using l(1,2,4,5) IH len True
        by (subst across_loop.simps) (simp add: c_string_id)
    next
      case False
      then show ?thesis using l(1,2,4,5) IH len
        by (subst across_loop.simps) (simp add: c_string_id fits_def)
    qed
  qed
qed

section \<open>my-diff\<close>

text \<open>
  The differences between two lists of lines by position: line \<open>i\<close> differs if the lines are different or
  one file has ended. A difference after a line without one is preceded by its number.
\<close>

definition differs :: "string list \<Rightarrow> string list \<Rightarrow> nat \<Rightarrow> bool" where
  "differs xs ys i \<longleftrightarrow> i < length xs \<and> i < length ys \<longrightarrow> xs ! i \<noteq> ys ! i"

definition diff_at :: "string list \<Rightarrow> string list \<Rightarrow> nat \<Rightarrow> string" where
  "diff_at xs ys i =
     (if differs xs ys i then
        (if i = 0 \<or> \<not> differs xs ys (i - 1) then decimal (Suc i) @ [NL] else []) @
        (if i < length xs then ''< '' @ xs ! i @ [NL] else []) @
        (if i < length ys then ''> '' @ ys ! i @ [NL] else [])
      else [])"

definition diff_spec :: "string list \<Rightarrow> string list \<Rightarrow> string" where
  "diff_spec xs ys = concat (map (diff_at xs ys) [0..<max (length xs) (length ys)])"

text \<open>Buffers of at least \<open>k\<close> bytes, and files whose lines fit into \<open>k\<close> bytes.\<close>

definition buf_ok :: "nat \<Rightarrow> buffer \<Rightarrow> nat \<Rightarrow> bool" where
  "buf_ok k b n \<longleftrightarrow> (case b of None \<Rightarrow> True | Some c \<Rightarrow> k \<le> c \<and> k \<le> n)"

definition text_ok :: "nat \<Rightarrow> string \<Rightarrow> bool" where
  "text_ok k s \<longleftrightarrow> CHR 0x00 \<notin> set s \<and> (\<forall>l \<in> set (full_lines s). length l < k)"

text \<open>The library gives a first buffer of at least \<open>k\<close> bytes.\<close>

definition first_size :: "(nat \<Rightarrow> nat \<Rightarrow> nat) \<Rightarrow> nat \<Rightarrow> bool" where
  "first_size alloc k \<longleftrightarrow> (\<forall>m. k \<le> alloc 0 m)"

lemma buf_ok_other: "buf_ok k b n \<Longrightarrow> n' = n \<or> k \<le> n' \<Longrightarrow> buf_ok k b n'"
  by (auto simp: buf_ok_def split: option.splits)

lemma text_lines_Nil [simp]: "text_lines s = [] \<longleftrightarrow> s = []"
  by (simp add: text_lines_def)

lemma getline_end: "getline alloc b n [] = Inr (None, b, n, [])"
  by (simp add: getline_def)

lemma getline_line:
  assumes "s \<noteq> []" "text_ok k s" "buf_ok k b n" "first_size alloc k"
  shows "\<exists>l b' n' r. getline alloc b n s = Inr (Some l, b', n', r) \<and> remove_newline l = Inr (hd (text_lines s)) \<and>
    text_lines r = tl (text_lines s) \<and> text_ok k r \<and> buf_ok k b' n' \<and> (n' = n \<or> k \<le> n') \<and> length r < length s"
proof -
  obtain l r where lr: "line_of s = (l, r)" by (cases "line_of s")
  note f = line_of_full [OF assms(1) lr] and a = line_of_append [OF lr]
  have l: "l \<noteq> []" "length l < k" "CHR 0x00 \<notin> set l" "length r < length s" "text_ok k r"
    using line_of_empty [OF lr] assms(1,2) f a by (auto simp: text_ok_def)
  have rm: "remove_newline l = Inr (hd (text_lines s))" "text_lines r = tl (text_lines s)"
    using l(1,3) f by (simp_all add: remove_newline_def c_string_id text_lines_def strip_def)
  show ?thesis
  proof (cases b)
    case None
    then have "getline alloc b n s = Inr (Some l, Some (alloc 0 (length l + 1)), alloc 0 (length l + 1), r)"
      using lr l(1) by (simp add: getline_def)
    then show ?thesis using rm l assms(4) by (simp add: buf_ok_def first_size_def)
  next
    case (Some c)
    then have "length l + 1 \<le> c" "length l + 1 \<le> n" using assms(3) l(2) by (auto simp: buf_ok_def)
    then have "getline alloc b n s = Inr (Some l, b, n, r)" using lr l(1) Some by (simp add: getline_def)
    then show ?thesis using rm l assms(3) by blast
  qed
qed

lemma diff_rest_lines:
  assumes "text_ok k s" "buf_ok k b n" "first_size alloc k" "remove_newline line = Inr l"
  shows "diff_rest alloc pre line b n s = Inr (concat (map (\<lambda>l. pre @ l @ [NL]) (l # text_lines s)))"
  using assms(1,2,4)
proof (induction "length s" arbitrary: s line l b n rule: less_induct)
  case less
  show ?case
  proof (cases "s = []")
    case True
    then show ?thesis using less.prems(3) by (subst diff_rest.simps) (simp add: getline_end)
  next
    case False
    obtain line' b' n' r where g: "getline alloc b n s = Inr (Some line', b', n', r)" "remove_newline line' = Inr (hd (text_lines s))"
      "text_lines r = tl (text_lines s)" "text_ok k r" "buf_ok k b' n'" "length r < length s"
      using getline_line [OF False less.prems(1,2) assms(3)] by blast
    have "diff_rest alloc pre line' b' n' r = Inr (concat (map (\<lambda>l. pre @ l @ [NL]) (hd (text_lines s) # text_lines r)))"
      by (rule less.hyps [OF g(6,4,5,2)])
    moreover have "text_lines s = hd (text_lines s) # text_lines r" using False g(3) by simp
    ultimately show ?thesis using g(1) less.prems(3) by (subst diff_rest.simps) simp
  qed
qed

text \<open>The rest of the longer file is one block of differences.\<close>

lemma drop_nth: "map f (drop k ys) = map (\<lambda>j. f (ys ! j)) [k..<length ys]"
  by (rule nth_equalityI) auto

lemma diff_header_at:
  assumes "(last_diff = int i) = (0 < i \<and> differs xs ys (i - 1))"
  shows "diff_header last_diff (int i + 1) = (if i = 0 \<or> \<not> differs xs ys (i - 1) then decimal (Suc i) @ [NL] else [])"
  using assms by (auto simp: diff_header_def nat_add_distrib)

lemma diff_tail:
  assumes "length xs \<le> i" "i < length ys"
  shows "concat (map (diff_at xs ys) [i..<length ys]) =
      (if i = 0 \<or> \<not> differs xs ys (i - 1) then decimal (Suc i) @ [NL] else []) @ concat (map (\<lambda>l. ''> '' @ l @ [NL]) (drop i ys))"
    "concat (map (diff_at ys xs) [i..<length ys]) =
      (if i = 0 \<or> \<not> differs ys xs (i - 1) then decimal (Suc i) @ [NL] else []) @ concat (map (\<lambda>l. ''< '' @ l @ [NL]) (drop i ys))"
proof -
  have later: "map (diff_at xs ys) [Suc i..<length ys] = map (\<lambda>j. ''> '' @ ys ! j @ [NL]) [Suc i..<length ys]"
    "map (diff_at ys xs) [Suc i..<length ys] = map (\<lambda>j. ''< '' @ ys ! j @ [NL]) [Suc i..<length ys]"
    using assms by (auto simp: diff_at_def differs_def)
  show "concat (map (diff_at xs ys) [i..<length ys]) =
      (if i = 0 \<or> \<not> differs xs ys (i - 1) then decimal (Suc i) @ [NL] else []) @ concat (map (\<lambda>l. ''> '' @ l @ [NL]) (drop i ys))"
    "concat (map (diff_at ys xs) [i..<length ys]) =
      (if i = 0 \<or> \<not> differs ys xs (i - 1) then decimal (Suc i) @ [NL] else []) @ concat (map (\<lambda>l. ''< '' @ l @ [NL]) (drop i ys))"
    unfolding drop_nth upt_conv_Cons [OF assms(2)] list.map later
    using assms by (auto simp: diff_at_def differs_def)
qed

lemma diff_loop_lines:
  assumes "text_lines fpA = drop i xs" "text_lines fpB = drop i ys" "text_ok k fpA" "text_ok k fpB" "buf_ok k bA n" "buf_ok k bB n"
    "first_size alloc k" "(last_diff = int i) = (0 < i \<and> differs xs ys (i - 1))" "last_diff \<le> int i"
    "max (length xs) (length ys) < 2 ^ 31 - 1" "i \<le> max (length xs) (length ys)"
  shows "diff_loop alloc (int i) last_diff bA bB n fpA fpB = Inr (concat (map (diff_at xs ys) [i..<max (length xs) (length ys)]))"
  using assms
proof (induction "max (length xs) (length ys) - i" arbitrary: i last_diff bA bB n fpA fpB rule: less_induct)
  case less
  note hd = diff_header_at [OF less.prems(8)]
  have lim: "\<not> int i \<ge> 2 ^ 31 - 1" using less.prems(10,11) by (auto simp: max_def split: if_splits)
  have eA: "fpA = [] \<longleftrightarrow> length xs \<le> i" and eB: "fpB = [] \<longleftrightarrow> length ys \<le> i"
    using less.prems(1,2) text_lines_Nil [of fpA] text_lines_Nil [of fpB] by simp_all
  consider (both) "fpA = []" "fpB = []" | (A) "fpA \<noteq> []" "fpB = []" | (B) "fpA = []" "fpB \<noteq> []" | (none) "fpA \<noteq> []" "fpB \<noteq> []" by blast
  then show ?case
  proof cases
    case both
    then show ?thesis using eA eB lim by (subst diff_loop.simps) (simp add: getline_end)
  next
    case A
    obtain l b' n' r where g: "getline alloc bA n fpA = Inr (Some l, b', n', r)" "remove_newline l = Inr (hd (text_lines fpA))"
      "text_lines r = tl (text_lines fpA)" "text_ok k r" "buf_ok k b' n'"
      using getline_line [OF A(1) less.prems(3,5,7)] by blast
    have i: "i < length xs" "length ys \<le> i" "max (length xs) (length ys) = length xs" using A eA eB by auto
    have "hd (text_lines fpA) # text_lines r = drop i xs" using g(3) less.prems(1) i(1) by (simp add: Cons_nth_drop_Suc)
    then show ?thesis using A(2) g(1) lim diff_rest_lines [OF g(4,5) less.prems(7) g(2)] diff_tail(2) [OF i(2,1)] hd i(3)
      by (subst diff_loop.simps) (simp add: getline_end)
  next
    case B
    obtain l b' n' r where g: "getline alloc bB n fpB = Inr (Some l, b', n', r)" "remove_newline l = Inr (hd (text_lines fpB))"
      "text_lines r = tl (text_lines fpB)" "text_ok k r" "buf_ok k b' n'"
      using getline_line [OF B(2) less.prems(4,6,7)] by blast
    have i: "i < length ys" "length xs \<le> i" "max (length xs) (length ys) = length ys" using B eA eB by auto
    have "hd (text_lines fpB) # text_lines r = drop i ys" using g(3) less.prems(2) i(1) by (simp add: Cons_nth_drop_Suc)
    then show ?thesis using B(1) g(1) lim diff_rest_lines [OF g(4,5) less.prems(7) g(2)] diff_tail(1) [OF i(2,1)] hd i(3)
      by (subst diff_loop.simps) (simp add: getline_end)
  next
    case none
    obtain la bA' n1 ra where a: "getline alloc bA n fpA = Inr (Some la, bA', n1, ra)" "remove_newline la = Inr (hd (text_lines fpA))"
      "text_lines ra = tl (text_lines fpA)" "text_ok k ra" "buf_ok k bA' n1" "n1 = n \<or> k \<le> n1"
      using getline_line [OF none(1) less.prems(3,5,7)] by blast
    have bB: "buf_ok k bB n1" using buf_ok_other [OF less.prems(6) a(6)] .
    obtain lb bB' n2 rb where b: "getline alloc bB n1 fpB = Inr (Some lb, bB', n2, rb)" "remove_newline lb = Inr (hd (text_lines fpB))"
      "text_lines rb = tl (text_lines fpB)" "text_ok k rb" "buf_ok k bB' n2" "n2 = n1 \<or> k \<le> n2"
      using getline_line [OF none(2) less.prems(4) bB less.prems(7)] by blast
    have bA: "buf_ok k bA' n2" using buf_ok_other [OF a(5) b(6)] .
    have i: "i < length xs" "i < length ys" "i < max (length xs) (length ys)" using none eA eB by auto
    have hds: "hd (text_lines fpA) = xs ! i" "hd (text_lines fpB) = ys ! i" "text_lines ra = drop (Suc i) xs" "text_lines rb = drop (Suc i) ys"
      using less.prems(1,2) a(3) b(3) i by (simp_all add: hd_drop_conv_nth tl_drop drop_Suc)
    define ld where "ld = (if xs ! i \<noteq> ys ! i then int (Suc i) else last_diff)"
    have d: "differs xs ys i = (xs ! i \<noteq> ys ! i)" using i by (simp add: differs_def)
    have IH: "diff_loop alloc (int (Suc i)) ld bA' bB' n2 ra rb = Inr (concat (map (diff_at xs ys) [Suc i..<max (length xs) (length ys)]))"
    proof (rule less.hyps [OF _ hds(3,4) a(4) b(4) bA b(5) less.prems(7) _ _ less.prems(10)])
      show "(ld = int (Suc i)) = (0 < Suc i \<and> differs xs ys (Suc i - 1))" using d less.prems(9) by (simp add: ld_def)
    qed (use i less.prems(9) in \<open>auto simp: ld_def\<close>)
    have "[i..<max (length xs) (length ys)] = i # [Suc i..<max (length xs) (length ys)]" using upt_conv_Cons [OF i(3)] .
    moreover have "diff_at xs ys i = (if xs ! i \<noteq> ys ! i then diff_header last_diff (int i + 1) @ ''< '' @ xs ! i @ [NL] @ ''> '' @ ys ! i @ [NL] else [])"
      using i d hd by (simp add: diff_at_def)
    ultimately show ?thesis using a(1,2) b(1,2) lim hds(1,2) IH
      by (subst diff_loop.simps) (simp add: ld_def add.commute split: if_splits)
  qed
qed

section \<open>Properties of the programs\<close>

text \<open>
  C38. \<open>my-diff\<close> prints exactly the differences of the two files, position by position, whether the last line
  ends in a newline or not, as long as every line fits into the first buffer that \<open>getline\<close> allocates.
\<close>

theorem my_diff_prints_differences:
  assumes "fs fa = Some a" "fs fb = Some b" "text_ok k a" "text_ok k b" "first_size alloc k"
    "max (length (text_lines a)) (length (text_lines b)) < 2 ^ 31 - 1"
  shows "my_diff alloc fs [prog, fa, fb] = Inr (0, diff_spec (text_lines a) (text_lines b))"
proof -
  have "diff_loop alloc (int 0) (- 1) None None 0 a b =
      Inr (concat (map (diff_at (text_lines a) (text_lines b)) [0..<max (length (text_lines a)) (length (text_lines b))]))"
    by (rule diff_loop_lines [where k = k]) (use assms in \<open>simp_all add: buf_ok_def\<close>)
  then show ?thesis using assms(1,2) by (simp add: my_diff_def diff_spec_def)
qed

theorem my_diff_prints_differences_witness:
  "my_diff (\<lambda>n m. max 120 (max (2 * n) m)) [''A'' \<mapsto> ''x'' @ [NL] @ ''y'', ''B'' \<mapsto> ''x'' @ [NL] @ ''z'' @ [NL]] [''my-diff'', ''A'', ''B'']
     = Inr (0, ''2'' @ [NL] @ ''< y'' @ [NL] @ ''> z'' @ [NL])"
proof -
  have l: "text_lines (''x'' @ [NL] @ ''y'') = [''x'', ''y'']" "text_lines (''x'' @ [NL] @ ''z'' @ [NL]) = [''x'', ''z'']"
    by (simp_all add: text_lines_def strip_def NL_def)
  have "my_diff (\<lambda>n m. max 120 (max (2 * n) m)) [''A'' \<mapsto> ''x'' @ [NL] @ ''y'', ''B'' \<mapsto> ''x'' @ [NL] @ ''z'' @ [NL]] [''my-diff'', ''A'', ''B'']
     = Inr (0, diff_spec [''x'', ''y''] [''x'', ''z''])"
    unfolding l [symmetric]
    by (rule my_diff_prints_differences [where k = 120]) (simp_all add: text_ok_def first_size_def NL_def text_lines_def)
  then show ?thesis by (simp add: diff_spec_def diff_at_def differs_def decimal.simps char_of_def bit_0)
qed

lemma line_of_replicate: "c \<noteq> NL \<Longrightarrow> line_of (replicate n c @ NL # r) = (replicate n c @ [NL], r)"
  by (induction n) auto

text \<open>
  \<open>my-diff\<close> lets both calls of \<open>getline\<close> share one size. After a line of the first file has made its
  buffer grow, a long line of the second file is written past the end of its own, smaller buffer, whatever
  sizes the library chooses.
\<close>

theorem my_diff_shares_size:
  assumes "fs fa = Some (''x'' @ [NL] @ replicate n (CHR ''y'') @ [NL])" "fs fb = Some (''x'' @ [NL] @ replicate n (CHR ''y'') @ [NL])"
    "alloc 0 3 \<le> n" "\<forall>m need. need \<le> alloc m need"
  shows "my_diff alloc fs [prog, fa, fb] = Inl (Undefined ''getline: write past the buffer'')"
proof -
  let ?s = "''x'' @ [NL] @ replicate n (CHR ''y'') @ [NL]" and ?r = "replicate n (CHR ''y'') @ [NL]" and ?c = "alloc 0 3"
  have nl: "CHR ''x'' \<noteq> NL" "CHR ''y'' \<noteq> NL" by (simp_all add: NL_def)
  have l: "line_of ?s = ([CHR ''x'', NL], ?r)" "line_of ?r = (replicate n (CHR ''y'') @ [NL], [])"
    using nl line_of_replicate [OF nl(2), of n "[]"] by simp_all
  have g: "getline alloc None m ?s = Inr (Some [CHR ''x'', NL], Some ?c, ?c, ?r)" for m
    unfolding getline_def l by (simp add: numeral_3_eq_3)
  have A: "getline alloc (Some ?c) ?c ?r = Inr (Some (replicate n (CHR ''y'') @ [NL]), Some (alloc ?c (n + 2)), alloc ?c (n + 2), [])"
    unfolding getline_def l using assms(3) by simp
  have "n + 2 \<le> alloc ?c (n + 2)" using assms(4) by blast
  then have B: "getline alloc (Some ?c) (alloc ?c (n + 2)) ?r = Inl (Undefined ''getline: write past the buffer'')"
    unfolding getline_def l using assms(3) by simp
  have rm: "remove_newline [CHR ''x'', NL] = Inr ''x''" by (simp add: remove_newline_def c_string_def NL_def)
  have "diff_loop alloc 1 (- 1) (Some ?c) (Some ?c) ?c ?r ?r = Inl (Undefined ''getline: write past the buffer'')"
    using A B by (subst diff_loop.simps) simp
  then have "diff_loop alloc 0 (- 1) None None 0 ?s ?s = Inl (Undefined ''getline: write past the buffer'')"
    using g rm by (subst diff_loop.simps) simp
  then show ?thesis using assms(1,2) by (simp add: my_diff_def)
qed

theorem my_diff_shares_size_witness:
  "my_diff (\<lambda>n m. max 120 (max (2 * n) m)) (\<lambda>_. Some (''x'' @ [NL] @ replicate 150 (CHR ''y'') @ [NL])) [''my-diff'', ''A'', ''B'']
     = Inl (Undefined ''getline: write past the buffer'')"
  by (rule my_diff_shares_size [where n = 150]) (simp_all add: le_max_iff_disj)

text \<open>
  \<open>across\<close> prints exactly the lines of the given length that have the word at the given place and
  consist of lower case letters, if no line is longer than its buffer and the numbers fit into an \<open>int\<close>.
\<close>

theorem across_prints_matches:
  assumes "fs f = Some s" "\<forall>l \<in> set (full_lines s). length l \<le> 99" "CHR 0x00 \<notin> set s"
    "check_digits ai = 0" "check_digits an = 0" "strtol_int ai = int i" "strtol_int an = int n" "length str + i < 2 ^ 63"
  shows "across fs [prog, str, ai, an, f] =
    (if length str + i \<le> n then Inr (0, concat (filter (\<lambda>l. fits str i n (strip l)) (full_lines s)))
     else Inr (1, ''across: invalid position'' @ [NL]))"
proof -
  have n: "n < 2 ^ 31" using assms(7) cint_range [of "min (2 ^ 63 - 1) (int (number 10 (digits 10 an)))"] by (simp add: strtol_int_def)
  have "unat (of_nat (length str) + word_of_int (int i) :: u64) = length str + i"
    using assms(8) by (simp add: unat_of_nat flip: of_nat_add)
  moreover have "unat (word_of_int (int n) :: u64) = n" using n by (simp add: unat_of_nat)
  ultimately have "bad_position str (int i) (int n) \<longleftrightarrow> \<not> length str + i \<le> n"
    unfolding bad_position_def word_less_nat_alt by (simp add: not_le)
  then show ?thesis using assms across_loop_lines [OF assms(2,3), of str i n] by (simp add: across_def)
qed

theorem across_prints_matches_witness:
  "across [''words'' \<mapsto> ''cat'' @ [NL] @ ''dot'' @ [NL] @ ''Hat'' @ [NL]] [''across'', ''at'', ''1'', ''3'', ''words''] = Inr (0, ''cat'' @ [NL])"
proof -
  have "check_digits ''1'' = 0" "check_digits ''3'' = 0" "strtol_int ''1'' = int 1" "strtol_int ''3'' = int 3"
    by (simp_all add: isdigit_def strtol_int_def digits_def digit_val_def number_def)
  from across_prints_matches [OF _ _ _ this, of "[''words'' \<mapsto> ''cat'' @ [NL] @ ''dot'' @ [NL] @ ''Hat'' @ [NL]]" "''words''" _ "''at''"]
  show ?thesis by (simp add: NL_def strip_def fits_def schar_def)
qed

text \<open>
  \<open>my-look\<close> prints exactly the lines that start with the word, up to case.
\<close>

theorem my_look_prints_matches:
  assumes "fs f = Some s" "\<forall>l \<in> set (full_lines s). length l \<le> 99" "CHR 0x00 \<notin> set s" "CHR 0x00 \<notin> set w"
  shows "my_look fs [prog, w, f] = (0, concat (filter (\<lambda>l. prefix (map tolower w) (map tolower l)) (full_lines s)))"
  using assms look_loop_lines [OF assms(2,3)] by (simp add: my_look_def str_to_lower_map)

text \<open>A start index of \<open>2^32 - 1\<close> becomes -1, passes the check, and the comparison starts before the line.\<close>

lemma across_negative_index:
  "across (\<lambda>_. Some (''abc'' @ [NL])) [''across'', ''a'', ''4294967295'', ''3''] = Inl (Undefined ''across: line + start_idx'')"
proof -
  have "check_digits ''4294967295'' = 0" "check_digits ''3'' = 0" "strtol_int ''4294967295'' = - 1" "strtol_int ''3'' = 3"
    by (simp_all add: isdigit_def strtol_int_def digits_def digit_val_def number_def cint_def)
  moreover have "\<not> bad_position ''a'' (- 1) 3" by (simp add: bad_position_def)
  moreover have "across_loop ''a'' (- 1) 3 (''abc'' @ [NL]) = Inl (Undefined ''across: line + start_idx'')"
    by (subst across_loop.simps) (simp add: c_string_def NL_def eval_nat_numeral)
  ultimately show ?thesis by (simp add: across_def)
qed

end
