(* ===== verification/Grep.thy ===== *)
theory Grep
  imports Prelude
begin

text \<open>
  Two user programs of xv6 (\<open>07_xv6_File_System/PartA\<close>): \<open>grep.c\<close>, with the matcher for the operators
  \<open>^ . * $\<close> and the loop over a buffer of 1024 bytes, and \<open>wc.c\<close>. A file is the list of its bytes; how many
  bytes a call of \<open>read\<close> returns, where a choice is left, is an argument.
\<close>

section \<open>The matcher\<close>

text \<open>Pattern and text are the characters before the NUL.\<close>

function matchhere :: "string \<Rightarrow> string \<Rightarrow> bool" and matchstar :: "char \<Rightarrow> string \<Rightarrow> string \<Rightarrow> bool" where
  "matchhere [] str = True"
| "matchhere (c # re) str =
     (if re \<noteq> [] \<and> hd re = CHR ''*'' then matchstar c (tl re) str
      else if c = CHR ''$'' \<and> re = [] then str = []
      else (case str of [] \<Rightarrow> False | t # ts \<Rightarrow> if c = CHR ''.'' \<or> c = t then matchhere re ts else False))"
| "matchstar c re str =
     (if matchhere re str then True
      else (case str of [] \<Rightarrow> False | t # ts \<Rightarrow> if t = c \<or> c = CHR ''.'' then matchstar c re ts else False))"
  by pat_completeness auto
termination
  by (relation "measure (\<lambda>x. case x of Inl (re, str) \<Rightarrow> 2 * (length re + length str) | Inr (c, re, str) \<Rightarrow> 2 * (length re + length str) + 1)") auto

declare matchhere.simps [simp del] matchstar.simps [simp del]

text \<open>The loop of \<open>match\<close> over the positions of the str, the empty rest included.\<close>

fun match_from :: "string \<Rightarrow> string \<Rightarrow> bool" where
  "match_from re [] = matchhere re []"
| "match_from re (t # ts) = (if matchhere re (t # ts) then True else match_from re ts)"

definition match :: "string \<Rightarrow> string \<Rightarrow> bool" where
  "match re str = (case re of [] \<Rightarrow> match_from re str | c # re' \<Rightarrow> if c = CHR ''^'' then matchhere re' str else match_from re str)"

section \<open>grep\<close>

definition NL :: char where "NL = CHR 0x0A"
definition NUL :: char where "NUL = CHR 0x00"
definition grep_room :: nat where "grep_room = 1023"

text \<open>The inner loop: \<open>strchr\<close> finds a newline before the NUL. The bytes written, and what is left in the buffer.\<close>

function grep_lines :: "string \<Rightarrow> string \<Rightarrow> string \<times> string" where
  "grep_lines pattern p =
     (let line = takeWhile (\<lambda>c. c \<noteq> NL \<and> c \<noteq> NUL) p; q = drop (length line) p in
      case q of [] \<Rightarrow> ([], p)
      | c # rest \<Rightarrow>
          if c = NL then
            (case grep_lines pattern rest of (out, left) \<Rightarrow> ((if match pattern line then line @ [NL] else []) @ out, left))
          else ([], p))"
  by pat_completeness auto
termination
proof (relation "measure (\<lambda>(pattern, p). length p)", goal_cases)
  case (2 pattern p line q c rest)
  have "length q \<le> length p" by (simp add: 2(2))
  then show ?case using 2(3) by simp
qed simp

declare grep_lines.simps [simp del]

text \<open>
  The outer loop on what is \<open>held\<close> in the buffer and what the file still has: \<open>read\<close> returns at most the
  room in the buffer and what the file has, and at most what \<open>chunk\<close> allows.
\<close>

function grep_loop :: "(nat \<Rightarrow> nat) \<Rightarrow> string \<Rightarrow> string \<Rightarrow> string \<Rightarrow> string" where
  "grep_loop chunk pattern held input =
     (let n = min (min (grep_room - length held) (length input)) (chunk (length input)) in
      if n = 0 then []
      else
        let buf = held @ take n input in
        case grep_lines pattern buf of (out, p) \<Rightarrow>
          out @ grep_loop chunk pattern (if length p = length buf then [] else p) (drop n input))"
  by pat_completeness auto
termination
  by (relation "measure (\<lambda>(chunk, pattern, held, input). length input)") auto

declare grep_loop.simps [simp del]

definition grep :: "(nat \<Rightarrow> nat) \<Rightarrow> string \<Rightarrow> string \<Rightarrow> string" where
  "grep chunk pattern input = grep_loop chunk pattern [] input"

text \<open>The program: the writes to the output and the error output, in order.\<close>

fun grep_files :: "(nat \<Rightarrow> nat) \<Rightarrow> (string \<Rightarrow> string option) \<Rightarrow> string \<Rightarrow> string list \<Rightarrow> (nat \<times> string) list" where
  "grep_files chunk files pattern [] = []"
| "grep_files chunk files pattern (f # fs) =
     (case files f of None \<Rightarrow> [(1, ''grep: cannot open '' @ f @ [NL])]
      | Some input \<Rightarrow> (1, grep chunk pattern input) # grep_files chunk files pattern fs)"

definition grep_main :: "(nat \<Rightarrow> nat) \<Rightarrow> (string \<Rightarrow> string option) \<Rightarrow> string \<Rightarrow> string list \<Rightarrow> (nat \<times> string) list" where
  "grep_main chunk files stdin argv =
     (if length argv \<le> 1 then [(2, ''usage: grep pattern [file ...]'' @ [NL])]
      else if length argv \<le> 2 then [(1, grep chunk (argv ! 1) stdin)]
      else grep_files chunk files (argv ! 1) (drop 2 argv))"

section \<open>wc\<close>

record counts =
  n_lines :: int
  n_words :: int
  n_chars :: int
  n_inword :: bool

definition is_blank :: "char \<Rightarrow> bool" where
  "is_blank c \<longleftrightarrow> c \<in> {CHR '' '', CHR 0x0D, CHR 0x09, CHR 0x0A, CHR 0x0B}"

definition wc_char :: "char \<Rightarrow> counts \<Rightarrow> counts" where
  "wc_char c s =
     (let s = s\<lparr>n_chars := n_chars s + 1\<rparr>;
          s = (if c = NL then s\<lparr>n_lines := n_lines s + 1\<rparr> else s)
      in if is_blank c then s\<lparr>n_inword := False\<rparr>
         else if \<not> n_inword s then s\<lparr>n_words := n_words s + 1, n_inword := True\<rparr>
         else s)"

text \<open>The loop over buffers of 512 bytes.\<close>

function wc_loop :: "(nat \<Rightarrow> nat) \<Rightarrow> string \<Rightarrow> counts \<Rightarrow> counts" where
  "wc_loop chunk input s =
     (let n = min (min 512 (length input)) (chunk (length input)) in
      if n = 0 then s else wc_loop chunk (drop n input) (fold wc_char (take n input) s))"
  by pat_completeness auto
termination
  by (relation "measure (\<lambda>(chunk, input, s). length input)") auto

declare wc_loop.simps [simp del]

definition wc :: "(nat \<Rightarrow> nat) \<Rightarrow> string \<Rightarrow> counts" where
  "wc chunk input = wc_loop chunk input \<lparr>n_lines = 0, n_words = 0, n_chars = 0, n_inword = False\<rparr>"

section \<open>What patterns mean\<close>

text \<open>A pattern is a sequence of characters, possibly starred, and possibly bound to the end of the text.\<close>

datatype item = One char | Star char

fun items :: "string \<Rightarrow> item list \<times> bool" where
  "items [] = ([], False)"
| "items [c] = (if c = CHR ''$'' then ([], True) else ([One c], False))"
| "items (c # d # re) =
     (if d = CHR ''*'' then (case items re of (its, e) \<Rightarrow> (Star c # its, e))
      else (case items (d # re) of (its, e) \<Rightarrow> (One c # its, e)))"

definition stands_for :: "char \<Rightarrow> char \<Rightarrow> bool" where
  "stands_for c t \<longleftrightarrow> c = CHR ''.'' \<or> c = t"

fun fits :: "item \<Rightarrow> string \<Rightarrow> bool" where
  "fits (One c) w \<longleftrightarrow> (\<exists>t. w = [t] \<and> stands_for c t)"
| "fits (Star c) w \<longleftrightarrow> (\<forall>t \<in> set w. stands_for c t)"

text \<open>The text starts with words that fit the items, and ends with them if the pattern says so.\<close>

definition starts :: "item list \<times> bool \<Rightarrow> string \<Rightarrow> bool" where
  "starts ie str \<longleftrightarrow> (\<exists>ws rest. str = concat ws @ rest \<and> list_all2 fits (fst ie) ws \<and> (snd ie \<longrightarrow> rest = []))"

lemma starts_Nil: "starts ([], e) str \<longleftrightarrow> (e \<longrightarrow> str = [])"
  by (auto simp: starts_def)

lemma starts_Cons: "starts (i # its, e) str \<longleftrightarrow> (\<exists>w v. str = w @ v \<and> fits i w \<and> starts (its, e) v)"
proof
  assume "starts (i # its, e) str"
  then obtain ws rest where ws: "str = concat ws @ rest" "list_all2 fits (i # its) ws" "e \<longrightarrow> rest = []"
    unfolding starts_def by auto
  then obtain w vs where w: "ws = w # vs" "fits i w" "list_all2 fits its vs" by (auto simp: list_all2_Cons1)
  have "starts (its, e) (concat vs @ rest)" unfolding starts_def using w(3) ws(3) by (intro exI [of _ vs] exI [of _ rest]) simp
  moreover have "str = w @ concat vs @ rest" using ws(1) w(1) by simp
  ultimately show "\<exists>w v. str = w @ v \<and> fits i w \<and> starts (its, e) v" using w(2) by blast
next
  assume "\<exists>w v. str = w @ v \<and> fits i w \<and> starts (its, e) v"
  then obtain w v ws rest where w: "str = w @ v" "fits i w" "v = concat ws @ rest" "list_all2 fits its ws" "e \<longrightarrow> rest = []"
    unfolding starts_def by auto
  then show "starts (i # its, e) str" unfolding starts_def by (intro exI [of _ "w # ws"] exI [of _ rest]) simp
qed

lemma starts_One: "starts (One c # its, e) str \<longleftrightarrow> (\<exists>t ts. str = t # ts \<and> stands_for c t \<and> starts (its, e) ts)"
proof -
  have "\<exists>w v. t # ts = w @ v \<and> fits (One c) w \<and> starts (its, e) v" if "stands_for c t" "starts (its, e) ts" for t ts
    using that by (intro exI [of _ "[t]"] exI [of _ ts]) simp
  then show ?thesis unfolding starts_Cons by auto
qed

lemma starts_Star: "starts (Star c # its, e) str \<longleftrightarrow>
  starts (its, e) str \<or> (\<exists>t ts. str = t # ts \<and> stands_for c t \<and> starts (Star c # its, e) ts)"
proof
  assume "starts (Star c # its, e) str"
  then obtain w v where w: "str = w @ v" "fits (Star c) w" "starts (its, e) v" by (auto simp: starts_Cons)
  show "starts (its, e) str \<or> (\<exists>t ts. str = t # ts \<and> stands_for c t \<and> starts (Star c # its, e) ts)"
  proof (cases w)
    case (Cons t u)
    then have "str = t # u @ v" "stands_for c t" "fits (Star c) u" using w by auto
    moreover have "starts (Star c # its, e) (u @ v)" unfolding starts_Cons using calculation(3) w(3) by blast
    ultimately show ?thesis by blast
  qed (use w in simp)
next
  assume "starts (its, e) str \<or> (\<exists>t ts. str = t # ts \<and> stands_for c t \<and> starts (Star c # its, e) ts)"
  then show "starts (Star c # its, e) str"
  proof
    assume "starts (its, e) str"
    moreover have "fits (Star c) []" by simp
    ultimately show ?thesis unfolding starts_Cons by (metis append_Nil)
  next
    assume "\<exists>t ts. str = t # ts \<and> stands_for c t \<and> starts (Star c # its, e) ts"
    then obtain t w v where w: "str = (t # w) @ v" "stands_for c t" "fits (Star c) w" "starts (its, e) v" unfolding starts_Cons by auto
    then have "fits (Star c) (t # w)" by simp
    with w(1,4) show ?thesis unfolding starts_Cons by blast
  qed
qed

lemma matchhere_ok: "matchhere re str \<longleftrightarrow> starts (items re) str"
  and matchstar_ok: "matchstar c re str \<longleftrightarrow> starts (Star c # fst (items re), snd (items re)) str"
proof (induction re str and c re str rule: matchhere_matchstar.induct)
  case (1 str)
  then show ?case by (simp add: matchhere.simps starts_Nil)
next
  case (2 c re str)
  show ?case
  proof (cases re)
    case Nil
    then show ?thesis using 2 by (cases str) (auto simp: matchhere.simps starts_Nil starts_One stands_for_def)
  next
    case (Cons d re')
    show ?thesis
    proof (cases "d = CHR ''*''")
      case True
      then show ?thesis using 2(1) Cons by (simp add: matchhere.simps split: prod.splits)
    next
      case False
      have "items (c # re) = (One c # fst (items re), snd (items re))" using Cons False by (simp split: prod.splits)
      then show ?thesis using 2(2) Cons False
        by (cases str) (auto simp: matchhere.simps starts_One stands_for_def)
    qed
  qed
next
  case (3 c re str)
  have s: "starts (Star c # fst (items re), snd (items re)) str \<longleftrightarrow>
    starts (items re) str \<or> (\<exists>t ts. str = t # ts \<and> stands_for c t \<and> starts (Star c # fst (items re), snd (items re)) ts)"
    using starts_Star [of c "fst (items re)" "snd (items re)" str] by simp
  show ?case unfolding s using 3 by (cases str) (auto simp: matchstar.simps stands_for_def)
qed

lemma match_from_ok: "match_from re str \<longleftrightarrow> (\<exists>pre suf. str = pre @ suf \<and> starts (items re) suf)"
proof (induction str)
  case Nil
  then show ?case by (simp add: matchhere_ok)
next
  case (Cons t ts)
  then show ?case by (auto simp: matchhere_ok Cons_eq_append_conv)
qed

section \<open>Lines\<close>

definition nl :: "string \<Rightarrow> string" where
  "nl l = l @ [NL]"

definition plain :: "string \<Rightarrow> bool" where
  "plain l \<longleftrightarrow> NL \<notin> set l \<and> NUL \<notin> set l"

lemma plain_take: "plain l \<Longrightarrow> takeWhile (\<lambda>c. c \<noteq> NL \<and> c \<noteq> NUL) l = l"
  by (simp add: plain_def takeWhile_eq_all_conv) blast

lemma plain_take_nl: "plain l \<Longrightarrow> takeWhile (\<lambda>c. c \<noteq> NL \<and> c \<noteq> NUL) (l @ NL # rest) = l"
  by (subst takeWhile_append2) (auto simp: plain_def)

lemma grep_lines_step: "plain l \<Longrightarrow> grep_lines pattern (nl l @ rest) =
  (case grep_lines pattern rest of (out, left) \<Rightarrow> ((if match pattern l then nl l else []) @ out, left))"
  by (subst grep_lines.simps) (simp add: nl_def plain_take_nl)

lemma grep_lines_stop: "plain l \<Longrightarrow> grep_lines pattern l = ([], l)"
  by (subst grep_lines.simps) (simp add: plain_take)

lemma grep_lines_ok: "\<forall>l \<in> set ls. plain l \<Longrightarrow> plain r \<Longrightarrow>
  grep_lines pattern (concat (map nl ls) @ r) = (concat (map nl (filter (match pattern) ls)), r)"
  by (induction ls) (simp_all add: grep_lines_stop grep_lines_step)

text \<open>A beginning of a text of lines consists of whole lines and a beginning of the next line.\<close>

lemma lines_split:
  assumes "concat (map nl ls) = buf @ tail"
  shows "\<exists>ls1 ls2 r. ls = ls1 @ ls2 \<and> buf = concat (map nl ls1) @ r \<and> r @ tail = concat (map nl ls2) \<and>
    (ls2 = [] \<longrightarrow> r = []) \<and> (ls2 \<noteq> [] \<longrightarrow> (\<exists>v. hd ls2 = r @ v))"
  using assms
proof (induction ls arbitrary: buf)
  case Nil
  then show ?case by simp
next
  case (Cons l ls)
  then have "nl l @ concat (map nl ls) = buf @ tail" by simp
  then obtain us where us: "nl l = buf @ us \<and> us @ concat (map nl ls) = tail \<or> nl l @ us = buf \<and> concat (map nl ls) = us @ tail"
    unfolding append_eq_append_conv2 by blast
  consider u where "buf = nl l @ u" "concat (map nl ls) = u @ tail" | u where "nl l = buf @ u" "u \<noteq> []" "tail = u @ concat (map nl ls)"
  proof (cases "us = []")
    case True
    then show ?thesis using us that(1) [of "[]"] by auto
  next
    case False
    then show ?thesis using us that by auto
  qed
  then show ?case
  proof cases
    case (1 u)
    from Cons.IH [OF 1(2)] obtain ls1 ls2 r where h: "ls = ls1 @ ls2" "u = concat (map nl ls1) @ r" "r @ tail = concat (map nl ls2)"
      "ls2 = [] \<longrightarrow> r = []" "ls2 \<noteq> [] \<longrightarrow> (\<exists>v. hd ls2 = r @ v)" by blast
    then show ?thesis using 1(1) by (intro exI [of _ "l # ls1"] exI [of _ ls2] exI [of _ r]) simp
  next
    case (2 u)
    then obtain v where "l = buf @ v" unfolding nl_def by (metis append_butlast_last_id butlast_append butlast_snoc)
    then show ?thesis using 2 by (intro exI [of _ "[]"] exI [of _ "l # ls"] exI [of _ buf]) simp
  qed
qed

lemma plain_prefix: "plain (r @ v) \<Longrightarrow> plain r"
  by (simp add: plain_def)

lemma grep_loop_ok:
  assumes chunk: "\<And>n. grep_room \<le> chunk n"
  shows "held @ input = concat (map nl ls) \<Longrightarrow> \<forall>l \<in> set ls. plain l \<and> length l < grep_room \<Longrightarrow> plain held \<Longrightarrow> length held < grep_room \<Longrightarrow>
    grep_loop chunk pattern held input = concat (map nl (filter (match pattern) ls))"
proof (induction "length input" arbitrary: held input ls rule: less_induct)
  case less
  show ?case
  proof (cases "input = []")
    case True
    have "ls = []"
    proof (rule ccontr)
      assume "ls \<noteq> []"
      then have "NL \<in> set (concat (map nl ls))" by (cases ls) (simp_all add: nl_def)
      then show False using less.prems(1,3) True by (metis append_Nil2 plain_def)
    qed
    then show ?thesis using True by (subst grep_loop.simps) simp
  next
    case False
    let ?n = "min (grep_room - length held) (length input)"
    have n: "min ?n (chunk (length input)) = ?n" using chunk [of "length input"] by simp
    have pos: "0 < ?n" using False less.prems(4) by simp
    let ?buf = "held @ take ?n input"
    have "concat (map nl ls) = ?buf @ drop ?n input" using less.prems(1) by simp
    from lines_split [OF this] obtain ls1 ls2 r where d: "ls = ls1 @ ls2" "?buf = concat (map nl ls1) @ r"
      "r @ drop ?n input = concat (map nl ls2)" "ls2 = [] \<longrightarrow> r = []" "ls2 \<noteq> [] \<longrightarrow> (\<exists>v. hd ls2 = r @ v)" by blast
    have r: "plain r \<and> length r < grep_room"
    proof (cases ls2)
      case Nil
      then show ?thesis using d(4) less.prems(4) by (simp add: plain_def)
    next
      case (Cons l ls3)
      then obtain v where v: "l = r @ v" using d(5) by auto
      have "plain l" "length l < grep_room" using less.prems(2) d(1) Cons by simp_all
      then show ?thesis using plain_prefix v by auto
    qed
    have ls1: "ls1 \<noteq> []"
    proof
      assume e: "ls1 = []"
      then have buf: "?buf = r" using d(2) by simp
      have lb: "length ?buf = length held + ?n" by simp
      then have "length held + ?n < grep_room" using buf r by metis
      then have "?n = length input" by linarith
      then have "r = concat (map nl ls2)" using d(3) by simp
      moreover have "length r = length held + ?n" using lb unfolding buf .
      then have "0 < length r" using pos by linarith
      ultimately have "NL \<in> set r" by (cases ls2) (simp_all add: nl_def)
      then show False using r by (simp add: plain_def)
    qed
    have pl: "\<forall>l \<in> set ls1. plain l" "\<forall>l \<in> set ls2. plain l \<and> length l < grep_room" using less.prems(2) d(1) by simp_all
    have gl: "grep_lines pattern ?buf = (concat (map nl (filter (match pattern) ls1)), r)" unfolding d(2) using grep_lines_ok pl(1) r by blast
    have ne: "length r \<noteq> length ?buf" using d(2) ls1 by (cases ls1) (simp_all add: nl_def)
    have nz: "?n \<noteq> 0" using pos by linarith
    have "grep_loop chunk pattern held input = concat (map nl (filter (match pattern) ls1)) @ grep_loop chunk pattern r (drop ?n input)"
      by (subst grep_loop.simps) (simp only: Let_def n gl nz ne prod.case if_False)
    also have "grep_loop chunk pattern r (drop ?n input) = concat (map nl (filter (match pattern) ls2))"
    proof (rule less.hyps)
      have "0 < length input" using False by simp
      with pos show "length (drop ?n input) < length input" by (simp only: length_drop diff_less)
    qed (use d(3) pl(2) r in blast)+
    finally show ?thesis by (simp add: d(1))
  qed
qed

section \<open>Words\<close>

text \<open>The positions at which a word starts.\<close>

definition word_starts :: "string \<Rightarrow> nat set" where
  "word_starts str = {i. i < length str \<and> \<not> is_blank (str ! i) \<and> (i = 0 \<or> is_blank (str ! (i - 1)))}"

lemma word_starts_snoc:
  "word_starts (str @ [c]) =
    (if \<not> is_blank c \<and> (str = [] \<or> is_blank (last str)) then insert (length str) (word_starts str) else word_starts str)"
proof -
  have "i < length str \<Longrightarrow> (str @ [c]) ! i = str ! i \<and> (str @ [c]) ! (i - 1) = str ! (i - 1)" for i
    by (cases i) (auto simp: nth_append)
  moreover have "str \<noteq> [] \<Longrightarrow> (str @ [c]) ! (length str - 1) = last str" by (simp add: nth_append last_conv_nth)
  ultimately show ?thesis unfolding word_starts_def by (cases "str = []") (auto simp: less_Suc_eq)
qed

lemma word_starts_finite [simp]: "finite (word_starts str)"
  by (simp add: word_starts_def)

lemma word_starts_less: "length str \<notin> word_starts str"
  by (simp add: word_starts_def)

lemma wc_fold:
  "fold wc_char str \<lparr>n_lines = 0, n_words = 0, n_chars = 0, n_inword = False\<rparr> =
    \<lparr>n_lines = int (length (filter (\<lambda>c. c = NL) str)), n_words = int (card (word_starts str)), n_chars = int (length str),
     n_inword = (str \<noteq> [] \<and> \<not> is_blank (last str))\<rparr>"
proof (induction str rule: rev_induct)
  case Nil
  then show ?case by (simp add: word_starts_def)
next
  case (snoc c str)
  then show ?case using word_starts_less [of str] by (auto simp: wc_char_def Let_def word_starts_snoc)
qed

lemma wc_loop_ok:
  assumes chunk: "\<And>n. 0 < chunk n"
  shows "wc_loop chunk input s = fold wc_char input s"
proof (induction "length input" arbitrary: input s rule: less_induct)
  case less
  let ?n = "min (min 512 (length input)) (chunk (length input))"
  show ?case
  proof (cases "input = []")
    case True
    then show ?thesis by (subst wc_loop.simps) simp
  next
    case False
    then have pos: "0 < ?n" using chunk [of "length input"] by simp
    then have nz: "?n \<noteq> 0" by linarith
    have "wc_loop chunk (drop ?n input) (fold wc_char (take ?n input) s) = fold wc_char (drop ?n input) (fold wc_char (take ?n input) s)"
    proof (rule less.hyps)
      have "0 < length input" using False by simp
      with pos show "length (drop ?n input) < length input" by (simp only: length_drop diff_less)
    qed
    also have "\<dots> = fold wc_char (take ?n input @ drop ?n input) s" by (simp only: fold_append comp_def)
    finally show ?thesis by (subst wc_loop.simps) (simp only: Let_def nz if_False append_take_drop_id)
  qed
qed

section \<open>Properties\<close>

text \<open>
  C40. The matcher of \<open>grep\<close> decides what patterns mean: with \<open>^\<close> the text has to start, without it some rest
  of the text has to start, with words that fit the items of the pattern one after the other, a character, any
  character or a repetition of either, up to the end of the text if the pattern ends in \<open>$\<close>.
\<close>

theorem match_decides:
  "match re str \<longleftrightarrow>
    (case re of [] \<Rightarrow> True
     | c # re' \<Rightarrow>
         if c = CHR ''^'' then \<exists>ws rest. str = concat ws @ rest \<and> list_all2 fits (fst (items re')) ws \<and> (snd (items re') \<longrightarrow> rest = [])
         else \<exists>pre ws rest. str = pre @ concat ws @ rest \<and> list_all2 fits (fst (items re)) ws \<and> (snd (items re) \<longrightarrow> rest = []))"
proof (cases re)
  case Nil
  have "match_from [] str" using match_from_ok [of "[]" str] by (auto simp: starts_Nil)
  then show ?thesis using Nil by (simp add: match_def)
next
  case (Cons c re')
  show ?thesis
  proof (cases "c = CHR ''^''")
    case True
    then show ?thesis using Cons by (simp add: match_def matchhere_ok starts_def)
  next
    case False
    then have "match re str \<longleftrightarrow> (\<exists>pre suf. str = pre @ suf \<and> starts (items re) suf)" using Cons by (simp add: match_def match_from_ok)
    then show ?thesis using Cons False unfolding starts_def by auto
  qed
qed

theorem match_decides_witness: "match ''^a.*c$'' ''abbc''"
proof -
  have "list_all2 fits (fst (items ''a.*c$'')) [''a'', ''bb'', ''c'']" "snd (items ''a.*c$'') \<longrightarrow> [] = []" by (simp_all add: stands_for_def)
  moreover have "''abbc'' = concat [''a'', ''bb'', ''c''] @ []" by simp
  ultimately have "\<exists>ws rest. ''abbc'' = concat ws @ rest \<and> list_all2 fits (fst (items ''a.*c$'')) ws \<and> (snd (items ''a.*c$'') \<longrightarrow> rest = [])" by blast
  then show ?thesis using match_decides [of "''^a.*c$''" "''abbc''"] by (simp only: list.case simp_thms if_True)
qed

text \<open>
  On a file whose lines fit into the buffer and end in newlines, read in blocks as large as the buffer
  allows, \<open>grep\<close> prints exactly the lines that match, in order.
\<close>

theorem grep_prints_matches:
  assumes "\<And>n. grep_room \<le> chunk n" "input = concat (map (\<lambda>l. l @ [NL]) ls)"
    "\<And>l. l \<in> set ls \<Longrightarrow> NL \<notin> set l \<and> NUL \<notin> set l \<and> length l < 1023"
  shows "grep chunk pattern input = concat (map (\<lambda>l. l @ [NL]) (filter (match pattern) ls))"
proof -
  have "grep_loop chunk pattern [] input = concat (map nl (filter (match pattern) ls))"
    by (rule grep_loop_ok [OF assms(1)]) (use assms(2,3) in \<open>auto simp: nl_def [abs_def] plain_def grep_room_def\<close>)
  then show ?thesis by (simp add: grep_def nl_def [abs_def])
qed

theorem grep_prints_matches_witness:
  "grep (\<lambda>_. 2000) ''b'' (''ab'' @ [NL] @ ''cd'' @ [NL]) = ''ab'' @ [NL]"
proof -
  have i: "''ab'' @ [NL] @ ''cd'' @ [NL] = concat (map (\<lambda>l. l @ [NL]) [''ab'', ''cd''])" by simp
  have l: "NL \<notin> set l \<and> NUL \<notin> set l \<and> length l < 1023" if "l \<in> set [''ab'', ''cd'']" for l
    using that by (auto simp: NL_def NUL_def)
  have r: "grep_room \<le> 2000" for n :: nat by (simp add: grep_room_def)
  have m: "match ''b'' ''ab''" "\<not> match ''b'' ''cd''" by (simp_all add: match_def matchhere.simps)
  have "grep (\<lambda>_. 2000) ''b'' (''ab'' @ [NL] @ ''cd'' @ [NL]) = concat (map (\<lambda>l. l @ [NL]) (filter (match ''b'') [''ab'', ''cd'']))"
    using grep_prints_matches [of "\<lambda>_. 2000", OF r i l] by blast
  then show ?thesis using m by simp
qed

text \<open>Data read before the first newline is dropped: with reads of one byte a line that matches is lost.\<close>

lemma grep_short_reads: "grep (\<lambda>_. 1) ''b'' (''ab'' @ [NL]) = ''''"
proof -
  have "grep_lines ''b'' [c] = ([], [c])" if "c \<noteq> NL" for c
    using that by (cases "c = NUL") (simp_all add: grep_lines.simps)
  moreover have "grep_lines ''b'' [NL] = ([], [])" by (simp add: grep_lines.simps match_def matchhere.simps)
  moreover have "CHR ''a'' \<noteq> NL" "CHR ''b'' \<noteq> NL" by (simp_all add: NL_def)
  ultimately show ?thesis by (simp add: grep_def grep_loop.simps [of _ _ _ "_ # _"] grep_loop.simps [of _ _ _ "[]"] grep_room_def)
qed

text \<open>
  \<open>wc\<close> counts the newlines, the positions at which a word starts, and the bytes of its input, whatever
  the sizes of the blocks it reads.
\<close>

theorem wc_counts:
  assumes "\<And>n. 0 < chunk n"
  shows "n_lines (wc chunk input) = int (length (filter (\<lambda>c. c = NL) input))"
    "n_words (wc chunk input) = int (card {i. i < length input \<and> \<not> is_blank (input ! i) \<and> (i = 0 \<or> is_blank (input ! (i - 1)))})"
    "n_chars (wc chunk input) = int (length input)"
  unfolding wc_def wc_loop_ok [of chunk, OF assms] wc_fold word_starts_def by simp_all

end
