(* ===== verification/Spec2Isabelle.thy ===== *)
theory Spec2Isabelle
  imports ProcProps KallocGap Syscall MapReduceResults LogResults Sysfile FsDir FscheckProps ConsoleProps MyshResults UtilitiesProps Grep
begin

text \<open>
  A verification library for the operating system projects of this repository: line filters, two
  small system calls, a shell, a scheduler and a memory allocator for the xv6 kernel, a MapReduce library, a file system with symbolic links,
  and a file system checker. The kernels of projects 4, 5 and 7 are three descendants of xv6; each
  part is modelled from the project that changed it.

  \<^bold>\<open>Conventions.\<close> A C function is a HOL function from the state to \<open>fault + result\<close> (type
  \<open>res\<close> of \<open>Prelude\<close>). \<open>Panic\<close> is a call of \<open>panic\<close>, \<open>Undefined\<close> what C leaves undefined (a null
  pointer, an index out of range), \<open>Hang\<close> control that never comes back: a lock held by another
  processor, a wait that nobody ends, a loop along a cycle. Machine integers are words, or integers
  brought back to their width with \<open>cint\<close>. Loops over arrays are \<open>rfold\<close>, other loops recursive
  functions with a termination proof; loops along pointers are \<open>partial_function (option)\<close>, where
  \<open>None\<close> means that they do not end, and the theorems prove that they do.

  \<^bold>\<open>Processes and scheduler\<close> (\<open>04_xv6_scheduling/src\<close>; theories \<open>Spinlock\<close>, \<open>Mlq\<close>, \<open>Proc\<close>,
  \<open>ProcSched\<close>, \<open>ProcState\<close>, \<open>ProcProps\<close>). \<open>Spinlock\<close> has \<open>spinlock.c\<close> on one processor. \<open>Mlq\<close> has
  the four queues of \<open>proc.c\<close> as linked nodes, with their contract as the locale \<open>layered_queues\<close>.
  \<open>Proc\<close> has \<open>proc.c\<close>: a function that gives up the processor is split at the switch into an
  \<open>enter\<close> and a \<open>resume\<close> part. Memory and files are operations of the record \<open>kops\<close>. \<open>ProcSched\<close>
  shows that \<open>refresh_q\<close> and the choice of the scheduler implement a policy on lists, \<open>ProcState\<close>
  that every operation keeps the process table consistent; \<open>ProcProps\<close> has the step relation of the
  kernel and the properties C1 to C8.

  \<^bold>\<open>Page allocator\<close> (\<open>05_xv6_memory_safe_allocation/src/v2-sort\<close>; \<open>Kalloc\<close>, \<open>KallocProps\<close>). Free
  pages form a list in memory, sorted by address; \<open>pg2pid\<close> records owners. The locale
  \<open>page_allocator\<close> is the contract for clients; C9 and C10. \<open>KallocGap\<close> has the allocators of the
  earlier stages \<open>v1a\<close>, \<open>v1b\<close> and \<open>v1a-sort\<close>, which keep every second frame free, and shows the
  contract for the last of them as well (C11).

  \<^bold>\<open>Virtual memory\<close> (the same project's \<open>vm.c\<close>; \<open>Vm\<close>, \<open>VmProps\<close>, \<open>VmSpace\<close>, \<open>VmCopy\<close>,
  \<open>VmResults\<close>). Page directories and page tables are pages of the memory the allocator manages. A page
  is known by its number; \<open>ent\<close> is the entry an address space has for it, \<open>space_ok\<close> says that every page
  of an address space is allocated and used once, \<open>evolves\<close> which pages an operation changed. \<open>VmProps\<close>
  shows \<open>mappages\<close>, \<open>VmSpace\<close> shrinking, freeing and growing, \<open>VmCopy\<close> the kernel part and the copy of
  a process; C12 to C15.

  \<^bold>\<open>Programs and system call arguments\<close> (the same project's \<open>exec.c\<close>, \<open>syscall.c\<close>, \<open>growproc\<close> and
  \<open>sbrk\<close>; \<open>VmBytes\<close>, \<open>Exec\<close>, \<open>ExecProps\<close>, \<open>Syscall\<close>). \<open>VmBytes\<close> reads user memory by bytes
  through the page table (\<open>ubyte\<close>) and shows what \<open>copyout\<close> writes across pages. \<open>Exec\<close> has the
  loading of a program, its stack, and the functions that fetch arguments of system calls; the
  program file is an argument, as the function \<open>readi\<close>. \<open>ExecProps\<close> shows where a new program finds
  its arguments and which addresses the checks accept; \<open>Syscall\<close> has \<open>sys_exec\<close>, \<open>growproc\<close> on page
  tables, \<open>sbrk\<close>, and the two calls of project 2 on open files (\<open>02_New_SysCall/sysproc.c\<close>); C16 to C19.

  \<^bold>\<open>MapReduce\<close> (\<open>06_Map-Reduce\<close>; \<open>Hashmap\<close>, \<open>HashmapProps\<close>, \<open>MapReduce\<close>, \<open>MapReduceProps\<close>,
  \<open>MapReduceThreads\<close>, \<open>MapReduceResults\<close>). The hash map with its contract \<open>string_map\<close>, partitions
  with emission, sorting and grouping, the two clients, and the threads as step relations between
  accesses to shared state: \<open>map_step\<close> for the mappers, \<open>red_step\<close> for reducers and semaphores;
  C20 to C25. The C library's string functions are in \<open>CString\<close>; its \<open>qsort\<close> is a parameter.

  \<^bold>\<open>File system\<close> (\<open>07_xv6_File_System/PartA\<close>). The layers build on each other as in the kernel.
  \<open>Bio\<close> has the buffer cache, sleep locks and disk requests (\<open>bio.c\<close>, \<open>sleeplock.c\<close>, \<open>ide.c\<close>),
  \<open>BioProps\<close> its invariant, \<open>BufferCache\<close> its contract as the locale \<open>buffer_cache\<close>. \<open>Log\<close> has
  \<open>log.c\<close>; \<open>LogProps\<close> and \<open>LogResults\<close> show that the disk after a crash and recovery is the one
  before or after the transaction (C26 to C28). \<open>KString\<close> has \<open>string.c\<close> on memory by bytes (C29),
  \<open>Pipe\<close> has \<open>pipe.c\<close> (C30). \<open>Fs\<close> has \<open>fs.c\<close>, \<open>File\<close> has \<open>file.c\<close> and the calls on descriptors,
  \<open>Sysfile\<close> the calls on path names of \<open>sysfile.c\<close>. \<open>FsProps\<close> gives rules for operations inside a
  transaction (the predicates \<open>op_inv\<close> and \<open>op_eff\<close>), \<open>FsFile\<close> the map from the blocks of a file to
  disk blocks, \<open>FsBytes\<close> a file as a sequence of bytes, \<open>FsResults\<close> and \<open>FsDir\<close> the properties of
  blocks, files and directories (C31 to C33).

  \<^bold>\<open>Console\<close> (\<open>console.c\<close>, \<open>uart.c\<close>, \<open>kbd.c\<close> of \<open>PartA\<close>; \<open>Ring\<close>, \<open>Console\<close>, \<open>ConsoleProps\<close>). \<open>Ring\<close>
  has buffers that are used in a circle. The state of the console is the input buffer with its three
  counters, the text screen and the bytes sent to the serial port; the keys of an interrupt are an
  argument. \<open>ready\<close> and \<open>line\<close> abstract it to the finished input and the edited line (C39).

  \<^bold>\<open>User programs of xv6\<close> (\<open>grep.c\<close>, \<open>wc.c\<close> of \<open>PartA\<close>; \<open>Grep\<close>): the matcher against the meaning of
  patterns as sequences of items, and the loops over the blocks that \<open>read\<close> returns (C40).

  \<^bold>\<open>File system checker\<close> (\<open>07_xv6_File_System/PartB/fscheck.c\<close>; \<open>Fscheck\<close>, \<open>FscheckProps\<close>): the
  program on the bytes of an image, equivalent to a specification over all inodes and blocks (C34).

  \<^bold>\<open>Shell\<close> (\<open>03_Shell/mysh.c\<close>; \<open>Mysh\<close>, \<open>MyshProps\<close>, \<open>MyshResults\<close>): the parser, the job table,
  the built-in commands and the main loops. What the operating system does during a command is an
  argument; reachable shells are an inductive relation (C35 to C37).

  \<^bold>\<open>Line filters\<close> (\<open>01_UNIX_Utilities\<close>; \<open>Utilities\<close>, \<open>UtilitiesProps\<close>): \<open>my-look\<close>, \<open>across\<close> and
  \<open>my-diff\<close> on argument vectors and the bytes of files; the sizes that \<open>getline\<close> chooses for its buffer
  are a parameter. \<open>my-diff\<close> prints the differences by position (C38).

  \<^bold>\<open>Bounds.\<close> The kernels are modelled on one processor, calls run one at a time except where a step
  relation says otherwise; a call that has to sleep ends in \<open>Hang\<close> or in an outcome of its own. The
  file system has one bitmap block, as \<open>mkfs\<close> makes it. \<open>namex\<close> carries the number of nested symbolic
  links that the kernel stack can hold, since the code has no limit of its own. Properties of the
  file system require the log and the cache to have room for the call, which \<open>begin_op\<close> reserves.

  \<^bold>\<open>Not modelled.\<close> Trap entry, the dispatch of system calls and the segment descriptors of
  \<open>seginit\<close>, which are register and instruction level; disks and interrupt controllers; boot
  code and \<open>mkfs\<close>; the other stock user programs and the tests; the release of memory at the end of a
  MapReduce run. The inode locks and the log transaction around \<open>exec\<close> are left out, since the program
  file is a parameter there.
\<close>

end
